(* ===== verification/Prelude.thy ===== *)
theory Prelude
  imports Main "HOL-Library.Word" "HOL-Library.Monad_Syntax" "HOL-Library.AList"
begin

unbundle bit_operations_syntax

text \<open>
  Shared vocabulary of the development: the Go primitives that every component uses and the
  generic facts about them.

  \<^item> Array and slice accesses are partial in Go (an index out of range panics), so they are
    \<open>aget\<close> and \<open>aset\<close> into \<open>option\<close>; \<open>None\<close> is the panic. The
    collection \<open>go_simps\<close> rewrites them to plain list operations when the index is in range.
  \<^item> \<open>wrap64\<close> is the two's complement wrap-around of Go's \<open>int64\<close>.
  \<^item> Go maps whose length is inspected are association lists with distinct keys
    (\<open>AList.update\<close>, \<open>AList.delete\<close>).
\<close>

named_theorems go_simps
named_theorems inv_intros
named_theorems inv_dests

type_synonym byte = "8 word"
type_synonym bytes = "byte list"

subsection \<open>Arrays\<close>

definition aget :: "'a list \<Rightarrow> nat \<Rightarrow> 'a option" where
  "aget xs i = (if i < length xs then Some (xs ! i) else None)"

definition aset :: "'a list \<Rightarrow> nat \<Rightarrow> 'a \<Rightarrow> 'a list option" where
  "aset xs i x = (if i < length xs then Some (xs[i := x]) else None)"

lemma aget_in [go_simps]: "i < length xs \<Longrightarrow> aget xs i = Some (xs ! i)"
  by (simp add: aget_def)

lemma aset_in [go_simps]: "i < length xs \<Longrightarrow> aset xs i x = Some (xs[i := x])"
  by (simp add: aset_def)

lemma aget_SomeD: "aget xs i = Some x \<Longrightarrow> i < length xs \<and> xs ! i = x"
  by (simp add: aget_def split: if_splits)

lemma aget_None_iff: "aget xs i = None \<longleftrightarrow> length xs \<le> i"
  by (auto simp: aget_def)

subsection \<open>Signed 64 bit integers\<close>

definition wrap64 :: "int \<Rightarrow> int" where
  "wrap64 x = (x + 2 ^ 63) mod 2 ^ 64 - 2 ^ 63"

definition in_int64 :: "int \<Rightarrow> bool" where
  "in_int64 x \<longleftrightarrow> - (2 ^ 63) \<le> x \<and> x < 2 ^ 63"

definition maxInt64 :: int where
  "maxInt64 = 2 ^ 63 - 1"

lemma wrap64_id [simp]: "in_int64 x \<Longrightarrow> wrap64 x = x"
  by (simp add: wrap64_def in_int64_def)

lemma wrap64_range: "in_int64 (wrap64 x)"
  using pos_mod_bound [of "2 ^ 64 :: int" "x + 2 ^ 63"] pos_mod_sign [of "2 ^ 64 :: int" "x + 2 ^ 63"]
  by (simp add: wrap64_def in_int64_def)

lemma wrap64_overflow: "2 ^ 63 \<le> x \<Longrightarrow> x < 2 ^ 64 \<Longrightarrow> wrap64 x = x - 2 ^ 64"
proof -
  assume a: "2 ^ 63 \<le> x" "x < 2 ^ 64"
  have "x + 2 ^ 63 = (x - 2 ^ 63) + 2 ^ 64" by simp
  then have "(x + 2 ^ 63) mod 2 ^ 64 = (x - 2 ^ 63) mod 2 ^ 64" by (metis mod_add_self2)
  also have "\<dots> = x - 2 ^ 63" using a by simp
  finally show ?thesis by (simp add: wrap64_def)
qed

subsection \<open>Association lists as Go maps\<close>

lemma map_of_update [simp]: "map_of (AList.update k v al) = (map_of al)(k \<mapsto> v)"
  by (simp add: update_conv')

lemma map_of_delete [simp]: "map_of (AList.delete k al) = (map_of al)(k := None)"
  by (simp add: delete_conv')

lemma distinct_keys_update [simp]:
  "distinct (map fst al) \<Longrightarrow> distinct (map fst (AList.update k v al))"
  by (simp add: distinct_update)

lemma distinct_keys_delete [simp]:
  "distinct (map fst al) \<Longrightarrow> distinct (map fst (AList.delete k al))"
  by (simp add: distinct_delete)

lemma ball_update:
  "distinct (map fst al) \<Longrightarrow>
    (\<forall>kv \<in> set (AList.update k v al). P kv) \<longleftrightarrow> P (k, v) \<and> (\<forall>kv \<in> set al. fst kv \<noteq> k \<longrightarrow> P kv)"
proof (induction al)
  case (Cons a al)
  have "fst a = k \<Longrightarrow> (\<forall>kv \<in> set al. fst kv \<noteq> k \<longrightarrow> P kv) \<longleftrightarrow> (\<forall>kv \<in> set al. P kv)"
    using Cons.prems by (metis distinct.simps(2) image_eqI list.map(2) list.set_map)
  then show ?case using Cons by (cases a) auto
qed simp

lemma ball_split_key:
  "distinct (map fst al) \<Longrightarrow> map_of al k = Some v \<Longrightarrow>
    (\<forall>kv \<in> set al. P kv) \<longleftrightarrow> P (k, v) \<and> (\<forall>kv \<in> set al. fst kv \<noteq> k \<longrightarrow> P kv)"
  by (metis map_of_SomeD map_of_eq_Some_iff prod.collapse option.inject)

lemma map_of_None_keys: "map_of al k = None \<Longrightarrow> kv \<in> set al \<Longrightarrow> fst kv \<noteq> k"
  by (auto simp: map_of_eq_None_iff)

lemma map_of_eq_empty_iff: "al = [] \<longleftrightarrow> dom (map_of al) = {}"
  by (cases al) auto

subsection \<open>Lists\<close>

lemma filter_takeWhile_append:
  "list_all P as \<Longrightarrow> list_all (\<lambda>x. \<not> P x) bs \<Longrightarrow> filter P (as @ bs) = as"
  by (induction as) (auto simp: list_all_iff intro: filter_False)

lemma sum_list_remove1:
  fixes f :: "'a \<Rightarrow> int"
  shows "x \<in> set xs \<Longrightarrow> sum_list (map f (remove1 x xs)) = sum_list (map f xs) - f x"
  by (induction xs) auto

lemma remove1_split:
  "x \<notin> set as \<Longrightarrow> remove1 x (as @ x # bs) = as @ bs"
  by (induction as) auto

lemma filter_set_eq: "(\<And>x. x \<in> set xs \<Longrightarrow> P x = Q x) \<Longrightarrow> filter P xs = filter Q xs"
  by (rule filter_cong) auto

subsection \<open>Decimal numerals\<close>

text \<open>\<open>%d\<close> of a number that is not negative.\<close>

fun show_nat :: "nat \<Rightarrow> string" where
  "show_nat n = (if n < 10 then [char_of (48 + n)] else show_nat (n div 10) @ [char_of (48 + n mod 10)])"

declare show_nat.simps [simp del]

subsection \<open>Binary search\<close>

text \<open>\<open>sort.Search\<close>: the bounds \<open>i\<close> and \<open>j\<close> of the loop.\<close>

function sort_Search_loop :: "(nat \<Rightarrow> bool) \<Rightarrow> nat \<Rightarrow> nat \<Rightarrow> nat" where
  "sort_Search_loop f i j =
    (if i < j then
       let h = (i + j) div 2 in
       if \<not> f h then sort_Search_loop f (h + 1) j else sort_Search_loop f i h
     else i)"
  by auto
termination by (relation "measure (\<lambda>(f, i, j). j - i)") auto

declare sort_Search_loop.simps [simp del]

definition sort_Search :: "nat \<Rightarrow> (nat \<Rightarrow> bool) \<Rightarrow> nat" where
  "sort_Search n f = sort_Search_loop f 0 n"

lemma sort_Search_loop_first:
  assumes mono: "\<And>a b. a \<le> b \<Longrightarrow> b < n \<Longrightarrow> f a \<Longrightarrow> f b"
  shows "i \<le> j \<Longrightarrow> j \<le> n \<Longrightarrow> (\<forall>a < i. \<not> f a) \<Longrightarrow> (\<forall>a. j \<le> a \<longrightarrow> a < n \<longrightarrow> f a) \<Longrightarrow>
    (\<forall>a < sort_Search_loop f i j. \<not> f a) \<and>
    (\<forall>a. sort_Search_loop f i j \<le> a \<longrightarrow> a < n \<longrightarrow> f a) \<and> sort_Search_loop f i j \<le> n"
proof (induction "j - i" arbitrary: i j rule: less_induct)
  case less
  show ?case
  proof (cases "i < j")
    case False
    then have "sort_Search_loop f i j = i" by (simp add: sort_Search_loop.simps)
    then show ?thesis using less.prems False by simp
  next
    case True
    define h where "h = (i + j) div 2"
    have h: "i \<le> h" "h < j" using True by (auto simp: h_def)
    show ?thesis
    proof (cases "f h")
      case False
      have nf: "\<forall>a < h + 1. \<not> f a" using False mono [of _ h] h less.prems(2) by (simp add: less_Suc_eq_le) blast
      have eq: "sort_Search_loop f i j = sort_Search_loop f (h + 1) j"
        using True False by (subst sort_Search_loop.simps) (simp add: h_def Let_def)
      show ?thesis unfolding eq
        by (rule less.hyps [OF _ _ less.prems(2) nf less.prems(4)]) (use h True in simp_all)
    next
      case T: True
      have tl: "\<forall>a. h \<le> a \<longrightarrow> a < n \<longrightarrow> f a" using mono [of h] T by blast
      have eq: "sort_Search_loop f i j = sort_Search_loop f i h"
        using True T by (subst sort_Search_loop.simps) (simp add: h_def Let_def)
      show ?thesis unfolding eq
        by (rule less.hyps [OF _ _ _ less.prems(3) tl]) (use h True less.prems(2) in simp_all)
    qed
  qed
qed

lemma sort_Search_first:
  assumes "\<And>a b. a \<le> b \<Longrightarrow> b < n \<Longrightarrow> f a \<Longrightarrow> f b"
  shows "a < sort_Search n f \<Longrightarrow> \<not> f a" "sort_Search n f \<le> a \<Longrightarrow> a < n \<Longrightarrow> f a" "sort_Search n f \<le> n"
  using sort_Search_loop_first [of n f 0 n] assms by (auto simp: sort_Search_def)

end
