(* ===== verification/Lru_Links.thy ===== *)
theory Lru_Links
  imports Prelude
begin

text \<open>
  The slot array \<open>doubleLink [][2]uint16\<close> of \<open>swifty_cache/lru.go\<close>: slot 0 is a
  sentinel whose \<open>p\<close> field is the tail and whose \<open>n\<close> field is the head of a doubly
  linked list of slots. The Go variables \<open>p = 0\<close> and \<open>n = 1\<close> that select a field
  are the constructors \<open>P\<close> and \<open>N\<close>.

  \<open>ring d L xs\<close> says that following the fields \<open>d\<close> from the sentinel visits exactly
  the slots \<open>xs\<close> and that the opposite fields lead back. It is stated for either direction,
  so that one proof covers \<open>adjust(idx, p, n)\<close> (move to the front) and
  \<open>adjust(idx, n, p)\<close> (move to the back).
\<close>

datatype side = P | N

type_synonym links = "(nat \<times> nat) list"

fun opp :: "side \<Rightarrow> side" where
  "opp P = N"
| "opp N = P"

fun sel :: "side \<Rightarrow> nat \<times> nat \<Rightarrow> nat" where
  "sel P (a, b) = a"
| "sel N (a, b) = b"

fun put_sel :: "side \<Rightarrow> nat \<Rightarrow> nat \<times> nat \<Rightarrow> nat \<times> nat" where
  "put_sel P v (a, b) = (v, b)"
| "put_sel N v (a, b) = (a, v)"

text \<open>\<open>lget L i d\<close> is the read \<open>doubleLink[i][d]\<close>, \<open>lset L i d v\<close> the write.\<close>

definition lget :: "links \<Rightarrow> nat \<Rightarrow> side \<Rightarrow> nat option" where
  "lget L i d = map_option (sel d) (aget L i)"

definition lset :: "links \<Rightarrow> nat \<Rightarrow> side \<Rightarrow> nat \<Rightarrow> links option" where
  "lset L i d v = do { x \<leftarrow> aget L i; aset L i (put_sel d v x) }"

text \<open>The statements of \<open>(c *cache) adjust\<close>, in their order.\<close>

definition adjust :: "links \<Rightarrow> nat \<Rightarrow> side \<Rightarrow> side \<Rightarrow> links option" where
  "adjust L0 idx f t = do {
     guard \<leftarrow> lget L0 idx f;
     if guard \<noteq> 0 then do {
       a \<leftarrow> lget L0 idx t; b \<leftarrow> lget L0 idx f;
       L1 \<leftarrow> lset L0 a f b;
       c \<leftarrow> lget L1 idx f; d \<leftarrow> lget L1 idx t;
       L2 \<leftarrow> lset L1 c t d;
       L3 \<leftarrow> lset L2 idx f 0;
       h \<leftarrow> lget L3 0 t;
       L4 \<leftarrow> lset L3 idx t h;
       h' \<leftarrow> lget L4 0 t;
       L5 \<leftarrow> lset L4 h' f idx;
       lset L5 0 t idx
     } else Some L0
   }"

subsection \<open>Total reads and writes\<close>

definition lk :: "links \<Rightarrow> nat \<Rightarrow> side \<Rightarrow> nat" where
  "lk L i d = sel d (L ! i)"

definition upd :: "links \<Rightarrow> nat \<Rightarrow> side \<Rightarrow> nat \<Rightarrow> links" where
  "upd L i d v = L[i := put_sel d v (L ! i)]"

lemma opp_opp [simp]: "opp (opp d) = d"
  by (cases d) auto

lemma opp_neq [simp]: "opp d \<noteq> d" "d \<noteq> opp d"
  by (cases d; simp)+

lemma opp_eq_iff [simp]: "opp d = opp e \<longleftrightarrow> d = e"
  by (cases d; cases e) auto

lemma side_cases2: "e = d \<or> e = opp d"
  by (cases d; cases e) auto

lemma sel_put_sel: "sel e (put_sel d v x) = (if e = d then v else sel e x)"
  by (cases x; cases d; cases e) auto

lemma lget_in [go_simps]: "i < length L \<Longrightarrow> lget L i d = Some (lk L i d)"
  by (simp add: lget_def lk_def go_simps)

lemma lset_in [go_simps]: "i < length L \<Longrightarrow> lset L i d v = Some (upd L i d v)"
  by (simp add: lset_def upd_def go_simps)

lemma length_upd [simp]: "length (upd L i d v) = length L"
  by (simp add: upd_def)

lemma lk_upd [simp]:
  "i < length L \<Longrightarrow> lk (upd L i d v) j e = (if j = i \<and> e = d then v else lk L j e)"
  by (auto simp: lk_def upd_def nth_list_update sel_put_sel)

subsection \<open>Segments and rings\<close>

fun seg :: "side \<Rightarrow> links \<Rightarrow> nat \<Rightarrow> nat list \<Rightarrow> nat \<Rightarrow> bool" where
  "seg d L a [] b \<longleftrightarrow> lk L a d = b \<and> lk L b (opp d) = a"
| "seg d L a (y # ys) b \<longleftrightarrow> lk L a d = y \<and> lk L y (opp d) = a \<and> seg d L y ys b"

definition ring :: "side \<Rightarrow> links \<Rightarrow> nat list \<Rightarrow> bool" where
  "ring d L xs \<longleftrightarrow> seg d L 0 xs 0 \<and> distinct xs \<and> 0 \<notin> set xs \<and> (\<forall>x \<in> set xs. x < length L) \<and> 0 < length L"

lemma seg_append: "seg d L a (xs @ y # ys) b \<longleftrightarrow> seg d L a xs y \<and> seg d L y ys b"
  by (induction xs arbitrary: a) auto

lemma seg_rev: "seg d L a xs b \<longleftrightarrow> seg (opp d) L b (rev xs) a"
  by (induction xs arbitrary: a) (auto simp: seg_append)

lemma ring_rev: "ring d L xs \<longleftrightarrow> ring (opp d) L (rev xs)"
  using seg_rev [of d L 0 xs 0] by (simp add: ring_def)

lemma seg_cong:
  assumes "\<And>x. x \<in> set (a # xs) \<Longrightarrow> lk L' x d = lk L x d"
    and "\<And>x. x \<in> set (xs @ [b]) \<Longrightarrow> lk L' x (opp d) = lk L x (opp d)"
  shows "seg d L' a xs b \<longleftrightarrow> seg d L a xs b"
  using assms by (induction xs arbitrary: a) auto

lemma seg_first: "seg d L a xs b \<Longrightarrow> lk L a d = hd (xs @ [b])"
  by (cases xs) auto

lemma seg_last: "seg d L a xs b \<Longrightarrow> lk L b (opp d) = last (a # xs)"
  by (induction xs arbitrary: a) (auto split: if_splits)

lemma ring_first: "ring d L xs \<Longrightarrow> lk L 0 d = (if xs = [] then 0 else hd xs)"
  by (cases xs) (auto simp: ring_def)

lemma ring_last: "ring d L xs \<Longrightarrow> lk L 0 (opp d) = (if xs = [] then 0 else last xs)"
  by (auto simp: ring_def dest: seg_last)

lemma ring_next:
  assumes "ring d L (as @ i # bs)"
  shows "lk L i d = (if bs = [] then 0 else hd bs)"
    and "lk L i (opp d) = (if as = [] then 0 else last as)"
  using assms by (auto simp: ring_def seg_append dest: seg_first seg_last split: if_splits)

subsection \<open>Moving and adding a slot\<close>

text \<open>
  \<open>adjust\<close> never reads or writes out of range on a ring, and moves the slot to the end
  that the direction \<open>t\<close> starts from.
\<close>

lemma adjust_ring:
  assumes R: "ring t L (as @ i # bs)"
  shows "\<exists>L'. adjust L i (opp t) t = Some L' \<and> ring t L' (i # as @ bs) \<and> length L' = length L"
proof (cases as)
  case Nil
  then show ?thesis using R ring_next(2) [OF R]
    by (auto simp: adjust_def go_simps ring_def)
next
  case (Cons a as')
  define f where "f = opp t"
  define pr where "pr = last as"
  define nx where "nx = (if bs = [] then 0 else hd bs)"
  have ft [simp]: "f \<noteq> t" "t \<noteq> f" by (auto simp: f_def)
  have dist: "distinct (as @ i # bs)" "0 \<notin> set (as @ i # bs)"
    and len: "\<forall>x \<in> set (as @ i # bs). x < length L" "0 < length L"
    using R by (auto simp: ring_def)
  have i: "i \<noteq> 0" "i < length L" "i \<notin> set as" "i \<notin> set bs" using dist len by auto
  have "pr \<in> set as" using Cons by (simp add: pr_def)
  then have pr: "pr \<in> set as" "pr \<noteq> 0" "pr < length L" "pr \<noteq> i" "pr \<notin> set bs"
    using dist len by auto
  have nx: "nx = 0 \<or> nx \<in> set bs" "nx < length L" "nx \<noteq> i" "nx \<notin> set as"
    using dist len by (auto simp: nx_def neq_Nil_conv)
  have a: "a \<noteq> 0" "a < length L" "a \<noteq> i" "a \<notin> set bs" "a \<noteq> nx" using Cons dist len nx by auto
  have lks: "lk L i f = pr" "lk L i t = nx" "lk L 0 t = a"
    using ring_next [OF R] ring_first [OF R] Cons by (auto simp: f_def pr_def nx_def)
  define L' where
    "L' = upd (upd (upd (upd (upd (upd L nx f pr) pr t nx) i f 0) i t a) a f i) 0 t i"
  have adj: "adjust L i f t = Some L'"
    using i pr nx a len lks by (simp add: adjust_def go_simps L'_def)
  have lk': "lk L' x e =
      (if e = t then (if x = 0 then i else if x = i then a else if x = pr then nx else lk L x t)
       else (if x = a then i else if x = i then 0 else if x = nx then pr else lk L x f))" for x e
    using i pr nx a len side_cases2 [of e t] unfolding L'_def f_def by (elim disjE) simp_all
  have segs: "seg t L 0 as i" "seg t L i bs 0" using R by (auto simp: ring_def seg_append)
  obtain cs where cs: "as = cs @ [pr]" using Cons by (metis append_butlast_last_id list.distinct(1) pr_def)
  have fore: "seg t L' i cs pr"
  proof (cases cs)
    case Nil
    then show ?thesis using cs Cons i by (simp add: lk' flip: f_def)
  next
    case (Cons a' cs')
    then have a': "a' = a" "as' = cs' @ [pr]" using cs \<open>as = a # as'\<close> by auto
    have "seg t L a cs' pr" using segs(1) \<open>as = a # as'\<close> a' by (simp add: seg_append)
    then have "seg t L' a cs' pr"
      using dist i nx \<open>as = a # as'\<close> a' by (subst seg_cong [where L = L]) (auto simp: lk' simp flip: f_def)
    then show ?thesis using Cons a' i by (simp add: lk' flip: f_def)
  qed
  have rear: "seg t L' pr bs 0"
  proof (cases bs)
    case Nil
    then show ?thesis using pr i a by (auto simp: lk' nx_def simp flip: f_def)
  next
    case (Cons b bs')
    then have b: "b = nx" by (simp add: nx_def)
    have "seg t L nx bs' 0" using segs(2) Cons b by simp
    then have "seg t L' nx bs' 0"
      using dist i nx pr a Cons b by (subst seg_cong [where L = L]) (auto simp: lk' simp flip: f_def)
    then show ?thesis using Cons b pr i nx a by (simp add: lk' flip: f_def)
  qed
  have "seg t L' 0 (i # as @ bs) 0"
    using fore rear i a cs by (simp add: seg_append lk' flip: f_def)
  moreover have "length L' = length L" by (simp add: L'_def)
  ultimately show ?thesis using adj dist len by (auto simp: ring_def f_def)
qed

text \<open>Filling a fresh slot in front, as the last branch of \<open>put\<close> does.\<close>

definition push_slot :: "links \<Rightarrow> nat \<Rightarrow> bool \<Rightarrow> links option" where
  "push_slot L0 j fresh = do {
     L1 \<leftarrow> (if fresh then lset L0 0 P j else do { h \<leftarrow> lget L0 0 N; lset L0 h P j });
     h \<leftarrow> lget L1 0 N;
     L2 \<leftarrow> aset L1 j (0, h);
     lset L2 0 N j
   }"

lemma push_slot_ring:
  assumes R: "ring N L xs" and j: "j \<noteq> 0" "j < length L" "j \<notin> set xs" and e: "fresh \<longleftrightarrow> xs = []"
  shows "\<exists>L'. push_slot L j fresh = Some L' \<and> ring N L' (j # xs) \<and> length L' = length L"
proof -
  define h where "h = lk L 0 N"
  have h: "h = hd (xs @ [0])" "h < length L" "h \<noteq> j" "0 < length L"
    using R j ring_first [OF R] by (cases xs; auto simp: ring_def h_def)+
  have e': "fresh \<Longrightarrow> h = 0" using e h by simp
  define L' where "L' = upd ((upd L h P j)[j := (0, h)]) 0 N j"
  have "push_slot L j fresh = Some L'"
    using h j e' h_def by (cases fresh) (auto simp: push_slot_def go_simps L'_def)
  moreover have lk': "lk L' x d =
      (if d = N then (if x = 0 then j else if x = j then h else lk L x N)
       else (if x = j then 0 else if x = h then j else lk L x P))" for x d
    using h j by (cases d) (auto simp: L'_def lk_def upd_def nth_list_update sel_put_sel)
  have "seg N L' j xs 0"
  proof (cases xs)
    case Nil
    then show ?thesis using h j by (simp add: lk')
  next
    case (Cons x ys)
    then have x: "h = x" using h by simp
    have "seg N L x ys 0" using R Cons by (simp add: ring_def)
    then have "seg N L' x ys 0"
      using R j Cons x by (subst seg_cong [where L = L]) (auto simp: lk' ring_def intro: gr0I)
    then show ?thesis using Cons x j h by (simp add: lk')
  qed
  then have "seg N L' 0 (j # xs) 0" using j by (simp add: lk')
  moreover have "length L' = length L" by (simp add: L'_def)
  ultimately show ?thesis using R j by (auto simp: ring_def)
qed

end
