(* ===== verification/Lru_Cache.thy ===== *)
theory Lru_Cache
  imports Lru_Links
begin

text \<open>
  The fixed capacity slot cache \<open>type cache\<close> of \<open>swifty_cache/lru.go\<close>: the slot links,
  the node array \<open>m\<close>, the index \<open>hashMap\<close> and the byte and eviction counters, with the
  operations \<open>Create\<close>, \<open>put\<close>, \<open>peek\<close>, \<open>del\<close>, \<open>drop\<close>,
  \<open>evictOldest\<close> and \<open>walk\<close>. Deleting is logical: a slot whose \<open>expireAt\<close> is
  not positive is dead, keeps its key in \<open>hashMap\<close> and waits at the tail to be recycled.

  Every operation is in the option monad, \<open>None\<close> being a Go panic (index out of range) or,
  for the two loops over the links, more iterations than there are slots. The refinement lemmas
  show that neither happens from a well formed cache, and that the operations act on the live
  entries, in recency order, as a textbook LRU list does (\<open>lru_put\<close>, \<open>lru_remove\<close>,
  \<open>lru_evict\<close>).

  The interface \<open>Value\<close> is the parameter \<open>vlen\<close>, its method \<open>Len\<close>; a nil value
  is \<open>None\<close>. The callback \<open>onEvicted\<close> is modelled by whether it is set (\<open>cb\<close>)
  and by the list of calls it receives.
\<close>

record 'v node =
  nk :: string
  nv :: "'v option"
  nexp :: int

record 'v cache =
  doubleLink :: links
  slots :: "'v node list"
  hashMap :: "(string \<times> nat) list"
  cbytes :: int
  nevict :: int
  lastIdx :: nat

type_synonym 'v call = "string \<times> 'v option"
type_synonym 'v entry = "string \<times> 'v option \<times> int"

definition Create :: "16 word \<Rightarrow> 'v cache" where
  "Create c = \<lparr>doubleLink = replicate (unat (c + 1)) (0, 0),
     slots = replicate (unat c) \<lparr>nk = [], nv = None, nexp = 0\<rparr>,
     hashMap = [], cbytes = 0, nevict = 0, lastIdx = 0\<rparr>"

definition entryBytes :: "('v \<Rightarrow> int) \<Rightarrow> string \<Rightarrow> 'v option \<Rightarrow> int" where
  "entryBytes vlen key val =
     (case val of None \<Rightarrow> int (length key) | Some v \<Rightarrow> int (length key) + vlen v)"

text \<open>
  \<open>c.m[idx-1]\<close>: the index is computed in \<open>uint16\<close>, so \<open>idx = 0\<close> wraps to 65535,
  which is out of range for every capacity.
\<close>

definition mget :: "'v cache \<Rightarrow> nat \<Rightarrow> 'v node option" where
  "mget c i = (if i = 0 then None else aget (slots c) (i - 1))"

definition mset_node :: "'v cache \<Rightarrow> nat \<Rightarrow> 'v node \<Rightarrow> 'v cache option" where
  "mset_node c i nd = (if i = 0 then None else
     do { ns \<leftarrow> aset (slots c) (i - 1) nd; Some (c\<lparr>slots := ns\<rparr>) })"

definition adjust_c :: "'v cache \<Rightarrow> nat \<Rightarrow> side \<Rightarrow> side \<Rightarrow> 'v cache option" where
  "adjust_c c idx f t = do { l \<leftarrow> adjust (doubleLink c) idx f t; Some (c\<lparr>doubleLink := l\<rparr>) }"

definition fired :: "bool \<Rightarrow> 'v call list \<Rightarrow> 'v call list" where
  "fired cb calls = (if cb then calls else [])"

definition put :: "('v \<Rightarrow> int) \<Rightarrow> bool \<Rightarrow> 'v cache \<Rightarrow> string \<Rightarrow> 'v option \<Rightarrow> int
    \<Rightarrow> ('v cache \<times> int \<times> 'v call list) option" where
  "put vlen cb c key val expireAt =
    (case map_of (hashMap c) key of
      Some idx \<Rightarrow> do {
        nd \<leftarrow> mget c idx;
        let c1 = c\<lparr>cbytes := (if nexp nd > 0
            then cbytes c + (entryBytes vlen key val - entryBytes vlen (nk nd) (nv nd))
            else cbytes c + entryBytes vlen key val)\<rparr>;
        c2 \<leftarrow> mset_node c1 idx (nd\<lparr>nv := val, nexp := expireAt\<rparr>);
        c3 \<leftarrow> adjust_c c2 idx P N;
        Some (c3, 0, [])
      }
    | None \<Rightarrow>
        if lastIdx c = length (slots c) then do {
          ti \<leftarrow> lget (doubleLink c) 0 P;
          tail \<leftarrow> mget c ti;
          let live = (nexp tail > 0);
          let c1 = (if live then c\<lparr>cbytes := cbytes c - entryBytes vlen (nk tail) (nv tail),
                                   nevict := nevict c + 1\<rparr> else c);
          let calls = (if live then fired cb [(nk tail, nv tail)] else []);
          let c2 = c1\<lparr>hashMap := AList.update key ti (AList.delete (nk tail) (hashMap c1)),
                       cbytes := cbytes c1 + entryBytes vlen key val\<rparr>;
          c3 \<leftarrow> mset_node c2 ti \<lparr>nk = key, nv = val, nexp = expireAt\<rparr>;
          c4 \<leftarrow> adjust_c c3 ti P N;
          Some (c4, 1, calls)
        }
        else do {
          let j = lastIdx c + 1;
          l \<leftarrow> push_slot (doubleLink c) j (hashMap c = []);
          c1 \<leftarrow> mset_node c j \<lparr>nk = key, nv = val, nexp = expireAt\<rparr>;
          Some (c1\<lparr>doubleLink := l, lastIdx := j, hashMap := AList.update key j (hashMap c),
                   cbytes := cbytes c + entryBytes vlen key val\<rparr>, 1, [])
        })"

text \<open>\<open>peek\<close> and \<open>del\<close> return a pointer into \<open>m\<close>: here the slot number.\<close>

definition peek :: "'v cache \<Rightarrow> string \<Rightarrow> (nat \<times> 'v node) option option" where
  "peek c key = (case map_of (hashMap c) key of
      Some idx \<Rightarrow> do { nd \<leftarrow> mget c idx; Some (Some (idx, nd)) }
    | None \<Rightarrow> Some None)"

definition del :: "('v \<Rightarrow> int) \<Rightarrow> 'v cache \<Rightarrow> string \<Rightarrow> ('v cache \<times> (nat \<times> int) option) option" where
  "del vlen c key = (case map_of (hashMap c) key of
      Some idx \<Rightarrow> do {
        nd \<leftarrow> mget c idx;
        if nexp nd > 0 then do {
          let e = nexp nd;
          let c1 = c\<lparr>cbytes := cbytes c - entryBytes vlen (nk nd) (nv nd)\<rparr>;
          c2 \<leftarrow> mset_node c1 idx (nd\<lparr>nexp := 0\<rparr>);
          c3 \<leftarrow> adjust_c c2 idx N P;
          Some (c3, Some (idx, e))
        } else Some (c, None)
      }
    | None \<Rightarrow> Some (c, None))"

text \<open>Reading the value through the returned pointer and releasing it (\<open>v := n1.v; n1.v = nil\<close>).\<close>

definition take_value :: "'v cache \<Rightarrow> nat \<Rightarrow> ('v cache \<times> 'v option) option" where
  "take_value c idx = do {
     nd \<leftarrow> mget c idx;
     c1 \<leftarrow> mset_node c idx (nd\<lparr>nv := None\<rparr>);
     Some (c1, nv nd)
   }"

definition drop_key :: "('v \<Rightarrow> int) \<Rightarrow> 'v cache \<Rightarrow> string \<Rightarrow> 'v cache option" where
  "drop_key vlen c key = do {
     (c1, r) \<leftarrow> del vlen c key;
     case r of Some (idx, _) \<Rightarrow> do { (c2, _) \<leftarrow> take_value c1 idx; Some c2 } | None \<Rightarrow> Some c1
   }"

text \<open>
  The loop of \<open>evictOldest\<close> from the tail over the \<open>p\<close> links; the fuel counts
  iterations and the number of slots is enough.
\<close>

fun evict_loop :: "('v \<Rightarrow> int) \<Rightarrow> bool \<Rightarrow> nat \<Rightarrow> 'v cache \<Rightarrow> nat \<Rightarrow> ('v cache \<times> bool \<times> 'v call list) option" where
  "evict_loop vlen cb 0 c idx = None"
| "evict_loop vlen cb (Suc fuel) c idx =
    (if idx = 0 then Some (c, False, [])
     else do {
       nd \<leftarrow> mget c idx;
       if nexp nd \<le> 0 then do { nx \<leftarrow> lget (doubleLink c) idx P; evict_loop vlen cb fuel c nx }
       else do {
         let c1 = c\<lparr>cbytes := cbytes c - entryBytes vlen (nk nd) (nv nd), nevict := nevict c + 1\<rparr>;
         c2 \<leftarrow> mset_node c1 idx (nd\<lparr>nexp := 0, nv := None\<rparr>);
         c3 \<leftarrow> adjust_c c2 idx N P;
         Some (c3, True, fired cb [(nk nd, nv nd)])
       }
     })"

definition evictOldest :: "('v \<Rightarrow> int) \<Rightarrow> bool \<Rightarrow> 'v cache \<Rightarrow> ('v cache \<times> bool \<times> 'v call list) option" where
  "evictOldest vlen cb c = do {
     i \<leftarrow> lget (doubleLink c) 0 P;
     evict_loop vlen cb (length (doubleLink c)) c i
   }"

text \<open>\<open>walk\<close> from the head; the walker sees an accumulator and answers whether to go on.\<close>

fun walk_loop :: "('s \<Rightarrow> 'v entry \<Rightarrow> 's \<times> bool) \<Rightarrow> nat \<Rightarrow> 'v cache \<Rightarrow> nat \<Rightarrow> 's \<Rightarrow> 's option" where
  "walk_loop walker 0 c idx s = None"
| "walk_loop walker (Suc fuel) c idx s =
    (if idx = 0 then Some s
     else do {
       nd \<leftarrow> mget c idx;
       let (s', go) = (if nexp nd > 0 then walker s (nk nd, nv nd, nexp nd) else (s, True));
       if go then do { nx \<leftarrow> lget (doubleLink c) idx N; walk_loop walker fuel c nx s' }
       else Some s'
     })"

definition walk :: "('s \<Rightarrow> 'v entry \<Rightarrow> 's \<times> bool) \<Rightarrow> 'v cache \<Rightarrow> 's \<Rightarrow> 's option" where
  "walk walker c s = do {
     i \<leftarrow> lget (doubleLink c) 0 N;
     walk_loop walker (length (doubleLink c)) c i s
   }"

subsection \<open>The abstract LRU list\<close>

definition lru_remove :: "string \<Rightarrow> 'v entry list \<Rightarrow> 'v entry list" where
  "lru_remove k es = filter (\<lambda>e. fst e \<noteq> k) es"

definition lru_put :: "nat \<Rightarrow> 'v entry \<Rightarrow> 'v entry list \<Rightarrow> 'v entry list \<times> 'v entry list" where
  "lru_put cap e es =
    (if fst e \<notin> fst ` set es \<and> length es = cap then (e # butlast es, [last es])
     else (e # lru_remove (fst e) es, []))"

definition lru_find :: "string \<Rightarrow> 'v entry list \<Rightarrow> ('v option \<times> int) option" where
  "lru_find k es = map_of es k"

definition entries_bytes :: "('v \<Rightarrow> int) \<Rightarrow> 'v entry list \<Rightarrow> int" where
  "entries_bytes vlen es = sum_list (map (\<lambda>(k, v, _). entryBytes vlen k v) es)"

subsection \<open>Representation\<close>

definition live :: "'v cache \<Rightarrow> nat \<Rightarrow> bool" where
  "live c i \<longleftrightarrow> nexp (slots c ! (i - 1)) > 0"

definition entry_at :: "'v cache \<Rightarrow> nat \<Rightarrow> 'v entry" where
  "entry_at c i = (let nd = slots c ! (i - 1) in (nk nd, nv nd, nexp nd))"

text \<open>\<open>as\<close> are the live slots in recency order, \<open>bs\<close> the dead slots behind them.\<close>

definition cache_inv :: "('v \<Rightarrow> int) \<Rightarrow> 'v cache \<Rightarrow> nat list \<Rightarrow> nat list \<Rightarrow> bool" where
  "cache_inv vlen c as bs \<longleftrightarrow>
     length (doubleLink c) = length (slots c) + 1 \<and> lastIdx c \<le> length (slots c) \<and>
     ring N (doubleLink c) (as @ bs) \<and> set (as @ bs) = {1..lastIdx c} \<and>
     distinct (map fst (hashMap c)) \<and>
     (\<forall>k i. map_of (hashMap c) k = Some i \<longleftrightarrow> i \<in> set (as @ bs) \<and> nk (slots c ! (i - 1)) = k) \<and>
     (\<forall>i \<in> set as. live c i) \<and> (\<forall>i \<in> set bs. \<not> live c i) \<and>
     cbytes c = entries_bytes vlen (map (entry_at c) as)"

definition rep :: "('v \<Rightarrow> int) \<Rightarrow> 'v cache \<Rightarrow> 'v entry list \<Rightarrow> bool" where
  "rep vlen c es \<longleftrightarrow> (\<exists>as bs. cache_inv vlen c as bs \<and> es = map (entry_at c) as)"

subsection \<open>Facts about the representation\<close>

lemma mget_ok [go_simps]: "0 < i \<Longrightarrow> i \<le> length (slots c) \<Longrightarrow> mget c i = Some (slots c ! (i - 1))"
  by (simp add: mget_def aget_in)

lemma mset_node_ok [go_simps]:
  "0 < i \<Longrightarrow> i \<le> length (slots c) \<Longrightarrow> mset_node c i nd = Some (c\<lparr>slots := (slots c)[i - 1 := nd]\<rparr>)"
  by (simp add: mset_node_def aset_in)

lemma adjust_front:
  "ring N L (as @ i # bs) \<Longrightarrow>
    \<exists>L'. adjust L i P N = Some L' \<and> ring N L' (i # as @ bs) \<and> length L' = length L"
  using adjust_ring [of N L as i bs] by simp

lemma adjust_rear:
  assumes "ring N L (as @ i # bs)"
  shows "\<exists>L'. adjust L i N P = Some L' \<and> ring N L' (as @ bs @ [i]) \<and> length L' = length L"
proof -
  have "ring P L (rev bs @ i # rev as)" using assms ring_rev [of N L] by simp
  then obtain L' where "adjust L i N P = Some L'" "ring P L' (i # rev bs @ rev as)" "length L' = length L"
    using adjust_ring [of P L "rev bs" i "rev as"] by auto
  then show ?thesis using ring_rev [of P L'] by auto
qed

lemma removeAll_split: "x \<notin> set as \<Longrightarrow> x \<notin> set bs \<Longrightarrow> removeAll x (as @ x # bs) = as @ bs"
  by simp

lemma adjust_front_removeAll:
  assumes "ring N L xs" "i \<in> set xs"
  shows "\<exists>L'. adjust L i P N = Some L' \<and> ring N L' (i # removeAll i xs) \<and> length L' = length L"
proof -
  obtain as bs where "xs = as @ i # bs" using assms(2) by (metis split_list)
  moreover have "distinct xs" using assms(1) by (simp add: ring_def)
  ultimately show ?thesis using assms(1) adjust_front [of L as i bs] by auto
qed

lemma adjust_rear_removeAll:
  assumes "ring N L xs" "i \<in> set xs"
  shows "\<exists>L'. adjust L i N P = Some L' \<and> ring N L' (removeAll i xs @ [i]) \<and> length L' = length L"
proof -
  obtain as bs where "xs = as @ i # bs" using assms(2) by (metis split_list)
  moreover have "distinct xs" using assms(1) by (simp add: ring_def)
  ultimately show ?thesis using assms(1) adjust_rear [of L as i bs] by auto
qed

lemma sum_list_removeAll:
  fixes f :: "'a \<Rightarrow> int"
  shows "distinct xs \<Longrightarrow>
    sum_list (map f (removeAll x xs)) = sum_list (map f xs) - (if x \<in> set xs then f x else 0)"
  by (induction xs) auto

lemma entries_bytes_simps [simp]:
  "entries_bytes vlen [] = 0"
  "entries_bytes vlen ((k, v, e) # es) = entryBytes vlen k v + entries_bytes vlen es"
  "entries_bytes vlen (es @ es') = entries_bytes vlen es + entries_bytes vlen es'"
  by (simp_all add: entries_bytes_def)

definition slot_bytes :: "('v \<Rightarrow> int) \<Rightarrow> 'v cache \<Rightarrow> nat \<Rightarrow> int" where
  "slot_bytes vlen c i = entryBytes vlen (nk (slots c ! (i - 1))) (nv (slots c ! (i - 1)))"

lemma entries_bytes_entry_at:
  "entries_bytes vlen (map (entry_at c) as) = sum_list (map (slot_bytes vlen c) as)"
  by (induction as) (auto simp: entry_at_def slot_bytes_def Let_def)

lemma cache_invD:
  assumes "cache_inv vlen c as bs"
  shows inv_len: "length (doubleLink c) = length (slots c) + 1"
    and inv_last: "lastIdx c \<le> length (slots c)"
    and inv_ring: "ring N (doubleLink c) (as @ bs)"
    and inv_set: "set as \<union> set bs = {1..lastIdx c}"
    and inv_keys: "distinct (map fst (hashMap c))"
    and inv_map: "map_of (hashMap c) k = Some i \<longleftrightarrow> i \<in> set as \<union> set bs \<and> nk (slots c ! (i - 1)) = k"
    and inv_live: "i \<in> set as \<Longrightarrow> live c i"
    and inv_dead: "i \<in> set bs \<Longrightarrow> \<not> live c i"
    and inv_bytes: "cbytes c = entries_bytes vlen (map (entry_at c) as)"
  using assms unfolding cache_inv_def set_append by blast+

lemma inv_slot:
  assumes "cache_inv vlen c as bs" "i \<in> set as \<union> set bs"
  shows "0 < i" "i \<le> lastIdx c" "i \<le> length (slots c)"
  using inv_set [OF assms(1)] inv_last [OF assms(1)] assms(2) by auto

lemma inv_distinct: "cache_inv vlen c as bs \<Longrightarrow> distinct (as @ bs)"
  by (simp add: cache_inv_def ring_def)

lemma inv_key:
  assumes "cache_inv vlen c as bs" "map_of (hashMap c) k = Some i"
  shows "i \<in> set as \<union> set bs" "nk (slots c ! (i - 1)) = k"
  using assms(2) inv_map [OF assms(1)] by blast+

lemma inv_key_eq:
  assumes "cache_inv vlen c as bs" "i \<in> set as \<union> set bs" "j \<in> set as \<union> set bs"
  shows "nk (slots c ! (i - 1)) = nk (slots c ! (j - 1)) \<longleftrightarrow> i = j"
proof -
  have "map_of (hashMap c) (nk (slots c ! (i - 1))) = Some i"
       "map_of (hashMap c) (nk (slots c ! (j - 1))) = Some j"
    using assms(2,3) inv_map [OF assms(1)] by blast+
  then show ?thesis by (metis option.inject)
qed

lemma inv_length: "cache_inv vlen c as bs \<Longrightarrow> length as + length bs = lastIdx c"
proof -
  assume I: "cache_inv vlen c as bs"
  have "card (set (as @ bs)) = length (as @ bs)" using inv_distinct [OF I] by (rule distinct_card)
  moreover have "set (as @ bs) = {1..lastIdx c}" using inv_set [OF I] by simp
  ultimately show ?thesis by simp
qed

text \<open>
  The common shape of every update: one slot \<open>i\<close> gets a new node, the links are moved by
  \<open>adjust\<close>, and either the slot becomes the most recent live one or the last dead one.
\<close>

lemma inv_touch:
  fixes ne :: int
  assumes I: "cache_inv vlen c as bs" and i: "i \<in> set as \<union> set bs"
    and L: "ring N L (i # removeAll i (as @ bs))" "length L = length (doubleLink c)"
    and nd: "nexp nd > 0"
    and H: "distinct (map fst H)"
           "\<And>k j. map_of H k = Some j \<longleftrightarrow>
              j \<in> set as \<union> set bs \<and> (if j = i then nk nd else nk (slots c ! (j - 1))) = k"
    and b: "b = cbytes c - (if live c i then slot_bytes vlen c i else 0) + entryBytes vlen (nk nd) (nv nd)"
  defines "c' \<equiv> c\<lparr>doubleLink := L, slots := (slots c)[i - 1 := nd], hashMap := H, cbytes := b, nevict := ne\<rparr>"
  shows "cache_inv vlen c' (i # removeAll i as) (removeAll i bs)"
    and "map (entry_at c') (i # removeAll i as) = (nk nd, nv nd, nexp nd) # map (entry_at c) (removeAll i as)"
proof -
  have pos: "0 < j" "j \<le> length (slots c)" if "j \<in> set as \<union> set bs" for j
    using inv_slot [OF I that] by auto
  have nth: "slots c' ! (j - 1) = (if j = i then nd else slots c ! (j - 1))" if "j \<in> set as \<union> set bs" for j
  proof -
    have "j - 1 = i - 1 \<longleftrightarrow> j = i" using pos [OF that] pos [OF i] by linarith
    then show ?thesis using pos [OF i] by (auto simp: c'_def nth_list_update)
  qed
  have live_i: "live c i \<longleftrightarrow> i \<in> set as" using i inv_live [OF I] inv_dead [OF I] by blast
  have d: "distinct as" using inv_distinct [OF I] by simp
  have ent: "entry_at c' j = (if j = i then (nk nd, nv nd, nexp nd) else entry_at c j)"
    if "j \<in> set as \<union> set bs" for j
    using nth [OF that] by (simp add: entry_at_def Let_def)
  show E: "map (entry_at c') (i # removeAll i as) = (nk nd, nv nd, nexp nd) # map (entry_at c) (removeAll i as)"
    using ent i by auto
  have bytes: "b = entries_bytes vlen (map (entry_at c') (i # removeAll i as))"
    unfolding E using b d live_i inv_bytes [OF I]
    by (simp add: entries_bytes_entry_at sum_list_removeAll)
  have sets: "set (i # removeAll i as @ removeAll i bs) = {1..lastIdx c}"
    unfolding inv_set [OF I, symmetric] using i by auto
  have hm: "map_of H k = Some j \<longleftrightarrow> j \<in> set (i # removeAll i as @ removeAll i bs) \<and> nk (slots c' ! (j - 1)) = k" for k j
  proof -
    have "j \<in> set (i # removeAll i as @ removeAll i bs) \<longleftrightarrow> j \<in> set as \<union> set bs" using i by auto
    then show ?thesis unfolding H(2) using nth [of j] by (cases "j \<in> set as \<union> set bs") simp_all
  qed
  have lv: "live c' j \<longleftrightarrow> (if j = i then True else live c j)" if "j \<in> set as \<union> set bs" for j
    using nth [OF that] nd by (simp add: live_def)
  show "cache_inv vlen c' (i # removeAll i as) (removeAll i bs)"
    unfolding cache_inv_def
  proof (intro conjI)
    show "length (doubleLink c') = length (slots c') + 1" using inv_len [OF I] L(2) by (simp add: c'_def)
    show "lastIdx c' \<le> length (slots c')" using inv_last [OF I] by (simp add: c'_def)
    show "ring N (doubleLink c') ((i # removeAll i as) @ removeAll i bs)" using L by (simp add: c'_def)
    show "set ((i # removeAll i as) @ removeAll i bs) = {1..lastIdx c'}" using sets by (simp add: c'_def)
    show "distinct (map fst (hashMap c'))" using H by (simp add: c'_def)
    show "\<forall>k j. map_of (hashMap c') k = Some j \<longleftrightarrow>
        j \<in> set ((i # removeAll i as) @ removeAll i bs) \<and> nk (slots c' ! (j - 1)) = k"
      using hm by (simp add: c'_def)
    show "\<forall>j\<in>set (i # removeAll i as). live c' j" using i lv inv_live [OF I] by auto
    show "\<forall>j\<in>set (removeAll i bs). \<not> live c' j" using lv inv_dead [OF I] by auto
    show "cbytes c' = entries_bytes vlen (map (entry_at c') (i # removeAll i as))"
      using bytes by (simp add: c'_def)
  qed
qed

lemma inv_retire:
  fixes ne :: int
  assumes I: "cache_inv vlen c as bs" and i: "i \<in> set as"
    and L: "ring N L (removeAll i (as @ bs) @ [i])" "length L = length (doubleLink c)"
    and nd: "nexp nd = 0" "nk nd = nk (slots c ! (i - 1))"
    and b: "b = cbytes c - slot_bytes vlen c i"
  defines "c' \<equiv> c\<lparr>doubleLink := L, slots := (slots c)[i - 1 := nd], cbytes := b, nevict := ne\<rparr>"
  shows "cache_inv vlen c' (removeAll i as) (bs @ [i])"
    and "map (entry_at c') (removeAll i as) = map (entry_at c) (removeAll i as)"
proof -
  have pos: "0 < j" "j \<le> length (slots c)" if "j \<in> set as \<union> set bs" for j
    using inv_slot [OF I that] by auto
  have nth: "slots c' ! (j - 1) = (if j = i then nd else slots c ! (j - 1))" if "j \<in> set as \<union> set bs" for j
  proof -
    have "j - 1 = i - 1 \<longleftrightarrow> j = i" using pos [OF that] pos [of i] i by auto
    then show ?thesis using pos [of i] i by (auto simp: c'_def nth_list_update)
  qed
  have d: "distinct as" "i \<notin> set bs" using inv_distinct [OF I] i by auto
  show E: "map (entry_at c') (removeAll i as) = map (entry_at c) (removeAll i as)"
    using nth by (auto simp: entry_at_def Let_def)
  have lv: "live c' j \<longleftrightarrow> (if j = i then False else live c j)" if "j \<in> set as \<union> set bs" for j
    using nth [OF that] nd by (simp add: live_def)
  show "cache_inv vlen c' (removeAll i as) (bs @ [i])"
    unfolding cache_inv_def
  proof (intro conjI)
    show "length (doubleLink c') = length (slots c') + 1" using inv_len [OF I] L(2) by (simp add: c'_def)
    show "lastIdx c' \<le> length (slots c')" using inv_last [OF I] by (simp add: c'_def)
    show "ring N (doubleLink c') (removeAll i as @ bs @ [i])" using L d by (simp add: c'_def)
    show "set (removeAll i as @ bs @ [i]) = {1..lastIdx c'}" using inv_set [OF I] i by (auto simp: c'_def)
    show "distinct (map fst (hashMap c'))" using inv_keys [OF I] by (simp add: c'_def)
    have "nk (slots c' ! (j - 1)) = nk (slots c ! (j - 1))" if "j \<in> set as \<union> set bs" for j
      using nth [OF that] nd by simp
    moreover have "j \<in> set (removeAll i as @ bs @ [i]) \<longleftrightarrow> j \<in> set as \<union> set bs" for j using i by auto
    moreover have "hashMap c' = hashMap c" by (simp add: c'_def)
    ultimately show "\<forall>k j. map_of (hashMap c') k = Some j \<longleftrightarrow>
        j \<in> set (removeAll i as @ bs @ [i]) \<and> nk (slots c' ! (j - 1)) = k"
      using inv_map [OF I] by metis
    show "\<forall>j\<in>set (removeAll i as). live c' j" using lv inv_live [OF I] by auto
    show "\<forall>j\<in>set (bs @ [i]). \<not> live c' j" using i lv inv_dead [OF I] by auto
    show "cbytes c' = entries_bytes vlen (map (entry_at c') (removeAll i as))"
      unfolding E using inv_bytes [OF I] b d i by (simp add: c'_def entries_bytes_entry_at sum_list_removeAll)
  qed
qed

end
