(* ===== verification/Lru_Refine.thy ===== *)
theory Lru_Refine
  imports Lru_Cache
begin

text \<open>
  Every operation of the slot cache refines the corresponding operation of an LRU list and never
  panics: \<open>put_rep\<close>, \<open>del_take_rep\<close>, \<open>drop_key_rep\<close>, \<open>touch_rep\<close>,
  \<open>evictOldest_rep\<close>, \<open>walk_rep\<close> and \<open>Create_rep\<close>. The lemmas are
  stated over \<open>rep vlen c es\<close> (the live entries of \<open>c\<close>, most recent first, are
  \<open>es\<close>), so that clients never see slots or links.
\<close>

lemma repI: "cache_inv vlen c as bs \<Longrightarrow> map (entry_at c) as = es \<Longrightarrow> rep vlen c es"
  by (auto simp: rep_def)

lemma map_entry_remove:
  assumes I: "cache_inv vlen c as bs" and i: "i \<in> set as \<union> set bs"
  shows "lru_remove (nk (slots c ! (i - 1))) (map (entry_at c) as) = map (entry_at c) (removeAll i as)"
proof -
  have eq: "fst (entry_at c j) \<noteq> nk (slots c ! (i - 1)) \<longleftrightarrow> i \<noteq> j" if "j \<in> set as" for j
    using inv_key_eq [OF I, of j i] that i by (auto simp: entry_at_def Let_def)
  have "filter (\<lambda>j. fst (entry_at c j) \<noteq> nk (slots c ! (i - 1))) as = filter (\<lambda>j. i \<noteq> j) as"
    using eq by (intro filter_cong) auto
  then show ?thesis by (simp add: lru_remove_def filter_map o_def removeAll_filter_not_eq)
qed

lemma key_in_entries:
  assumes I: "cache_inv vlen c as bs"
  shows "k \<in> fst ` set (map (entry_at c) as) \<longleftrightarrow> (\<exists>i \<in> set as. map_of (hashMap c) k = Some i)"
proof -
  have "k \<in> fst ` set (map (entry_at c) as) \<longleftrightarrow> (\<exists>i \<in> set as. nk (slots c ! (i - 1)) = k)"
    by (force simp: entry_at_def Let_def)
  then show ?thesis unfolding inv_map [OF I] by blast
qed

lemma key_absent:
  assumes "cache_inv vlen c as bs" "map_of (hashMap c) k = None"
  shows "k \<notin> fst ` set (map (entry_at c) as)"
  using assms key_in_entries [OF assms(1)] by auto

lemma lru_remove_absent: "k \<notin> fst ` set es \<Longrightarrow> lru_remove k es = es"
  unfolding lru_remove_def by (rule filter_True) auto

lemma slot_of_hit:
  assumes "cache_inv vlen c as bs" "map_of (hashMap c) k = Some i"
  shows "mget c i = Some (slots c ! (i - 1))" "i \<in> set as \<union> set bs" "nk (slots c ! (i - 1)) = k"
    "0 < i" "i \<le> length (slots c)"
  using inv_key [OF assms] inv_slot [OF assms(1)] by (auto simp: go_simps)

subsection \<open>put\<close>

lemma put_hit:
  assumes I: "cache_inv vlen c as bs" and k: "map_of (hashMap c) k = Some i" and e: "ex > 0"
  shows "\<exists>c'. put vlen cb c k v ex = Some (c', 0, []) \<and>
    rep vlen c' ((k, v, ex) # lru_remove k (map (entry_at c) as)) \<and> length (slots c') = length (slots c)
    \<and> nevict c' = nevict c"
proof -
  note hit = slot_of_hit [OF I k]
  let ?nd = "(slots c ! (i - 1))\<lparr>nv := v, nexp := ex\<rparr>"
  let ?b = "cbytes c - (if live c i then slot_bytes vlen c i else 0) + entryBytes vlen k v"
  obtain L where L: "adjust (doubleLink c) i P N = Some L" "ring N L (i # removeAll i (as @ bs))"
      "length L = length (doubleLink c)"
    using adjust_front_removeAll [OF inv_ring [OF I], of i] hit(2) by auto
  let ?c' = "c\<lparr>doubleLink := L, slots := (slots c)[i - 1 := ?nd], hashMap := hashMap c,
               cbytes := ?b, nevict := nevict c\<rparr>"
  have H: "map_of (hashMap c) k' = Some j \<longleftrightarrow>
      j \<in> set as \<union> set bs \<and> (if j = i then nk ?nd else nk (slots c ! (j - 1))) = k'" for k' j
    unfolding inv_map [OF I] by auto
  have "cache_inv vlen ?c' (i # removeAll i as) (removeAll i bs)"
    "map (entry_at ?c') (i # removeAll i as) = (k, v, ex) # map (entry_at c) (removeAll i as)"
    using inv_touch [OF I hit(2) L(2,3) _ inv_keys [OF I] H, of ?b "nevict c"] e hit(3) by simp_all
  then have R: "rep vlen ?c' ((k, v, ex) # lru_remove k (map (entry_at c) as))"
    using map_entry_remove [OF I hit(2)] hit(3) by (simp add: repI)
  have "put vlen cb c k v ex = Some (?c', 0, [])"
    using k hit L(1)
    by (simp add: put_def Let_def mset_node_ok adjust_c_def live_def slot_bytes_def)
  with R show ?thesis by auto
qed

lemma put_recycle:
  assumes I: "cache_inv vlen c as bs" and k: "map_of (hashMap c) k = None" and e: "ex > 0"
    and full: "lastIdx c = length (slots c)" and cap: "0 < length (slots c)"
  shows "\<exists>c'. put vlen cb c k v ex = Some (c', 1, (if bs = [] then fired cb [(\<lambda>(k, v, _). (k, v)) (entry_at c (last as))] else [])) \<and>
    rep vlen c' ((k, v, ex) # (if bs = [] then butlast (map (entry_at c) as) else map (entry_at c) as))
    \<and> length (slots c') = length (slots c) \<and> nevict c' = nevict c + (if bs = [] then 1 else 0)"
proof -
  define i where "i = last (as @ bs)"
  have ne: "as @ bs \<noteq> []" using inv_length [OF I] full cap by auto
  then have "i \<in> set (as @ bs)" unfolding i_def by (rule last_in_set)
  then have i: "i \<in> set as \<union> set bs" by simp
  have d: "distinct (as @ bs)" by (rule inv_distinct [OF I])
  have slot: "0 < i" "i \<le> length (slots c)" using inv_slot [OF I i] by auto
  have tail: "lk (doubleLink c) 0 P = i" "0 < length (doubleLink c)"
    using ring_last [OF inv_ring [OF I]] ne inv_len [OF I] by (auto simp: i_def)
  have iA: "i \<in> set as \<longleftrightarrow> bs = []" "bs = [] \<Longrightarrow> i = last as"
    using d ne last_in_set [of bs] by (auto simp: i_def)
  have lv: "live c i \<longleftrightarrow> bs = []" using iA inv_live [OF I] inv_dead [OF I] i by blast
  let ?old = "slots c ! (i - 1)"
  let ?nd = "\<lparr>nk = k, nv = v, nexp = ex\<rparr>"
  let ?H = "AList.update k i (AList.delete (nk ?old) (hashMap c))"
  let ?b = "cbytes c - (if live c i then slot_bytes vlen c i else 0) + entryBytes vlen k v"
  let ?ne = "nevict c + (if bs = [] then 1 else 0)"
  obtain L where L: "adjust (doubleLink c) i P N = Some L" "ring N L (i # removeAll i (as @ bs))"
      "length L = length (doubleLink c)"
    using adjust_front_removeAll [OF inv_ring [OF I], of i] i by auto
  let ?c' = "c\<lparr>doubleLink := L, slots := (slots c)[i - 1 := ?nd], hashMap := ?H, cbytes := ?b, nevict := ?ne\<rparr>"
  have old: "map_of (hashMap c) (nk ?old) = Some i" using i by (simp add: inv_map [OF I])
  have H: "map_of ?H k' = Some j \<longleftrightarrow>
      j \<in> set as \<union> set bs \<and> (if j = i then nk ?nd else nk (slots c ! (j - 1))) = k'" for k' j
  proof (cases "j = i")
    case True
    have "map_of (hashMap c) k' = Some i \<longleftrightarrow> k' = nk ?old" using i inv_map [OF I, of k' i] by auto
    then show ?thesis using True i by auto
  next
    case False
    have "map_of (hashMap c) k' = Some j \<longleftrightarrow> j \<in> set as \<union> set bs \<and> nk (slots c ! (j - 1)) = k'"
      by (rule inv_map [OF I])
    then show ?thesis using False k old by (auto split: if_splits)
  qed
  have K: "distinct (map fst ?H)" using inv_keys [OF I] by simp
  have inv': "cache_inv vlen ?c' (i # removeAll i as) (removeAll i bs)"
    and ent': "map (entry_at ?c') (i # removeAll i as) = (k, v, ex) # map (entry_at c) (removeAll i as)"
    using inv_touch [OF I i L(2,3) _ K H, of ?b ?ne] e by simp_all
  have "removeAll i as = (if bs = [] then butlast as else as)"
  proof (cases "bs = []")
    case True
    then have "as = butlast as @ [i]" using iA ne by (metis append_Nil2 append_butlast_last_id)
    moreover have "i \<notin> set (butlast as)" using d \<open>as = butlast as @ [i]\<close> True
      by (metis append_Nil2 distinct_butlast not_distinct_conv_prefix)
    ultimately show ?thesis using True by (metis append_Nil2 removeAll.simps removeAll_append removeAll_id)
  next
    case False
    then show ?thesis using iA by simp
  qed
  then have R: "rep vlen ?c' ((k, v, ex) # (if bs = [] then butlast (map (entry_at c) as) else map (entry_at c) as))"
    using repI [OF inv' ent'] by (cases "bs = []") (simp_all add: map_butlast)
  have calls: "(\<lambda>(k, v, _). (k, v)) (entry_at c i) = (nk ?old, nv ?old)" by (simp add: entry_at_def Let_def)
  have "put vlen cb c k v ex =
      Some (?c', 1, if bs = [] then fired cb [(\<lambda>(k, v, _). (k, v)) (entry_at c (last as))] else [])"
  proof -
    have "nexp ?old > 0 \<longleftrightarrow> bs = []" using lv by (simp add: live_def)
    moreover have "lget (doubleLink c) 0 P = Some i" using tail by (simp add: lget_in)
    moreover have "mget c i = Some ?old" using slot by (simp add: mget_ok)
    ultimately show ?thesis
      using k full slot L(1) lv iA(2) calls
      by (cases "bs = []") (simp_all add: put_def mset_node_ok adjust_c_def slot_bytes_def)
  qed
  with R show ?thesis by auto
qed

lemma put_fill:
  assumes I: "cache_inv vlen c as bs" and k: "map_of (hashMap c) k = None" and e: "ex > 0"
    and room: "lastIdx c < length (slots c)"
  shows "\<exists>c'. put vlen cb c k v ex = Some (c', 1, []) \<and>
    rep vlen c' ((k, v, ex) # map (entry_at c) as) \<and> length (slots c') = length (slots c)
    \<and> nevict c' = nevict c"
proof -
  let ?j = "lastIdx c + 1"
  let ?nd = "\<lparr>nk = k, nv = v, nexp = ex\<rparr>"
  have set: "set as \<union> set bs = {1..lastIdx c}" by (rule inv_set [OF I])
  then have j: "?j \<notin> set (as @ bs)" by auto
  have jl: "?j < length (doubleLink c)" using room inv_len [OF I] by simp
  have mt: "hashMap c = [] \<longleftrightarrow> as @ bs = []"
  proof
    assume "hashMap c = []"
    then have no: "i \<notin> set as \<union> set bs" for i using inv_map [OF I, of _ i] by auto
    show "as @ bs = []"
    proof (rule ccontr)
      assume "as @ bs \<noteq> []"
      then have "hd (as @ bs) \<in> set (as @ bs)" by (rule list.set_sel(1))
      then show False using no [of "hd (as @ bs)"] by simp
    qed
  next
    assume "as @ bs = []"
    then have no: "map_of (hashMap c) k' = None" for k' using inv_map [OF I, of k'] by (metis Un_iff append_is_Nil_conv empty_iff list.set(1) not_None_eq)
    show "hashMap c = []" using no [of "fst (hd (hashMap c))"] by (cases "hashMap c") auto
  qed
  obtain L where L: "push_slot (doubleLink c) ?j (hashMap c = []) = Some L" "ring N L (?j # as @ bs)"
      "length L = length (doubleLink c)"
    using push_slot_ring [OF inv_ring [OF I] _ jl j mt] by auto
  define c' where "c' = c\<lparr>slots := (slots c)[lastIdx c := ?nd], doubleLink := L, lastIdx := ?j,
      hashMap := AList.update k ?j (hashMap c), cbytes := cbytes c + entryBytes vlen k v\<rparr>"
  have nth: "slots c' ! (i - 1) = (if i = ?j then ?nd else slots c ! (i - 1))" if "i \<in> insert ?j (set as \<union> set bs)" for i
  proof (cases "i = ?j")
    case True
    then show ?thesis using room by (simp add: c'_def)
  next
    case False
    then have "i \<in> {1..lastIdx c}" using that set by auto
    then have "i - 1 \<noteq> lastIdx c" by auto
    then show ?thesis using False by (simp add: c'_def)
  qed
  have E: "map (entry_at c') as = map (entry_at c) as"
    using nth j by (auto simp: entry_at_def Let_def)
  have Ej: "entry_at c' ?j = (k, v, ex)" using nth [of ?j] by (simp add: entry_at_def)
  have EE: "map (entry_at c') (?j # as) = (k, v, ex) # map (entry_at c) as" using E Ej by simp
  have "cache_inv vlen c' (?j # as) bs"
    unfolding cache_inv_def
  proof (intro conjI)
    show "length (doubleLink c') = length (slots c') + 1" using inv_len [OF I] L(3) by (simp add: c'_def)
    show "lastIdx c' \<le> length (slots c')" using room by (simp add: c'_def)
    show "ring N (doubleLink c') ((?j # as) @ bs)" using L(2) by (simp add: c'_def)
    have "{1..?j} = insert ?j {1..lastIdx c}" by auto
    then show "set ((?j # as) @ bs) = {1..lastIdx c'}" unfolding set [symmetric] by (simp add: c'_def)
    show "distinct (map fst (hashMap c'))" using inv_keys [OF I] by (simp add: c'_def)
    show "\<forall>k' i. map_of (hashMap c') k' = Some i \<longleftrightarrow> i \<in> set ((?j # as) @ bs) \<and> nk (slots c' ! (i - 1)) = k'"
    proof (intro allI)
      fix k' i
      show "map_of (hashMap c') k' = Some i \<longleftrightarrow> i \<in> set ((?j # as) @ bs) \<and> nk (slots c' ! (i - 1)) = k'"
      proof (cases "i = ?j")
        case True
        have "map_of (hashMap c) k' \<noteq> Some ?j" using inv_map [OF I, of k' ?j] j by auto
        then show ?thesis using True nth [of i] by (auto simp: c'_def)
      next
        case False
        then show ?thesis using nth [of i] k inv_map [OF I, of k' i] by (auto simp: c'_def)
      qed
    qed
    show "\<forall>i\<in>set (?j # as). live c' i"
      using nth [of ?j] nth e inv_live [OF I] by (auto simp: live_def)
    show "\<forall>i\<in>set bs. \<not> live c' i" using nth j inv_dead [OF I] by (auto simp: live_def)
    show "cbytes c' = entries_bytes vlen (map (entry_at c') (?j # as))"
      unfolding EE using inv_bytes [OF I] by (simp add: c'_def)
  qed
  then have R: "rep vlen c' ((k, v, ex) # map (entry_at c) as)" by (rule repI) (rule EE)
  have "put vlen cb c k v ex = Some (c', 1, [])"
    using k room L(1) by (simp add: put_def mset_node_def aset_in Let_def c'_def)
  then show ?thesis using R by (auto simp: c'_def)
qed

text \<open>
  \<open>put\<close> is the put of an LRU list whose capacity is the number of slots, whatever the
  branch: reviving a dead slot, overwriting, recycling the tail or filling a fresh slot.
\<close>

definition evicted_calls :: "bool \<Rightarrow> 'v entry list \<Rightarrow> 'v call list" where
  "evicted_calls cb es = fired cb (map (\<lambda>(k, v, _). (k, v)) es)"

lemma put_rep:
  assumes R: "rep vlen c es" and e: "ex > 0" and cap: "0 < length (slots c)"
  shows "\<exists>c' r. put vlen cb c k v ex = Some (c', r, evicted_calls cb (snd (lru_put (length (slots c)) (k, v, ex) es)))
    \<and> rep vlen c' (fst (lru_put (length (slots c)) (k, v, ex) es)) \<and> length (slots c') = length (slots c)
    \<and> nevict c' = nevict c + int (length (snd (lru_put (length (slots c)) (k, v, ex) es)))"
proof -
  obtain as bs where I: "cache_inv vlen c as bs" and es: "es = map (entry_at c) as"
    using R by (auto simp: rep_def)
  note len = inv_length [OF I] inv_last [OF I]
  show ?thesis
  proof (cases "map_of (hashMap c) k")
    case (Some i)
    have "k \<in> fst ` set es \<or> length es \<noteq> length (slots c)"
    proof (cases "i \<in> set as")
      case True
      then have "k \<in> fst ` set es" unfolding es key_in_entries [OF I] using Some by blast
      then show ?thesis ..
    next
      case False
      then have "bs \<noteq> []" using inv_key [OF I Some] by auto
      then have "length as < length (slots c)" using len by (cases bs) auto
      then show ?thesis by (simp add: es)
    qed
    then show ?thesis using put_hit [OF I Some e, of cb v] es by (auto simp: lru_put_def evicted_calls_def fired_def)
  next
    case None
    have abs: "k \<notin> fst ` set es" unfolding es by (rule key_absent [OF I None])
    show ?thesis
    proof (cases "lastIdx c = length (slots c)")
      case True
      have ne: "bs = [] \<Longrightarrow> as \<noteq> []" using len True cap by auto
      show ?thesis
        using put_recycle [OF I None e True cap, of cb v] abs ne len True lru_remove_absent [OF abs]
        by (cases "bs = []") (auto simp: lru_put_def evicted_calls_def es last_map fired_def)
    next
      case False
      then show ?thesis using put_fill [OF I None e, of cb v] abs len lru_remove_absent [OF abs]
        by (auto simp: lru_put_def evicted_calls_def es fired_def)
    qed
  qed
qed

subsection \<open>peek, del and drop\<close>

lemma del_rep_hit:
  assumes I: "cache_inv vlen c as bs" and k: "map_of (hashMap c) k = Some i" and i: "i \<in> set as"
  shows "\<exists>c'. del vlen c k = Some (c', Some (i, nexp (slots c ! (i - 1)))) \<and>
    cache_inv vlen c' (removeAll i as) (bs @ [i]) \<and>
    map (entry_at c') (removeAll i as) = lru_remove k (map (entry_at c) as) \<and>
    nv (slots c' ! (i - 1)) = nv (slots c ! (i - 1)) \<and>
    length (slots c') = length (slots c) \<and> nevict c' = nevict c"
proof -
  note hit = slot_of_hit [OF I k]
  let ?nd = "(slots c ! (i - 1))\<lparr>nexp := 0\<rparr>"
  let ?b = "cbytes c - slot_bytes vlen c i"
  obtain L where L: "adjust (doubleLink c) i N P = Some L" "ring N L (removeAll i (as @ bs) @ [i])"
      "length L = length (doubleLink c)"
    using adjust_rear_removeAll [OF inv_ring [OF I], of i] i by auto
  let ?c' = "c\<lparr>doubleLink := L, slots := (slots c)[i - 1 := ?nd], cbytes := ?b, nevict := nevict c\<rparr>"
  have inv': "cache_inv vlen ?c' (removeAll i as) (bs @ [i])"
    and ent': "map (entry_at ?c') (removeAll i as) = map (entry_at c) (removeAll i as)"
    using inv_retire [OF I i L(2,3), of ?nd ?b "nevict c"] by simp_all
  have "map (entry_at c) (removeAll i as) = lru_remove k (map (entry_at c) as)"
    using map_entry_remove [OF I hit(2)] hit(3) by simp
  moreover have "nexp (slots c ! (i - 1)) > 0" using inv_live [OF I i] by (simp add: live_def)
  then have "del vlen c k = Some (?c', Some (i, nexp (slots c ! (i - 1))))"
    using k hit L(1) by (simp add: del_def Let_def mset_node_ok adjust_c_def slot_bytes_def)
  moreover have "nv (slots ?c' ! (i - 1)) = nv (slots c ! (i - 1))" using hit(4,5) by simp
  ultimately show ?thesis using inv' ent' by auto
qed

lemma del_rep_miss:
  assumes I: "cache_inv vlen c as bs" and k: "\<And>i. map_of (hashMap c) k = Some i \<Longrightarrow> i \<notin> set as"
  shows "del vlen c k = Some (c, None)"
proof (cases "map_of (hashMap c) k")
  case (Some i)
  then have "\<not> live c i" using inv_key [OF I Some] k inv_dead [OF I] by auto
  then show ?thesis using Some slot_of_hit [OF I Some] by (simp add: del_def live_def)
qed (simp add: del_def)

lemma take_value_inv:
  assumes I: "cache_inv vlen c as bs" and i: "i \<in> set bs"
  shows "\<exists>c'. take_value c i = Some (c', nv (slots c ! (i - 1))) \<and> cache_inv vlen c' as bs \<and>
    map (entry_at c') as = map (entry_at c) as \<and> length (slots c') = length (slots c) \<and> nevict c' = nevict c"
proof -
  have slot: "0 < i" "i \<le> length (slots c)" using inv_slot [OF I] i by auto
  define c' where "c' = c\<lparr>slots := (slots c)[i - 1 := (slots c ! (i - 1))\<lparr>nv := None\<rparr>]\<rparr>"
  have d: "i \<notin> set as" using inv_distinct [OF I] i by auto
  have nth: "slots c' ! (j - 1) = (if j = i then (slots c ! (i - 1))\<lparr>nv := None\<rparr> else slots c ! (j - 1))"
    if "j \<in> set as \<union> set bs" for j
  proof -
    have "j - 1 = i - 1 \<longleftrightarrow> j = i" using inv_slot [OF I that] slot by linarith
    then show ?thesis using slot by (auto simp: c'_def nth_list_update)
  qed
  have E: "map (entry_at c') as = map (entry_at c) as" using nth d by (auto simp: entry_at_def Let_def)
  have lv: "live c' j \<longleftrightarrow> live c j" and kk: "nk (slots c' ! (j - 1)) = nk (slots c ! (j - 1))"
    if "j \<in> set as \<union> set bs" for j using nth [OF that] by (auto simp: live_def)
  have same: "doubleLink c' = doubleLink c" "hashMap c' = hashMap c" "lastIdx c' = lastIdx c"
    "cbytes c' = cbytes c" "length (slots c') = length (slots c)" "nevict c' = nevict c" by (simp_all add: c'_def)
  have "cache_inv vlen c' as bs"
    unfolding cache_inv_def same E
  proof (intro conjI)
    show "\<forall>k i. map_of (hashMap c) k = Some i \<longleftrightarrow> i \<in> set (as @ bs) \<and> nk (slots c' ! (i - 1)) = k"
      using kk inv_map [OF I] by (metis Un_iff set_append)
    show "\<forall>i\<in>set as. live c' i" "\<forall>i\<in>set bs. \<not> live c' i"
      using lv inv_live [OF I] inv_dead [OF I] by blast+
  qed (use I in \<open>simp_all add: cache_inv_def\<close>)
  then show ?thesis using slot E same by (auto simp: take_value_def go_simps c'_def)
qed

text \<open>
  \<open>del\<close> followed by the release of the value: the key leaves the live list, the expiry and the
  value of the removed entry are returned.
\<close>

definition del_take :: "('v \<Rightarrow> int) \<Rightarrow> 'v cache \<Rightarrow> string \<Rightarrow> ('v cache \<times> ('v option \<times> int) option) option" where
  "del_take vlen c key = do {
     (c1, r) \<leftarrow> del vlen c key;
     case r of
       Some (idx, e) \<Rightarrow> do { (c2, v) \<leftarrow> take_value c1 idx; Some (c2, Some (v, e)) }
     | None \<Rightarrow> Some (c1, None)
   }"

lemma find_entry:
  assumes I: "cache_inv vlen c as bs"
  shows "lru_find k (map (entry_at c) as) = (case map_of (hashMap c) k of
      Some i \<Rightarrow> if i \<in> set as then Some (nv (slots c ! (i - 1)), nexp (slots c ! (i - 1))) else None
    | None \<Rightarrow> None)"
proof -
  have inj: "nk (slots c ! (i - 1)) = nk (slots c ! (j - 1)) \<longleftrightarrow> i = j" if "i \<in> set as" "j \<in> set as" for i j
    using inv_key_eq [OF I] that by blast
  have "map_of (map (entry_at c) xs) k = (case map_of (hashMap c) k of
      Some i \<Rightarrow> if i \<in> set xs then Some (nv (slots c ! (i - 1)), nexp (slots c ! (i - 1))) else None
    | None \<Rightarrow> None)" if "set xs \<subseteq> set as" for xs
    using that
  proof (induction xs)
    case Nil
    then show ?case by (simp split: option.splits)
  next
    case (Cons x xs)
    have hx: "map_of (hashMap c) k = Some x \<longleftrightarrow> nk (slots c ! (x - 1)) = k"
      using Cons.prems inv_map [OF I] by auto
    show ?case
    proof (cases "nk (slots c ! (x - 1)) = k")
      case True
      then show ?thesis using hx by (simp add: entry_at_def Let_def)
    next
      case False
      then show ?thesis using hx Cons by (auto simp: entry_at_def Let_def split: option.splits)
    qed
  qed
  then show ?thesis by (simp add: lru_find_def)
qed

lemma del_take_rep:
  assumes "rep vlen c es"
  shows "\<exists>c'. del_take vlen c k = Some (c', lru_find k es) \<and> rep vlen c' (lru_remove k es) \<and>
    length (slots c') = length (slots c) \<and> nevict c' = nevict c"
proof -
  obtain as bs where I: "cache_inv vlen c as bs" and es: "es = map (entry_at c) as"
    using assms by (auto simp: rep_def)
  show ?thesis
  proof (cases "\<exists>i \<in> set as. map_of (hashMap c) k = Some i")
    case True
    then obtain i where i: "i \<in> set as" "map_of (hashMap c) k = Some i" by blast
    obtain c1 where c1: "del vlen c k = Some (c1, Some (i, nexp (slots c ! (i - 1))))"
      "cache_inv vlen c1 (removeAll i as) (bs @ [i])"
      "map (entry_at c1) (removeAll i as) = lru_remove k (map (entry_at c) as)"
      "nv (slots c1 ! (i - 1)) = nv (slots c ! (i - 1))"
      "length (slots c1) = length (slots c)" "nevict c1 = nevict c"
      using del_rep_hit [OF I i(2,1)] by blast
    obtain c2 where c2: "take_value c1 i = Some (c2, nv (slots c1 ! (i - 1)))"
      "cache_inv vlen c2 (removeAll i as) (bs @ [i])"
      "map (entry_at c2) (removeAll i as) = map (entry_at c1) (removeAll i as)"
      "length (slots c2) = length (slots c1)" "nevict c2 = nevict c1"
      using take_value_inv [OF c1(2), of i] by auto
    have "del_take vlen c k = Some (c2, lru_find k es)"
      using c1(1,4) c2(1) i by (simp add: del_take_def es find_entry [OF I])
    moreover have "rep vlen c2 (lru_remove k es)"
      using repI [OF c2(2)] c2(3) c1(3) es by simp
    ultimately show ?thesis using c1(5,6) c2(4,5) by auto
  next
    case False
    then have "k \<notin> fst ` set es" unfolding es key_in_entries [OF I] by simp
    moreover have "lru_find k es = None"
      using False by (auto simp: es find_entry [OF I] split: option.splits)
    moreover have "del vlen c k = Some (c, None)" using False by (intro del_rep_miss [OF I]) auto
    ultimately show ?thesis using assms by (simp add: del_take_def lru_remove_absent)
  qed
qed

lemma drop_key_del_take: "drop_key vlen c k = map_option fst (del_take vlen c k)"
  by (auto simp: drop_key_def del_take_def split: Option.bind_splits option.splits prod.splits)

lemma drop_key_rep:
  assumes "rep vlen c es"
  shows "\<exists>c'. drop_key vlen c k = Some c' \<and> rep vlen c' (lru_remove k es) \<and>
    length (slots c') = length (slots c) \<and> nevict c' = nevict c"
  using del_take_rep [OF assms, of k] by (auto simp: drop_key_del_take)

text \<open>
  \<open>peek\<close> returns the slot of a key, dead or alive; callers test \<open>expireAt > 0\<close>. Moving
  the slot of a live key to the front is the touch of the LRU list.
\<close>

definition peek_live :: "'v cache \<Rightarrow> string \<Rightarrow> (nat \<times> 'v option \<times> int) option option" where
  "peek_live c key = do {
     r \<leftarrow> peek c key;
     Some (case r of Some (idx, nd) \<Rightarrow> if nexp nd > 0 then Some (idx, nv nd, nexp nd) else None | None \<Rightarrow> None)
   }"

lemma peek_live_find:
  assumes I: "cache_inv vlen c as bs"
  shows "peek_live c k = Some (case map_of (hashMap c) k of
      Some i \<Rightarrow> if i \<in> set as then Some (i, nv (slots c ! (i - 1)), nexp (slots c ! (i - 1))) else None
    | None \<Rightarrow> None)"
proof (cases "map_of (hashMap c) k")
  case (Some i)
  have "nexp (slots c ! (i - 1)) > 0 \<longleftrightarrow> i \<in> set as"
    using inv_key [OF I Some] inv_live [OF I] inv_dead [OF I] by (auto simp: live_def)
  then show ?thesis using Some slot_of_hit [OF I Some] by (simp add: peek_live_def peek_def)
qed (simp add: peek_live_def peek_def)

lemma touch_rep:
  assumes "rep vlen c es" and p: "peek_live c k = Some (Some (i, v, e))"
  shows "lru_find k es = Some (v, e)" "e > 0"
    "\<exists>c'. adjust_c c i P N = Some c' \<and> rep vlen c' ((k, v, e) # lru_remove k es) \<and>
       length (slots c') = length (slots c) \<and> nevict c' = nevict c"
proof -
  obtain as bs where I: "cache_inv vlen c as bs" and es: "es = map (entry_at c) as"
    using assms(1) by (auto simp: rep_def)
  have i: "map_of (hashMap c) k = Some i" "i \<in> set as" and ve: "v = nv (slots c ! (i - 1))" "e = nexp (slots c ! (i - 1))"
    using p by (auto simp: peek_live_find [OF I] split: option.splits if_splits)
  note hit = slot_of_hit [OF I i(1)]
  show "lru_find k es = Some (v, e)" using i ve by (simp add: es find_entry [OF I])
  show e: "e > 0" using inv_live [OF I i(2)] ve by (simp add: live_def)
  obtain L where L: "adjust (doubleLink c) i P N = Some L" "ring N L (i # removeAll i (as @ bs))"
      "length L = length (doubleLink c)"
    using adjust_front_removeAll [OF inv_ring [OF I], of i] i by auto
  let ?nd = "slots c ! (i - 1)"
  have H: "map_of (hashMap c) k' = Some j \<longleftrightarrow>
      j \<in> set as \<union> set bs \<and> (if j = i then nk ?nd else nk (slots c ! (j - 1))) = k'" for k' j
    unfolding inv_map [OF I] by auto
  let ?c' = "c\<lparr>doubleLink := L, slots := (slots c)[i - 1 := ?nd], hashMap := hashMap c,
               cbytes := cbytes c, nevict := nevict c\<rparr>"
  have "cache_inv vlen ?c' (i # removeAll i as) (removeAll i bs)"
    "map (entry_at ?c') (i # removeAll i as) = (k, v, e) # map (entry_at c) (removeAll i as)"
    using inv_touch [OF I hit(2) L(2,3) _ inv_keys [OF I] H, of "cbytes c" "nevict c"] hit(3) ve e inv_live [OF I i(2)]
    by (simp_all add: slot_bytes_def)
  moreover have "?c' = c\<lparr>doubleLink := L\<rparr>" by simp
  ultimately have "rep vlen (c\<lparr>doubleLink := L\<rparr>) ((k, v, e) # lru_remove k es)"
    using map_entry_remove [OF I hit(2)] hit(3) by (metis es repI)
  then show "\<exists>c'. adjust_c c i P N = Some c' \<and> rep vlen c' ((k, v, e) # lru_remove k es) \<and>
       length (slots c') = length (slots c) \<and> nevict c' = nevict c"
    using L(1) by (simp add: adjust_c_def)
qed

lemma peek_live_rep:
  assumes "rep vlen c es"
  shows "\<exists>r. peek_live c k = Some r \<and> map_option snd r = lru_find k es"
proof -
  obtain as bs where I: "cache_inv vlen c as bs" and es: "es = map (entry_at c) as"
    using assms by (auto simp: rep_def)
  show ?thesis unfolding es peek_live_find [OF I] find_entry [OF I] by (simp split: option.split)
qed

subsection \<open>evictOldest\<close>

lemma evict_loop_skip:
  assumes I: "cache_inv vlen c as (b1 @ b2)"
  shows "length b1 < fuel \<Longrightarrow>
    evict_loop vlen cb fuel c (last (0 # as @ b1)) =
    evict_loop vlen cb (fuel - length b1) c (last (0 # as))"
  using I
proof (induction b1 arbitrary: b2 fuel rule: rev_induct)
  case Nil
  then show ?case by simp
next
  case (snoc b b1)
  obtain n where n: "fuel = Suc n" using snoc.prems(1) by (cases fuel) auto
  have b: "0 < b" "b \<le> length (slots c)" using inv_slot [OF snoc.prems(2), of b] by auto
  have "\<not> live c b" using inv_dead [OF snoc.prems(2), of b] by simp
  then have dead: "nexp (slots c ! (b - 1)) \<le> 0" by (simp add: live_def)
  have R: "ring N (doubleLink c) ((as @ b1) @ b # b2)" using inv_ring [OF snoc.prems(2)] by simp
  have "lk (doubleLink c) b P = last (0 # as @ b1)" using ring_next(2) [OF R] by simp
  moreover have "b < length (doubleLink c)" using b inv_len [OF snoc.prems(2)] by simp
  ultimately have "evict_loop vlen cb fuel c (last (0 # as @ b1 @ [b])) = evict_loop vlen cb n c (last (0 # as @ b1))"
    using n b dead by (simp add: mget_ok lget_in)
  also have "\<dots> = evict_loop vlen cb (n - length b1) c (last (0 # as))"
    using snoc.IH [of n "b # b2"] snoc.prems n by simp
  finally show ?case using n by simp
qed

lemma evictOldest_rep:
  assumes "rep vlen c es"
  shows "\<exists>c'. evictOldest vlen cb c = Some (c', es \<noteq> [], evicted_calls cb (if es = [] then [] else [last es])) \<and>
    rep vlen c' (butlast es) \<and> length (slots c') = length (slots c) \<and>
    nevict c' = nevict c + (if es = [] then 0 else 1)"
proof -
  obtain as bs where I: "cache_inv vlen c as bs" and es: "es = map (entry_at c) as"
    using assms by (auto simp: rep_def)
  let ?n = "length (doubleLink c)"
  have n: "length bs < ?n" using inv_length [OF I] inv_last [OF I] inv_len [OF I] by simp
  have h: "lget (doubleLink c) 0 P = Some (last (0 # as @ bs))"
    using ring_last [OF inv_ring [OF I]] inv_len [OF I] by (simp add: lget_in)
  have "evictOldest vlen cb c = evict_loop vlen cb ?n c (last (0 # as @ bs))"
    using h by (simp add: evictOldest_def)
  also have "\<dots> = evict_loop vlen cb (?n - length bs) c (last (0 # as))"
    using evict_loop_skip [of vlen c as bs "[]" ?n cb] I n by simp
  finally have E: "evictOldest vlen cb c = evict_loop vlen cb (?n - length bs) c (last (0 # as))" .
  obtain f where f: "?n - length bs = Suc f" using n by (cases "?n - length bs") auto
  show ?thesis
  proof (cases "as = []")
    case True
    then show ?thesis using E f es assms by (simp add: evicted_calls_def fired_def)
  next
    case False
    define i where "i = last as"
    have i: "i \<in> set as" using False by (simp add: i_def)
    have d: "distinct as" using inv_distinct [OF I] by simp
    have rm: "removeAll i as = butlast as"
    proof -
      have "as = butlast as @ [i]" using False by (simp add: i_def)
      then show ?thesis using d
        by (metis distinct_append distinct_butlast not_distinct_conv_prefix removeAll.simps removeAll_append removeAll_id append_Nil2)
    qed
    have slot: "0 < i" "i \<le> length (slots c)" using inv_slot [OF I, of i] i by auto
    have lv: "nexp (slots c ! (i - 1)) > 0" using inv_live [OF I i] by (simp add: live_def)
    let ?nd = "(slots c ! (i - 1))\<lparr>nexp := 0, nv := None\<rparr>"
    let ?b = "cbytes c - slot_bytes vlen c i"
    obtain L where L: "adjust (doubleLink c) i N P = Some L" "ring N L (removeAll i (as @ bs) @ [i])"
        "length L = length (doubleLink c)"
      using adjust_rear_removeAll [OF inv_ring [OF I], of i] i by auto
    let ?c' = "c\<lparr>doubleLink := L, slots := (slots c)[i - 1 := ?nd], cbytes := ?b, nevict := nevict c + 1\<rparr>"
    have inv': "cache_inv vlen ?c' (removeAll i as) (bs @ [i])"
      and ent': "map (entry_at ?c') (removeAll i as) = map (entry_at c) (removeAll i as)"
      using inv_retire [OF I i L(2,3), of ?nd ?b "nevict c + 1"] by simp_all
    have "rep vlen ?c' (butlast es)" using repI [OF inv'] ent' rm es by (simp add: map_butlast)
    moreover have "last (0 # as) = i" using False by (simp add: i_def)
    then have "evictOldest vlen cb c = Some (?c', True, fired cb [(nk (slots c ! (i - 1)), nv (slots c ! (i - 1)))])"
      using E f slot lv L(1) by (simp add: mget_ok mset_node_ok adjust_c_def slot_bytes_def)
    moreover have "last es = entry_at c i" using False es by (simp add: last_map i_def)
    ultimately show ?thesis using False es by (auto simp: evicted_calls_def fired_def entry_at_def Let_def)
  qed
qed

subsection \<open>walk\<close>

fun fold_until :: "('s \<Rightarrow> 'e \<Rightarrow> 's \<times> bool) \<Rightarrow> 'e list \<Rightarrow> 's \<Rightarrow> 's" where
  "fold_until f [] s = s"
| "fold_until f (e # es) s = (let (s', go) = f s e in if go then fold_until f es s' else s')"

lemma walk_loop_suffix:
  assumes I: "cache_inv vlen c as bs" and o: "as @ bs = pre @ rest"
  shows "length rest < fuel \<Longrightarrow> walk_loop w fuel c (hd (rest @ [0])) s =
    Some (fold_until w (map (entry_at c) (filter (live c) rest)) s)"
  using o
proof (induction rest arbitrary: pre fuel s)
  case Nil
  then show ?case by (cases fuel) auto
next
  case (Cons i rest)
  obtain n where n: "fuel = Suc n" using Cons.prems(1) by (cases fuel) auto
  have "i \<in> set (as @ bs)" using Cons.prems(2) by simp
  then have i: "i \<in> set as \<union> set bs" by simp
  have slot: "0 < i" "i \<le> length (slots c)" using inv_slot [OF I i] by auto
  have R: "ring N (doubleLink c) (pre @ i # rest)" using inv_ring [OF I] Cons.prems(2) by simp
  have nx: "lget (doubleLink c) i N = Some (hd (rest @ [0]))"
    using ring_next(1) [OF R] slot inv_len [OF I] by (cases rest) (auto simp: lget_in)
  have IH: "walk_loop w n c (hd (rest @ [0])) s' = Some (fold_until w (map (entry_at c) (filter (live c) rest)) s')" for s'
    using Cons.IH [of n "pre @ [i]"] Cons.prems n by simp
  have E: "live c i \<longleftrightarrow> nexp (slots c ! (i - 1)) > 0"
    "entry_at c i = (nk (slots c ! (i - 1)), nv (slots c ! (i - 1)), nexp (slots c ! (i - 1)))"
    by (simp_all add: live_def entry_at_def Let_def)
  show ?case
    using n slot nx IH by (simp add: mget_ok E split: prod.split)
qed

lemma walk_rep:
  assumes "rep vlen c es"
  shows "walk w c s = Some (fold_until w es s)"
proof -
  obtain as bs where I: "cache_inv vlen c as bs" and es: "es = map (entry_at c) as"
    using assms by (auto simp: rep_def)
  have n: "length (as @ bs) < length (doubleLink c)"
    using inv_length [OF I] inv_last [OF I] inv_len [OF I] by simp
  have h: "lget (doubleLink c) 0 N = Some (hd ((as @ bs) @ [0]))"
    using ring_first [OF inv_ring [OF I]] inv_len [OF I] by (auto simp: lget_in hd_append)
  have "filter (live c) (as @ bs) = as"
    using inv_live [OF I] inv_dead [OF I] by (intro filter_takeWhile_append) (auto simp: list_all_iff)
  then show ?thesis using walk_loop_suffix [OF I, of "[]" "as @ bs"] n h by (simp add: walk_def es)
qed

text \<open>The list of live entries, collected with \<open>walk\<close>: an executable abstraction function.\<close>

definition entries :: "'v cache \<Rightarrow> 'v entry list option" where
  "entries c = map_option rev (walk (\<lambda>acc e. (e # acc, True)) c [])"

lemma fold_until_rev: "fold_until (\<lambda>acc e. (e # acc, True)) es acc = rev es @ acc"
  by (induction es arbitrary: acc) auto

lemma rep_entries: "rep vlen c es \<Longrightarrow> entries c = Some es"
  by (simp add: entries_def walk_rep fold_until_rev)

lemma rep_unique: "rep vlen c es \<Longrightarrow> rep vlen c es' \<Longrightarrow> es = es'"
  using rep_entries [of vlen c es] rep_entries [of vlen c es'] by simp

lemma rep_distinct: "rep vlen c es \<Longrightarrow> distinct (map fst es)"
proof -
  assume "rep vlen c es"
  then obtain as bs where I: "cache_inv vlen c as bs" and es: "es = map (entry_at c) as" by (auto simp: rep_def)
  have "inj_on (\<lambda>i. fst (entry_at c i)) (set as)"
    using inv_key_eq [OF I] by (auto simp: inj_on_def entry_at_def Let_def)
  moreover have "distinct as" using inv_distinct [OF I] by simp
  ultimately show ?thesis by (simp add: es distinct_map o_def)
qed

lemma rep_bytes: "rep vlen c es \<Longrightarrow> cbytes c = entries_bytes vlen es"
  by (auto simp: rep_def dest: inv_bytes)

lemma rep_length: "rep vlen c es \<Longrightarrow> length es \<le> length (slots c)"
proof -
  assume "rep vlen c es"
  then obtain as bs where I: "cache_inv vlen c as bs" and es: "es = map (entry_at c) as" by (auto simp: rep_def)
  then show ?thesis using inv_length [OF I] inv_last [OF I] by simp
qed

lemma rep_positive:
  assumes "rep vlen c es" "(k, v, e) \<in> set es"
  shows "e > 0"
proof -
  obtain as bs where I: "cache_inv vlen c as bs" and es: "es = map (entry_at c) as"
    using assms(1) by (auto simp: rep_def)
  then obtain i where "i \<in> set as" "entry_at c i = (k, v, e)" using assms(2) by auto
  then show ?thesis using inv_live [OF I, of i] by (simp add: live_def entry_at_def Let_def)
qed

subsection \<open>Create\<close>

text \<open>
  \<open>Create\<close> gives an empty cache for every capacity below 65535. At 65535 the length
  \<open>cap + 1\<close> of \<open>doubleLink\<close> wraps to 0 and the first access panics.
\<close>

lemma Create_rep:
  assumes "c < 65535"
  shows "rep vlen (Create c) []" "length (slots (Create c)) = unat c"
proof -
  have "unat (c + 1) = unat c + 1"
    using assms by (simp add: unat_word_ariths word_less_nat_alt)
  then have "cache_inv vlen (Create c) [] []"
    by (auto simp: cache_inv_def Create_def ring_def lk_def live_def)
  then show "rep vlen (Create c) []" by (rule repI) simp
  show "length (slots (Create c)) = unat c" by (simp add: Create_def)
qed

end
