(* ===== verification/Lru_Store.thy ===== *)
theory Lru_Store
  imports Lru_Refine
begin

unbundle bit_operations_syntax

text \<open>
  The two level store \<open>lruStore\<close> of \<open>swifty_cache/lru.go\<close>: an array of buckets, each a
  pair of slot caches (level 1 takes every write, level 2 takes the entries that were read again),
  selected by \<open>HashBKRD\<close>. One definition per method; the lock of a bucket is held for a whole
  method, so a method is one function. The clock \<open>Now()\<close> is the parameter \<open>now\<close>, the
  unspecified iteration order of a Go map is the parameter \<open>ord\<close>, and \<open>None\<close> is a
  panic. The background goroutines (clock, ticker) are represented by the operation they run,
  \<open>cleanup\<close>.
\<close>

record StoreOptions =
  oMaxBytes :: int
  oBucketCount :: "16 word"
  oCapPerBucket :: "16 word"
  oLevel2Cap :: "16 word"
  oOnEvicted :: bool

definition NewStoreOptions :: StoreOptions where
  "NewStoreOptions = \<lparr>oMaxBytes = 8 * 1024 * 1024, oBucketCount = 16, oCapPerBucket = 512,
     oLevel2Cap = 256, oOnEvicted = False\<rparr>"

record 'v lruStore =
  caches :: "('v cache \<times> 'v cache) list"
  onEvicted :: bool
  maxBucketBytes :: int
  bmask :: "32 word"

fun HashBKRD_from :: "32 word \<Rightarrow> string \<Rightarrow> 32 word" where
  "HashBKRD_from h [] = h"
| "HashBKRD_from h (c # cs) = HashBKRD_from (h * 131 + of_char c) cs"

definition HashBKRD :: "string \<Rightarrow> 32 word" where
  "HashBKRD s = HashBKRD_from 0 s"

definition MaskOfNextPowOf2 :: "16 word \<Rightarrow> 16 word" where
  "MaskOfNextPowOf2 cap =
    (if cap > 0 \<and> cap AND (cap - 1) = 0 then cap - 1
     else let c1 = cap OR drop_bit 1 cap;
              c2 = c1 OR drop_bit 2 c1;
              c3 = c2 OR drop_bit 4 c2
          in c3 OR drop_bit 8 c3)"

text \<open>
  \<open>NewStore\<close>: the defaults for zero fields, the mask, the per bucket byte budget (an integer
  division, which panics when \<open>mask+1\<close> wraps to 0) and the buckets.
\<close>

definition NewStore :: "StoreOptions \<Rightarrow> 'v lruStore option" where
  "NewStore opts =
    (let bc = (if oBucketCount opts = 0 then 16 else oBucketCount opts);
         c1 = (if oCapPerBucket opts = 0 then 512 else oCapPerBucket opts);
         c2 = (if oLevel2Cap opts = 0 then 256 else oLevel2Cap opts);
         msk = MaskOfNextPowOf2 bc;
         nb = msk + 1
     in if oMaxBytes opts > 0 \<and> nb = 0 then None
        else let q = oMaxBytes opts div uint nb;
                 mbb = (if oMaxBytes opts > 0 then (if q \<le> 0 then 1 else q) else 0)
             in Some \<lparr>caches = replicate (unat nb) (Create c1, Create c2), onEvicted = oOnEvicted opts,
                  maxBucketBytes = mbb, bmask = ucast msk\<rparr>)"

definition bucket :: "'v lruStore \<Rightarrow> string \<Rightarrow> nat" where
  "bucket s key = unat (HashBKRD key AND bmask s)"

definition set_bucket :: "'v lruStore \<Rightarrow> nat \<Rightarrow> 'v cache \<times> 'v cache \<Rightarrow> 'v lruStore" where
  "set_bucket s i cc = s\<lparr>caches := (caches s)[i := cc]\<rparr>"

definition store_Get :: "('v \<Rightarrow> int) \<Rightarrow> 'v lruStore \<Rightarrow> int \<Rightarrow> string
    \<Rightarrow> ('v lruStore \<times> 'v option option \<times> 'v call list) option" where
  "store_Get vlen s now key = do {
     let idx = bucket s key;
     (c1, c2) \<leftarrow> aget (caches s) idx;
     (c1', r) \<leftarrow> del_take vlen c1 key;
     case r of
       Some (v, expireAt) \<Rightarrow>
         if now \<ge> expireAt then do {
           c2' \<leftarrow> drop_key vlen c2 key;
           Some (set_bucket s idx (c1', c2'), None, fired (onEvicted s) [(key, v)])
         } else do {
           (c2', _, calls) \<leftarrow> put vlen (onEvicted s) c2 key v expireAt;
           Some (set_bucket s idx (c1', c2'), Some v, calls)
         }
     | None \<Rightarrow> do {
         q \<leftarrow> peek_live c2 key;
         case q of
           Some (idx2, v, expireAt) \<Rightarrow>
             if now \<ge> expireAt then do {
               c2' \<leftarrow> drop_key vlen c2 key;
               Some (set_bucket s idx (c1', c2'), None, fired (onEvicted s) [(key, v)])
             } else do {
               c2' \<leftarrow> adjust_c c2 idx2 P N;
               Some (set_bucket s idx (c1', c2'), Some v, [])
             }
         | None \<Rightarrow> Some (set_bucket s idx (c1', c2), None, [])
       }
   }"

text \<open>\<open>evictFromBucket\<close> on one bucket: the oldest of level 1, else the oldest of level 2.\<close>

definition evictFromBucket :: "('v \<Rightarrow> int) \<Rightarrow> bool \<Rightarrow> 'v cache \<times> 'v cache
    \<Rightarrow> (('v cache \<times> 'v cache) \<times> bool \<times> 'v call list) option" where
  "evictFromBucket vlen cb cc = do {
     (c1, ok, calls) \<leftarrow> evictOldest vlen cb (fst cc);
     if ok then Some ((c1, snd cc), True, calls)
     else do {
       (c2, ok2, calls2) \<leftarrow> evictOldest vlen cb (snd cc);
       Some ((c1, c2), ok2, calls @ calls2)
     }
   }"

fun budget_loop :: "('v \<Rightarrow> int) \<Rightarrow> bool \<Rightarrow> int \<Rightarrow> nat \<Rightarrow> 'v cache \<times> 'v cache \<Rightarrow> 'v call list
    \<Rightarrow> (('v cache \<times> 'v cache) \<times> 'v call list) option" where
  "budget_loop vlen cb maxb 0 cc acc = None"
| "budget_loop vlen cb maxb (Suc fuel) cc acc =
    (if cbytes (fst cc) + cbytes (snd cc) > maxb then do {
       (cc', ok, calls) \<leftarrow> evictFromBucket vlen cb cc;
       if ok then budget_loop vlen cb maxb fuel cc' (acc @ calls) else Some (cc', acc @ calls)
     } else Some (cc, acc))"

definition expiryOf :: "int \<Rightarrow> int \<Rightarrow> int" where
  "expiryOf now expiration = (if expiration > 0 then wrap64 (now + expiration) else maxInt64)"

definition store_SetWithExpiration :: "('v \<Rightarrow> int) \<Rightarrow> 'v lruStore \<Rightarrow> int \<Rightarrow> string \<Rightarrow> 'v option \<Rightarrow> int
    \<Rightarrow> ('v lruStore \<times> 'v call list) option" where
  "store_SetWithExpiration vlen s now key value expiration = do {
     let expireAt = expiryOf now expiration;
     let idx = bucket s key;
     (c1, c2) \<leftarrow> aget (caches s) idx;
     (c1', _, calls) \<leftarrow> put vlen (onEvicted s) c1 key value expireAt;
     c2' \<leftarrow> drop_key vlen c2 key;
     if maxBucketBytes s > 0 then do {
       (cc, calls') \<leftarrow> budget_loop vlen (onEvicted s) (maxBucketBytes s)
          (length (slots c1') + length (slots c2') + 2) (c1', c2') calls;
       Some (set_bucket s idx cc, calls')
     } else Some (set_bucket s idx (c1', c2'), calls)
   }"

definition store_Set :: "('v \<Rightarrow> int) \<Rightarrow> 'v lruStore \<Rightarrow> int \<Rightarrow> string \<Rightarrow> 'v option
    \<Rightarrow> ('v lruStore \<times> 'v call list) option" where
  "store_Set vlen s now key value = store_SetWithExpiration vlen s now key value 0"

definition store_delete :: "('v \<Rightarrow> int) \<Rightarrow> 'v lruStore \<Rightarrow> string \<Rightarrow> nat
    \<Rightarrow> ('v lruStore \<times> bool \<times> 'v call list) option" where
  "store_delete vlen s key idx = do {
     (c1, c2) \<leftarrow> aget (caches s) idx;
     (c1', r1) \<leftarrow> del_take vlen c1 key;
     (c2', r2) \<leftarrow> del_take vlen c2 key;
     let deleted = (r1 \<noteq> None \<or> r2 \<noteq> None);
     let calls = (case r1 of Some (Some v, _) \<Rightarrow> fired (onEvicted s) [(key, Some v)]
        | _ \<Rightarrow> (case r2 of Some (Some v, _) \<Rightarrow> fired (onEvicted s) [(key, Some v)] | _ \<Rightarrow> []));
     Some (set_bucket s idx (c1', c2'), deleted, calls)
   }"

definition store_Delete :: "('v \<Rightarrow> int) \<Rightarrow> 'v lruStore \<Rightarrow> string
    \<Rightarrow> ('v lruStore \<times> bool \<times> 'v call list) option" where
  "store_Delete vlen s key = store_delete vlen s key (bucket s key)"

fun delete_all :: "('v \<Rightarrow> int) \<Rightarrow> 'v lruStore \<Rightarrow> nat \<Rightarrow> string list \<Rightarrow> 'v call list
    \<Rightarrow> ('v lruStore \<times> 'v call list) option" where
  "delete_all vlen s i [] acc = Some (s, acc)"
| "delete_all vlen s i (k # ks) acc = do {
     (s', _, calls) \<leftarrow> store_delete vlen s k i;
     delete_all vlen s' i ks (acc @ calls)
   }"

text \<open>
  The keys that the two walks of a bucket collect into a Go map, in the order in which the range
  statement visits the map; \<open>pick\<close> is the condition under which the walker records the key.
\<close>

definition bucket_keys :: "(string list \<Rightarrow> string list) \<Rightarrow> ('v entry \<Rightarrow> bool) \<Rightarrow> 'v cache \<times> 'v cache \<Rightarrow> string list option" where
  "bucket_keys ord pick cc = do {
     ks1 \<leftarrow> walk (\<lambda>acc e. (if pick e then List.insert (fst e) acc else acc, True)) (fst cc) [];
     ks2 \<leftarrow> walk (\<lambda>acc e. (if pick e then List.insert (fst e) acc else acc, True)) (snd cc) ks1;
     Some (ord ks2)
   }"

fun sweep :: "('v \<Rightarrow> int) \<Rightarrow> (string list \<Rightarrow> string list) \<Rightarrow> ('v entry \<Rightarrow> bool) \<Rightarrow> nat list
    \<Rightarrow> 'v lruStore \<Rightarrow> 'v call list \<Rightarrow> ('v lruStore \<times> 'v call list) option" where
  "sweep vlen ord pick [] s acc = Some (s, acc)"
| "sweep vlen ord pick (i # is) s acc = do {
     cc \<leftarrow> aget (caches s) i;
     ks \<leftarrow> bucket_keys ord pick cc;
     (s', acc') \<leftarrow> delete_all vlen s i ks acc;
     sweep vlen ord pick is s' acc'
   }"

definition store_Clear :: "('v \<Rightarrow> int) \<Rightarrow> (string list \<Rightarrow> string list) \<Rightarrow> 'v lruStore
    \<Rightarrow> ('v lruStore \<times> 'v call list) option" where
  "store_Clear vlen ord s = sweep vlen ord (\<lambda>_. True) [0..<length (caches s)] s []"

text \<open>One firing of the ticker in \<open>cleanupLoop\<close>.\<close>

definition cleanup :: "('v \<Rightarrow> int) \<Rightarrow> (string list \<Rightarrow> string list) \<Rightarrow> 'v lruStore \<Rightarrow> int
    \<Rightarrow> ('v lruStore \<times> 'v call list) option" where
  "cleanup vlen ord s now =
    sweep vlen ord (\<lambda>(_, _, expireAt). now \<ge> expireAt) [0..<length (caches s)] s []"

fun len_loop :: "('v cache \<times> 'v cache) list \<Rightarrow> nat \<Rightarrow> nat option" where
  "len_loop [] count = Some count"
| "len_loop (cc # ccs) count = do {
     seen \<leftarrow> bucket_keys (\<lambda>ks. ks) (\<lambda>_. True) cc;
     len_loop ccs (count + length seen)
   }"

definition store_Len :: "'v lruStore \<Rightarrow> nat option" where
  "store_Len s = len_loop (caches s) 0"

definition store_Bytes :: "'v lruStore \<Rightarrow> int" where
  "store_Bytes s = sum_list (map (\<lambda>(c1, c2). cbytes c1 + cbytes c2) (caches s))"

definition store_Evictions :: "'v lruStore \<Rightarrow> int" where
  "store_Evictions s = sum_list (map (\<lambda>(c1, c2). nevict c1 + nevict c2) (caches s))"

record Entry =
  eKey :: string
  eSize :: int
  eExpireAt :: int
  eLevel :: nat

text \<open>
  \<open>Walk\<close>: level 2 first, then the keys of level 1 not seen there. \<open>value.Len()\<close> panics
  on a nil value.
\<close>

definition walk_level2 :: "('v \<Rightarrow> int) \<Rightarrow> ('s \<Rightarrow> Entry \<Rightarrow> 's \<times> bool)
    \<Rightarrow> ('s \<times> string list) option \<Rightarrow> 'v entry \<Rightarrow> ('s \<times> string list) option \<times> bool" where
  "walk_level2 vlen fn acc e = (case (acc, e) of
      (Some (s, seen), (k, Some v, ex)) \<Rightarrow>
        (let (s', go) = fn s \<lparr>eKey = k, eSize = vlen v, eExpireAt = ex, eLevel = 1\<rparr> in (Some (s', List.insert k seen), go))
    | _ \<Rightarrow> (None, False))"

definition walk_level1 :: "('v \<Rightarrow> int) \<Rightarrow> ('s \<Rightarrow> Entry \<Rightarrow> 's \<times> bool)
    \<Rightarrow> ('s \<times> string list) option \<Rightarrow> 'v entry \<Rightarrow> ('s \<times> string list) option \<times> bool" where
  "walk_level1 vlen fn acc e = (case acc of None \<Rightarrow> (None, False)
    | Some (s, seen) \<Rightarrow> (case e of (k, v, ex) \<Rightarrow>
        if k \<in> set seen then (Some (s, seen), True)
        else (case v of None \<Rightarrow> (None, False)
          | Some v' \<Rightarrow> let (s', go) = fn s \<lparr>eKey = k, eSize = vlen v', eExpireAt = ex, eLevel = 0\<rparr> in (Some (s', seen), go))))"

fun store_Walk_loop :: "('v \<Rightarrow> int) \<Rightarrow> ('s \<Rightarrow> Entry \<Rightarrow> 's \<times> bool) \<Rightarrow> ('v cache \<times> 'v cache) list \<Rightarrow> 's \<Rightarrow> 's option" where
  "store_Walk_loop vlen fn [] s = Some s"
| "store_Walk_loop vlen fn (cc # ccs) s = do {
     r2 \<leftarrow> walk (walk_level2 vlen fn) (snd cc) (Some (s, []));
     acc2 \<leftarrow> r2;
     r1 \<leftarrow> walk (walk_level1 vlen fn) (fst cc) (Some acc2);
     (s', _) \<leftarrow> r1;
     store_Walk_loop vlen fn ccs s'
   }"

definition store_Walk :: "('v \<Rightarrow> int) \<Rightarrow> ('s \<Rightarrow> Entry \<Rightarrow> 's \<times> bool) \<Rightarrow> 'v lruStore \<Rightarrow> 's \<Rightarrow> 's option" where
  "store_Walk vlen fn s acc = store_Walk_loop vlen fn (caches s) acc"

end
