(* ===== verification/Lru_Buckets.thy ===== *)
theory Lru_Buckets
  imports Lru_Store
begin

unbundle bit_operations_syntax

text \<open>
  One bucket of the store and the operations on it, against their specification on the pair of LRU
  lists the two levels represent: \<open>bucket_get\<close>, \<open>bucket_put\<close>, \<open>bucket_set\<close>
  with \<open>shrink\<close> for the byte budget, \<open>bucket_delete\<close>. It opens with the mask arithmetic
  of \<open>MaskOfNextPowOf2\<close>.
\<close>

subsection \<open>The mask\<close>

lemma high_bit:
  fixes c :: "16 word"
  assumes "c > 0"
  obtains h where "h < 16" "2 ^ h \<le> unat c" "unat c < 2 ^ Suc h"
proof -
  have "unat c < 2 ^ 16" using unsigned_less [of c] by simp
  then have ex: "\<exists>n. unat c < 2 ^ n" by blast
  define n where "n = (LEAST n. unat c < 2 ^ n)"
  have n: "unat c < 2 ^ n" unfolding n_def by (rule LeastI_ex [OF ex])
  have "n \<le> 16" unfolding n_def by (rule Least_le) fact
  have "unat c > 0" using assms by (simp add: word_less_nat_alt)
  then have "n \<noteq> 0" using n by (cases n) auto
  then obtain h where h: "n = Suc h" by (cases n) auto
  have "\<not> unat c < 2 ^ h" using h not_less_Least [of h "\<lambda>n. unat c < 2 ^ n"] by (simp add: n_def)
  then show ?thesis using that [of h] n h \<open>n \<le> 16\<close> by simp
qed

lemma bit_unat: "bit (w :: 16 word) i \<longleftrightarrow> odd (unat w div 2 ^ i)"
proof -
  have "bit w i \<longleftrightarrow> bit (unat w) i" by (simp add: bit_unsigned_iff)
  then show ?thesis by (simp add: bit_iff_odd)
qed

lemma word_of_unat_power: "unat (c :: 16 word) = 2 ^ h \<Longrightarrow> c = 2 ^ h"
proof -
  assume "unat c = 2 ^ h"
  moreover have "c = of_nat (unat c)" by simp
  ultimately show ?thesis by simp
qed

lemma bit_high:
  fixes c :: "16 word"
  assumes "2 ^ h \<le> unat c" "unat c < 2 ^ Suc h"
  shows "bit c h" "i > h \<Longrightarrow> \<not> bit c i"
proof -
  have "unat c div 2 ^ h = 1"
    using assms by (intro div_nat_eqI) auto
  then show "bit c h" by (simp add: bit_unat)
  assume "i > h"
  then have "(2::nat) ^ Suc h \<le> 2 ^ i" by (intro power_increasing) auto
  then have "unat c div 2 ^ i = 0" using assms by simp
  then show "\<not> bit c i" by (simp add: bit_unat)
qed

lemma smear_bit:
  fixes c :: "16 word"
  defines "c1 \<equiv> c OR drop_bit 1 c"
  defines "c2 \<equiv> c1 OR drop_bit 2 c1"
  defines "c3 \<equiv> c2 OR drop_bit 4 c2"
  shows "bit (c3 OR drop_bit 8 c3) i \<longleftrightarrow> (\<exists>d \<in> {0..<16}. bit c (d + i))"
proof -
  have "bit (c3 OR drop_bit 8 c3) i \<longleftrightarrow> (\<exists>d \<in> set [0..<16]. bit c (d + i))"
    by (simp add: c3_def c2_def c1_def bit_or_iff bit_drop_bit_eq upt_rec numeral_eq_Suc)
  then show ?thesis by simp
qed


lemma MaskOfNextPowOf2_mask:
  assumes c: "c > 0"
  shows "\<exists>k \<le> 16. MaskOfNextPowOf2 c = mask k \<and> unat c \<le> 2 ^ k \<and> 2 ^ k < 2 * unat c"
proof -
  obtain h where h: "h < 16" "2 ^ h \<le> unat c" "unat c < 2 ^ Suc h" by (rule high_bit [OF c])
  note bh = bit_high [OF h(2,3)]
  show ?thesis
  proof (cases "c AND (c - 1) = 0")
    case True
    have "unat c = 2 ^ h"
    proof (rule ccontr)
      assume "unat c \<noteq> 2 ^ h"
      then have "2 ^ h \<le> unat c - 1" "unat c - 1 < 2 ^ Suc h" using h by auto
      moreover have "unat (c - 1) = unat c - 1" using c by (simp add: unat_minus_one word_gt_0)
      ultimately have "bit (c - 1) h" using bit_high(1) [of h "c - 1"] by simp
      then have "bit (c AND (c - 1)) h" using bh(1) by (simp add: bit_and_iff)
      then show False using True by simp
    qed
    moreover then have "c = 2 ^ h" by (rule word_of_unat_power)
    then have "c - 1 = mask h" by (simp add: mask_eq_exp_minus_1)
    ultimately show ?thesis using True c h(1) by (intro exI [of _ h]) (simp add: MaskOfNextPowOf2_def)
  next
    case False
    have "MaskOfNextPowOf2 c = mask (Suc h)"
    proof (rule bit_word_eqI)
      fix i assume i: "i < LENGTH(16)"
      have "bit (MaskOfNextPowOf2 c) i \<longleftrightarrow> (\<exists>d \<in> {0..<16}. bit c (d + i))"
        using False smear_bit [of c i] by (simp add: MaskOfNextPowOf2_def Let_def)
      also have "\<dots> \<longleftrightarrow> i \<le> h"
      proof
        assume "\<exists>d \<in> {0..<16}. bit c (d + i)"
        then show "i \<le> h" using bh(2) by (metis le_add2 le_trans not_less)
      next
        assume "i \<le> h"
        then have "h - i \<in> {0..<16}" "bit c ((h - i) + i)" using h(1) bh(1) by auto
        then show "\<exists>d \<in> {0..<16}. bit c (d + i)" by blast
      qed
      finally show "bit (MaskOfNextPowOf2 c) i \<longleftrightarrow> bit (mask (Suc h) :: 16 word) i"
        using i by (auto simp: bit_mask_iff)
    qed
    moreover have "unat c \<noteq> 2 ^ h"
    proof
      assume "unat c = 2 ^ h"
      then have "c = 2 ^ h" by (rule word_of_unat_power)
      then have "c AND (c - 1) = take_bit h c" by (simp add: mask_eq_exp_minus_1 take_bit_eq_mask)
      also have "\<dots> = 0" using \<open>c = 2 ^ h\<close> by (simp add: take_bit_eq_0_iff)
      finally show False using False by simp
    qed
    ultimately show ?thesis using h by (intro exI [of _ "Suc h"]) auto
  qed
qed

subsection \<open>LRU lists\<close>

lemma find_remove: "lru_find j (lru_remove k es) = (if j = k then None else lru_find j es)"
  by (induction es) (auto simp: lru_find_def lru_remove_def)

lemma find_Cons: "lru_find j ((k, v, e) # es) = (if j = k then Some (v, e) else lru_find j es)"
  by (simp add: lru_find_def)

lemma find_butlast: "lru_find j (butlast es) = Some r \<Longrightarrow> lru_find j es = Some r"
  by (cases es rule: rev_cases) (auto simp: lru_find_def map_add_def)

lemma find_None_iff: "lru_find k es = None \<longleftrightarrow> k \<notin> fst ` set es"
  by (simp add: lru_find_def map_of_eq_None_iff)

lemma find_put:
  "lru_find j (fst (lru_put n (k, v, e) es)) = Some r \<Longrightarrow>
    (if j = k then r = (v, e) else lru_find j es = Some r)"
  by (auto simp: lru_put_def find_Cons find_remove dest: find_butlast split: if_splits)

lemma find_put_same: "lru_find k (fst (lru_put n (k, v, e) es)) = Some (v, e)"
  by (simp add: lru_put_def find_Cons)

lemma keys_remove: "fst ` set (lru_remove k es) = fst ` set es - {k}"
  by (auto simp: lru_remove_def)

lemma keys_butlast: "fst ` set (butlast es) \<subseteq> fst ` set es"
  by (auto dest: in_set_butlastD)

lemma keys_put: "fst ` set (fst (lru_put n e es)) \<subseteq> insert (fst e) (fst ` set es)"
  using keys_butlast [of es] by (auto simp: lru_put_def keys_remove)

lemma entries_bytes_nonneg:
  "(\<And>v. vlen v \<ge> 0) \<Longrightarrow> entries_bytes vlen es \<ge> 0"
  by (induction es) (auto simp: entryBytes_def split: option.splits)

subsection \<open>Buckets\<close>

type_synonym 'v bucket_view = "'v entry list \<times> 'v entry list"

text \<open>The two levels of a bucket never hold the same key.\<close>

definition bucket_rep :: "('v \<Rightarrow> int) \<Rightarrow> 'v cache \<times> 'v cache \<Rightarrow> 'v bucket_view \<Rightarrow> bool" where
  "bucket_rep vlen cc b \<longleftrightarrow> rep vlen (fst cc) (fst b) \<and> rep vlen (snd cc) (snd b) \<and>
     fst ` set (fst b) \<inter> fst ` set (snd b) = {} \<and>
     0 < length (slots (fst cc)) \<and> 0 < length (slots (snd cc))"

definition bfind :: "string \<Rightarrow> 'v bucket_view \<Rightarrow> ('v option \<times> int) option" where
  "bfind k b = (case lru_find k (fst b) of Some r \<Rightarrow> Some r | None \<Rightarrow> lru_find k (snd b))"

definition bkeys :: "'v bucket_view \<Rightarrow> string set" where
  "bkeys b = fst ` set (fst b) \<union> fst ` set (snd b)"

lemma bfind_None_iff: "bfind k b = None \<longleftrightarrow> k \<notin> bkeys b"
  using find_None_iff [of k "fst b"] find_None_iff [of k "snd b"]
  by (cases "lru_find k (fst b)") (simp_all add: bfind_def bkeys_def)

lemma bfind_disjoint:
  assumes "bucket_rep vlen cc b" "lru_find k (snd b) = Some r"
  shows "bfind k b = Some r" "lru_find k (fst b) = None"
proof -
  have "k \<in> fst ` set (snd b)" using assms(2) find_None_iff [of k "snd b"] by force
  then show "lru_find k (fst b) = None" using assms(1) by (auto simp: bucket_rep_def find_None_iff)
  then show "bfind k b = Some r" using assms(2) by (simp add: bfind_def)
qed

lemma bfind_positive:
  assumes "bucket_rep vlen cc b" "bfind k b = Some (v, e)"
  shows "e > 0"
proof -
  have "(k, v, e) \<in> set (fst b) \<or> (k, v, e) \<in> set (snd b)"
    using assms(2) by (auto simp: bfind_def lru_find_def split: option.splits dest!: map_of_SomeD)
  then show ?thesis
    using assms(1) rep_positive [of vlen "fst cc" "fst b" k v e] rep_positive [of vlen "snd cc" "snd b" k v e]
    unfolding bucket_rep_def by blast
qed

subsection \<open>Get on a bucket\<close>

definition bucket_get :: "nat \<Rightarrow> int \<Rightarrow> string \<Rightarrow> 'v bucket_view \<Rightarrow> 'v bucket_view" where
  "bucket_get cap2 now k b = (case lru_find k (fst b) of
      Some (v, e) \<Rightarrow> if now \<ge> e then (lru_remove k (fst b), lru_remove k (snd b))
        else (lru_remove k (fst b), fst (lru_put cap2 (k, v, e) (snd b)))
    | None \<Rightarrow> (case lru_find k (snd b) of
        Some (v, e) \<Rightarrow> if now \<ge> e then (fst b, lru_remove k (snd b))
          else (fst b, (k, v, e) # lru_remove k (snd b))
      | None \<Rightarrow> b))"

definition fresh_value :: "int \<Rightarrow> ('v option \<times> int) option \<Rightarrow> 'v option option" where
  "fresh_value now r = (case r of Some (v, e) \<Rightarrow> if now \<ge> e then None else Some v | None \<Rightarrow> None)"

lemma bucket_get_find:
  assumes "bucket_rep vlen cc b"
  shows "bfind j (bucket_get n now k b) = Some r \<Longrightarrow> bfind j b = Some r"
    and "bfind k (bucket_get n now k b) = (case bfind k b of Some (v, e) \<Rightarrow> if now \<ge> e then None else Some (v, e) | None \<Rightarrow> None)"
    and "bkeys (bucket_get n now k b) \<subseteq> bkeys b"
proof -
  have A: "bfind j (l1, fst (lru_put n (k, v, e) l2)) = Some r \<Longrightarrow> lru_find k l = Some (v, e) \<Longrightarrow>
      l1 = lru_remove k l \<Longrightarrow> bfind j (l, l2) = Some r" for j r l1 l2 v e l
    using find_put [of j n k v e l2 r]
    by (auto simp: bfind_def find_remove split: option.splits if_splits)
  show 1: "bfind j (bucket_get n now k b) = Some r \<Longrightarrow> bfind j b = Some r" for j r
  proof (cases "lru_find k (fst b)")
    case None
    assume "bfind j (bucket_get n now k b) = Some r"
    then show ?thesis using None
      by (auto simp: bucket_get_def bfind_def find_remove find_Cons split: option.splits if_splits)
  next
    case (Some ve)
    assume H: "bfind j (bucket_get n now k b) = Some r"
    obtain v e where ve: "ve = (v, e)" by (cases ve)
    show ?thesis
    proof (cases "now \<ge> e")
      case True
      then show ?thesis using H Some ve
        by (auto simp: bucket_get_def bfind_def find_remove split: option.splits if_splits)
    next
      case False
      then show ?thesis using A [of j _ v e "snd b" r "fst b"] H Some ve by (simp add: bucket_get_def)
    qed
  qed
  show "bfind k (bucket_get n now k b) = (case bfind k b of Some (v, e) \<Rightarrow> if now \<ge> e then None else Some (v, e) | None \<Rightarrow> None)"
    using bfind_disjoint(2) [OF assms, of k]
    by (auto simp: bucket_get_def bfind_def find_remove find_Cons find_put_same split: option.splits)
  show "bkeys (bucket_get n now k b) \<subseteq> bkeys b"
    using 1 bfind_None_iff by (metis not_None_eq subsetI)
qed

text \<open>A touch keeps the two levels disjoint and follows \<open>bucket_get\<close>.\<close>

lemma disjoint_put:
  "fst ` set es \<inter> fst ` set es2 = {} \<Longrightarrow>
    fst ` set (lru_remove k es) \<inter> fst ` set (fst (lru_put n (k, v, e) es2)) = {}"
proof -
  assume d: "fst ` set es \<inter> fst ` set es2 = {}"
  have "fst ` set (fst (lru_put n (k, v, e) es2)) \<subseteq> insert k (fst ` set es2)"
    using keys_put [of n "(k, v, e)" es2] by simp
  then show ?thesis unfolding keys_remove using d by blast
qed

lemma store_Get_bucket:
  assumes cc: "aget (caches s) (bucket s k) = Some cc" and R: "bucket_rep vlen cc b"
  shows "\<exists>cc' calls. store_Get vlen s now k =
      Some (set_bucket s (bucket s k) cc', fresh_value now (bfind k b), calls) \<and>
    bucket_rep vlen cc' (bucket_get (length (slots (snd cc))) now k b)"
proof -
  obtain c1 c2 where c: "cc = (c1, c2)" by (cases cc)
  obtain l1 l2 where b: "b = (l1, l2)" by (cases b)
  have R1: "rep vlen c1 l1" and R2: "rep vlen c2 l2" and dj: "fst ` set l1 \<inter> fst ` set l2 = {}"
    and n: "0 < length (slots c1)" "0 < length (slots c2)"
    using R by (simp_all add: bucket_rep_def c b)
  obtain c1' where c1': "del_take vlen c1 k = Some (c1', lru_find k l1)" "rep vlen c1' (lru_remove k l1)"
    "length (slots c1') = length (slots c1)" using del_take_rep [OF R1, of k] by blast
  obtain c2' where c2': "drop_key vlen c2 k = Some c2'" "rep vlen c2' (lru_remove k l2)"
    "length (slots c2') = length (slots c2)" using drop_key_rep [OF R2, of k] by blast
  have D: "fst ` set (lru_remove k l1) \<inter> fst ` set (lru_remove k l2) = {}"
    using dj by (auto simp: keys_remove)
  show ?thesis
  proof (cases "lru_find k l1")
    case (Some ve)
    obtain v e where ve: "ve = (v, e)" by (cases ve)
    show ?thesis
    proof (cases "now \<ge> e")
      case True
      then show ?thesis
        using c1' c2' cc c b Some ve D n
        by (intro exI [of _ "(c1', c2')"])
          (simp add: store_Get_def bucket_rep_def bucket_get_def bfind_def fresh_value_def del: length_greater_0_conv)
    next
      case False
      have "e > 0" using bfind_positive [OF R, of k v e] Some ve b by (simp add: bfind_def)
      then obtain c3 r where "put vlen (onEvicted s) c2 k v e = Some (c3, r, evicted_calls (onEvicted s)
          (snd (lru_put (length (slots c2)) (k, v, e) l2)))"
        "rep vlen c3 (fst (lru_put (length (slots c2)) (k, v, e) l2))" "length (slots c3) = length (slots c2)"
        using put_rep [OF R2 _ n(2), of e "onEvicted s" k v] by blast
      then show ?thesis
        using c1' cc c b Some ve False n disjoint_put [OF dj, of k "length (slots c2)" v e]
        by (intro exI [of _ "(c1', c3)"])
          (simp add: store_Get_def bucket_rep_def bucket_get_def bfind_def fresh_value_def del: length_greater_0_conv)
    qed
  next
    case None
    then have l1: "lru_remove k l1 = l1" by (simp add: find_None_iff lru_remove_absent)
    obtain q where q: "peek_live c2 k = Some q" "map_option snd q = lru_find k l2"
      using peek_live_rep [OF R2, of k] by blast
    show ?thesis
    proof (cases q)
      case None
      then show ?thesis
        using q c1' cc c b \<open>lru_find k l1 = None\<close> l1 n R2 dj
        by (intro exI [of _ "(c1', c2)"]) (simp del: length_greater_0_conv add: store_Get_def bucket_rep_def bucket_get_def bfind_def fresh_value_def)
    next
      case (Some ive)
      obtain i v e where ive: "ive = (i, v, e)" by (cases ive)
      have f: "lru_find k l2 = Some (v, e)" using q Some ive by simp
      show ?thesis
      proof (cases "now \<ge> e")
        case True
        then show ?thesis
          using q c1' c2' cc c b \<open>lru_find k l1 = None\<close> l1 n Some ive f D
          by (intro exI [of _ "(c1', c2')"]) (simp del: length_greater_0_conv add: store_Get_def bucket_rep_def bucket_get_def bfind_def fresh_value_def)
      next
        case False
        obtain c3 where "adjust_c c2 i P N = Some c3" "rep vlen c3 ((k, v, e) # lru_remove k l2)"
          "length (slots c3) = length (slots c2)"
          using touch_rep(3) [OF R2, of k i v e] q Some ive by blast
        moreover have "k \<notin> fst ` set l1" using \<open>lru_find k l1 = None\<close> by (simp add: find_None_iff)
        ultimately show ?thesis
          using q c1' cc c b \<open>lru_find k l1 = None\<close> l1 n Some ive f False D
          by (intro exI [of _ "(c1', c3)"]) (simp del: length_greater_0_conv add: store_Get_def bucket_rep_def bucket_get_def bfind_def fresh_value_def)
      qed
    qed
  qed
qed

subsection \<open>The byte budget\<close>

text \<open>
  What the loop of \<open>SetWithExpiration\<close> computes: the oldest entries of level 1 leave first,
  those of level 2 only when level 1 is empty.
\<close>

function shrink :: "('v \<Rightarrow> int) \<Rightarrow> int \<Rightarrow> 'v bucket_view \<Rightarrow> 'v bucket_view" where
  "shrink vlen m (l1, l2) =
    (if entries_bytes vlen l1 + entries_bytes vlen l2 > m then
       if l1 \<noteq> [] then shrink vlen m (butlast l1, l2)
       else if l2 \<noteq> [] then shrink vlen m (l1, butlast l2)
       else (l1, l2)
     else (l1, l2))"
  by pat_completeness auto
termination
  by (relation "measure (\<lambda>(_, _, l1, l2). length l1 + length l2)") (auto simp: neq_Nil_conv)

declare shrink.simps [simp del]

lemma shrink_budget:
  "0 \<le> m \<Longrightarrow> entries_bytes vlen (fst (shrink vlen m b)) + entries_bytes vlen (snd (shrink vlen m b)) \<le> m"
proof (induction vlen m b rule: shrink.induct)
  case (1 vlen m l1 l2)
  then show ?case by (subst (1 2) shrink.simps) auto
qed

lemma shrink_take:
  "\<exists>i j. shrink vlen m b = (take i (fst b), take j (snd b))"
proof (induction vlen m b rule: shrink.induct)
  case (1 vlen m l1 l2)
  have all: "\<exists>i j. (l1, l2) = (take i l1, take j l2)"
    by (rule exI [of _ "length l1"], rule exI [of _ "length l2"]) simp
  have but: "take i (butlast l) = take (min i (length l - 1)) l" for i and l :: "'a entry list"
    by (simp add: butlast_conv_take)
  show ?case
    using 1 all by (subst shrink.simps) (auto simp: but)
qed

lemma find_take:
  "lru_find k (take i es) = Some r \<Longrightarrow> lru_find k es = Some r"
proof -
  assume "lru_find k (take i es) = Some r"
  then have "lru_find k (take i es @ drop i es) = Some r" unfolding lru_find_def map_of_append by simp
  then show ?thesis by simp
qed

lemma shrink_find:
  assumes dj: "fst ` set (fst b) \<inter> fst ` set (snd b) = {}" and f: "bfind k (shrink vlen m b) = Some r"
  shows "bfind k b = Some r"
proof -
  obtain i j where s: "shrink vlen m b = (take i (fst b), take j (snd b))" using shrink_take by blast
  show ?thesis
  proof (cases "lru_find k (take i (fst b))")
    case None
    then have f2: "lru_find k (snd b) = Some r" using f s find_take [of k j] by (simp add: bfind_def)
    then have "k \<in> fst ` set (snd b)" using find_None_iff [of k "snd b"] by simp
    then have "lru_find k (fst b) = None" using dj by (auto simp: find_None_iff)
    then show ?thesis using f2 by (simp add: bfind_def)
  next
    case (Some r')
    then show ?thesis using f s find_take [of k i "fst b" r'] by (simp add: bfind_def)
  qed
qed

lemma shrink_id: "entries_bytes vlen (fst b) + entries_bytes vlen (snd b) \<le> m \<Longrightarrow> shrink vlen m b = b"
  by (cases b) (simp add: shrink.simps)

text \<open>
  The entry just written is at the head of level 1: it stays when it fits beside level 2, and then
  level 2 is not touched at all.
\<close>

lemma shrink_head:
  assumes "entryBytes vlen (fst e) (fst (snd e)) + entries_bytes vlen (snd b) \<le> m"
  shows "\<exists>es. shrink vlen m (e # l1, snd b) = (e # es, snd b)"
proof (induction l1 rule: rev_induct)
  case Nil
  then show ?case using assms by (cases e) (auto simp: shrink.simps)
next
  case (snoc x xs)
  then show ?case by (subst shrink.simps) auto
qed

lemma evictFromBucket_rep:
  assumes R: "bucket_rep vlen cc (l1, l2)"
  shows "\<exists>cc' calls. evictFromBucket vlen cb cc = Some (cc', l1 \<noteq> [] \<or> l2 \<noteq> [], calls) \<and>
    bucket_rep vlen cc' (if l1 \<noteq> [] then (butlast l1, l2) else (l1, butlast l2))"
proof -
  have R1: "rep vlen (fst cc) l1" and R2: "rep vlen (snd cc) l2" and dj: "fst ` set l1 \<inter> fst ` set l2 = {}"
    and n: "0 < length (slots (fst cc))" "0 < length (slots (snd cc))"
    using R by (simp_all add: bucket_rep_def)
  obtain c1 x where c1: "evictOldest vlen cb (fst cc) = Some (c1, l1 \<noteq> [], x)"
    "rep vlen c1 (butlast l1)" "length (slots c1) = length (slots (fst cc))"
    using evictOldest_rep [OF R1, of cb] by blast
  obtain c2 y where c2: "evictOldest vlen cb (snd cc) = Some (c2, l2 \<noteq> [], y)"
    "rep vlen c2 (butlast l2)" "length (slots c2) = length (slots (snd cc))"
    using evictOldest_rep [OF R2, of cb] by blast
  have D: "fst ` set (butlast l1) \<inter> fst ` set l2 = {}" "fst ` set l1 \<inter> fst ` set (butlast l2) = {}"
    using dj keys_butlast [of l1] keys_butlast [of l2] by blast+
  show ?thesis
  proof (cases "l1 = []")
    case True
    then show ?thesis using c1 c2 n
      by (intro exI [of _ "(c1, c2)"]) (simp add: evictFromBucket_def bucket_rep_def del: length_greater_0_conv)
  next
    case False
    then show ?thesis using c1 R2 D n
      by (intro exI [of _ "(c1, snd cc)"]) (simp add: evictFromBucket_def bucket_rep_def del: length_greater_0_conv)
  qed
qed

lemma budget_loop_rep:
  "bucket_rep vlen cc b \<Longrightarrow> length (fst b) + length (snd b) < fuel \<Longrightarrow>
    \<exists>cc' calls. budget_loop vlen cb m fuel cc acc = Some (cc', calls) \<and> bucket_rep vlen cc' (shrink vlen m b)"
proof (induction fuel arbitrary: cc b acc)
  case 0
  then show ?case by simp
next
  case (Suc fuel)
  obtain l1 l2 where b: "b = (l1, l2)" by (cases b)
  have bytes: "cbytes (fst cc) = entries_bytes vlen l1" "cbytes (snd cc) = entries_bytes vlen l2"
    using Suc.prems(1) by (auto simp: bucket_rep_def b intro: rep_bytes)
  show ?case
  proof (cases "entries_bytes vlen l1 + entries_bytes vlen l2 > m")
    case False
    then show ?thesis using Suc.prems bytes by (simp add: b shrink.simps)
  next
    case True
    let ?b = "if l1 \<noteq> [] then (butlast l1, l2) else (l1, butlast l2)"
    obtain cc' calls where e: "evictFromBucket vlen cb cc = Some (cc', l1 \<noteq> [] \<or> l2 \<noteq> [], calls)"
      "bucket_rep vlen cc' ?b" using evictFromBucket_rep [of vlen cc l1 l2 cb] Suc.prems(1) b by blast
    show ?thesis
    proof (cases "l1 = [] \<and> l2 = []")
      case True
      then show ?thesis using e bytes b \<open>entries_bytes vlen l1 + entries_bytes vlen l2 > m\<close> by (simp add: shrink.simps)
    next
      case False
      have "length (fst ?b) + length (snd ?b) < fuel" using Suc.prems(2) False by (auto simp: b neq_Nil_conv)
      then obtain cc2 calls2 where "budget_loop vlen cb m fuel cc' (acc @ calls) = Some (cc2, calls2)"
        "bucket_rep vlen cc2 (shrink vlen m ?b)" using Suc.IH [OF e(2)] by blast
      then show ?thesis using e bytes b True False by (auto simp: shrink.simps [of vlen m l1 l2])
    qed
  qed
qed

subsection \<open>SetWithExpiration and delete on a bucket\<close>

definition bucket_put :: "nat \<Rightarrow> 'v entry \<Rightarrow> 'v bucket_view \<Rightarrow> 'v bucket_view" where
  "bucket_put n e b = (fst (lru_put n e (fst b)), lru_remove (fst e) (snd b))"

definition bucket_set :: "('v \<Rightarrow> int) \<Rightarrow> int \<Rightarrow> nat \<Rightarrow> 'v entry \<Rightarrow> 'v bucket_view \<Rightarrow> 'v bucket_view" where
  "bucket_set vlen m n e b = (if m > 0 then shrink vlen m (bucket_put n e b) else bucket_put n e b)"

lemma store_Set_bucket:
  assumes cc: "aget (caches s) (bucket s k) = Some cc" and R: "bucket_rep vlen cc b"
    and pos: "expiryOf now d > 0"
  shows "\<exists>cc' calls. store_SetWithExpiration vlen s now k v d = Some (set_bucket s (bucket s k) cc', calls) \<and>
    bucket_rep vlen cc' (bucket_set vlen (maxBucketBytes s) (length (slots (fst cc))) (k, v, expiryOf now d) b)"
proof -
  obtain c1 c2 where c: "cc = (c1, c2)" by (cases cc)
  obtain l1 l2 where b: "b = (l1, l2)" by (cases b)
  let ?e = "(k, v, expiryOf now d)" and ?n = "length (slots c1)"
  have R1: "rep vlen c1 l1" and R2: "rep vlen c2 l2" and dj: "fst ` set l1 \<inter> fst ` set l2 = {}"
    and n: "0 < length (slots c1)" "0 < length (slots c2)"
    using R by (simp_all add: bucket_rep_def c b)
  obtain c1' r calls where c1': "put vlen (onEvicted s) c1 k v (expiryOf now d) = Some (c1', r, calls)"
    "rep vlen c1' (fst (lru_put ?n ?e l1))" "length (slots c1') = ?n"
    using put_rep [OF R1 pos n(1), of "onEvicted s" k v] by blast
  obtain c2' where c2': "drop_key vlen c2 k = Some c2'" "rep vlen c2' (lru_remove k l2)"
    "length (slots c2') = length (slots c2)" using drop_key_rep [OF R2, of k] by blast
  have B: "bucket_rep vlen (c1', c2') (bucket_put ?n ?e b)"
    using c1' c2' n disjoint_put [of l2 l1 k ?n v "expiryOf now d"] dj
    by (simp add: bucket_rep_def bucket_put_def b Int_commute)
  have "length (fst (bucket_put ?n ?e b)) + length (snd (bucket_put ?n ?e b)) < length (slots c1') + length (slots c2') + 2"
    using rep_length [OF c1'(2)] rep_length [OF c2'(2)] by (simp add: bucket_put_def b)
  from budget_loop_rep [OF B this, of "onEvicted s" "maxBucketBytes s" calls]
  obtain cc' calls' where "budget_loop vlen (onEvicted s) (maxBucketBytes s)
      (length (slots c1') + length (slots c2') + 2) (c1', c2') calls = Some (cc', calls')"
    "bucket_rep vlen cc' (shrink vlen (maxBucketBytes s) (bucket_put ?n ?e b))" by blast
  then show ?thesis
    using c1'(1) c2'(1) cc c B
    by (intro exI [of _ "if maxBucketBytes s > 0 then cc' else (c1', c2')"])
      (auto simp: store_SetWithExpiration_def bucket_set_def Let_def simp del: budget_loop.simps)
qed

definition bucket_delete :: "string \<Rightarrow> 'v bucket_view \<Rightarrow> 'v bucket_view" where
  "bucket_delete k b = (lru_remove k (fst b), lru_remove k (snd b))"

lemma store_delete_bucket:
  assumes cc: "aget (caches s) i = Some cc" and R: "bucket_rep vlen cc b"
  shows "\<exists>cc' calls. store_delete vlen s k i = Some (set_bucket s i cc', bfind k b \<noteq> None, calls) \<and>
    bucket_rep vlen cc' (bucket_delete k b)"
proof -
  obtain c1 c2 where c: "cc = (c1, c2)" by (cases cc)
  obtain l1 l2 where b: "b = (l1, l2)" by (cases b)
  have R1: "rep vlen c1 l1" and R2: "rep vlen c2 l2" and dj: "fst ` set l1 \<inter> fst ` set l2 = {}"
    and n: "0 < length (slots c1)" "0 < length (slots c2)"
    using R by (simp_all add: bucket_rep_def c b)
  obtain c1' where c1': "del_take vlen c1 k = Some (c1', lru_find k l1)" "rep vlen c1' (lru_remove k l1)"
    "length (slots c1') = length (slots c1)" using del_take_rep [OF R1, of k] by blast
  obtain c2' where c2': "del_take vlen c2 k = Some (c2', lru_find k l2)" "rep vlen c2' (lru_remove k l2)"
    "length (slots c2') = length (slots c2)" using del_take_rep [OF R2, of k] by blast
  have "(lru_find k l1 \<noteq> None \<or> lru_find k l2 \<noteq> None) = (bfind k b \<noteq> None)"
    by (simp add: bfind_def b split: option.split)
  moreover have "fst ` set (lru_remove k l1) \<inter> fst ` set (lru_remove k l2) = {}"
    using dj by (auto simp: keys_remove)
  ultimately show ?thesis
    using c1' c2' cc c n
    by (intro exI [of _ "(c1', c2')"])
      (simp add: store_delete_def bucket_rep_def bucket_delete_def b Let_def del: length_greater_0_conv)
qed

lemma bucket_delete_find:
  "bfind j (bucket_delete k b) = (if j = k then None else bfind j b)"
  by (simp add: bucket_delete_def bfind_def find_remove split: option.split)

lemma bucket_delete_keys: "bkeys (bucket_delete k b) = bkeys b - {k}"
  by (auto simp: bucket_delete_def bkeys_def keys_remove)

lemma bucket_put_find:
  assumes "fst ` set (fst b) \<inter> fst ` set (snd b) = {}" "bfind j (bucket_put n (k, v, e) b) = Some r"
  shows "if j = k then r = (v, e) else bfind j b = Some r"
proof -
  have "lru_find j (snd b) = Some r \<Longrightarrow> lru_find j (fst b) = None"
    using assms(1) find_None_iff [of j "snd b"] by (auto simp: find_None_iff)
  then show ?thesis
    using assms(2) find_put [of j n k v e "fst b"] find_put_same [of k n v e "fst b"]
    by (auto simp: bucket_put_def bfind_def find_remove split: option.splits if_splits)
qed

end
