(* ===== verification/Lru_Store_Correct.thy ===== *)
theory Lru_Store_Correct
  imports Lru_Buckets
begin

unbundle bit_operations_syntax

text \<open>
  The store as a map with expiry times, \<open>store_view\<close>, and what each method does to it:
  \<open>store_Get_rep\<close>, \<open>store_Set_rep\<close>, \<open>store_Delete_rep\<close>, \<open>store_Clear_rep\<close>,
  \<open>cleanup_rep\<close>, \<open>store_Len_rep\<close> and \<open>NewStore_rep\<close>. \<open>store_inv\<close> is the
  invariant that they all keep; no method panics under it.
\<close>

subsection \<open>The store\<close>

text \<open>
  The contents of a store: the entry that each key has, if any, in whichever level of its bucket.
  \<open>store_view\<close> computes it with the traversal \<open>walk\<close> of the code.
\<close>

definition store_view :: "'v lruStore \<Rightarrow> string \<Rightarrow> ('v option \<times> int) option" where
  "store_view s k = (case aget (caches s) (bucket s k) of
      Some (c1, c2) \<Rightarrow> (case (entries c1, entries c2) of
        (Some l1, Some l2) \<Rightarrow> bfind k (l1, l2)
      | _ \<Rightarrow> None)
    | None \<Rightarrow> None)"

definition store_rep :: "('v \<Rightarrow> int) \<Rightarrow> 'v lruStore \<Rightarrow> 'v bucket_view list \<Rightarrow> bool" where
  "store_rep vlen s bs \<longleftrightarrow> length bs = length (caches s) \<and> length (caches s) = unat (bmask s) + 1 \<and>
     (\<forall>i < length bs. bucket_rep vlen (caches s ! i) (bs ! i) \<and> (\<forall>k \<in> bkeys (bs ! i). bucket s k = i))"

definition store_inv :: "('v \<Rightarrow> int) \<Rightarrow> 'v lruStore \<Rightarrow> bool" where
  "store_inv vlen s \<longleftrightarrow> (\<exists>bs. store_rep vlen s bs)"

lemma store_repD:
  assumes "store_rep vlen s bs"
  shows srep_len: "length bs = length (caches s)"
    and srep_mask: "length (caches s) = unat (bmask s) + 1"
    and srep_bucket: "i < length bs \<Longrightarrow> bucket_rep vlen (caches s ! i) (bs ! i)"
    and srep_hash: "i < length bs \<Longrightarrow> k \<in> bkeys (bs ! i) \<Longrightarrow> bucket s k = i"
  using assms by (simp_all add: store_rep_def)

lemma bucket_range:
  assumes "store_rep vlen s bs"
  shows "bucket s k < length bs" "aget (caches s) (bucket s k) = Some (caches s ! bucket s k)"
proof -
  have "HashBKRD k AND bmask s \<le> bmask s" by (rule word_and_le1)
  then have "unat (HashBKRD k AND bmask s) \<le> unat (bmask s)" by (simp add: word_le_nat_alt)
  then show "bucket s k < length bs" using srep_len [OF assms] srep_mask [OF assms] by (simp add: bucket_def)
  then show "aget (caches s) (bucket s k) = Some (caches s ! bucket s k)"
    using srep_len [OF assms] by (simp add: aget_in)
qed

lemma bfind_iff:
  assumes "bucket_rep vlen cc b"
  shows "bfind k b = Some r \<longleftrightarrow> (k, r) \<in> set (fst b) \<or> (k, r) \<in> set (snd b)"
proof -
  have d: "distinct (map fst (fst b))" "distinct (map fst (snd b))" "fst ` set (fst b) \<inter> fst ` set (snd b) = {}"
    using assms rep_distinct by (auto simp: bucket_rep_def)
  have m: "lru_find k (fst b) = Some r \<longleftrightarrow> (k, r) \<in> set (fst b)" "lru_find k (snd b) = Some r \<longleftrightarrow> (k, r) \<in> set (snd b)" for r
    using d(1,2) by (simp_all add: lru_find_def)
  show ?thesis
  proof (cases "lru_find k (fst b)")
    case None
    then have "(k, r) \<notin> set (fst b)" using m(1) [of r] by simp
    then show ?thesis using None m by (simp add: bfind_def)
  next
    case (Some r')
    then have "k \<in> fst ` set (fst b)" using m(1) [of r'] by force
    then have "(k, r) \<notin> set (snd b)" using d(3) by force
    then show ?thesis using Some m(1) [of r] by (simp add: bfind_def)
  qed
qed

lemma store_view_rep:
  assumes "store_rep vlen s bs"
  shows "store_view s k = bfind k (bs ! bucket s k)"
proof -
  obtain c1 c2 where c: "caches s ! bucket s k = (c1, c2)" by fastforce
  have "bucket_rep vlen (c1, c2) (bs ! bucket s k)"
    using srep_bucket [OF assms bucket_range(1) [OF assms, of k]] c by simp
  then have "entries c1 = Some (fst (bs ! bucket s k))" "entries c2 = Some (snd (bs ! bucket s k))"
    by (auto simp: bucket_rep_def intro: rep_entries)
  then show ?thesis using bucket_range(2) [OF assms, of k] c by (simp add: store_view_def)
qed

text \<open>Every operation replaces one bucket: this lemma transfers a bucket fact to the store.\<close>

lemma store_rep_set:
  assumes S: "store_rep vlen s bs" and i: "i < length bs"
    and R: "bucket_rep vlen cc b" and K: "bkeys b \<subseteq> insert k (bkeys (bs ! i))" "bucket s k = i"
  shows "store_rep vlen (set_bucket s i cc) (bs[i := b])"
    and "store_view (set_bucket s i cc) j = (if bucket s j = i then bfind j b else store_view s j)"
proof -
  have bk: "bucket (set_bucket s i cc) j = bucket s j" for j by (simp add: bucket_def set_bucket_def)
  have c: "caches (set_bucket s i cc) = (caches s)[i := cc]" by (simp add: set_bucket_def)
  have n: "length bs = length (caches s)" by (rule srep_len [OF S])
  show "store_rep vlen (set_bucket s i cc) (bs[i := b])"
    unfolding store_rep_def c bk
  proof (intro conjI allI impI ballI)
    show "length (bs[i := b]) = length ((caches s)[i := cc])" using n by simp
    show "length ((caches s)[i := cc]) = unat (bmask (set_bucket s i cc)) + 1"
      using srep_mask [OF S] by (simp add: set_bucket_def)
    fix m assume m: "m < length (bs[i := b])"
    show "bucket_rep vlen ((caches s)[i := cc] ! m) (bs[i := b] ! m)"
      using m R srep_bucket [OF S, of m] n by (cases "m = i") simp_all
    fix j assume "j \<in> bkeys (bs[i := b] ! m)"
    then have "j \<in> bkeys (bs ! m) \<or> (m = i \<and> j = k)" using m K(1) by (cases "m = i") (auto simp: nth_list_update)
    then show "bucket s j = m" using srep_hash [OF S, of m j] m K(2) by auto
  qed
  note S' = this
  show "store_view (set_bucket s i cc) j = (if bucket s j = i then bfind j b else store_view s j)"
    unfolding store_view_rep [OF S'] store_view_rep [OF S] bk using i by simp
qed

lemma store_frame [simp]:
  "maxBucketBytes (set_bucket s i cc) = maxBucketBytes s" "bmask (set_bucket s i cc) = bmask s"
  "onEvicted (set_bucket s i cc) = onEvicted s" "bucket (set_bucket s i cc) k = bucket s k"
  "length (caches (set_bucket s i cc)) = length (caches s)"
  by (simp_all add: set_bucket_def bucket_def)

lemma srep_at:
  assumes "store_rep vlen s bs"
  shows "bucket_rep vlen (caches s ! bucket s k) (bs ! bucket s k)"
  by (rule srep_bucket [OF assms bucket_range(1) [OF assms]])

lemma store_Get_rep:
  assumes S: "store_inv vlen s"
  shows "\<exists>s' calls. store_Get vlen s now k = Some (s', fresh_value now (store_view s k), calls) \<and>
    store_inv vlen s' \<and> store_view s' \<subseteq>\<^sub>m store_view s \<and>
    store_view s' k = (case store_view s k of Some (v, e) \<Rightarrow> if now \<ge> e then None else Some (v, e) | None \<Rightarrow> None)"
proof -
  obtain bs where bs: "store_rep vlen s bs" using S by (auto simp: store_inv_def)
  let ?i = "bucket s k"
  let ?b = "bs ! ?i" and ?n = "length (slots (snd (caches s ! ?i)))"
  note R = srep_at [OF bs, of k] and i = bucket_range [OF bs, of k]
  note F = bucket_get_find [OF R, where n = ?n and now = now and k = k]
  obtain cc' calls where g: "store_Get vlen s now k = Some (set_bucket s ?i cc', fresh_value now (bfind k ?b), calls)"
    "bucket_rep vlen cc' (bucket_get ?n now k ?b)"
    using store_Get_bucket [OF i(2) R, of now] by blast
  have "bkeys (bucket_get ?n now k ?b) \<subseteq> insert k (bkeys ?b)" using F(3) by blast
  note T = store_rep_set [OF bs i(1) g(2) this refl]
  have "store_view (set_bucket s ?i cc') \<subseteq>\<^sub>m store_view s"
    unfolding map_le_def T(2) using F(1) by (auto simp: store_view_rep [OF bs] dom_def)
  then show ?thesis
    using g(1) T F(2) by (auto simp: store_view_rep [OF bs] store_inv_def)
qed

lemma bucket_set_facts:
  assumes R: "bucket_rep vlen cc b" and e: "e = (k, v, ex)"
  shows "bfind j (bucket_set vlen m n e b) = Some r \<Longrightarrow> if j = k then r = (v, ex) else bfind j b = Some r"
    and "bkeys (bucket_set vlen m n e b) \<subseteq> insert k (bkeys b)"
    and "m > 0 \<Longrightarrow> entries_bytes vlen (fst (bucket_set vlen m n e b)) + entries_bytes vlen (snd (bucket_set vlen m n e b)) \<le> m"
    and "m \<le> 0 \<or> entryBytes vlen k v + entries_bytes vlen (lru_remove k (snd b)) \<le> m \<Longrightarrow>
      bfind k (bucket_set vlen m n e b) = Some (v, ex)"
proof -
  let ?p = "bucket_put n e b"
  have dj: "fst ` set (fst b) \<inter> fst ` set (snd b) = {}" using R by (simp add: bucket_rep_def)
  have dj2: "fst ` set (fst ?p) \<inter> fst ` set (snd ?p) = {}"
    using disjoint_put [of "snd b" "fst b" k n v ex] dj by (simp add: bucket_put_def e Int_commute)
  show F: "bfind j (bucket_set vlen m n e b) = Some r \<Longrightarrow> if j = k then r = (v, ex) else bfind j b = Some r" for j r
    using shrink_find [OF dj2, of j vlen m r] bucket_put_find [OF dj, of j n k v ex r] e
    by (auto simp: bucket_set_def split: if_splits)
  show "bkeys (bucket_set vlen m n e b) \<subseteq> insert k (bkeys b)"
  proof
    fix j assume "j \<in> bkeys (bucket_set vlen m n e b)"
    then obtain r where "bfind j (bucket_set vlen m n e b) = Some r"
      using bfind_None_iff [of j "bucket_set vlen m n e b"] by auto
    then have "j = k \<or> bfind j b = Some r" using F [of j r] by (auto split: if_splits)
    then show "j \<in> insert k (bkeys b)" using bfind_None_iff [of j b] by auto
  qed
  show "m > 0 \<Longrightarrow> entries_bytes vlen (fst (bucket_set vlen m n e b)) + entries_bytes vlen (snd (bucket_set vlen m n e b)) \<le> m"
    using shrink_budget [of m vlen ?p] by (simp add: bucket_set_def)
  obtain es where p: "?p = (e # es, lru_remove k (snd b))"
    by (cases "k \<notin> fst ` set (fst b) \<and> length (fst b) = n") (auto simp: bucket_put_def lru_put_def e)
  show "m \<le> 0 \<or> entryBytes vlen k v + entries_bytes vlen (lru_remove k (snd b)) \<le> m \<Longrightarrow>
      bfind k (bucket_set vlen m n e b) = Some (v, ex)"
  proof (cases "m \<le> 0")
    case True
    then show ?thesis using p by (simp add: bucket_set_def bfind_def find_Cons e)
  next
    case False
    assume "m \<le> 0 \<or> entryBytes vlen k v + entries_bytes vlen (lru_remove k (snd b)) \<le> m"
    then have "\<exists>es'. shrink vlen m ?p = (e # es', lru_remove k (snd b))"
      using False shrink_head [of vlen e "?p" m es] p e by simp
    then show ?thesis using False by (auto simp: bucket_set_def bfind_def find_Cons e)
  qed
qed

text \<open>The bytes accounted to the bucket of a key.\<close>

definition bucket_bytes :: "'v lruStore \<Rightarrow> string \<Rightarrow> int" where
  "bucket_bytes s k = (case caches s ! bucket s k of (c1, c2) \<Rightarrow> cbytes c1 + cbytes c2)"

definition level2_bytes :: "'v lruStore \<Rightarrow> string \<Rightarrow> int" where
  "level2_bytes s k = cbytes (snd (caches s ! bucket s k))"

lemma entries_bytes_remove_le:
  assumes "\<And>v. vlen v \<ge> 0"
  shows "entries_bytes vlen (lru_remove k es) \<le> entries_bytes vlen es"
  using assms by (induction es) (auto simp: lru_remove_def entryBytes_def split: option.splits intro: order.trans)

lemma store_Set_rep:
  assumes S: "store_inv vlen s" and pos: "expiryOf now d > 0" and vl: "\<And>v. vlen v \<ge> 0"
  shows "\<exists>s' calls. store_SetWithExpiration vlen s now k v d = Some (s', calls) \<and> store_inv vlen s' \<and>
    store_view s' \<subseteq>\<^sub>m (store_view s)(k \<mapsto> (v, expiryOf now d)) \<and>
    (maxBucketBytes s > 0 \<longrightarrow> bucket_bytes s' k \<le> maxBucketBytes s) \<and>
    (maxBucketBytes s \<le> 0 \<or> entryBytes vlen k v + level2_bytes s k \<le> maxBucketBytes s
      \<longrightarrow> store_view s' k = Some (v, expiryOf now d))"
proof -
  obtain bs where bs: "store_rep vlen s bs" using S by (auto simp: store_inv_def)
  let ?i = "bucket s k"
  let ?b = "bs ! ?i" and ?n = "length (slots (fst (caches s ! ?i)))" and ?m = "maxBucketBytes s"
  let ?b' = "bucket_set vlen ?m ?n (k, v, expiryOf now d) ?b"
  note R = srep_at [OF bs, of k] and i = bucket_range [OF bs, of k]
  note F = bucket_set_facts [OF R refl, where n = ?n and m = ?m and k = k and v = v and ex = "expiryOf now d"]
  obtain cc' calls where g: "store_SetWithExpiration vlen s now k v d = Some (set_bucket s ?i cc', calls)"
    "bucket_rep vlen cc' ?b'"
    using store_Set_bucket [OF i(2) R pos, of v] by blast
  note T = store_rep_set [OF bs i(1) g(2) F(2) refl]
  have le: "store_view (set_bucket s ?i cc') \<subseteq>\<^sub>m (store_view s)(k \<mapsto> (v, expiryOf now d))"
    unfolding map_le_def
  proof
    fix j assume "j \<in> dom (store_view (set_bucket s ?i cc'))"
    then obtain r where r: "store_view (set_bucket s ?i cc') j = Some r" by auto
    then show "store_view (set_bucket s ?i cc') j = ((store_view s)(k \<mapsto> (v, expiryOf now d))) j"
      using F(1) [of j r] unfolding T(2) by (auto simp: store_view_rep [OF bs] split: if_splits)
  qed
  have b': "cbytes (fst cc') = entries_bytes vlen (fst ?b')" "cbytes (snd cc') = entries_bytes vlen (snd ?b')"
    using g(2) by (auto simp: bucket_rep_def intro: rep_bytes)
  have "bucket_bytes (set_bucket s ?i cc') k = cbytes (fst cc') + cbytes (snd cc')"
    using i srep_len [OF bs] by (simp add: bucket_bytes_def set_bucket_def bucket_def case_prod_unfold)
  then have bytes: "?m > 0 \<Longrightarrow> bucket_bytes (set_bucket s ?i cc') k \<le> ?m" using F(3) b' by simp
  have "level2_bytes s k = entries_bytes vlen (snd ?b)"
    using R by (auto simp: level2_bytes_def bucket_rep_def intro: rep_bytes)
  then have "entries_bytes vlen (lru_remove k (snd ?b)) \<le> level2_bytes s k"
    using entries_bytes_remove_le [of vlen k, OF vl] by simp
  then have "?m \<le> 0 \<or> entryBytes vlen k v + level2_bytes s k \<le> ?m \<Longrightarrow>
      store_view (set_bucket s ?i cc') k = Some (v, expiryOf now d)"
    using F(4) unfolding T(2) by fastforce
  then show ?thesis using g(1) T(1) le bytes unfolding store_inv_def by blast
qed

lemma store_delete_rep:
  assumes S: "store_rep vlen s bs" and i: "i < length bs" and k: "bucket s k = i"
  shows "\<exists>cc' calls b'. store_delete vlen s k i = Some (set_bucket s i cc', store_view s k \<noteq> None, calls) \<and>
    store_rep vlen (set_bucket s i cc') (bs[i := b']) \<and>
    store_view (set_bucket s i cc') = (store_view s)(k := None)"
proof -
  have a: "aget (caches s) i = Some (caches s ! i)" using i srep_len [OF S] by (simp add: aget_in)
  obtain cc' calls where d: "store_delete vlen s k i = Some (set_bucket s i cc', bfind k (bs ! i) \<noteq> None, calls)"
    "bucket_rep vlen cc' (bucket_delete k (bs ! i))"
    using store_delete_bucket [OF a srep_bucket [OF S i], of k] by blast
  have "bkeys (bucket_delete k (bs ! i)) \<subseteq> insert k (bkeys (bs ! i))" by (auto simp: bucket_delete_keys)
  note T = store_rep_set [OF S i d(2) this k]
  have "store_view (set_bucket s i cc') = (store_view s)(k := None)"
    unfolding fun_eq_iff T(2) by (auto simp: bucket_delete_find store_view_rep [OF S] k)
  moreover have "bfind k (bs ! i) = store_view s k" using store_view_rep [OF S, of k] k by simp
  ultimately show ?thesis
    using d(1) T(1) by (intro exI [of _ cc'] exI [of _ calls] exI [of _ "bucket_delete k (bs ! i)"]) simp
qed

lemma store_Delete_rep:
  assumes S: "store_inv vlen s"
  shows "\<exists>s' calls. store_Delete vlen s k = Some (s', store_view s k \<noteq> None, calls) \<and> store_inv vlen s' \<and>
    store_view s' = (store_view s)(k := None)"
proof -
  obtain bs where bs: "store_rep vlen s bs" using S by (auto simp: store_inv_def)
  show ?thesis
    using store_delete_rep [OF bs bucket_range(1) [OF bs, of k] refl]
    unfolding store_Delete_def store_inv_def by blast
qed

subsection \<open>Clear, cleanup and Len\<close>

lemma delete_all_rep:
  "store_rep vlen s bs \<Longrightarrow> i < length bs \<Longrightarrow> \<forall>k \<in> set ks. bucket s k = i \<Longrightarrow>
    \<exists>s' calls bs'. delete_all vlen s i ks acc = Some (s', calls) \<and> store_rep vlen s' bs' \<and> length bs' = length bs \<and>
      (\<forall>k. bucket s' k = bucket s k) \<and> maxBucketBytes s' = maxBucketBytes s \<and>
      store_view s' = (\<lambda>k. if k \<in> set ks then None else store_view s k)"
proof (induction ks arbitrary: s bs acc)
  case Nil
  then show ?case by auto
next
  case (Cons k ks)
  have "bucket s k = i" using Cons.prems(3) by simp
  obtain cc' calls b' where d: "store_delete vlen s k i = Some (set_bucket s i cc', store_view s k \<noteq> None, calls)"
    "store_rep vlen (set_bucket s i cc') (bs[i := b'])" "store_view (set_bucket s i cc') = (store_view s)(k := None)"
    using store_delete_rep [OF Cons.prems(1,2) \<open>bucket s k = i\<close>] by blast
  have "i < length (bs[i := b'])" "\<forall>k \<in> set ks. bucket (set_bucket s i cc') k = i" using Cons.prems by simp_all
  from Cons.IH [OF d(2) this, of "acc @ calls"] d(1,3) show ?case by (fastforce simp: fun_eq_iff)
qed

lemma fold_insert_keys:
  "set (fold_until (\<lambda>acc e. (if pick e then List.insert (fst e) acc else acc, True)) es acc) =
     set acc \<union> fst ` {e \<in> set es. pick e}"
  by (induction es arbitrary: acc) auto

lemma fold_insert_distinct:
  "distinct acc \<Longrightarrow>
     distinct (fold_until (\<lambda>acc e. (if pick e then List.insert (fst e) acc else acc, True)) es acc)"
  by (induction es arbitrary: acc) auto

lemma bucket_keys_rep:
  assumes "bucket_rep vlen cc b"
  shows "\<exists>ks. bucket_keys ord pick cc = Some (ord ks) \<and> distinct ks \<and>
    set ks = {k. \<exists>r. bfind k b = Some r \<and> pick (k, r)}"
proof -
  have R: "rep vlen (fst cc) (fst b)" "rep vlen (snd cc) (snd b)" using assms by (simp_all add: bucket_rep_def)
  let ?f = "\<lambda>acc e. (if pick e then List.insert (fst e) acc else acc, True)"
  let ?ks = "fold_until ?f (snd b) (fold_until ?f (fst b) [])"
  have "bucket_keys ord pick cc = Some (ord ?ks)"
    by (simp add: bucket_keys_def walk_rep [OF R(1)] walk_rep [OF R(2)])
  moreover have "distinct ?ks" by (intro fold_insert_distinct) simp
  moreover have "set ?ks = {k. \<exists>r. bfind k b = Some r \<and> pick (k, r)}"
    unfolding fold_insert_keys bfind_iff [OF assms] by force
  ultimately show ?thesis by blast
qed

definition perm_of :: "(string list \<Rightarrow> string list) \<Rightarrow> bool" where
  "perm_of ord \<longleftrightarrow> (\<forall>ks. set (ord ks) = set ks)"

lemma sweep_rep:
  assumes ord: "perm_of ord"
  shows "store_rep vlen s bs \<Longrightarrow> \<forall>i \<in> set is. i < length bs \<Longrightarrow>
    \<exists>s' calls bs'. sweep vlen ord pick is s acc = Some (s', calls) \<and> store_rep vlen s' bs' \<and>
      (\<forall>k. bucket s' k = bucket s k) \<and> maxBucketBytes s' = maxBucketBytes s \<and>
      store_view s' = (\<lambda>k. case store_view s k of None \<Rightarrow> None
        | Some r \<Rightarrow> if bucket s k \<in> set is \<and> pick (k, r) then None else Some r)"
proof (induction "is" arbitrary: s bs acc)
  case Nil
  then show ?case by (auto simp: fun_eq_iff split: option.split)
next
  case (Cons i "is")
  note S = Cons.prems(1)
  have i: "i < length bs" using Cons.prems(2) by simp
  obtain ks where ks: "bucket_keys ord pick (caches s ! i) = Some (ord ks)"
    "set ks = {k. \<exists>r. bfind k (bs ! i) = Some r \<and> pick (k, r)}"
    using bucket_keys_rep [OF srep_bucket [OF S i]] by blast
  have so: "set (ord ks) = set ks" using ord by (simp add: perm_of_def)
  have hash: "bucket s k = i" if "bfind k (bs ! i) = Some r" for k r
    using srep_hash [OF S i, of k] bfind_None_iff [of k "bs ! i"] that by auto
  have "\<forall>k \<in> set (ord ks). bucket s k = i" using hash so ks(2) by auto
  then obtain s1 calls bs1 where d: "delete_all vlen s i (ord ks) acc = Some (s1, calls)" "store_rep vlen s1 bs1"
    "length bs1 = length bs" "\<forall>k. bucket s1 k = bucket s k" "maxBucketBytes s1 = maxBucketBytes s"
    "store_view s1 = (\<lambda>k. if k \<in> set (ord ks) then None else store_view s k)"
    using delete_all_rep [OF S i] by blast
  have "\<forall>j \<in> set is. j < length bs1" using Cons.prems(2) d(3) by simp
  from Cons.IH [OF d(2) this, of calls] obtain s2 calls2 bs2 where
    e: "sweep vlen ord pick is s1 calls = Some (s2, calls2)" "store_rep vlen s2 bs2"
      "\<forall>k. bucket s2 k = bucket s1 k" "maxBucketBytes s2 = maxBucketBytes s1"
      "store_view s2 = (\<lambda>k. case store_view s1 k of None \<Rightarrow> None
        | Some r \<Rightarrow> if bucket s1 k \<in> set is \<and> pick (k, r) then None else Some r)" by blast
  have mem: "k \<in> set (ord ks) \<longleftrightarrow> bucket s k = i \<and> pick (k, r)" if "store_view s k = Some r" for k r
  proof -
    have "bfind k (bs ! bucket s k) = Some r" using that store_view_rep [OF S, of k] by simp
    then show ?thesis using hash [of k] unfolding so ks(2) by (cases r, cases "bucket s k = i") auto
  qed
  have "store_view s2 k = (case store_view s k of None \<Rightarrow> None
        | Some r \<Rightarrow> if bucket s k \<in> set (i # is) \<and> pick (k, r) then None else Some r)" for k
    using mem [of k] d(4) unfolding e(5) d(6) by (cases "store_view s k") auto
  moreover have "aget (caches s) i = Some (caches s ! i)" using i srep_len [OF S] by (simp add: aget_in)
  ultimately show ?case using ks(1) d(1,4,5) e(1,3,4)
    by (intro exI [of _ s2] exI [of _ calls2] exI [of _ bs2] conjI e(2)) (simp_all add: fun_eq_iff)
qed

lemma sweep_all_rep:
  assumes ord: "perm_of ord" and S: "store_inv vlen s"
  shows "\<exists>s' calls. sweep vlen ord pick [0..<length (caches s)] s [] = Some (s', calls) \<and> store_inv vlen s' \<and>
      store_view s' = (\<lambda>k. case store_view s k of None \<Rightarrow> None | Some r \<Rightarrow> if pick (k, r) then None else Some r)"
proof -
  obtain bs where bs: "store_rep vlen s bs" using S by (auto simp: store_inv_def)
  have "\<forall>i \<in> set [0..<length (caches s)]. i < length bs" using srep_len [OF bs] by simp
  moreover have "bucket s k \<in> set [0..<length (caches s)]" for k
    using bucket_range(1) [OF bs, of k] srep_len [OF bs] by simp
  ultimately have all: "(bucket s k \<in> set [0..<length (caches s)] \<and> p) = p" for k p by blast
  obtain s' calls bs' where "sweep vlen ord pick [0..<length (caches s)] s [] = Some (s', calls)" "store_rep vlen s' bs'"
    "store_view s' = (\<lambda>k. case store_view s k of None \<Rightarrow> None
        | Some r \<Rightarrow> if bucket s k \<in> set [0..<length (caches s)] \<and> pick (k, r) then None else Some r)"
    using sweep_rep [OF ord bs] \<open>\<forall>i \<in> set [0..<length (caches s)]. i < length bs\<close> by blast
  then show ?thesis unfolding all store_inv_def by blast
qed

lemma store_Clear_rep:
  assumes "perm_of ord" "store_inv vlen s"
  shows "\<exists>s' calls. store_Clear vlen ord s = Some (s', calls) \<and> store_inv vlen s' \<and> store_view s' = Map.empty"
proof -
  have "(\<lambda>k. case store_view s k of None \<Rightarrow> None | Some r \<Rightarrow> None) = Map.empty"
    by (simp add: fun_eq_iff split: option.split)
  then show ?thesis using sweep_all_rep [OF assms, of "\<lambda>_. True"]
    unfolding store_Clear_def if_True by metis
qed

lemma cleanup_rep:
  assumes "perm_of ord" "store_inv vlen s"
  shows "\<exists>s' calls. cleanup vlen ord s now = Some (s', calls) \<and> store_inv vlen s' \<and>
    store_view s' = (\<lambda>k. case store_view s k of None \<Rightarrow> None
      | Some (v, e) \<Rightarrow> if now \<ge> e then None else Some (v, e))"
  using sweep_all_rep [OF assms, of "\<lambda>(_, _, e). now \<ge> e"]
proof -
  have "(\<lambda>k. case store_view s k of None \<Rightarrow> None
      | Some r \<Rightarrow> if (\<lambda>(_, _, e). now \<ge> e) (k, r) then None else Some r) =
    (\<lambda>k. case store_view s k of None \<Rightarrow> None | Some (v, e) \<Rightarrow> if now \<ge> e then None else Some (v, e))"
    by (simp add: fun_eq_iff split: option.split)
  then show ?thesis using sweep_all_rep [OF assms, of "\<lambda>(_, _, e). now \<ge> e"] unfolding cleanup_def by metis
qed

lemma bucket_keys_card:
  assumes "bucket_rep vlen cc b"
  shows "\<exists>ks. bucket_keys (\<lambda>ks. ks) (\<lambda>_. True) cc = Some ks \<and> length ks = card (bkeys b)"
proof -
  obtain ks where "bucket_keys (\<lambda>ks. ks) (\<lambda>_. True) cc = Some ks" "distinct ks" "set ks = {k. \<exists>r. bfind k b = Some r}"
    using bucket_keys_rep [OF assms, of "\<lambda>ks. ks" "\<lambda>_. True"] by auto
  moreover have "{k. \<exists>r. bfind k b = Some r} = bkeys b"
  proof -
    have "k \<in> bkeys b \<longleftrightarrow> (\<exists>r. bfind k b = Some r)" for k
      using bfind_None_iff [of k b] by (cases "bfind k b") auto
    then show ?thesis by blast
  qed
  ultimately show ?thesis using distinct_card by force
qed

lemma len_loop_rep:
  "length ccs = length bs \<Longrightarrow> \<forall>i < length bs. bucket_rep vlen (ccs ! i) (bs ! i) \<Longrightarrow>
    len_loop ccs n = Some (n + sum_list (map (\<lambda>b. card (bkeys b)) bs))"
proof (induction ccs arbitrary: bs n)
  case Nil
  then show ?case by simp
next
  case (Cons cc ccs)
  obtain b bs' where b: "bs = b # bs'" using Cons.prems(1) by (cases bs) auto
  have R: "bucket_rep vlen cc b" using Cons.prems(2) b by force
  have "\<forall>i < length bs'. bucket_rep vlen (ccs ! i) (bs' ! i)"
  proof (intro allI impI)
    fix i assume "i < length bs'"
    then show "bucket_rep vlen (ccs ! i) (bs' ! i)" using Cons.prems(2) [rule_format, of "Suc i"] b by simp
  qed
  with Cons.IH [of bs'] Cons.prems(1) bucket_keys_card [OF R] b show ?case by auto
qed

lemma store_view_dom:
  assumes S: "store_rep vlen s bs"
  shows "dom (store_view s) = (\<Union>i < length bs. bkeys (bs ! i))"
proof -
  have "k \<in> dom (store_view s) \<longleftrightarrow> (\<exists>i < length bs. k \<in> bkeys (bs ! i))" for k
  proof -
    have "k \<in> dom (store_view s) \<longleftrightarrow> k \<in> bkeys (bs ! bucket s k)"
      using bfind_None_iff [of k "bs ! bucket s k"] store_view_rep [OF S, of k]
      unfolding domIff by metis
    then show ?thesis using bucket_range(1) [OF S, of k] srep_hash [OF S] by metis
  qed
  then show ?thesis by auto
qed

lemma store_Len_rep:
  assumes "store_inv vlen s"
  shows "store_Len s = Some (card (dom (store_view s)))" "finite (dom (store_view s))"
proof -
  obtain bs where bs: "store_rep vlen s bs" using assms by (auto simp: store_inv_def)
  have fin: "finite (bkeys b)" for b :: "'a bucket_view" by (simp add: bkeys_def)
  show "finite (dom (store_view s))" unfolding store_view_dom [OF bs] using fin by blast
  have dj: "bkeys (bs ! i) \<inter> bkeys (bs ! j) = {}" if "i < length bs" "j < length bs" "i \<noteq> j" for i j
    using srep_hash [OF bs] that by (metis disjoint_iff)
  have "card (dom (store_view s)) = (\<Sum>i < length bs. card (bkeys (bs ! i)))"
    unfolding store_view_dom [OF bs] using fin dj
    by (intro card_UN_disjoint) simp_all
  also have "\<dots> = sum_list (map (\<lambda>b. card (bkeys b)) bs)"
    by (simp add: sum_list_sum_nth atLeast0LessThan)
  finally show "store_Len s = Some (card (dom (store_view s)))"
    using len_loop_rep [of "caches s" bs vlen 0] bs by (simp add: store_Len_def store_rep_def)
qed

subsection \<open>NewStore\<close>

lemma Create_bucket:
  assumes "0 < c1" "c1 < 65535" "0 < c2" "c2 < 65535"
  shows "bucket_rep vlen (Create c1, Create c2) ([], [])"
proof -
  have "0 < unat c1" "0 < unat c2" using assms by (simp_all add: word_less_nat_alt)
  then show ?thesis
    using assms by (simp add: bucket_rep_def Create_rep del: length_greater_0_conv)
qed

lemma replicate_store_rep:
  assumes "0 < c1" "c1 < 65535" "0 < c2" "c2 < 65535" "n = unat (bmask s) + 1"
    "caches s = replicate n (Create c1, Create c2)"
  shows "store_inv vlen s" "store_view s = Map.empty"
proof -
  have S: "store_rep vlen s (replicate n ([], []))"
  proof -
    have "bucket_rep vlen (replicate n (Create c1, Create c2) ! i) (replicate n ([], []) ! i) \<and>
        (\<forall>k\<in>bkeys (replicate n ([], []) ! i). bucket s k = i)" if "i < n" for i
      using that Create_bucket [OF assms(1-4)] by (simp add: bkeys_def)
    then show ?thesis unfolding store_rep_def assms(6) using assms(5) by (metis length_replicate)
  qed
  then show "store_inv vlen s" unfolding store_inv_def by blast
  have "bucket s k < n" for k using bucket_range(1) [OF S, of k] by simp
  then show "store_view s = Map.empty" by (auto simp: store_view_rep [OF S] bfind_def lru_find_def)
qed

text \<open>
  With at most 32768 buckets (the default is 16) and capacities below 65535, \<open>NewStore\<close>
  succeeds, and the store is empty, well formed and has a power of two of buckets.
\<close>

definition good_options :: "StoreOptions \<Rightarrow> bool" where
  "good_options opts \<longleftrightarrow> oBucketCount opts \<le> 32768 \<and> oCapPerBucket opts < 65535 \<and> oLevel2Cap opts < 65535"

lemma mask_succ:
  assumes c: "0 < c" "c \<le> 32768"
  shows "\<exists>k < 16. MaskOfNextPowOf2 c + 1 = 2 ^ k \<and> unat (MaskOfNextPowOf2 c + 1) = 2 ^ k \<and>
    unat (MaskOfNextPowOf2 c) + 1 = 2 ^ k \<and> unat c \<le> 2 ^ k"
proof -
  obtain k where k: "MaskOfNextPowOf2 c = mask k" "unat c \<le> 2 ^ k" "2 ^ k < 2 * unat c" "k \<le> 16"
    using MaskOfNextPowOf2_mask [OF c(1)] by blast
  have "unat c \<le> 32768" using c(2) by (simp add: word_le_nat_alt)
  then have "(2::nat) ^ k < 2 ^ 16" using k(3) by simp
  then have k16: "k < 16" using power_less_imp_less_exp by (metis one_less_numeral_iff semiring_norm(76))
  have m: "mask k + 1 = (2 ^ k :: 16 word)" by (simp add: mask_eq_exp_minus_1)
  have "(2::nat) ^ k < 2 ^ 16" using k16 by (intro power_strict_increasing) auto
  then have "unat (of_nat (2 ^ k) :: 16 word) = 2 ^ k" by (simp only: unat_of_nat) simp
  then have u: "unat (2 ^ k :: 16 word) = 2 ^ k" by simp
  have "(2 ^ k :: 16 word) \<noteq> 0" using u by (metis power_eq_0_iff unat_0 zero_neq_numeral)
  then have "unat (2 ^ k - 1 :: 16 word) = 2 ^ k - 1" using unat_minus_one u by metis
  then have "unat (mask k :: 16 word) = 2 ^ k - 1" by (simp add: mask_eq_exp_minus_1)
  then have "unat (mask k :: 16 word) + 1 = 2 ^ k" by simp
  then show ?thesis using k k16 m u by auto
qed

lemma NewStore_rep:
  fixes vlen :: "'a \<Rightarrow> int"
  assumes g: "good_options opts"
  shows "\<exists>s k. NewStore opts = Some s \<and> store_inv vlen s \<and> store_view s = Map.empty \<and>
    length (caches s) = 2 ^ k \<and> unat (oBucketCount opts) \<le> 2 ^ k \<and>
    (maxBucketBytes s > 0 \<longleftrightarrow> oMaxBytes opts > 0)"
proof -
  let ?bc = "if oBucketCount opts = 0 then 16 else oBucketCount opts"
  let ?c1 = "if oCapPerBucket opts = 0 then 512 else oCapPerBucket opts"
  let ?c2 = "if oLevel2Cap opts = 0 then 256 else oLevel2Cap opts"
  let ?m = "MaskOfNextPowOf2 ?bc"
  have bc: "0 < ?bc" "?bc \<le> 32768" and c: "0 < ?c1" "?c1 < 65535" "0 < ?c2" "?c2 < 65535"
    using g by (auto simp: good_options_def word_gt_0)
  obtain k where k: "k < 16" "?m + 1 = 2 ^ k" "unat (?m + 1) = 2 ^ k" "unat ?m + 1 = 2 ^ k" "unat ?bc \<le> 2 ^ k"
    using mask_succ [OF bc] by blast
  have nz: "?m + 1 \<noteq> 0" using k(3) by (metis power_eq_0_iff unat_0 zero_neq_numeral)
  obtain s :: "'a lruStore" where s: "NewStore opts = Some s" "caches s = replicate (unat (?m + 1)) (Create ?c1, Create ?c2)"
      "bmask s = ucast ?m" "maxBucketBytes s > 0 \<longleftrightarrow> oMaxBytes opts > 0"
    using nz by (simp add: NewStore_def Let_def)
  have "unat ?m < 2 ^ 16" using unsigned_less [of ?m] by simp
  then have "take_bit 32 (unat ?m) = unat ?m" by (intro take_bit_nat_eq_self) (rule less_trans, assumption, simp)
  then have "unat (ucast ?m :: 32 word) = unat ?m" by (simp only: unsigned_ucast_eq) simp
  then have "unat (?m + 1) = unat (bmask s) + 1" using s(3) k by simp
  note R = replicate_store_rep(1) [OF c this s(2), of vlen] replicate_store_rep(2) [OF c this s(2)]
  have "unat (oBucketCount opts) \<le> 2 ^ k" using k(5) by (auto split: if_splits)
  moreover have "length (caches s) = 2 ^ k" unfolding s(2) using k(3) by simp
  ultimately show ?thesis using R s(1,4) by blast
qed

end
