(* ===== verification/Cache_Wrapper.thy ===== *)
theory Cache_Wrapper
  imports Lru_Store_Correct
begin

text \<open>
  The wrapper \<open>Cache\<close> of \<open>swifty_cache/cache.go\<close> over the interface \<open>Store\<close> of
  \<open>store.go\<close>. A Go interface value is a table of methods, here the record \<open>Store\<close>; the
  wrapper is written against any such table. The locale \<open>kv_store\<close> states what the wrapper
  needs of a store (every method keeps the invariant and never panics, a read returns only what the
  contents hold, a write adds at most its own entry), proves the wrapper's lemmas once, and is
  interpreted on the two level LRU store.

  \<open>ByteView\<close> is \<open>bytes\<close>; the nil \<open>Value\<close> is \<open>None\<close>. Both clocks are
  parameters: \<open>now\<close> is the store's cached clock, \<open>wall\<close> the clock that
  \<open>time.Until\<close> reads.
\<close>

definition bv_len :: "bytes \<Rightarrow> int" where
  "bv_len b = int (length b)"

lemma bv_len_nonneg [simp]: "bv_len b \<ge> 0"
  by (simp add: bv_len_def)

record 'st Store =
  sGet :: "'st \<Rightarrow> int \<Rightarrow> string \<Rightarrow> ('st \<times> bytes option option \<times> bytes call list) option"
  sSet :: "'st \<Rightarrow> int \<Rightarrow> string \<Rightarrow> bytes option \<Rightarrow> ('st \<times> bytes call list) option"
  sSetWithExpiration :: "'st \<Rightarrow> int \<Rightarrow> string \<Rightarrow> bytes option \<Rightarrow> int \<Rightarrow> ('st \<times> bytes call list) option"
  sDelete :: "'st \<Rightarrow> string \<Rightarrow> ('st \<times> bool \<times> bytes call list) option"
  sClear :: "(string list \<Rightarrow> string list) \<Rightarrow> 'st \<Rightarrow> ('st \<times> bytes call list) option"
  sLen :: "'st \<Rightarrow> nat option"
  sNew :: "StoreOptions \<Rightarrow> 'st option"
  sCleanup :: "(string list \<Rightarrow> string list) \<Rightarrow> 'st \<Rightarrow> int \<Rightarrow> ('st \<times> bytes call list) option"

text \<open>The method table of \<open>*lruStore\<close>, with its constructor and its background cleanup.\<close>

definition lru_methods :: "bytes lruStore Store" where
  "lru_methods = \<lparr>sGet = store_Get bv_len, sSet = store_Set bv_len,
     sSetWithExpiration = store_SetWithExpiration bv_len, sDelete = store_Delete bv_len,
     sClear = store_Clear bv_len, sLen = store_Len, sNew = NewStore, sCleanup = cleanup bv_len\<rparr>"

record 'st Cache =
  cstore :: "'st option"
  copts :: StoreOptions
  hits :: int
  misses :: int
  initialized :: bool
  closed :: bool

definition DefaultCacheOptions :: StoreOptions where
  "DefaultCacheOptions = \<lparr>oMaxBytes = 8 * 1024 * 1024, oBucketCount = 16, oCapPerBucket = 512,
     oLevel2Cap = 256, oOnEvicted = False\<rparr>"

definition NewCache :: "StoreOptions \<Rightarrow> 'st Cache" where
  "NewCache opts = \<lparr>cstore = None, copts = opts, hits = 0, misses = 0, initialized = False, closed = False\<rparr>"

definition ensureInitialized :: "'st Store \<Rightarrow> 'st Cache \<Rightarrow> 'st Cache option" where
  "ensureInitialized M c =
    (if initialized c then Some c
     else if closed c then Some c
     else do { s \<leftarrow> sNew M (copts c); Some (c\<lparr>cstore := Some s, initialized := True\<rparr>) })"

definition Cache_Add :: "'st Store \<Rightarrow> 'st Cache \<Rightarrow> int \<Rightarrow> string \<Rightarrow> bytes \<Rightarrow> 'st Cache option" where
  "Cache_Add M c now key value =
    (if closed c then Some c
     else do {
       c \<leftarrow> ensureInitialized M c;
       case cstore c of
         None \<Rightarrow> Some c
       | Some s \<Rightarrow> do { (s', _) \<leftarrow> sSet M s now key (Some value); Some (c\<lparr>cstore := Some s'\<rparr>) }
     })"

definition Cache_Get :: "'st Store \<Rightarrow> 'st Cache \<Rightarrow> int \<Rightarrow> string \<Rightarrow> ('st Cache \<times> bytes option) option" where
  "Cache_Get M c now key =
    (if closed c then Some (c, None)
     else if \<not> initialized c then Some (c\<lparr>misses := misses c + 1\<rparr>, None)
     else case cstore c of
       None \<Rightarrow> Some (c\<lparr>misses := misses c + 1\<rparr>, None)
     | Some s \<Rightarrow> do {
         (s', val, _) \<leftarrow> sGet M s now key;
         case val of
           None \<Rightarrow> Some (c\<lparr>cstore := Some s', misses := misses c + 1\<rparr>, None)
         | Some None \<Rightarrow> Some (c\<lparr>cstore := Some s', misses := misses c + 1\<rparr>, None)
         | Some (Some bv) \<Rightarrow> Some (c\<lparr>cstore := Some s', hits := hits c + 1\<rparr>, Some bv)
       })"

text \<open>\<open>time.Until\<close> saturates at the bounds of \<open>Duration\<close>.\<close>

definition time_Until :: "int \<Rightarrow> int \<Rightarrow> int" where
  "time_Until wall t = max (- (2 ^ 63)) (min maxInt64 (t - wall))"

definition Cache_AddWithExpiration :: "'st Store \<Rightarrow> 'st Cache \<Rightarrow> int \<Rightarrow> int \<Rightarrow> string \<Rightarrow> bytes \<Rightarrow> int
    \<Rightarrow> 'st Cache option" where
  "Cache_AddWithExpiration M c now wall key value expirationTime =
    (if closed c then Some c
     else let expiration = time_Until wall expirationTime in
       if expiration \<le> 0 then Some c
       else do {
         c \<leftarrow> ensureInitialized M c;
         case cstore c of
           None \<Rightarrow> Some c
         | Some s \<Rightarrow> do {
             (s', _) \<leftarrow> sSetWithExpiration M s now key (Some value) expiration;
             Some (c\<lparr>cstore := Some s'\<rparr>)
           }
       })"

definition Cache_Delete :: "'st Store \<Rightarrow> 'st Cache \<Rightarrow> string \<Rightarrow> ('st Cache \<times> bool) option" where
  "Cache_Delete M c key =
    (if closed c \<or> \<not> initialized c then Some (c, False)
     else case cstore c of
       None \<Rightarrow> Some (c, False)
     | Some s \<Rightarrow> do { (s', ok, _) \<leftarrow> sDelete M s key; Some (c\<lparr>cstore := Some s'\<rparr>, ok) })"

definition Cache_Clear :: "'st Store \<Rightarrow> (string list \<Rightarrow> string list) \<Rightarrow> 'st Cache \<Rightarrow> 'st Cache option" where
  "Cache_Clear M ord c =
    (if closed c \<or> \<not> initialized c then Some c
     else case cstore c of
       None \<Rightarrow> Some c
     | Some s \<Rightarrow> do { (s', _) \<leftarrow> sClear M ord s; Some (c\<lparr>cstore := Some s', hits := 0, misses := 0\<rparr>) })"

definition Cache_Len :: "'st Store \<Rightarrow> 'st Cache \<Rightarrow> nat option" where
  "Cache_Len M c =
    (if closed c \<or> \<not> initialized c then Some 0
     else case cstore c of None \<Rightarrow> Some 0 | Some s \<Rightarrow> sLen M s)"

definition Cache_Close :: "'st Cache \<Rightarrow> 'st Cache" where
  "Cache_Close c = (if closed c then c else c\<lparr>closed := True, cstore := None, initialized := False\<rparr>)"

text \<open>The ticker of the store, when there is one.\<close>

definition Cache_tick :: "'st Store \<Rightarrow> (string list \<Rightarrow> string list) \<Rightarrow> 'st Cache \<Rightarrow> int \<Rightarrow> 'st Cache option" where
  "Cache_tick M ord c now = (case cstore c of
      None \<Rightarrow> Some c
    | Some s \<Rightarrow> do { (s', _) \<leftarrow> sCleanup M ord s now; Some (c\<lparr>cstore := Some s'\<rparr>) })"

subsection \<open>Sequences of operations\<close>

datatype cache_op =
  OpAdd string bytes
| OpAddExp int string bytes int
| OpGet string
| OpDelete string
| OpClear
| OpClose
| OpTick

text \<open>One operation at time \<open>now\<close>; the second component is what \<open>Get\<close> returned.\<close>

fun cache_step :: "'st Store \<Rightarrow> (string list \<Rightarrow> string list) \<Rightarrow> 'st Cache \<Rightarrow> int \<times> cache_op
    \<Rightarrow> ('st Cache \<times> bytes option) option" where
  "cache_step M ord c (now, OpAdd k v) = map_option (\<lambda>c'. (c', None)) (Cache_Add M c now k v)"
| "cache_step M ord c (now, OpAddExp wall k v t) =
     map_option (\<lambda>c'. (c', None)) (Cache_AddWithExpiration M c now wall k v t)"
| "cache_step M ord c (now, OpGet k) = Cache_Get M c now k"
| "cache_step M ord c (now, OpDelete k) = map_option (\<lambda>(c', _). (c', None)) (Cache_Delete M c k)"
| "cache_step M ord c (now, OpClear) = map_option (\<lambda>c'. (c', None)) (Cache_Clear M ord c)"
| "cache_step M ord c (now, OpClose) = Some (Cache_Close c, None)"
| "cache_step M ord c (now, OpTick) = map_option (\<lambda>c'. (c', None)) (Cache_tick M ord c now)"

fun cache_run :: "'st Store \<Rightarrow> (string list \<Rightarrow> string list) \<Rightarrow> 'st Cache \<Rightarrow> (int \<times> cache_op) list
    \<Rightarrow> ('st Cache \<times> bytes option list) option" where
  "cache_run M ord c [] = Some (c, [])"
| "cache_run M ord c (op # ops) = do {
     (c', r) \<leftarrow> cache_step M ord c op;
     (c'', rs) \<leftarrow> cache_run M ord c' ops;
     Some (c'', r # rs)
   }"

text \<open>
  The specification: an unbounded map with expiry times that forgets nothing by itself. A real cache
  may answer a miss at any time, but a hit must be the value the map holds, unexpired.
\<close>

type_synonym ideal = "string \<Rightarrow> (bytes option \<times> int) option"

fun ideal_step :: "ideal \<Rightarrow> int \<times> cache_op \<Rightarrow> ideal" where
  "ideal_step m (now, OpAdd k v) = m(k \<mapsto> (Some v, expiryOf now 0))"
| "ideal_step m (now, OpAddExp wall k v t) =
     (if time_Until wall t \<le> 0 then m else m(k \<mapsto> (Some v, expiryOf now (time_Until wall t))))"
| "ideal_step m (now, OpGet k) = m"
| "ideal_step m (now, OpDelete k) = m(k := None)"
| "ideal_step m (now, OpClear) = Map.empty"
| "ideal_step m (now, OpClose) = Map.empty"
| "ideal_step m (now, OpTick) = m"

fun ideal_allows :: "ideal \<Rightarrow> int \<times> cache_op \<Rightarrow> bytes option \<Rightarrow> bool" where
  "ideal_allows m (now, OpGet k) (Some b) = (\<exists>e. m k = Some (Some b, e) \<and> now < e)"
| "ideal_allows m _ r = (r = None)"

fun ideal_accepts :: "ideal \<Rightarrow> (int \<times> cache_op) list \<Rightarrow> bytes option list \<Rightarrow> bool" where
  "ideal_accepts m [] [] = True"
| "ideal_accepts m (op # ops) (r # rs) = (ideal_allows m op r \<and> ideal_accepts (ideal_step m op) ops rs)"
| "ideal_accepts m _ _ = False"

text \<open>The clock values for which no expiry time wraps around.\<close>

fun op_time_ok :: "int \<times> cache_op \<Rightarrow> bool" where
  "op_time_ok (now, OpAddExp wall k v t) = (0 \<le> now \<and> now + time_Until wall t < 2 ^ 63)"
| "op_time_ok _ = True"

lemma expiryOf_pos: "0 \<le> now \<Longrightarrow> now + d < 2 ^ 63 \<Longrightarrow> expiryOf now d > 0"
  by (simp add: expiryOf_def maxInt64_def in_int64_def)

text \<open>A well formed wrapper over a store with invariant \<open>inv\<close>, and what it holds.\<close>

definition cache_wf :: "('st \<Rightarrow> bool) \<Rightarrow> (StoreOptions \<Rightarrow> bool) \<Rightarrow> 'st Cache \<Rightarrow> bool" where
  "cache_wf okst good c \<longleftrightarrow> good (copts c) \<and> (initialized c \<longleftrightarrow> cstore c \<noteq> None) \<and> (closed c \<longrightarrow> cstore c = None) \<and>
     (\<forall>s. cstore c = Some s \<longrightarrow> okst s)"

definition cache_contents :: "('st \<Rightarrow> ideal) \<Rightarrow> 'st Cache \<Rightarrow> ideal" where
  "cache_contents view c = (case cstore c of None \<Rightarrow> Map.empty | Some s \<Rightarrow> view s)"

subsection \<open>The contract of a store\<close>

locale kv_store =
  fixes M :: "'st Store"
    and inv :: "'st \<Rightarrow> bool"
    and view :: "'st \<Rightarrow> ideal"
    and fits :: "'st \<Rightarrow> string \<Rightarrow> bytes option \<Rightarrow> bool"
    and good :: "StoreOptions \<Rightarrow> bool"
  assumes new_law: "good opts \<Longrightarrow> \<exists>s. sNew M opts = Some s \<and> inv s \<and> view s = Map.empty"
    and get_law: "inv s \<Longrightarrow> \<exists>s' calls. sGet M s now k = Some (s', fresh_value now (view s k), calls) \<and>
      inv s' \<and> view s' \<subseteq>\<^sub>m view s \<and> (\<forall>v e. view s k = Some (v, e) \<longrightarrow> now < e \<longrightarrow> view s' k = Some (v, e))"
    and set_law: "inv s \<Longrightarrow> 0 < expiryOf now d \<Longrightarrow> \<exists>s' calls. sSetWithExpiration M s now k v d = Some (s', calls) \<and>
      inv s' \<and> view s' \<subseteq>\<^sub>m (view s)(k \<mapsto> (v, expiryOf now d)) \<and> (fits s k v \<longrightarrow> view s' k = Some (v, expiryOf now d))"
    and set_plain: "sSet M s now k v = sSetWithExpiration M s now k v 0"
    and delete_law: "inv s \<Longrightarrow> \<exists>s' calls. sDelete M s k = Some (s', view s k \<noteq> None, calls) \<and>
      inv s' \<and> view s' = (view s)(k := None)"
    and clear_law: "inv s \<Longrightarrow> perm_of ord \<Longrightarrow> \<exists>s' calls. sClear M ord s = Some (s', calls) \<and> inv s' \<and> view s' = Map.empty"
    and len_law: "inv s \<Longrightarrow> sLen M s = Some (card (dom (view s)))"
    and cleanup_law: "inv s \<Longrightarrow> perm_of ord \<Longrightarrow> \<exists>s' calls. sCleanup M ord s now = Some (s', calls) \<and>
      inv s' \<and> view s' \<subseteq>\<^sub>m view s"
begin

abbreviation wf :: "'st Cache \<Rightarrow> bool" where
  "wf \<equiv> cache_wf inv good"

abbreviation contents :: "'st Cache \<Rightarrow> ideal" where
  "contents \<equiv> cache_contents view"

lemma wf_new: "good opts \<Longrightarrow> wf (NewCache opts)" "contents (NewCache opts) = Map.empty"
  by (simp_all add: cache_wf_def NewCache_def cache_contents_def)

lemma ensure_ok:
  assumes "wf c" "\<not> closed c"
  shows "\<exists>c' s. ensureInitialized M c = Some c' \<and> wf c' \<and> cstore c' = Some s \<and> contents c' = contents c \<and>
    \<not> closed c' \<and> initialized c' \<and> hits c' = hits c \<and> misses c' = misses c"
proof (cases "initialized c")
  case True
  then show ?thesis using assms by (auto simp: ensureInitialized_def cache_wf_def)
next
  case False
  obtain s where "sNew M (copts c) = Some s" "inv s" "view s = Map.empty" using new_law [of "copts c"] assms by (auto simp: cache_wf_def)
  then show ?thesis using assms False by (auto simp: ensureInitialized_def cache_wf_def cache_contents_def)
qed

text \<open>Replacing the store of an open, initialised cache by one that keeps the invariant.\<close>

lemma wf_update:
  "wf c \<Longrightarrow> \<not> closed c \<Longrightarrow> initialized c \<Longrightarrow> inv s \<Longrightarrow> wf (c\<lparr>cstore := Some s, hits := h, misses := m\<rparr>)"
  by (simp add: cache_wf_def)

lemma store_inv: "wf c \<Longrightarrow> cstore c = Some s \<Longrightarrow> inv s"
  by (simp add: cache_wf_def)

lemma open_state: "wf c \<Longrightarrow> cstore c = Some s \<Longrightarrow> \<not> closed c \<and> initialized c"
  by (auto simp: cache_wf_def)

lemma set_ok:
  assumes W: "wf c" "\<not> closed c" and e: "0 < expiryOf now d"
  shows "\<exists>c1 s s' calls. ensureInitialized M c = Some c1 \<and> cstore c1 = Some s \<and>
    sSetWithExpiration M s now k (Some v) d = Some (s', calls) \<and> wf (c1\<lparr>cstore := Some s'\<rparr>) \<and>
    contents (c1\<lparr>cstore := Some s'\<rparr>) \<subseteq>\<^sub>m (contents c)(k \<mapsto> (Some v, expiryOf now d)) \<and>
    (fits s k (Some v) \<longrightarrow> contents (c1\<lparr>cstore := Some s'\<rparr>) k = Some (Some v, expiryOf now d))"
proof -
  obtain c1 s where c1: "ensureInitialized M c = Some c1" "wf c1" "cstore c1 = Some s" "contents c1 = contents c"
    using ensure_ok [OF W] by blast
  obtain s' calls where s': "sSetWithExpiration M s now k (Some v) d = Some (s', calls)" "inv s'"
    "view s' \<subseteq>\<^sub>m (view s)(k \<mapsto> (Some v, expiryOf now d))" "fits s k (Some v) \<longrightarrow> view s' k = Some (Some v, expiryOf now d)"
    using set_law [OF store_inv [OF c1(2,3)] e] by blast
  have "contents c = view s" using c1(3,4) by (simp add: cache_contents_def)
  then show ?thesis
    using c1 s' open_state [OF c1(2,3)] by (auto simp: cache_wf_def cache_contents_def)
qed

lemma add_ok:
  assumes "wf c"
  shows "\<exists>c'. Cache_Add M c now k v = Some c' \<and> wf c' \<and>
    contents c' \<subseteq>\<^sub>m (contents c)(k \<mapsto> (Some v, expiryOf now 0))"
proof (cases "closed c")
  case True
  then show ?thesis using assms by (auto simp: Cache_Add_def cache_contents_def cache_wf_def)
next
  case False
  have "0 < expiryOf now 0" by (simp add: expiryOf_def maxInt64_def)
  from set_ok [OF assms False this, of k v] show ?thesis
    using False by (auto simp: Cache_Add_def set_plain)
qed

lemma add_exp_ok:
  assumes W: "wf c" and t: "op_time_ok (now, OpAddExp wall k v t)"
  shows "\<exists>c'. Cache_AddWithExpiration M c now wall k v t = Some c' \<and> wf c' \<and>
    contents c' \<subseteq>\<^sub>m ideal_step (contents c) (now, OpAddExp wall k v t)"
proof (cases "closed c \<or> time_Until wall t \<le> 0")
  case True
  then show ?thesis using W by (auto simp: Cache_AddWithExpiration_def cache_contents_def cache_wf_def)
next
  case False
  then have nc: "\<not> closed c" by simp
  have "0 < expiryOf now (time_Until wall t)" using t by (intro expiryOf_pos) auto
  from set_ok [OF W nc this, of k v] show ?thesis
    using False by (auto simp: Cache_AddWithExpiration_def Let_def)
qed

lemma get_ok:
  assumes "wf c"
  shows "\<exists>c' r. Cache_Get M c now k = Some (c', r) \<and> wf c' \<and> contents c' \<subseteq>\<^sub>m contents c \<and>
    r = (case contents c k of Some (v, e) \<Rightarrow> if now < e then v else None | None \<Rightarrow> None) \<and>
    (\<forall>v e. contents c k = Some (v, e) \<longrightarrow> now < e \<longrightarrow> contents c' k = Some (v, e)) \<and> closed c' = closed c \<and>
    hits c' = hits c + (if \<not> closed c \<and> r \<noteq> None then 1 else 0) \<and>
    misses c' = misses c + (if \<not> closed c \<and> r = None then 1 else 0)"
proof (cases "cstore c")
  case None
  then show ?thesis using assms by (auto simp: Cache_Get_def cache_contents_def cache_wf_def)
next
  case (Some s)
  obtain s' calls where g: "sGet M s now k = Some (s', fresh_value now (view s k), calls)" "inv s'" "view s' \<subseteq>\<^sub>m view s"
    "\<forall>v e. view s k = Some (v, e) \<longrightarrow> now < e \<longrightarrow> view s' k = Some (v, e)"
    using get_law [OF store_inv [OF assms Some]] by blast
  note o = open_state [OF assms Some]
  show ?thesis
    using Some g o assms
    by (auto simp: Cache_Get_def cache_contents_def cache_wf_def fresh_value_def split: option.splits)
qed

lemma delete_ok:
  assumes "wf c"
  shows "\<exists>c'. Cache_Delete M c k = Some (c', contents c k \<noteq> None) \<and> wf c' \<and> contents c' = (contents c)(k := None)"
proof (cases "cstore c")
  case None
  then show ?thesis using assms by (auto simp: Cache_Delete_def cache_contents_def cache_wf_def)
next
  case (Some s)
  obtain s' calls where "sDelete M s k = Some (s', view s k \<noteq> None, calls)" "inv s'" "view s' = (view s)(k := None)"
    using delete_law [OF store_inv [OF assms Some]] by blast
  then show ?thesis using Some open_state [OF assms Some] assms
    by (auto simp: Cache_Delete_def cache_contents_def cache_wf_def)
qed

lemma clear_ok:
  assumes "wf c" "perm_of ord"
  shows "\<exists>c'. Cache_Clear M ord c = Some c' \<and> wf c' \<and> contents c' = Map.empty \<and>
    (\<not> closed c \<and> initialized c \<longrightarrow> hits c' = 0 \<and> misses c' = 0)"
proof (cases "cstore c")
  case None
  then show ?thesis using assms by (auto simp: Cache_Clear_def cache_contents_def cache_wf_def)
next
  case (Some s)
  obtain s' calls where "sClear M ord s = Some (s', calls)" "inv s'" "view s' = Map.empty"
    using clear_law [OF store_inv [OF assms(1) Some] assms(2)] by blast
  then show ?thesis using Some open_state [OF assms(1) Some] assms
    by (auto simp: Cache_Clear_def cache_contents_def cache_wf_def)
qed

lemma len_ok: "wf c \<Longrightarrow> Cache_Len M c = Some (card (dom (contents c)))"
  using len_law by (auto simp: Cache_Len_def cache_contents_def cache_wf_def split: option.split)

lemma close_ok: "wf c \<Longrightarrow> wf (Cache_Close c) \<and> contents (Cache_Close c) = Map.empty \<and> closed (Cache_Close c)"
  by (auto simp: Cache_Close_def cache_contents_def cache_wf_def)

lemma tick_ok:
  assumes "wf c" "perm_of ord"
  shows "\<exists>c'. Cache_tick M ord c now = Some c' \<and> wf c' \<and> contents c' \<subseteq>\<^sub>m contents c"
proof (cases "cstore c")
  case None
  then show ?thesis using assms by (auto simp: Cache_tick_def)
next
  case (Some s)
  obtain s' calls where "sCleanup M ord s now = Some (s', calls)" "inv s'" "view s' \<subseteq>\<^sub>m view s"
    using cleanup_law [OF store_inv [OF assms(1) Some] assms(2)] by blast
  then show ?thesis using Some open_state [OF assms(1) Some] assms
    by (auto simp: Cache_tick_def cache_contents_def cache_wf_def)
qed

lemma map_le_update: "m \<subseteq>\<^sub>m m' \<Longrightarrow> m(k \<mapsto> r) \<subseteq>\<^sub>m m'(k \<mapsto> r)"
  by (auto simp: map_le_def)

lemma map_le_remove: "m \<subseteq>\<^sub>m m' \<Longrightarrow> m(k := None) \<subseteq>\<^sub>m m'(k := None)"
  by (auto simp: map_le_def)

lemma step_ok:
  assumes W: "wf c" and le: "contents c \<subseteq>\<^sub>m m" and ord: "perm_of ord" and t: "op_time_ok op"
  shows "\<exists>c' r. cache_step M ord c op = Some (c', r) \<and> wf c' \<and> contents c' \<subseteq>\<^sub>m ideal_step m op \<and> ideal_allows m op r"
proof -
  obtain now o' where op: "op = (now, o')" by (cases op)
  show ?thesis
  proof (cases o')
    case (OpAdd k v)
    then show ?thesis
      using add_ok [OF W, of now k v] map_le_trans [OF _ map_le_update [OF le]] op by fastforce
  next
    case (OpAddExp wall k v x)
    have "ideal_step (contents c) op \<subseteq>\<^sub>m ideal_step m op" using le map_le_update [OF le] by (simp add: op OpAddExp)
    then show ?thesis
      using add_exp_ok [OF W, of now wall k v x] t map_le_trans op OpAddExp by fastforce
  next
    case (OpGet k)
    obtain c' r where g: "Cache_Get M c now k = Some (c', r)" "wf c'" "contents c' \<subseteq>\<^sub>m contents c"
      "r = (case contents c k of Some (v, e) \<Rightarrow> if now < e then v else None | None \<Rightarrow> None)"
      using get_ok [OF W, of now k] by blast
    have "ideal_allows m op r"
    proof (cases r)
      case (Some b)
      then obtain e where "contents c k = Some (Some b, e)" "now < e"
        using g(4) by (auto split: option.splits if_splits)
      then show ?thesis using Some le op OpGet by (auto simp: map_le_def dom_def)
    qed (simp add: op OpGet)
    then show ?thesis using g map_le_trans [OF _ le] op OpGet by auto
  next
    case (OpDelete k)
    then show ?thesis using delete_ok [OF W, of k] map_le_remove [OF le] op by auto
  next
    case OpClear
    then show ?thesis using clear_ok [OF W ord] op by auto
  next
    case OpClose
    then show ?thesis using close_ok [OF W] op by auto
  next
    case OpTick
    then show ?thesis using tick_ok [OF W ord, of now] map_le_trans [OF _ le] op by fastforce
  qed
qed

text \<open>Every run is accepted by the specification.\<close>

lemma run_ok:
  "wf c \<Longrightarrow> contents c \<subseteq>\<^sub>m m \<Longrightarrow> perm_of ord \<Longrightarrow> list_all op_time_ok ops \<Longrightarrow>
    \<exists>c' rs. cache_run M ord c ops = Some (c', rs) \<and> wf c' \<and> ideal_accepts m ops rs"
proof (induction ops arbitrary: c m)
  case (Cons op ops)
  obtain c1 r where s: "cache_step M ord c op = Some (c1, r)" "wf c1" "contents c1 \<subseteq>\<^sub>m ideal_step m op" "ideal_allows m op r"
    using step_ok [OF Cons.prems(1-3), of op] Cons.prems(4) by auto
  from Cons.IH [OF s(2,3)] Cons.prems(3,4) s(1,4) show ?case by auto
qed simp

text \<open>Without an intervening operation, a value that was added and fits is read back.\<close>

lemma add_get:
  assumes W: "wf c" "\<not> closed c" and st: "cstore c = Some s" "fits s k (Some v)" and t: "now' < maxInt64"
  shows "\<exists>c1 c2. Cache_Add M c now k v = Some c1 \<and> Cache_Get M c1 now' k = Some (c2, Some v)"
proof -
  have e: "0 < expiryOf now 0" "expiryOf now 0 = maxInt64" by (simp_all add: expiryOf_def maxInt64_def)
  have "ensureInitialized M c = Some c" using open_state [OF W(1) st(1)] by (simp add: ensureInitialized_def)
  then obtain s' calls where s': "sSetWithExpiration M s now k (Some v) 0 = Some (s', calls)" "wf (c\<lparr>cstore := Some s'\<rparr>)"
    "contents (c\<lparr>cstore := Some s'\<rparr>) k = Some (Some v, maxInt64)"
    using set_ok [OF W e(1), of k v] st e(2) by auto
  then have "Cache_Add M c now k v = Some (c\<lparr>cstore := Some s'\<rparr>)"
    using W(2) st(1) \<open>ensureInitialized M c = Some c\<close> by (simp add: Cache_Add_def set_plain)
  then show ?thesis using get_ok [OF s'(2), of now' k] s'(3) t by auto
qed

end

subsection \<open>The LRU store is such a store\<close>

definition lru_fits :: "bytes lruStore \<Rightarrow> string \<Rightarrow> bytes option \<Rightarrow> bool" where
  "lru_fits s k v \<longleftrightarrow> maxBucketBytes s \<le> 0 \<or> entryBytes bv_len k v + level2_bytes s k \<le> maxBucketBytes s"

interpretation lru: kv_store lru_methods "store_inv bv_len" store_view lru_fits good_options
proof (unfold_locales, goal_cases)
  case (1 opts)
  then show ?case using NewStore_rep [of opts bv_len] by (auto simp: lru_methods_def)
next
  case (2 s now k)
  then show ?case using store_Get_rep [of bv_len s now k] by (fastforce simp: lru_methods_def)
next
  case (3 s now d k v)
  then show ?case using store_Set_rep [of bv_len s now d k v] by (auto simp: lru_methods_def lru_fits_def)
next
  case 4
  then show ?case by (simp add: lru_methods_def store_Set_def)
next
  case (5 s k)
  then show ?case using store_Delete_rep [of bv_len s k] by (simp add: lru_methods_def)
next
  case (6 s ord)
  then show ?case using store_Clear_rep [of ord bv_len s] by (simp add: lru_methods_def)
next
  case (7 s)
  then show ?case using store_Len_rep(1) by (simp add: lru_methods_def)
next
  case (8 s ord now)
  then show ?case using cleanup_rep [of ord bv_len s now]
    by (fastforce simp: lru_methods_def map_le_def dom_def split: option.splits if_splits)
qed

end
