(* ===== verification/Cache_Group.thy ===== *)
theory Cache_Group
  imports Cache_Wrapper
begin

text \<open>
  A cache namespace, \<open>Group\<close> of \<open>swifty_cache/group.go\<close>, and the global registry of
  groups. The user's loader \<open>getter\<close>, the RPC to a peer \<open>peer_get\<close> and the clocks are
  parameters; the peer picker is a function from keys to what \<open>PickPeer\<close> returns. The
  asynchronous \<open>syncToPeers\<close> is represented by the RPC it makes. \<open>Do\<close> of the single
  flight group, for a caller that finds no call in flight, is \<open>sf_Do\<close>; concurrent callers are
  the subject of \<open>Single_Flight\<close>.
\<close>

datatype 'a outcome = Ret 'a | Err string | Panics

datatype gerror = ErrKeyRequired | ErrValueRequired | ErrGroupClosed | ErrLoad string | ErrLoadPanic

record groupStats =
  gets :: int
  loads :: int
  loadsDeduped :: int
  localHits :: int
  localMisses :: int
  peerHits :: int
  peerMisses :: int
  loaderHits :: int
  loaderErrors :: int
  serverRequests :: int
  loadDuration :: int

definition zero_stats :: groupStats where
  "zero_stats = \<lparr>gets = 0, loads = 0, loadsDeduped = 0, localHits = 0, localMisses = 0, peerHits = 0,
     peerMisses = 0, loaderHits = 0, loaderErrors = 0, serverRequests = 0, loadDuration = 0\<rparr>"

text \<open>\<open>PickPeer\<close>: the peer (nil is \<open>None\<close>), whether one was found, whether it is this node.\<close>

type_synonym picker = "string \<Rightarrow> string option \<times> bool \<times> bool"

record 'st Group =
  gname :: string
  mainCache :: "'st Cache"
  gpeers :: "picker option"
  expiration :: int
  gclosed :: bool
  stats :: groupStats

text \<open>What the surroundings of a request supply; \<open>took\<close> is how long a load takes.\<close>

record env =
  getter :: "string \<Rightarrow> bytes outcome"
  peer_get :: "string \<Rightarrow> string \<Rightarrow> string \<Rightarrow> string + bytes"
  clock :: int
  wall :: int
  wall_later :: int
  isPeerRequest :: bool
  took :: int

definition NewGroup :: "string \<Rightarrow> StoreOptions \<Rightarrow> int \<Rightarrow> picker option \<Rightarrow> 'st Group" where
  "NewGroup name opts ttl ps = \<lparr>gname = name, mainCache = NewCache opts, gpeers = ps, expiration = ttl,
     gclosed = False, stats = zero_stats\<rparr>"

fun sf_Do :: "'a outcome \<Rightarrow> gerror + 'a" where
  "sf_Do (Ret v) = Inr v"
| "sf_Do (Err e) = Inl (ErrLoad e)"
| "sf_Do Panics = Inl ErrLoadPanic"

text \<open>Storing a value under the TTL of the group.\<close>

definition cache_value :: "'st Store \<Rightarrow> env \<Rightarrow> 'st Group \<Rightarrow> string \<Rightarrow> bytes \<Rightarrow> 'st Group option" where
  "cache_value M ev g key view =
    (if expiration g > 0 then do {
       c \<leftarrow> Cache_AddWithExpiration M (mainCache g) (clock ev) (wall_later ev) key view (wall ev + expiration g);
       Some (g\<lparr>mainCache := c\<rparr>)
     } else do {
       c \<leftarrow> Cache_Add M (mainCache g) (clock ev) key view;
       Some (g\<lparr>mainCache := c\<rparr>)
     })"

definition from_getter :: "env \<Rightarrow> 'st Group \<Rightarrow> string \<Rightarrow> 'st Group \<times> bytes outcome" where
  "from_getter ev g key = (case getter ev key of
      Ret b \<Rightarrow> (g\<lparr>stats := (stats g)\<lparr>loaderHits := loaderHits (stats g) + 1\<rparr>\<rparr>, Ret b)
    | Err e \<Rightarrow> (g, Err e)
    | Panics \<Rightarrow> (g, Panics))"

definition loadData :: "env \<Rightarrow> 'st Group \<Rightarrow> string \<Rightarrow> 'st Group \<times> bytes outcome" where
  "loadData ev g key =
    (case gpeers g of
      Some pick \<Rightarrow>
        if \<not> isPeerRequest ev then
          (case pick key of
            (Some peer, True, False) \<Rightarrow>
              (case peer_get ev peer (gname g) key of
                Inr b \<Rightarrow> (g\<lparr>stats := (stats g)\<lparr>peerHits := peerHits (stats g) + 1\<rparr>\<rparr>, Ret b)
              | Inl _ \<Rightarrow> from_getter ev (g\<lparr>stats := (stats g)\<lparr>peerMisses := peerMisses (stats g) + 1\<rparr>\<rparr>) key)
          | _ \<Rightarrow> from_getter ev g key)
        else from_getter ev g key
    | None \<Rightarrow> from_getter ev g key)"

text \<open>The function that \<open>load\<close> passes to \<open>Do\<close>.\<close>

definition load_fn :: "'st Store \<Rightarrow> env \<Rightarrow> 'st Group \<Rightarrow> string \<Rightarrow> ('st Group \<times> bytes outcome) option" where
  "load_fn M ev g key = do {
     (c, hit) \<leftarrow> Cache_Get M (mainCache g) (clock ev) key;
     let g = g\<lparr>mainCache := c\<rparr>;
     case hit of
       Some view \<Rightarrow> Some (g, Ret view)
     | None \<Rightarrow> (case loadData ev (g\<lparr>stats := (stats g)\<lparr>loadsDeduped := loadsDeduped (stats g) + 1\<rparr>\<rparr>) key of
         (g, Ret view) \<Rightarrow> do { g \<leftarrow> cache_value M ev g key view; Some (g, Ret view) }
       | (g, r) \<Rightarrow> Some (g, r))
   }"

definition load :: "'st Store \<Rightarrow> env \<Rightarrow> 'st Group \<Rightarrow> string \<Rightarrow> ('st Group \<times> (gerror + bytes)) option" where
  "load M ev g key = do {
     (g, out) \<leftarrow> load_fn M ev g key;
     let g = g\<lparr>stats := (stats g)\<lparr>loadDuration := loadDuration (stats g) + took ev, loads := loads (stats g) + 1\<rparr>\<rparr>;
     case sf_Do out of
       Inl e \<Rightarrow> Some (g\<lparr>stats := (stats g)\<lparr>loaderErrors := loaderErrors (stats g) + 1\<rparr>\<rparr>, Inl e)
     | Inr view \<Rightarrow> Some (g, Inr view)
   }"

definition Group_Get :: "'st Store \<Rightarrow> env \<Rightarrow> 'st Group \<Rightarrow> string \<Rightarrow> ('st Group \<times> (gerror + bytes)) option" where
  "Group_Get M ev g key =
    (if gclosed g then Some (g, Inl ErrGroupClosed)
     else if key = [] then Some (g, Inl ErrKeyRequired)
     else do {
       let g = g\<lparr>stats := (stats g)\<lparr>gets := gets (stats g) + 1\<rparr>\<rparr>;
       (c, hit) \<leftarrow> Cache_Get M (mainCache g) (clock ev) key;
       let g = g\<lparr>mainCache := c\<rparr>;
       case hit of
         Some view \<Rightarrow> Some (g\<lparr>stats := (stats g)\<lparr>localHits := localHits (stats g) + 1\<rparr>\<rparr>, Inr view)
       | None \<Rightarrow> load M ev (g\<lparr>stats := (stats g)\<lparr>localMisses := localMisses (stats g) + 1\<rparr>\<rparr>) key
     })"

datatype sync_op = SyncSet bytes | SyncDelete

type_synonym sync = "string \<times> string \<times> string \<times> sync_op"

definition syncToPeers :: "picker \<Rightarrow> string \<Rightarrow> string \<Rightarrow> sync_op \<Rightarrow> sync list" where
  "syncToPeers pick name key op = (case pick key of
      (Some peer, True, False) \<Rightarrow> [(peer, name, key, op)]
    | _ \<Rightarrow> [])"

definition sync_unless_forwarded :: "env \<Rightarrow> 'st Group \<Rightarrow> string \<Rightarrow> sync_op \<Rightarrow> sync list" where
  "sync_unless_forwarded ev g key op =
    (if isPeerRequest ev then []
     else case gpeers g of None \<Rightarrow> [] | Some pick \<Rightarrow> syncToPeers pick (gname g) key op)"

definition Group_Set :: "'st Store \<Rightarrow> env \<Rightarrow> 'st Group \<Rightarrow> string \<Rightarrow> bytes
    \<Rightarrow> ('st Group \<times> gerror option \<times> sync list) option" where
  "Group_Set M ev g key val =
    (if gclosed g then Some (g, Some ErrGroupClosed, [])
     else if key = [] then Some (g, Some ErrKeyRequired, [])
     else if val = [] then Some (g, Some ErrValueRequired, [])
     else do {
       g \<leftarrow> cache_value M ev g key val;
       Some (g, None, sync_unless_forwarded ev g key (SyncSet val))
     })"

definition Group_Delete :: "'st Store \<Rightarrow> env \<Rightarrow> 'st Group \<Rightarrow> string
    \<Rightarrow> ('st Group \<times> gerror option \<times> sync list) option" where
  "Group_Delete M ev g key =
    (if gclosed g then Some (g, Some ErrGroupClosed, [])
     else if key = [] then Some (g, Some ErrKeyRequired, [])
     else do {
       (c, _) \<leftarrow> Cache_Delete M (mainCache g) key;
       let g = g\<lparr>mainCache := c\<rparr>;
       Some (g, None, sync_unless_forwarded ev g key SyncDelete)
     })"

definition Group_Clear :: "'st Store \<Rightarrow> (string list \<Rightarrow> string list) \<Rightarrow> 'st Group \<Rightarrow> 'st Group option" where
  "Group_Clear M ord g =
    (if gclosed g then Some g
     else do { c \<leftarrow> Cache_Clear M ord (mainCache g); Some (g\<lparr>mainCache := c\<rparr>) })"

text \<open>\<open>RegisterPeers\<close> panics when called twice.\<close>

definition RegisterPeers :: "'st Group \<Rightarrow> picker \<Rightarrow> 'st Group option" where
  "RegisterPeers g ps = (if gpeers g \<noteq> None then None else Some (g\<lparr>gpeers := Some ps\<rparr>))"

definition Group_Close :: "'st Group \<Rightarrow> 'st Group" where
  "Group_Close g = (if gclosed g then g else g\<lparr>gclosed := True, mainCache := Cache_Close (mainCache g)\<rparr>)"

subsection \<open>The registry\<close>

text \<open>Groups are shared by pointer: \<open>objs\<close> is the heap of groups, \<open>groups\<close> the global map.\<close>

record 'st Registry =
  groups :: "string \<Rightarrow> nat option"
  objs :: "'st Group list"

definition reg_NewGroup :: "'st Registry \<Rightarrow> string \<Rightarrow> StoreOptions \<Rightarrow> int \<Rightarrow> picker option \<Rightarrow> ('st Registry \<times> nat) option" where
  "reg_NewGroup r name opts ttl ps =
    (if groups r name \<noteq> None then None
     else let p = length (objs r) in
       Some (r\<lparr>groups := (groups r)(name \<mapsto> p), objs := objs r @ [NewGroup name opts ttl ps]\<rparr>, p))"

definition GetGroup :: "'st Registry \<Rightarrow> string \<Rightarrow> nat option" where
  "GetGroup r name = groups r name"

definition reg_Close :: "'st Registry \<Rightarrow> nat \<Rightarrow> 'st Registry" where
  "reg_Close r p =
    (let g = objs r ! p in
     if gclosed g then r
     else r\<lparr>objs := (objs r)[p := Group_Close g], groups := (groups r)(gname g := None)\<rparr>)"

text \<open>\<open>DestroyGroup\<close> releases \<open>groupsMu\<close> between its two steps.\<close>

definition DestroyGroup_remove :: "'st Registry \<Rightarrow> string \<Rightarrow> 'st Registry \<times> nat option" where
  "DestroyGroup_remove r name = (r\<lparr>groups := (groups r)(name := None)\<rparr>, groups r name)"

definition DestroyGroup :: "'st Registry \<Rightarrow> string \<Rightarrow> 'st Registry \<times> bool" where
  "DestroyGroup r name = (case DestroyGroup_remove r name of
      (r, None) \<Rightarrow> (r, False)
    | (r, Some p) \<Rightarrow> (reg_Close r p, True))"

fun close_all :: "'st Registry \<Rightarrow> nat list \<Rightarrow> 'st Registry" where
  "close_all r [] = r"
| "close_all r (p # ps) = close_all (reg_Close r p) ps"

text \<open>\<open>names\<close> is the order in which the range statement visits the map.\<close>

definition DestroyAllGroups :: "string list \<Rightarrow> 'st Registry \<Rightarrow> 'st Registry" where
  "DestroyAllGroups names r =
    close_all (r\<lparr>groups := Map.empty\<rparr>) (List.map_filter (groups r) names)"

subsection \<open>The gRPC server\<close>

text \<open>
  The handlers of \<open>server.go\<close>: they mark the request as a peer request and call the group.
\<close>

datatype server_error = GroupNotFound | GroupError gerror

definition Server_Get :: "'st Store \<Rightarrow> env \<Rightarrow> 'st Registry \<Rightarrow> string \<Rightarrow> string
    \<Rightarrow> ('st Registry \<times> (server_error + bytes)) option" where
  "Server_Get M ev r name key = (case GetGroup r name of
      None \<Rightarrow> Some (r, Inl GroupNotFound)
    | Some p \<Rightarrow> do {
        let g = objs r ! p;
        let g = g\<lparr>stats := (stats g)\<lparr>serverRequests := serverRequests (stats g) + 1\<rparr>\<rparr>;
        (g', res) \<leftarrow> Group_Get M (ev\<lparr>isPeerRequest := True\<rparr>) g key;
        Some (r\<lparr>objs := (objs r)[p := g']\<rparr>, (case res of Inl e \<Rightarrow> Inl (GroupError e) | Inr v \<Rightarrow> Inr v))
      })"

definition Server_Set :: "'st Store \<Rightarrow> env \<Rightarrow> 'st Registry \<Rightarrow> string \<Rightarrow> string \<Rightarrow> bytes
    \<Rightarrow> ('st Registry \<times> (server_error + bytes) \<times> sync list) option" where
  "Server_Set M ev r name key val = (case GetGroup r name of
      None \<Rightarrow> Some (r, Inl GroupNotFound, [])
    | Some p \<Rightarrow> do {
        let ev = (if isPeerRequest ev then ev else ev\<lparr>isPeerRequest := True\<rparr>);
        (g', err, msgs) \<leftarrow> Group_Set M ev (objs r ! p) key val;
        Some (r\<lparr>objs := (objs r)[p := g']\<rparr>, (case err of Some e \<Rightarrow> Inl (GroupError e) | None \<Rightarrow> Inr val), msgs)
      })"

definition Server_Delete :: "'st Store \<Rightarrow> env \<Rightarrow> 'st Registry \<Rightarrow> string \<Rightarrow> string
    \<Rightarrow> ('st Registry \<times> bool \<times> server_error option \<times> sync list) option" where
  "Server_Delete M ev r name key = (case GetGroup r name of
      None \<Rightarrow> Some (r, False, Some GroupNotFound, [])
    | Some p \<Rightarrow> do {
        (g', err, msgs) \<leftarrow> Group_Delete M (ev\<lparr>isPeerRequest := True\<rparr>) (objs r ! p) key;
        Some (r\<lparr>objs := (objs r)[p := g']\<rparr>, err = None, map_option GroupError err, msgs)
      })"

end
