(* ===== verification/Cache_Group_Correct.thy ===== *)
theory Cache_Group_Correct
  imports Cache_Group
begin

text \<open>
  What the group operations do, over any store that meets the contract \<open>kv_store\<close>
  (\<open>group_get_ok\<close>, \<open>group_set_ok\<close>, \<open>group_delete_ok\<close>), the accounting of the
  statistics, and the registry: its invariant, and the interleaving that breaks it.
\<close>

text \<open>The outcome of a load, without the bookkeeping.\<close>

definition fetch :: "env \<Rightarrow> 'st Group \<Rightarrow> string \<Rightarrow> bytes outcome" where
  "fetch ev g key = (case gpeers g of
      None \<Rightarrow> getter ev key
    | Some pick \<Rightarrow> if isPeerRequest ev then getter ev key
        else (case pick key of
          (Some peer, True, False) \<Rightarrow> (case peer_get ev peer (gname g) key of Inr b \<Rightarrow> Ret b | Inl _ \<Rightarrow> getter ev key)
        | _ \<Rightarrow> getter ev key))"

lemma from_getter_facts:
  "snd (from_getter ev g key) = getter ev key"
  "mainCache (fst (from_getter ev g key)) = mainCache g"
  "gclosed (fst (from_getter ev g key)) = gclosed g"
  "expiration (fst (from_getter ev g key)) = expiration g"
  by (simp_all add: from_getter_def split: outcome.split)

lemma loadData_facts:
  "snd (loadData ev g key) = fetch ev g key"
  "mainCache (fst (loadData ev g key)) = mainCache g"
  "gclosed (fst (loadData ev g key)) = gclosed g"
  "expiration (fst (loadData ev g key)) = expiration g"
  by (auto simp: loadData_def fetch_def from_getter_facts
      split: option.split prod.split bool.split sum.split)

lemma fetch_frame [simp]:
  "fetch ev (g\<lparr>stats := s\<rparr>) key = fetch ev g key" "fetch ev (g\<lparr>mainCache := c\<rparr>) key = fetch ev g key"
  by (simp_all add: fetch_def split: option.split prod.split bool.split)

lemma sync_frame [simp]:
  "sync_unless_forwarded ev (g\<lparr>mainCache := c\<rparr>) key op = sync_unless_forwarded ev g key op"
  by (simp add: sync_unless_forwarded_def split: option.split)

text \<open>The counters of the statistics that a sequence of calls keeps in balance.\<close>

definition load_balance :: "groupStats \<Rightarrow> int" where
  "load_balance s = loadsDeduped s - (peerHits s + loaderHits s + loaderErrors s)"

definition stats_ok :: "groupStats \<Rightarrow> bool" where
  "stats_ok s \<longleftrightarrow> gets s = localHits s + localMisses s \<and> loads s = localMisses s \<and> load_balance s = 0"

lemma loadData_stats:
  fixes ev :: env and g :: "'st Group" and key :: string
  defines "s' \<equiv> stats (fst (loadData ev g key))"
  shows "gets s' = gets (stats g)" "localHits s' = localHits (stats g)" "localMisses s' = localMisses (stats g)"
    "loads s' = loads (stats g)" "loaderErrors s' = loaderErrors (stats g)"
    "load_balance s' = load_balance (stats g) - (case fetch ev g key of Ret _ \<Rightarrow> 1 | _ \<Rightarrow> 0)"
  by (auto simp: s'_def loadData_def fetch_def from_getter_def load_balance_def
      split: option.split prod.split bool.split sum.split outcome.split)

definition value_expiry :: "env \<Rightarrow> 'st Group \<Rightarrow> int" where
  "value_expiry ev g = (if expiration g > 0
     then expiryOf (clock ev) (time_Until (wall_later ev) (wall ev + expiration g)) else maxInt64)"

definition env_ok :: "env \<Rightarrow> 'st Group \<Rightarrow> bool" where
  "env_ok ev g \<longleftrightarrow> op_time_ok (clock ev, OpAddExp (wall_later ev) [] [] (wall ev + expiration g))"

definition unexpired :: "env \<Rightarrow> ideal \<Rightarrow> string \<Rightarrow> bytes option" where
  "unexpired ev m key = (case m key of Some (v, e) \<Rightarrow> if clock ev < e then v else None | None \<Rightarrow> None)"

definition group_wf :: "('st \<Rightarrow> bool) \<Rightarrow> (StoreOptions \<Rightarrow> bool) \<Rightarrow> 'st Group \<Rightarrow> bool" where
  "group_wf okst good g \<longleftrightarrow> cache_wf okst good (mainCache g) \<and> (gclosed g \<longleftrightarrow> closed (mainCache g))"

definition group_contents :: "('st \<Rightarrow> ideal) \<Rightarrow> 'st Group \<Rightarrow> ideal" where
  "group_contents view g = cache_contents view (mainCache g)"

text \<open>What \<open>Group.Get\<close> returns on every branch, and what it leaves in the cache.\<close>

definition get_result :: "ideal \<Rightarrow> env \<Rightarrow> 'st Group \<Rightarrow> string \<Rightarrow> gerror + bytes" where
  "get_result m ev g key =
    (if gclosed g then Inl ErrGroupClosed else if key = [] then Inl ErrKeyRequired
     else case unexpired ev m key of Some v \<Rightarrow> Inr v | None \<Rightarrow> sf_Do (fetch ev g key))"

context kv_store
begin

abbreviation gwf :: "'st Group \<Rightarrow> bool" where
  "gwf \<equiv> group_wf inv good"

abbreviation gcontents :: "'st Group \<Rightarrow> ideal" where
  "gcontents \<equiv> group_contents view"

lemma add_closed: "Cache_Add M c now k v = Some c' \<Longrightarrow> closed c' = closed c"
  by (auto simp: Cache_Add_def ensureInitialized_def split: if_splits option.splits Option.bind_splits)

lemma add_exp_closed: "Cache_AddWithExpiration M c now wl k v t = Some c' \<Longrightarrow> closed c' = closed c"
  by (auto simp: Cache_AddWithExpiration_def ensureInitialized_def Let_def
      split: if_splits option.splits Option.bind_splits)

lemma cache_value_ok:
  assumes W: "gwf g" and E: "env_ok ev g"
  shows "\<exists>c. cache_value M ev g key v = Some (g\<lparr>mainCache := c\<rparr>) \<and> gwf (g\<lparr>mainCache := c\<rparr>) \<and>
    contents c \<subseteq>\<^sub>m (gcontents g)(key \<mapsto> (Some v, value_expiry ev g)) \<or>
    (\<exists>c. cache_value M ev g key v = Some (g\<lparr>mainCache := c\<rparr>) \<and> gwf (g\<lparr>mainCache := c\<rparr>) \<and> contents c \<subseteq>\<^sub>m gcontents g)"
proof (cases "expiration g > 0")
  case True
  have t: "op_time_ok (clock ev, OpAddExp (wall_later ev) key v (wall ev + expiration g))"
    using E by (simp add: env_ok_def)
  obtain c where c: "Cache_AddWithExpiration M (mainCache g) (clock ev) (wall_later ev) key v (wall ev + expiration g) = Some c"
    "wf c" "contents c \<subseteq>\<^sub>m ideal_step (gcontents g) (clock ev, OpAddExp (wall_later ev) key v (wall ev + expiration g))"
    using add_exp_ok [OF _ t] W unfolding group_wf_def group_contents_def by blast
  have cl: "closed c = closed (mainCache g)" by (rule add_exp_closed [OF c(1)])
  show ?thesis
    using c W cl True by (cases "time_Until (wall_later ev) (wall ev + expiration g) \<le> 0")
      (auto simp: cache_value_def group_wf_def value_expiry_def)
next
  case False
  obtain c where c: "Cache_Add M (mainCache g) (clock ev) key v = Some c" "wf c"
    "contents c \<subseteq>\<^sub>m (gcontents g)(key \<mapsto> (Some v, expiryOf (clock ev) 0))"
    using add_ok W unfolding group_wf_def group_contents_def by blast
  have cl: "closed c = closed (mainCache g)" by (rule add_closed [OF c(1)])
  show ?thesis
    using c W cl False by (auto simp: cache_value_def group_wf_def value_expiry_def expiryOf_def)
qed

text \<open>The cache after an operation that may have stored \<open>v\<close> under \<open>key\<close>.\<close>

lemma cache_value_le:
  assumes "gwf g" "env_ok ev g"
  shows "\<exists>c. cache_value M ev g key v = Some (g\<lparr>mainCache := c\<rparr>) \<and> gwf (g\<lparr>mainCache := c\<rparr>) \<and>
    (\<forall>k r. contents c k = Some r \<longrightarrow> gcontents g k = Some r \<or> (k = key \<and> r = (Some v, value_expiry ev g)))"
proof -
  have "m \<subseteq>\<^sub>m m'(key \<mapsto> r) \<Longrightarrow> m k = Some r' \<Longrightarrow> m' k = Some r' \<or> (k = key \<and> r' = r)" for m m' :: ideal and k r r'
  proof -
    assume "m \<subseteq>\<^sub>m m'(key \<mapsto> r)" "m k = Some r'"
    then have "(m'(key \<mapsto> r)) k = Some r'" unfolding map_le_def dom_def by (metis (mono_tags, lifting) mem_Collect_eq option.discI)
    then show ?thesis by (auto split: if_splits)
  qed
  moreover have "m \<subseteq>\<^sub>m m' \<Longrightarrow> m k = Some r' \<Longrightarrow> m' k = Some r'" for m m' :: ideal and k r'
    by (auto simp: map_le_def dom_def)
  ultimately show ?thesis using cache_value_ok [OF assms, of key v] by blast
qed

lemma get_step:
  assumes "gwf g"
  shows "\<exists>c. Cache_Get M (mainCache g) (clock ev) key = Some (c, unexpired ev (gcontents g) key) \<and>
    gwf (g\<lparr>mainCache := c\<rparr>) \<and> contents c \<subseteq>\<^sub>m gcontents g"
  using get_ok [of "mainCache g" "clock ev" key] assms unfolding group_wf_def group_contents_def unexpired_def by auto

lemma unexpired_le: "contents c \<subseteq>\<^sub>m m \<Longrightarrow> unexpired ev m key = None \<Longrightarrow> unexpired ev (contents c) key = None"
  by (force simp: unexpired_def map_le_def dom_def split: option.splits)

lemma gwf_stats [simp]:
  "gwf (g\<lparr>stats := s\<rparr>) = gwf g" "gcontents (g\<lparr>stats := s\<rparr>) = gcontents g" "env_ok ev (g\<lparr>stats := s\<rparr>) = env_ok ev g"
  "value_expiry ev (g\<lparr>stats := s\<rparr>) = value_expiry ev g"
  "gcontents (g\<lparr>mainCache := c\<rparr>) = contents c" "env_ok ev (g\<lparr>mainCache := c\<rparr>) = env_ok ev g"
  "value_expiry ev (g\<lparr>mainCache := c\<rparr>) = value_expiry ev g"
  by (simp_all add: group_wf_def group_contents_def env_ok_def value_expiry_def)

lemma load_ok:
  assumes W: "gwf g" and E: "env_ok ev g" and miss: "unexpired ev (gcontents g) key = None"
  shows "\<exists>g'. load M ev g key = Some (g', sf_Do (fetch ev g key)) \<and> gwf g' \<and>
    (\<forall>k r. gcontents g' k = Some r \<longrightarrow> gcontents g k = Some r \<or>
       (k = key \<and> (\<exists>v. fetch ev g key = Ret v \<and> r = (Some v, value_expiry ev g)))) \<and>
    gets (stats g') = gets (stats g) \<and> localHits (stats g') = localHits (stats g) \<and>
    localMisses (stats g') = localMisses (stats g) \<and> loads (stats g') = loads (stats g) + 1 \<and>
    load_balance (stats g') = load_balance (stats g)"
proof -
  obtain c where c: "Cache_Get M (mainCache g) (clock ev) key = Some (c, None)"
    "gwf (g\<lparr>mainCache := c\<rparr>)" "contents c \<subseteq>\<^sub>m gcontents g"
    using get_step [OF W, of ev key] miss by auto
  let ?g1 = "g\<lparr>mainCache := c, stats := (stats g)\<lparr>loadsDeduped := loadsDeduped (stats g) + 1\<rparr>\<rparr>"
  obtain g2 where g2: "loadData ev ?g1 key = (g2, fetch ev g key)"
    using loadData_facts(1) [of ev ?g1 key] by (cases "loadData ev ?g1 key") auto
  have f: "mainCache g2 = c" "gclosed g2 = gclosed g" "expiration g2 = expiration g"
    using loadData_facts(2-4) [of ev ?g1 key] g2 by auto
  have W2: "gwf g2" "env_ok ev g2" "gcontents g2 = contents c" "value_expiry ev g2 = value_expiry ev g"
    using c(2) E f by (auto simp: group_wf_def env_ok_def group_contents_def value_expiry_def)
  note st = loadData_stats [of ev ?g1 key, unfolded g2 fst_conv]
  have lb: "load_balance (stats ?g1) = load_balance (stats g) + 1" by (simp add: load_balance_def)
  have sub: "contents c k = Some r \<Longrightarrow> gcontents g k = Some r" for k r
    using c(3) by (auto simp: map_le_def dom_def)
  show ?thesis
  proof (cases "fetch ev g key")
    case (Ret v)
    obtain c' where c': "cache_value M ev g2 key v = Some (g2\<lparr>mainCache := c'\<rparr>)" "gwf (g2\<lparr>mainCache := c'\<rparr>)"
      "\<And>k r. contents c' k = Some r \<Longrightarrow> contents c k = Some r \<or> (k = key \<and> r = (Some v, value_expiry ev g))"
      using cache_value_le [OF W2(1,2), of key v] W2(3,4) by auto
    have le: "\<forall>k r. contents c' k = Some r \<longrightarrow> gcontents g k = Some r \<or> (k = key \<and> (\<exists>v'. v = v' \<and> r = (Some v', value_expiry ev g)))"
      using c'(3) sub by blast
    show ?thesis using c(1) g2 Ret c'(1,2) le st lb by (simp add: load_def load_fn_def load_balance_def)
  next
    case (Err e)
    then show ?thesis using c(1) g2 W2 sub st lb by (simp add: load_def load_fn_def load_balance_def)
  next
    case Panics
    then show ?thesis using c(1) g2 W2 sub st lb by (simp add: load_def load_fn_def load_balance_def)
  qed
qed

lemma group_get_ok:
  assumes W: "gwf g" and E: "env_ok ev g"
  shows "\<exists>g'. Group_Get M ev g key = Some (g', get_result (gcontents g) ev g key) \<and> gwf g' \<and>
    (\<forall>k r. gcontents g' k = Some r \<longrightarrow> gcontents g k = Some r \<or>
       (k = key \<and> (\<exists>v. fetch ev g key = Ret v \<and> r = (Some v, value_expiry ev g)))) \<and>
    (stats_ok (stats g) \<longrightarrow> stats_ok (stats g'))"
proof (cases "gclosed g \<or> key = []")
  case True
  then show ?thesis using W by (auto simp: Group_Get_def get_result_def)
next
  case False
  obtain c where c: "Cache_Get M (mainCache g) (clock ev) key = Some (c, unexpired ev (gcontents g) key)"
    "gwf (g\<lparr>mainCache := c\<rparr>)" "contents c \<subseteq>\<^sub>m gcontents g"
    using get_step [OF W, of ev key] by auto
  have sub: "contents c k = Some r \<Longrightarrow> gcontents g k = Some r" for k r
    using c(3) by (auto simp: map_le_def dom_def)
  show ?thesis
  proof (cases "unexpired ev (gcontents g) key")
    case (Some v)
    have "gwf (g\<lparr>mainCache := c, stats := s\<rparr>)" for s using c(2) by (simp add: group_wf_def)
    then show ?thesis using False c(1) sub Some
      by (simp add: Group_Get_def get_result_def stats_ok_def load_balance_def group_contents_def)
  next
    case None
    let ?g1 = "g\<lparr>mainCache := c, stats := (stats g)\<lparr>gets := gets (stats g) + 1, localMisses := localMisses (stats g) + 1\<rparr>\<rparr>"
    have W1: "gwf ?g1" "env_ok ev ?g1" "fetch ev ?g1 key = fetch ev g key" "value_expiry ev ?g1 = value_expiry ev g"
      using c(2) E by (simp_all add: group_wf_def env_ok_def value_expiry_def)
    have "unexpired ev (gcontents ?g1) key = None"
      using unexpired_le [OF c(3) None] by (simp add: group_contents_def)
    from load_ok [OF W1(1,2) this] obtain g' where g': "load M ev ?g1 key = Some (g', sf_Do (fetch ev g key))" "gwf g'"
      "\<forall>k r. gcontents g' k = Some r \<longrightarrow> gcontents ?g1 k = Some r \<or>
        (k = key \<and> (\<exists>v. fetch ev g key = Ret v \<and> r = (Some v, value_expiry ev g)))"
      "gets (stats g') = gets (stats g) + 1" "localHits (stats g') = localHits (stats g)"
      "localMisses (stats g') = localMisses (stats g) + 1" "loads (stats g') = loads (stats g) + 1"
      "load_balance (stats g') = load_balance (stats g)"
      unfolding W1(3,4) by (auto simp: load_balance_def)
    have "gcontents ?g1 = contents c" by (simp add: group_contents_def)
    then have "\<forall>k r. gcontents g' k = Some r \<longrightarrow> gcontents g k = Some r \<or>
        (k = key \<and> (\<exists>v. fetch ev g key = Ret v \<and> r = (Some v, value_expiry ev g)))"
      using g'(3) sub by metis
    moreover have "Group_Get M ev g key = Some (g', get_result (gcontents g) ev g key)"
      using False c(1) None g'(1) by (simp add: Group_Get_def get_result_def)
    moreover have "stats_ok (stats g) \<longrightarrow> stats_ok (stats g')" using g'(4-8) by (simp add: stats_ok_def)
    ultimately show ?thesis using g'(2) by blast
  qed
qed

lemma group_set_ok:
  assumes W: "gwf g" and E: "env_ok ev g"
  shows "\<exists>g' err msgs. Group_Set M ev g key v = Some (g', err, msgs) \<and> gwf g' \<and> stats g' = stats g \<and>
    err = (if gclosed g then Some ErrGroupClosed else if key = [] then Some ErrKeyRequired
           else if v = [] then Some ErrValueRequired else None) \<and>
    msgs = (if err = None then sync_unless_forwarded ev g key (SyncSet v) else []) \<and>
    (\<forall>k r. gcontents g' k = Some r \<longrightarrow> gcontents g k = Some r \<or> (k = key \<and> r = (Some v, value_expiry ev g)))"
proof (cases "gclosed g \<or> key = [] \<or> v = []")
  case True
  then show ?thesis using W by (auto simp: Group_Set_def)
next
  case False
  obtain c where "cache_value M ev g key v = Some (g\<lparr>mainCache := c\<rparr>)" "gwf (g\<lparr>mainCache := c\<rparr>)"
    "\<forall>k r. contents c k = Some r \<longrightarrow> gcontents g k = Some r \<or> (k = key \<and> r = (Some v, value_expiry ev g))"
    using cache_value_le [OF W E, of key v] by blast
  then show ?thesis using False by (simp add: Group_Set_def)
qed

lemma group_delete_ok:
  assumes W: "gwf g"
  shows "\<exists>g' err msgs. Group_Delete M ev g key = Some (g', err, msgs) \<and> gwf g' \<and>
    err = (if gclosed g then Some ErrGroupClosed else if key = [] then Some ErrKeyRequired else None) \<and>
    msgs = (if err = None then sync_unless_forwarded ev g key SyncDelete else []) \<and>
    gcontents g' = (if err = None then (gcontents g)(key := None) else gcontents g)"
proof (cases "gclosed g \<or> key = []")
  case True
  then show ?thesis using W by (auto simp: Group_Delete_def)
next
  case False
  obtain c where "Cache_Delete M (mainCache g) key = Some (c, contents (mainCache g) key \<noteq> None)" "wf c"
    "contents c = (gcontents g)(key := None)"
    using delete_ok W unfolding group_wf_def group_contents_def by blast
  moreover have "closed c = closed (mainCache g)"
    using \<open>Cache_Delete M (mainCache g) key = _\<close>
    by (auto simp: Cache_Delete_def split: if_splits option.splits Option.bind_splits)
  ultimately show ?thesis using False W
    by (simp add: Group_Delete_def group_wf_def)
qed

lemma group_close_ok:
  "gwf g \<Longrightarrow> gwf (Group_Close g) \<and> gclosed (Group_Close g) \<and> gcontents (Group_Close g) = Map.empty"
  using close_ok [of "mainCache g"] by (auto simp: group_wf_def Group_Close_def group_contents_def cache_contents_def cache_wf_def)

end

subsection \<open>The registry\<close>

text \<open>The registered groups are exactly the open ones, each under its own name.\<close>

definition reg_inv :: "'st Registry \<Rightarrow> bool" where
  "reg_inv r \<longleftrightarrow>
    (\<forall>n p. groups r n = Some p \<longrightarrow> p < length (objs r) \<and> gname (objs r ! p) = n \<and> \<not> gclosed (objs r ! p)) \<and>
    (\<forall>p < length (objs r). \<not> gclosed (objs r ! p) \<longrightarrow> groups r (gname (objs r ! p)) = Some p)"

lemma reg_invD:
  assumes "reg_inv r"
  shows reg_entry: "groups r n = Some p \<Longrightarrow> p < length (objs r) \<and> gname (objs r ! p) = n \<and> \<not> gclosed (objs r ! p)"
    and reg_open: "p < length (objs r) \<Longrightarrow> \<not> gclosed (objs r ! p) \<Longrightarrow> groups r (gname (objs r ! p)) = Some p"
  using assms by (simp_all add: reg_inv_def)

lemma NewGroup_fields [simp]: "gname (NewGroup n opts ttl ps) = n" "\<not> gclosed (NewGroup n opts ttl ps)"
  by (simp_all add: NewGroup_def)

lemma Group_Close_fields [simp]: "gname (Group_Close g) = gname g" "gclosed (Group_Close g)"
  by (simp_all add: Group_Close_def)

lemma reg_NewGroup_inv:
  assumes I: "reg_inv r" and n: "reg_NewGroup r name opts ttl ps = Some (r', p)"
  shows "reg_inv r' \<and> GetGroup r' name = Some p"
proof -
  have r': "groups r name = None" "p = length (objs r)"
    "r' = r\<lparr>groups := (groups r)(name \<mapsto> p), objs := objs r @ [NewGroup name opts ttl ps]\<rparr>"
    using n by (auto simp: reg_NewGroup_def Let_def split: if_splits)
  have "reg_inv r'"
    unfolding reg_inv_def
  proof (intro conjI allI impI)
    fix m q assume "groups r' m = Some q"
    then have "(m = name \<and> q = p) \<or> groups r m = Some q" using r' by (auto split: if_splits)
    then show "q < length (objs r')" "gname (objs r' ! q) = m" "\<not> gclosed (objs r' ! q)"
      using reg_entry [OF I, of m q] r' by (auto simp: nth_append)
  next
    fix q assume q: "q < length (objs r')" "\<not> gclosed (objs r' ! q)"
    show "groups r' (gname (objs r' ! q)) = Some q"
    proof (cases "q = p")
      case False
      then have "groups r (gname (objs r ! q)) = Some q" "objs r' ! q = objs r ! q"
        using reg_open [OF I, of q] q r' by (auto simp: nth_append)
      then show ?thesis using r' by auto
    qed (use r' in \<open>simp add: nth_append\<close>)
  qed
  then show ?thesis using r' by (simp add: GetGroup_def)
qed

lemma reg_Close_inv:
  assumes I: "reg_inv r" and p: "p < length (objs r)"
  shows "reg_inv (reg_Close r p)"
proof (cases "gclosed (objs r ! p)")
  case True
  then show ?thesis using I by (simp add: reg_Close_def)
next
  case False
  note own = reg_open [OF I p False]
  show ?thesis
    unfolding reg_inv_def
  proof (intro conjI allI impI)
    fix m q assume "groups (reg_Close r p) m = Some q"
    then have m: "groups r m = Some q" "m \<noteq> gname (objs r ! p)" using False by (auto simp: reg_Close_def Let_def split: if_splits)
    then have "q \<noteq> p" using reg_entry [OF I m(1)] by auto
    then show "q < length (objs (reg_Close r p))" "gname (objs (reg_Close r p) ! q) = m" "\<not> gclosed (objs (reg_Close r p) ! q)"
      using reg_entry [OF I m(1)] False by (auto simp: reg_Close_def Let_def)
  next
    fix q assume q: "q < length (objs (reg_Close r p))" "\<not> gclosed (objs (reg_Close r p) ! q)"
    have "q \<noteq> p" using q p False by (auto simp: reg_Close_def Let_def)
    then have "groups r (gname (objs r ! q)) = Some q" "objs (reg_Close r p) ! q = objs r ! q"
      using reg_open [OF I, of q] q False by (auto simp: reg_Close_def Let_def)
    then show "groups (reg_Close r p) (gname (objs (reg_Close r p) ! q)) = Some q"
      using own \<open>q \<noteq> p\<close> False by (auto simp: reg_Close_def Let_def)
  qed
qed

lemma DestroyGroup_eq:
  assumes I: "reg_inv r"
  shows "DestroyGroup r name = (case groups r name of None \<Rightarrow> (r, False) | Some p \<Rightarrow> (reg_Close r p, True))"
proof (cases "groups r name")
  case None
  then have "r\<lparr>groups := (groups r)(name := None)\<rparr> = r" by (simp add: fun_upd_idem)
  then show ?thesis using None by (simp add: DestroyGroup_def DestroyGroup_remove_def)
next
  case (Some p)
  then show ?thesis using reg_entry [OF I Some]
    by (simp add: DestroyGroup_def DestroyGroup_remove_def reg_Close_def Let_def)
qed

lemma DestroyGroup_inv:
  assumes "reg_inv r"
  shows "reg_inv (fst (DestroyGroup r name))" "GetGroup (fst (DestroyGroup r name)) name = None"
    "snd (DestroyGroup r name) \<longleftrightarrow> GetGroup r name \<noteq> None"
proof -
  show "reg_inv (fst (DestroyGroup r name))"
    using reg_Close_inv [OF assms] reg_entry [OF assms, of name] assms
    by (auto simp: DestroyGroup_eq [OF assms] split: option.split)
  show "GetGroup (fst (DestroyGroup r name)) name = None"
    using reg_entry [OF assms, of name]
    by (auto simp: DestroyGroup_eq [OF assms] GetGroup_def reg_Close_def Let_def split: option.split)
  show "snd (DestroyGroup r name) \<longleftrightarrow> GetGroup r name \<noteq> None"
    by (simp add: DestroyGroup_eq [OF assms] GetGroup_def split: option.split)
qed

lemma close_all_objs:
  "groups r = Map.empty \<Longrightarrow> length (objs (close_all r ps)) = length (objs r) \<and> groups (close_all r ps) = Map.empty \<and>
    (\<forall>q < length (objs r). gclosed (objs (close_all r ps) ! q) \<longleftrightarrow> gclosed (objs r ! q) \<or> q \<in> set ps)"
proof (induction ps arbitrary: r)
  case (Cons p ps)
  have 1: "groups (reg_Close r p) = Map.empty" "length (objs (reg_Close r p)) = length (objs r)"
    using Cons.prems by (auto simp: reg_Close_def Let_def)
  have 2: "gclosed (objs (reg_Close r p) ! q) \<longleftrightarrow> gclosed (objs r ! q) \<or> q = p" if "q < length (objs r)" for q
    using that by (cases "q = p") (auto simp: reg_Close_def Let_def)
  show ?case using Cons.IH [OF 1(1)] 1(2) 2 by auto
qed simp

lemma DestroyAllGroups_inv:
  assumes I: "reg_inv r" and names: "dom (groups r) \<subseteq> set names"
  shows "groups (DestroyAllGroups names r) = Map.empty"
    "\<forall>g \<in> set (objs (DestroyAllGroups names r)). gclosed g" "reg_inv (DestroyAllGroups names r)"
proof -
  let ?r = "r\<lparr>groups := Map.empty\<rparr>" and ?ps = "List.map_filter (groups r) names"
  have C: "length (objs (close_all ?r ?ps)) = length (objs r)" "groups (close_all ?r ?ps) = Map.empty"
    "\<And>q. q < length (objs r) \<Longrightarrow> gclosed (objs (close_all ?r ?ps) ! q) \<longleftrightarrow> gclosed (objs r ! q) \<or> q \<in> set ?ps"
    using close_all_objs [of ?r ?ps] by simp_all
  have "q \<in> set ?ps" if "q < length (objs r)" "\<not> gclosed (objs r ! q)" for q
  proof -
    have "groups r (gname (objs r ! q)) = Some q" by (rule reg_open [OF I that])
    moreover then have "gname (objs r ! q) \<in> set names" using names by auto
    ultimately show ?thesis by (force simp: List.map_filter_def)
  qed
  then have closed: "gclosed (objs (close_all ?r ?ps) ! q)" if "q < length (objs r)" for q
    using C(3) [OF that] that by blast
  show "groups (DestroyAllGroups names r) = Map.empty" using C(2) by (simp add: DestroyAllGroups_def)
  show "\<forall>g \<in> set (objs (DestroyAllGroups names r)). gclosed g"
    using closed C(1) by (auto simp: DestroyAllGroups_def in_set_conv_nth)
  show "reg_inv (DestroyAllGroups names r)"
    unfolding reg_inv_def DestroyAllGroups_def using C closed by auto
qed

text \<open>
  A group registered between the two steps of \<open>DestroyGroup\<close> loses its registration when the old
  group is closed: it stays open, and is not found by \<open>GetGroup\<close> any more.
\<close>

lemma destroy_interleaving:
  assumes I: "reg_inv r" and reg: "groups r name = Some p"
  defines "r1 \<equiv> fst (DestroyGroup_remove r name)"
  shows "\<exists>r2 q. reg_NewGroup r1 name opts ttl ps = Some (r2, q) \<and>
    GetGroup (reg_Close r2 p) name = None \<and> \<not> gclosed (objs (reg_Close r2 p) ! q)"
  using reg_entry [OF I reg]
  by (auto simp: r1_def DestroyGroup_remove_def reg_NewGroup_def GetGroup_def reg_Close_def Let_def nth_append)

subsection \<open>Forwarded requests\<close>

lemma forwarded_local: "isPeerRequest ev \<Longrightarrow> fetch ev g key = getter ev key"
  by (simp add: fetch_def split: option.split)

lemma forwarded_no_sync: "isPeerRequest ev \<Longrightarrow> sync_unless_forwarded ev g key op = []"
  by (simp add: sync_unless_forwarded_def)

lemma Group_Set_forwarded:
  "isPeerRequest ev \<Longrightarrow> Group_Set M ev g key v = Some (g', err, msgs) \<Longrightarrow> msgs = []"
  by (auto simp: Group_Set_def forwarded_no_sync split: if_splits Option.bind_splits)

lemma Group_Delete_forwarded:
  "isPeerRequest ev \<Longrightarrow> Group_Delete M ev g key = Some (g', err, msgs) \<Longrightarrow> msgs = []"
  by (auto simp: Group_Delete_def forwarded_no_sync Let_def split: if_splits Option.bind_splits)

text \<open>A request that reached this node through a peer causes no further message to a peer.\<close>

lemma server_no_forward:
  "Server_Set M ev r name key v = Some (r', res, msgs) \<Longrightarrow> msgs = []"
  "Server_Delete M ev r name key = Some (r', ok, err, msgs') \<Longrightarrow> msgs' = []"
  by (auto simp: Server_Set_def Server_Delete_def Let_def split: option.splits Option.bind_splits if_splits
      dest: Group_Set_forwarded Group_Delete_forwarded
        Group_Set_forwarded [of "ev\<lparr>isPeerRequest := True\<rparr>", simplified]
        Group_Delete_forwarded [of "ev\<lparr>isPeerRequest := True\<rparr>", simplified])

end
