(* ===== verification/Single_Flight.thy ===== *)
theory Single_Flight
  imports Cache_Group
begin

text \<open>
  \<open>SingleFlightGroup.Do\<close> of \<open>swifty_cache/single_flight.go\<close> with any number of goroutines. The
  atomic steps are those of the code: \<open>LoadOrStore\<close>, the end of \<open>fn\<close> with
  \<open>wg.Done\<close>, the deferred \<open>m.Delete\<close>, and the return of a waiter from
  \<open>wg.Wait\<close>. The goroutine's position in \<open>Do\<close> is its \<open>pc\<close>; \<open>sf_trace\<close>
  counts the executions of \<open>fn\<close>.
\<close>

type_synonym 'a result = "gerror + 'a"

datatype 'a pc =
  Idle
| Waiting nat
| Leading string nat
| Finishing string nat "'a result"
| Returned nat "'a result"

record 'a sflight =
  m_tab :: "string \<Rightarrow> nat option"
  results :: "'a result option list"
  pcs :: "nat \<Rightarrow> 'a pc"
  runs :: nat

definition sf_init :: "'a sflight" where
  "sf_init = \<lparr>m_tab = Map.empty, results = [], pcs = (\<lambda>_. Idle), runs = 0\<rparr>"

datatype 'a sf_label =
  Start nat string
| FnReturns nat "'a outcome"
| DeleteKey nat
| Wake nat

fun sf_step :: "'a sflight \<Rightarrow> 'a sf_label \<Rightarrow> 'a sflight option" where
  "sf_step s (Start t key) =
     (if pcs s t = Idle then
        (case m_tab s key of
          Some c \<Rightarrow> Some (s\<lparr>pcs := (pcs s)(t := Waiting c)\<rparr>)
        | None \<Rightarrow> let c = length (results s) in
            Some (s\<lparr>m_tab := (m_tab s)(key \<mapsto> c), results := results s @ [None],
                   pcs := (pcs s)(t := Leading key c), runs := runs s + 1\<rparr>))
      else None)"
| "sf_step s (FnReturns t out) =
     (case pcs s t of
        Leading key c \<Rightarrow> Some (s\<lparr>results := (results s)[c := Some (sf_Do out)],
                              pcs := (pcs s)(t := Finishing key c (sf_Do out))\<rparr>)
      | _ \<Rightarrow> None)"
| "sf_step s (DeleteKey t) =
     (case pcs s t of
        Finishing key c r \<Rightarrow> Some (s\<lparr>m_tab := (m_tab s)(key := None), pcs := (pcs s)(t := Returned c r)\<rparr>)
      | _ \<Rightarrow> None)"
| "sf_step s (Wake t) =
     (case pcs s t of
        Waiting c \<Rightarrow> (case results s ! c of
            Some r \<Rightarrow> Some (s\<lparr>pcs := (pcs s)(t := Returned c r)\<rparr>)
          | None \<Rightarrow> None)
      | _ \<Rightarrow> None)"

inductive sf_reach :: "'a sflight \<Rightarrow> bool" where
  init: "sf_reach sf_init"
| step: "sf_reach s \<Longrightarrow> sf_step s l = Some s' \<Longrightarrow> sf_reach s'"

fun sf_steps :: "'a sflight \<Rightarrow> 'a sf_label list \<Rightarrow> 'a sflight option" where
  "sf_steps s [] = Some s"
| "sf_steps s (l # ls) = (case sf_step s l of Some s' \<Rightarrow> sf_steps s' ls | None \<Rightarrow> None)"

lemma sf_reach_steps: "sf_reach s \<Longrightarrow> sf_steps s ls = Some s' \<Longrightarrow> sf_reach s'"
  by (induction ls arbitrary: s) (auto split: option.splits intro: sf_reach.step)

text \<open>
  The invariant: a key is in the table exactly while some goroutine leads or finishes its call, the
  result slot of a call is empty exactly while it is led, and whoever holds a result holds the result
  of the call.
\<close>

definition owns :: "'a pc \<Rightarrow> string \<Rightarrow> nat \<Rightarrow> bool" where
  "owns p key c \<longleftrightarrow> p = Leading key c \<or> (\<exists>r. p = Finishing key c r)"

definition pc_ok :: "'a sflight \<Rightarrow> 'a pc \<Rightarrow> bool" where
  "pc_ok s p = (case p of
      Idle \<Rightarrow> True
    | Waiting c \<Rightarrow> c < length (results s)
    | Leading key c \<Rightarrow> c < length (results s) \<and> m_tab s key = Some c \<and> results s ! c = None
    | Finishing key c r \<Rightarrow> c < length (results s) \<and> m_tab s key = Some c \<and> results s ! c = Some r
    | Returned c r \<Rightarrow> c < length (results s) \<and> results s ! c = Some r)"

definition sf_inv :: "'a sflight \<Rightarrow> bool" where
  "sf_inv s \<longleftrightarrow>
    (\<forall>t. pc_ok s (pcs s t)) \<and>
    (\<forall>key c. m_tab s key = Some c \<longrightarrow> (\<exists>t. owns (pcs s t) key c)) \<and>
    (\<forall>t t' key key' c. owns (pcs s t) key c \<longrightarrow> owns (pcs s t') key' c \<longrightarrow> t = t') \<and>
    (\<forall>c < length (results s). results s ! c = None \<longrightarrow> (\<exists>t key. pcs s t = Leading key c)) \<and>
    runs s = length (results s)"

lemma sf_invD:
  assumes "sf_inv s"
  shows sinv_pc: "pc_ok s (pcs s t)"
    and sinv_tab: "m_tab s key = Some c \<Longrightarrow> \<exists>t. owns (pcs s t) key c"
    and sinv_uniq: "owns (pcs s t) key c \<Longrightarrow> owns (pcs s t') key' c \<Longrightarrow> t = t'"
    and sinv_open: "c < length (results s) \<Longrightarrow> results s ! c = None \<Longrightarrow> \<exists>t key. pcs s t = Leading key c"
    and sinv_runs: "runs s = length (results s)"
  using assms unfolding sf_inv_def by blast+

lemma owns_simps [simp]:
  "owns Idle key c = False" "owns (Waiting d) key c = False" "owns (Returned d r) key c = False"
  "owns (Leading k d) key c \<longleftrightarrow> k = key \<and> d = c" "owns (Finishing k d r) key c \<longleftrightarrow> k = key \<and> d = c"
  by (auto simp: owns_def)

lemma owns_tab: "sf_inv s \<Longrightarrow> owns (pcs s t) key c \<Longrightarrow> m_tab s key = Some c \<and> c < length (results s)"
  using sinv_pc [of s t] by (auto simp: owns_def pc_ok_def)

lemma sf_inv_init: "sf_inv sf_init"
  by (simp add: sf_inv_def sf_init_def pc_ok_def)

lemma sf_inv_start_wait:
  assumes I: "sf_inv s" and t: "pcs s t = Idle" "m_tab s key = Some c"
  shows "sf_inv (s\<lparr>pcs := (pcs s)(t := Waiting c)\<rparr>)"
proof -
  let ?s = "s\<lparr>pcs := (pcs s)(t := Waiting c)\<rparr>"
  have own: "owns (pcs ?s u) k d \<longleftrightarrow> owns (pcs s u) k d" for u k d using t(1) by simp
  have lead: "pcs ?s u = Leading k d \<longleftrightarrow> pcs s u = Leading k d" for u k d using t(1) by simp
  obtain o' where "owns (pcs s o') key c" using sinv_tab [OF I t(2)] by blast
  then have c: "c < length (results s)" using owns_tab [OF I] by blast
  have "pc_ok ?s (pcs ?s u)" for u using c sinv_pc [OF I, of u] by (cases "u = t") (auto simp: pc_ok_def split: pc.splits)
  then show ?thesis
    unfolding sf_inv_def own lead using sinv_tab [OF I] sinv_uniq [OF I] sinv_open [OF I] sinv_runs [OF I] by simp
qed

lemma sf_inv_wake:
  assumes I: "sf_inv s" and t: "pcs s t = Waiting c" "results s ! c = Some r"
  shows "sf_inv (s\<lparr>pcs := (pcs s)(t := Returned c r)\<rparr>)"
proof -
  let ?s = "s\<lparr>pcs := (pcs s)(t := Returned c r)\<rparr>"
  have own: "owns (pcs ?s u) k d \<longleftrightarrow> owns (pcs s u) k d" for u k d using t(1) by simp
  have lead: "pcs ?s u = Leading k d \<longleftrightarrow> pcs s u = Leading k d" for u k d using t(1) by simp
  have "c < length (results s)" using sinv_pc [OF I, of t] t(1) by (simp add: pc_ok_def)
  then have "pc_ok ?s (pcs ?s u)" for u
    using t(2) sinv_pc [OF I, of u] by (cases "u = t") (auto simp: pc_ok_def split: pc.splits)
  then show ?thesis
    unfolding sf_inv_def own lead using sinv_tab [OF I] sinv_uniq [OF I] sinv_open [OF I] sinv_runs [OF I] by simp
qed

lemma sf_inv_start_lead:
  assumes I: "sf_inv s" and t: "pcs s t = Idle" "m_tab s key = None"
  defines "c \<equiv> length (results s)"
  shows "sf_inv (s\<lparr>m_tab := (m_tab s)(key \<mapsto> c), results := results s @ [None],
    pcs := (pcs s)(t := Leading key c), runs := runs s + 1\<rparr>)"
proof -
  let ?s = "s\<lparr>m_tab := (m_tab s)(key \<mapsto> c), results := results s @ [None],
    pcs := (pcs s)(t := Leading key c), runs := runs s + 1\<rparr>"
  have nk: "k \<noteq> key" "d < c" if "owns (pcs s u) k d" for u k d
    using owns_tab [OF I that] t(2) by (auto simp: c_def)
  have own: "owns (pcs ?s u) k d \<longleftrightarrow> (if u = t then k = key \<and> d = c else owns (pcs s u) k d)" for u k d
    by auto
  have pcok: "pc_ok ?s (pcs ?s u)" for u
  proof (cases "u = t")
    case False
    have "pc_ok s (pcs s u)" by (rule sinv_pc [OF I])
    moreover have "owns (pcs s u) k d \<Longrightarrow> k \<noteq> key" for k d using nk(1) by blast
    ultimately show ?thesis using False
      by (cases "pcs s u") (auto simp: pc_ok_def nth_append c_def dest: nk)
  qed (simp add: pc_ok_def c_def)
  have tab: "\<exists>u. owns (pcs ?s u) k d" if "m_tab ?s k = Some d" for k d
  proof (cases "k = key")
    case True
    then show ?thesis using that by (intro exI [of _ t]) simp
  next
    case False
    then have "m_tab s k = Some d" using that by simp
    then obtain u where "owns (pcs s u) k d" using sinv_tab [OF I] by blast
    then show ?thesis using t(1) by (intro exI [of _ u]) auto
  qed
  have uniq: "u = u'" if "owns (pcs ?s u) k d" "owns (pcs ?s u') k' d" for u u' k k' d
    using that nk(2) [of u k d] nk(2) [of u' k' d] sinv_uniq [OF I, of u k d u' k'] unfolding own
    by (auto split: if_splits)
  have op: "\<exists>u k. pcs ?s u = Leading k d" if "d < length (results ?s)" "results ?s ! d = None" for d
  proof (cases "d = c")
    case True
    then show ?thesis by (intro exI [of _ t]) simp
  next
    case False
    then have "d < length (results s)" "results s ! d = None" using that by (auto simp: c_def nth_append)
    then obtain u k where "pcs s u = Leading k d" using sinv_open [OF I] by blast
    then show ?thesis using t(1) by (intro exI [of _ u]) auto
  qed
  have "runs ?s = length (results ?s)" using sinv_runs [OF I] by simp
  then show ?thesis unfolding sf_inv_def using pcok tab uniq op by blast
qed

lemma sf_inv_returns:
  assumes I: "sf_inv s" and t: "pcs s t = Leading key c"
  shows "sf_inv (s\<lparr>results := (results s)[c := Some r], pcs := (pcs s)(t := Finishing key c r)\<rparr>)"
proof -
  let ?s = "s\<lparr>results := (results s)[c := Some r], pcs := (pcs s)(t := Finishing key c r)\<rparr>"
  have c: "c < length (results s)" "m_tab s key = Some c" "results s ! c = None"
    using sinv_pc [OF I, of t] t by (simp_all add: pc_ok_def)
  have other: "\<not> owns (pcs s u) k c" if "u \<noteq> t" for u k
    using sinv_uniq [OF I, of t key c u k] t that by auto
  have own: "owns (pcs ?s u) k d \<longleftrightarrow> owns (pcs s u) k d" for u k d using t by simp
  have pcok: "pc_ok ?s (pcs ?s u)" for u
  proof (cases "u = t")
    case False
    then show ?thesis using sinv_pc [OF I, of u] other [OF False] c
      by (cases "pcs s u") (auto simp: pc_ok_def nth_list_update)
  qed (use c in \<open>simp add: pc_ok_def\<close>)
  have tab: "\<exists>u. owns (pcs ?s u) k d" if "m_tab ?s k = Some d" for k d
    unfolding own using sinv_tab [OF I] that by simp
  have uniq: "u = u'" if "owns (pcs ?s u) k d" "owns (pcs ?s u') k' d" for u u' k k' d
    using that sinv_uniq [OF I] unfolding own by blast
  have op: "\<exists>u k. pcs ?s u = Leading k d" if "d < length (results ?s)" "results ?s ! d = None" for d
  proof -
    have "d < length (results s)" "results s ! d = None" "d \<noteq> c"
      using that c by (auto simp: nth_list_update split: if_splits)
    then obtain u k where "pcs s u = Leading k d" using sinv_open [OF I] by blast
    then show ?thesis using t \<open>d \<noteq> c\<close> by (intro exI [of _ u] exI [of _ k]) auto
  qed
  have "runs ?s = length (results ?s)" using sinv_runs [OF I] by simp
  then show ?thesis unfolding sf_inv_def using pcok tab uniq op by blast
qed

lemma sf_inv_delete:
  assumes I: "sf_inv s" and t: "pcs s t = Finishing key c r"
  shows "sf_inv (s\<lparr>m_tab := (m_tab s)(key := None), pcs := (pcs s)(t := Returned c r)\<rparr>)"
proof -
  let ?s = "s\<lparr>m_tab := (m_tab s)(key := None), pcs := (pcs s)(t := Returned c r)\<rparr>"
  have c: "c < length (results s)" "m_tab s key = Some c" "results s ! c = Some r"
    using sinv_pc [OF I, of t] t by (simp_all add: pc_ok_def)
  have other: "k \<noteq> key" if "u \<noteq> t" "owns (pcs s u) k d" for u k d
  proof
    assume "k = key"
    then have "d = c" using owns_tab [OF I that(2)] c(2) by simp
    then show False using sinv_uniq [OF I, of t key c u k] that t by auto
  qed
  have own: "owns (pcs ?s u) k d \<longleftrightarrow> u \<noteq> t \<and> owns (pcs s u) k d" for u k d by simp
  have pcok: "pc_ok ?s (pcs ?s u)" for u
  proof (cases "u = t")
    case False
    then show ?thesis using sinv_pc [OF I, of u] other [OF False]
      by (cases "pcs s u") (auto simp: pc_ok_def)
  qed (use c in \<open>simp add: pc_ok_def\<close>)
  have tab: "\<exists>u. owns (pcs ?s u) k d" if "m_tab ?s k = Some d" for k d
  proof -
    have k: "k \<noteq> key" "m_tab s k = Some d" using that by (auto split: if_splits)
    then obtain u where "owns (pcs s u) k d" using sinv_tab [OF I] by blast
    moreover then have "u \<noteq> t" using t k(1) by auto
    ultimately show ?thesis unfolding own by blast
  qed
  have uniq: "u = u'" if "owns (pcs ?s u) k d" "owns (pcs ?s u') k' d" for u u' k k' d
    using that sinv_uniq [OF I] unfolding own by blast
  have op: "\<exists>u k. pcs ?s u = Leading k d" if "d < length (results ?s)" "results ?s ! d = None" for d
  proof -
    have "d < length (results s)" "results s ! d = None" using that by simp_all
    then obtain u k where "pcs s u = Leading k d" using sinv_open [OF I] by blast
    then show ?thesis using t by (intro exI [of _ u] exI [of _ k]) auto
  qed
  have "runs ?s = length (results ?s)" using sinv_runs [OF I] by simp
  then show ?thesis unfolding sf_inv_def using pcok tab uniq op by blast
qed

lemma sf_inv_step:
  assumes I: "sf_inv s" and st: "sf_step s l = Some s'"
  shows "sf_inv s'"
proof (cases l)
  case (Start t key)
  then show ?thesis using st sf_inv_start_wait [OF I] sf_inv_start_lead [OF I]
    by (auto simp: Let_def split: if_splits option.splits)
next
  case (FnReturns t out)
  then show ?thesis using st sf_inv_returns [OF I] by (auto split: pc.splits)
next
  case (DeleteKey t)
  then show ?thesis using st sf_inv_delete [OF I] by (auto split: pc.splits)
next
  case (Wake t)
  then show ?thesis using st sf_inv_wake [OF I] by (auto split: pc.splits option.splits)
qed

lemma sf_inv_reach: "sf_reach s \<Longrightarrow> sf_inv s"
  by (induction rule: sf_reach.induct) (auto intro: sf_inv_init sf_inv_step)

text \<open>At most one execution of \<open>fn\<close> per key is in flight.\<close>

lemma sf_one_leader:
  assumes "sf_reach s" "pcs s t = Leading key c" "pcs s t' = Leading key c'"
  shows "t = t' \<and> c = c'"
proof -
  note I = sf_inv_reach [OF assms(1)]
  have "m_tab s key = Some c" "m_tab s key = Some c'"
    using owns_tab [OF I, of t key c] owns_tab [OF I, of t' key c'] assms(2,3) by auto
  then show ?thesis using sinv_uniq [OF I, of t key c t' key] assms(2,3) by auto
qed

text \<open>Everyone who took part in a call returns the same result.\<close>

lemma sf_agree:
  assumes "sf_reach s" "pcs s t = Returned c r" "pcs s t' = Returned c r'"
  shows "r = r'"
  using sinv_pc [OF sf_inv_reach [OF assms(1)], of t] sinv_pc [OF sf_inv_reach [OF assms(1)], of t'] assms(2,3)
  by (simp add: pc_ok_def)

text \<open>No waiter is lost: either it can return now, or its call is still running and ends with a wake-up.\<close>

lemma sf_waiter_progress:
  assumes R: "sf_reach s" and w: "pcs s t = Waiting c"
  shows "(\<exists>s' r. sf_step s (Wake t) = Some s' \<and> pcs s' t = Returned c r) \<or>
    (\<exists>u key. pcs s u = Leading key c \<and>
      (\<forall>out. \<exists>s1 s2. sf_step s (FnReturns u out) = Some s1 \<and> sf_step s1 (Wake t) = Some s2 \<and>
        pcs s2 t = Returned c (sf_Do out)))"
proof -
  note I = sf_inv_reach [OF R]
  have c: "c < length (results s)" using sinv_pc [OF I, of t] w by (simp add: pc_ok_def)
  show ?thesis
  proof (cases "results s ! c")
    case (Some r)
    then show ?thesis using w by simp
  next
    case None
    then obtain u key where u: "pcs s u = Leading key c" using sinv_open [OF I c] by blast
    moreover have "u \<noteq> t" using u w by auto
    ultimately have "\<forall>out. \<exists>s1 s2. sf_step s (FnReturns u out) = Some s1 \<and> sf_step s1 (Wake t) = Some s2 \<and>
        pcs s2 t = Returned c (sf_Do out)" using c w by simp
    then show ?thesis using u by blast
  qed
qed

end
