(* ===== verification/Consistent_Hash.thy ===== *)
theory Consistent_Hash
  imports Prelude
begin

text \<open>
  The consistent hash ring \<open>ConsistentHashMap\<close> of \<open>swifty_cache/consistent_hash.go\<close>. The
  hash function of the configuration is the parameter \<open>hf\<close>, the number of virtual nodes per node
  \<open>replicas\<close>. Keys of the ring are Go \<open>int\<close>s that come from a \<open>uint32\<close>, so
  \<open>uint\<close> of a 32 bit word.

  The specification is \<open>successor\<close>: a key belongs to the owner of the first ring position at or
  after its hash, wrapping at the end. From it follow the lemmas on what moves when the set of nodes
  changes.
\<close>

record ConsistentHashMap =
  keys :: "int list"
  ringMap :: "int \<Rightarrow> string option"
  nodeHashes :: "string \<Rightarrow> int list option"
  nodeCounts :: "string \<Rightarrow> int option"
  totalRequests :: int

definition NewConsistentHash :: ConsistentHashMap where
  "NewConsistentHash = \<lparr>keys = [], ringMap = Map.empty, nodeHashes = Map.empty, nodeCounts = Map.empty, totalRequests = 0\<rparr>"

definition vnode :: "string \<Rightarrow> nat \<Rightarrow> string" where
  "vnode node i = node @ ''-'' @ show_nat i"

fun add_replicas :: "(string \<Rightarrow> 32 word) \<Rightarrow> string \<Rightarrow> nat list \<Rightarrow> ConsistentHashMap \<times> int list \<Rightarrow> ConsistentHashMap \<times> int list" where
  "add_replicas hf node [] (m, hashes) = (m, hashes)"
| "add_replicas hf node (i # is) (m, hashes) =
    (let hash = uint (hf (vnode node i)) in
     if ringMap m hash \<noteq> None then add_replicas hf node is (m, hashes)
     else add_replicas hf node is
       (m\<lparr>keys := keys m @ [hash], ringMap := (ringMap m)(hash \<mapsto> node)\<rparr>, hashes @ [hash]))"

definition addNodeLocked :: "(string \<Rightarrow> 32 word) \<Rightarrow> nat \<Rightarrow> ConsistentHashMap \<Rightarrow> string \<Rightarrow> ConsistentHashMap" where
  "addNodeLocked hf replicas m node =
    (if nodeHashes m node \<noteq> None then m
     else let (m, hashes) = add_replicas hf node [0..<replicas] (m, []) in
       m\<lparr>nodeHashes := (nodeHashes m)(node \<mapsto> hashes),
         nodeCounts := (if nodeCounts m node = None then (nodeCounts m)(node \<mapsto> 0) else nodeCounts m)\<rparr>)"

fun add_nodes :: "(string \<Rightarrow> 32 word) \<Rightarrow> nat \<Rightarrow> string list \<Rightarrow> ConsistentHashMap \<Rightarrow> ConsistentHashMap" where
  "add_nodes hf replicas [] m = m"
| "add_nodes hf replicas (node # nodes) m =
    add_nodes hf replicas nodes (if node = [] then m else addNodeLocked hf replicas m node)"

definition ring_Add :: "(string \<Rightarrow> 32 word) \<Rightarrow> nat \<Rightarrow> ConsistentHashMap \<Rightarrow> string list \<Rightarrow> ConsistentHashMap option" where
  "ring_Add hf replicas m nodes =
    (if nodes = [] then None
     else let m = add_nodes hf replicas nodes m in Some (m\<lparr>keys := sort (keys m)\<rparr>))"

definition removeNodeLocked :: "ConsistentHashMap \<Rightarrow> string \<Rightarrow> ConsistentHashMap option" where
  "removeNodeLocked m node = (case nodeHashes m node of
      None \<Rightarrow> None
    | Some hashes \<Rightarrow> Some (m\<lparr>ringMap := (\<lambda>h. if h \<in> set hashes then None else ringMap m h),
        keys := filter (\<lambda>k. k \<notin> set hashes) (keys m),
        nodeHashes := (nodeHashes m)(node := None), nodeCounts := (nodeCounts m)(node := None)\<rparr>))"

definition ring_Remove :: "ConsistentHashMap \<Rightarrow> string \<Rightarrow> ConsistentHashMap option" where
  "ring_Remove m node = (if node = [] then None else removeNodeLocked m node)"

definition search_key :: "int list \<Rightarrow> int \<Rightarrow> nat" where
  "search_key ks hash = (let idx = sort_Search (length ks) (\<lambda>i. ks ! i \<ge> hash) in if idx = length ks then 0 else idx)"

text \<open>\<open>Get\<close>; a missing map entry reads as the empty string.\<close>

definition ring_Get :: "(string \<Rightarrow> 32 word) \<Rightarrow> ConsistentHashMap \<Rightarrow> string \<Rightarrow> ConsistentHashMap \<times> string" where
  "ring_Get hf m key =
    (if key = [] then (m, [])
     else if keys m = [] then (m, [])
     else let hash = uint (hf key);
              node = (case ringMap m (keys m ! search_key (keys m) hash) of Some n \<Rightarrow> n | None \<Rightarrow> []);
              counts = (case nodeCounts m node of Some n \<Rightarrow> (nodeCounts m)(node \<mapsto> n + 1) | None \<Rightarrow> nodeCounts m)
          in (m\<lparr>nodeCounts := counts, totalRequests := totalRequests m + 1\<rparr>, node))"

text \<open>The owner of a key, without the counters.\<close>

definition owner :: "(string \<Rightarrow> 32 word) \<Rightarrow> ConsistentHashMap \<Rightarrow> string \<Rightarrow> string" where
  "owner hf m key = snd (ring_Get hf m key)"

subsection \<open>Successors on a circle of positions\<close>

definition successor :: "int set \<Rightarrow> int \<Rightarrow> int" where
  "successor K h = (if \<exists>k \<in> K. h \<le> k then Min {k \<in> K. h \<le> k} else Min K)"

lemma successor_in: "finite K \<Longrightarrow> K \<noteq> {} \<Longrightarrow> successor K h \<in> K"
proof -
  assume f: "finite K" "K \<noteq> {}"
  show ?thesis
  proof (cases "\<exists>k \<in> K. h \<le> k")
    case True
    then have "Min {k \<in> K. h \<le> k} \<in> {k \<in> K. h \<le> k}" using f by (intro Min_in) auto
    then show ?thesis using True by (simp add: successor_def)
  next
    case False
    then show ?thesis using f Min_in [of K] by (auto simp: successor_def)
  qed
qed

lemma successor_least:
  assumes f: "finite K"
  shows "k \<in> K \<Longrightarrow> h \<le> k \<Longrightarrow> h \<le> successor K h \<and> successor K h \<le> k"
    and "k \<in> K \<Longrightarrow> \<not> (\<exists>k \<in> K. h \<le> k) \<Longrightarrow> successor K h \<le> k"
proof -
  assume k: "k \<in> K" "h \<le> k"
  have "Min {k \<in> K. h \<le> k} \<in> {k \<in> K. h \<le> k}" using f k by (intro Min_in) auto
  moreover have "Min {k \<in> K. h \<le> k} \<le> k" using f k by (intro Min_le) auto
  ultimately show "h \<le> successor K h \<and> successor K h \<le> k" using k by (auto simp: successor_def)
next
  assume "k \<in> K" "\<not> (\<exists>k \<in> K. h \<le> k)"
  then show "successor K h \<le> k" using f by (simp add: successor_def)
qed

text \<open>Adding positions only moves a hash to one of the new positions.\<close>

lemma successor_mono:
  assumes f: "finite K'" and sub: "K \<subseteq> K'" and ne: "K \<noteq> {}" and old: "successor K' h \<in> K"
  shows "successor K h = successor K' h"
proof -
  have fK: "finite K" using f sub by (rule rev_finite_subset)
  have inK: "successor K h \<in> K'" using successor_in [OF fK ne, of h] sub by blast
  show ?thesis
  proof (cases "\<exists>k \<in> K'. h \<le> k")
    case True
    then have "h \<le> successor K' h" using successor_least(1) [OF f] by blast
    then have "h \<le> successor K h" "successor K h \<le> successor K' h" using successor_least(1) [OF fK old] by auto
    moreover then have "successor K' h \<le> successor K h" using successor_least(1) [OF f inK] by blast
    ultimately show ?thesis by simp
  next
    case False
    then have "\<not> (\<exists>k \<in> K. h \<le> k)" using sub by blast
    then show ?thesis using successor_least(2) [OF fK old] successor_least(2) [OF f inK False] by fastforce
  qed
qed

lemma search_key_successor:
  assumes s: "sorted ks" and ne: "ks \<noteq> []"
  shows "search_key ks h < length ks \<and> ks ! search_key ks h = successor (set ks) h"
proof -
  let ?f = "\<lambda>i. ks ! i \<ge> h" and ?n = "length ks"
  let ?i = "sort_Search ?n ?f"
  have mono: "a \<le> b \<Longrightarrow> b < ?n \<Longrightarrow> ?f a \<Longrightarrow> ?f b" for a b
    using sorted_nth_mono [OF s, of a b] by linarith
  have lo: "a < ?i \<Longrightarrow> \<not> ?f a" and hi: "?i \<le> a \<Longrightarrow> a < ?n \<Longrightarrow> ?f a" and le: "?i \<le> ?n" for a
  proof -
    note F = sort_Search_first [of ?n ?f]
    show "a < ?i \<Longrightarrow> \<not> ?f a" by (rule F(1)) (rule mono)
    show "?i \<le> a \<Longrightarrow> a < ?n \<Longrightarrow> ?f a" by (rule F(2)) (rule mono)
    show "?i \<le> ?n" by (rule F(3)) (rule mono)
  qed
  show ?thesis
  proof (cases "?i = ?n")
    case True
    then have "\<not> (\<exists>k \<in> set ks. h \<le> k)" using lo by (auto simp: in_set_conv_nth)
    moreover have "Min (set ks) = ks ! 0"
    proof (rule Min_eqI)
      fix y assume "y \<in> set ks"
      then show "ks ! 0 \<le> y" using sorted_nth_mono [OF s, of 0] by (auto simp: in_set_conv_nth)
    qed (use ne in auto)
    ultimately show ?thesis using True ne by (simp add: search_key_def successor_def)
  next
    case False
    then have i: "?i < ?n" using le by simp
    have "Min {k \<in> set ks. h \<le> k} = ks ! ?i"
    proof (rule Min_eqI)
      fix y assume "y \<in> {k \<in> set ks. h \<le> k}"
      then obtain a where a: "a < ?n" "y = ks ! a" "h \<le> ks ! a" by (auto simp: in_set_conv_nth)
      then have "?i \<le> a" using lo [of a] by linarith
      then show "ks ! ?i \<le> y" using sorted_nth_mono [OF s] a by simp
    qed (use hi [of ?i] i in auto)
    then show ?thesis using hi [of ?i] i False by (auto simp: search_key_def successor_def)
  qed
qed

subsection \<open>The invariant of the ring\<close>

definition ring_core :: "ConsistentHashMap \<Rightarrow> bool" where
  "ring_core m \<longleftrightarrow> distinct (keys m) \<and> set (keys m) = dom (ringMap m) \<and>
     (\<forall>h n. ringMap m h = Some n \<longleftrightarrow> (\<exists>hs. nodeHashes m n = Some hs \<and> h \<in> set hs)) \<and>
     dom (nodeCounts m) = dom (nodeHashes m) \<and> [] \<notin> dom (nodeHashes m)"

definition ring_inv :: "ConsistentHashMap \<Rightarrow> bool" where
  "ring_inv m \<longleftrightarrow> ring_core m \<and> sorted (keys m)"

lemma ring_coreD:
  assumes "ring_core m"
  shows rc_distinct: "distinct (keys m)" and rc_dom: "set (keys m) = dom (ringMap m)"
    and rc_owner: "ringMap m h = Some n \<longleftrightarrow> (\<exists>hs. nodeHashes m n = Some hs \<and> h \<in> set hs)"
    and rc_counts: "dom (nodeCounts m) = dom (nodeHashes m)" and rc_name: "[] \<notin> dom (nodeHashes m)"
  using assms unfolding ring_core_def by blast+

lemma ring_inv_new: "ring_inv NewConsistentHash"
  by (simp add: ring_inv_def ring_core_def NewConsistentHash_def)

lemma add_replicas_facts:
  assumes "add_replicas hf node is (m, hs) = (m', hs')"
  shows "distinct (keys m) \<Longrightarrow> set (keys m) = dom (ringMap m) \<Longrightarrow>
      distinct (keys m') \<and> set (keys m') = dom (ringMap m') \<and>
      (\<exists>new. hs' = hs @ new \<and> keys m' = keys m @ new \<and> set new \<inter> dom (ringMap m) = {} \<and>
        ringMap m' = (\<lambda>h. if h \<in> set new then Some node else ringMap m h)) \<and>
      nodeHashes m' = nodeHashes m \<and> nodeCounts m' = nodeCounts m \<and> totalRequests m' = totalRequests m"
  using assms
proof (induction "is" arbitrary: m hs)
  case Nil
  then show ?case by auto
next
  case (Cons i "is")
  let ?h = "uint (hf (vnode node i))"
  let ?m = "m\<lparr>keys := keys m @ [?h], ringMap := (ringMap m)(?h \<mapsto> node)\<rparr>"
  show ?case
  proof (cases "ringMap m ?h")
    case None
    then have d: "distinct (keys ?m)" "set (keys ?m) = dom (ringMap ?m)" using Cons.prems(1,2) by auto
    have "add_replicas hf node is (?m, hs @ [?h]) = (m', hs')" using Cons.prems(3) None by (simp add: Let_def)
    note F = Cons.IH [OF d this]
    obtain new where N: "hs' = (hs @ [?h]) @ new \<and> keys m' = keys ?m @ new \<and>
      set new \<inter> dom (ringMap ?m) = {} \<and> ringMap m' = (\<lambda>h. if h \<in> set new then Some node else ringMap ?m h)"
      using F [THEN conjunct2, THEN conjunct2, THEN conjunct1] by (rule exE)
    note new = N [THEN conjunct1] N [THEN conjunct2, THEN conjunct1] N [THEN conjunct2, THEN conjunct2, THEN conjunct1]
      N [THEN conjunct2, THEN conjunct2, THEN conjunct2]
    have rest: "distinct (keys m')" "set (keys m') = dom (ringMap m')"
      "nodeHashes m' = nodeHashes m" "nodeCounts m' = nodeCounts m" "totalRequests m' = totalRequests m"
      using F by (elim conjE; simp)+
    have "ringMap m' = (\<lambda>h. if h \<in> set (?h # new) then Some node else ringMap m h)" using new(4) by auto
    moreover have "set (?h # new) \<inter> dom (ringMap m) = {}" using new(3) None by auto
    ultimately show ?thesis using new(1,2) rest by (intro conjI exI [of _ "?h # new"]) simp_all
  next
    case (Some n)
    then show ?thesis using Cons by (simp add: Let_def)
  qed
qed

text \<open>What adding one new node does.\<close>

lemma addNode_facts:
  assumes I: "ring_core m" and new: "nodeHashes m node = None" and ne: "node \<noteq> []"
  shows "\<exists>hs. keys (addNodeLocked hf r m node) = keys m @ hs \<and> set hs \<inter> dom (ringMap m) = {} \<and>
    ringMap (addNodeLocked hf r m node) = (\<lambda>h. if h \<in> set hs then Some node else ringMap m h) \<and>
    nodeHashes (addNodeLocked hf r m node) = (nodeHashes m)(node \<mapsto> hs) \<and>
    nodeCounts (addNodeLocked hf r m node) = (nodeCounts m)(node \<mapsto> 0) \<and>
    ring_core (addNodeLocked hf r m node)"
proof -
  obtain m' hs where a: "add_replicas hf node [0..<r] (m, []) = (m', hs)" by fastforce
  note F = add_replicas_facts [OF a rc_distinct [OF I] rc_dom [OF I]]
  then obtain f: "keys m' = keys m @ hs" "set hs \<inter> dom (ringMap m) = {}"
    "ringMap m' = (\<lambda>h. if h \<in> set hs then Some node else ringMap m h)" "nodeHashes m' = nodeHashes m"
    "nodeCounts m' = nodeCounts m" "distinct (keys m')" "set (keys m') = dom (ringMap m')" by auto
  have nc: "nodeCounts m node = None" using rc_counts [OF I] new by (metis domIff)
  let ?m = "addNodeLocked hf r m node"
  have m: "?m = m'\<lparr>nodeHashes := (nodeHashes m')(node \<mapsto> hs), nodeCounts := (nodeCounts m')(node \<mapsto> 0)\<rparr>"
    using a new nc f(4,5) by (simp add: addNodeLocked_def)
  have "ringMap ?m h = Some n \<longleftrightarrow> (\<exists>hs. nodeHashes ?m n = Some hs \<and> h \<in> set hs)" for h n
  proof (cases "h \<in> set hs")
    case True
    then have "ringMap m h = None" using f(2) by auto
    then have "\<not> (\<exists>hs. nodeHashes m n = Some hs \<and> h \<in> set hs)" using rc_owner [OF I, of h n] by simp
    then show ?thesis using True m f by auto
  next
    case False
    then show ?thesis using m f(3,4) rc_owner [OF I, of h n] new by auto
  qed
  then have "ring_core ?m"
    unfolding ring_core_def using m f rc_counts [OF I] rc_name [OF I] ne by simp
  then show ?thesis using m f by auto
qed

lemma addNode_core:
  assumes "ring_core m" "node \<noteq> []"
  shows "ring_core (addNodeLocked hf r m node)"
proof (cases "nodeHashes m node")
  case None
  then show ?thesis using addNode_facts [OF assms(1) _ assms(2)] by blast
qed (simp add: addNodeLocked_def assms)

lemma add_nodes_core: "ring_core m \<Longrightarrow> ring_core (add_nodes hf r nodes m)"
  by (induction nodes arbitrary: m) (auto intro: addNode_core)

lemma ring_core_sort: "ring_core m \<Longrightarrow> ring_inv (m\<lparr>keys := sort (keys m)\<rparr>)"
  by (simp add: ring_inv_def ring_core_def)

lemma ring_Add_inv: "ring_inv m \<Longrightarrow> ring_Add hf r m nodes = Some m' \<Longrightarrow> ring_inv m'"
  by (auto simp: ring_Add_def ring_inv_def [of m] Let_def split: if_splits intro: ring_core_sort add_nodes_core)

lemma removeNode_inv:
  assumes I: "ring_inv m" and r: "removeNodeLocked m node = Some m'"
  shows "ring_inv m'"
proof -
  have C: "ring_core m" "sorted (keys m)" using I by (simp_all add: ring_inv_def)
  obtain hs where hs: "nodeHashes m node = Some hs" using r by (auto simp: removeNodeLocked_def split: option.splits)
  have m': "m' = m\<lparr>ringMap := (\<lambda>h. if h \<in> set hs then None else ringMap m h),
        keys := filter (\<lambda>k. k \<notin> set hs) (keys m),
        nodeHashes := (nodeHashes m)(node := None), nodeCounts := (nodeCounts m)(node := None)\<rparr>"
    using r hs by (simp add: removeNodeLocked_def)
  have uniq: "n = node" if "nodeHashes m n = Some hs'" "h \<in> set hs'" "h \<in> set hs" for n h hs'
  proof -
    have "ringMap m h = Some n" "ringMap m h = Some node" using rc_owner [OF C(1)] that hs by blast+
    then show ?thesis by simp
  qed
  have "ringMap m' h = Some n \<longleftrightarrow> (\<exists>hs. nodeHashes m' n = Some hs \<and> h \<in> set hs)" for h n
  proof (cases "h \<in> set hs")
    case True
    then show ?thesis using uniq [of n _ h] m' by auto
  next
    case False
    then have "n = node \<Longrightarrow> ringMap m h \<noteq> Some n" using rc_owner [OF C(1), of h n] hs by auto
    then show ?thesis using False m' rc_owner [OF C(1), of h n] by auto
  qed
  moreover have "set (keys m') = dom (ringMap m')" using rc_dom [OF C(1)] m' by (auto split: if_splits)
  moreover have "distinct (keys m')" "sorted (keys m')" using rc_distinct [OF C(1)] C(2) m' by (simp_all add: sorted_wrt_filter)
  moreover have "dom (nodeCounts m') = dom (nodeHashes m')" "[] \<notin> dom (nodeHashes m')"
    using rc_counts [OF C(1)] rc_name [OF C(1)] m' by auto
  ultimately show ?thesis by (simp add: ring_inv_def ring_core_def)
qed

subsection \<open>Ownership\<close>

lemma ring_Get_owner:
  assumes I: "ring_inv m" and k: "key \<noteq> []" and ne: "keys m \<noteq> []"
  shows "ringMap m (successor (set (keys m)) (uint (hf key))) = Some (owner hf m key)"
    and "owner hf m key \<in> dom (nodeHashes m)"
proof -
  let ?h = "successor (set (keys m)) (uint (hf key))"
  have C: "ring_core m" "sorted (keys m)" using I by (simp_all add: ring_inv_def)
  have "?h \<in> set (keys m)" using ne by (intro successor_in) auto
  then have "?h \<in> dom (ringMap m)" using rc_dom [OF C(1)] by simp
  then obtain n where n: "ringMap m ?h = Some n" by auto
  have "owner hf m key = n"
    using search_key_successor [OF C(2) ne, of "uint (hf key)"] k ne n by (simp add: owner_def ring_Get_def Let_def)
  then show "ringMap m ?h = Some (owner hf m key)" using n by simp
  then show "owner hf m key \<in> dom (nodeHashes m)" using rc_owner [OF C(1)] by blast
qed

text \<open>The general form of what follows: the ring \<open>m'\<close> extends \<open>m\<close> by positions of one node.\<close>

lemma owner_extend:
  assumes I: "ring_inv m" "ring_inv m'" and k: "key \<noteq> []" and ne: "keys m \<noteq> []"
    and ext: "ringMap m' = (\<lambda>h. if h \<in> S then Some node else ringMap m h)" and S: "S \<inter> dom (ringMap m) = {}"
  shows "owner hf m' key \<noteq> node \<Longrightarrow> owner hf m' key = owner hf m key"
proof -
  assume other: "owner hf m' key \<noteq> node"
  let ?h = "uint (hf key)"
  have d: "set (keys m) = dom (ringMap m)" "set (keys m') = dom (ringMap m')"
    using I rc_dom by (auto simp: ring_inv_def)
  have sub: "set (keys m) \<subseteq> set (keys m')" using d ext by auto
  then have ne': "keys m' \<noteq> []" using ne by auto
  have o': "ringMap m' (successor (set (keys m')) ?h) = Some (owner hf m' key)"
    by (rule ring_Get_owner(1) [OF I(2) k ne'])
  then have nS: "successor (set (keys m')) ?h \<notin> S" using other ext by auto
  then have m: "ringMap m (successor (set (keys m')) ?h) = Some (owner hf m' key)" using o' ext by simp
  then have "successor (set (keys m')) ?h \<in> set (keys m)" using d by auto
  then have "successor (set (keys m)) ?h = successor (set (keys m')) ?h"
    using sub ne by (intro successor_mono) auto
  then show ?thesis using m ring_Get_owner(1) [OF I(1) k ne, of hf] by simp
qed

lemma ring_Add_one:
  assumes I: "ring_inv m" and node: "node \<noteq> []" "nodeHashes m node = None"
  shows "\<exists>m' hs. ring_Add hf r m [node] = Some m' \<and> ring_inv m' \<and> set hs \<inter> dom (ringMap m) = {} \<and>
    ringMap m' = (\<lambda>h. if h \<in> set hs then Some node else ringMap m h) \<and> keys m' = sort (keys m @ hs) \<and>
    nodeHashes m' = (nodeHashes m)(node \<mapsto> hs) \<and> nodeCounts m' = (nodeCounts m)(node \<mapsto> 0)"
proof -
  have C: "ring_core m" using I by (simp add: ring_inv_def)
  let ?a = "addNodeLocked hf r m node"
  have "ring_Add hf r m [node] = Some (?a\<lparr>keys := sort (keys ?a)\<rparr>)" using node by (simp add: ring_Add_def Let_def)
  moreover have "ring_inv (?a\<lparr>keys := sort (keys ?a)\<rparr>)" using addNode_core [OF C node(1)] by (rule ring_core_sort)
  moreover obtain hs where "keys ?a = keys m @ hs" "set hs \<inter> dom (ringMap m) = {}"
    "ringMap ?a = (\<lambda>h. if h \<in> set hs then Some node else ringMap m h)"
    "nodeHashes ?a = (nodeHashes m)(node \<mapsto> hs)" "nodeCounts ?a = (nodeCounts m)(node \<mapsto> 0)"
    using addNode_facts [OF C node(2,1), of hf r] by blast
  ultimately show ?thesis by (intro exI [of _ "?a\<lparr>keys := sort (keys ?a)\<rparr>"] exI [of _ hs]) simp
qed

text \<open>Adding a node moves keys only to that node.\<close>

lemma owner_after_Add:
  assumes "ring_inv m" "node \<noteq> []" "keys m \<noteq> []" "key \<noteq> []" "ring_Add hf r m [node] = Some m'"
  shows "owner hf m' key = owner hf m key \<or> owner hf m' key = node"
proof (cases "nodeHashes m node")
  case None
  from ring_Add_one [OF assms(1,2) None, of hf r] assms(5) owner_extend [OF assms(1) _ assms(4,3), of m' _ node hf]
  show ?thesis by fastforce
next
  case (Some hs)
  then have "m' = m\<lparr>keys := sort (keys m)\<rparr>" using assms(2,5) by (simp add: ring_Add_def addNodeLocked_def)
  moreover have "sort (keys m) = keys m" using assms(1) by (simp add: ring_inv_def sorted_sort_id)
  ultimately show ?thesis by simp
qed

text \<open>Removing a node moves only the keys it owned.\<close>

lemma owner_after_Remove:
  assumes I: "ring_inv m" and k: "key \<noteq> []" and r: "ring_Remove m node = Some m'"
    and other: "owner hf m key \<noteq> node"
  shows "owner hf m' key = owner hf m key"
proof -
  obtain hs where hs: "nodeHashes m node = Some hs"
    using r by (auto simp: ring_Remove_def removeNodeLocked_def split: option.splits if_splits)
  have r': "removeNodeLocked m node = Some m'" using r by (simp add: ring_Remove_def split: if_splits)
  then have I': "ring_inv m'" by (rule removeNode_inv [OF I])
  have C: "ring_core m" using I by (simp add: ring_inv_def)
  have m': "ringMap m' = (\<lambda>h. if h \<in> set hs then None else ringMap m h)" "keys m' = filter (\<lambda>k. k \<notin> set hs) (keys m)"
    using r' hs by (auto simp: removeNodeLocked_def)
  have own: "ringMap m h = Some node" if "h \<in> set hs" for h using rc_owner [OF C] hs that by blast
  have ext: "ringMap m = (\<lambda>h. if h \<in> set hs then Some node else ringMap m' h)" using m'(1) own by auto
  show ?thesis
  proof (cases "keys m = []")
    case True
    then show ?thesis using m'(2) by (simp add: owner_def ring_Get_def)
  next
    case False
    note o = ring_Get_owner(1) [OF I k False, of hf]
    have "successor (set (keys m)) (uint (hf key)) \<in> set (keys m)" using False by (intro successor_in) auto
    moreover have "successor (set (keys m)) (uint (hf key)) \<notin> set hs" using o own other by auto
    ultimately have ne: "keys m' \<noteq> []" using m'(2) by (auto simp: filter_empty_conv)
    have "set hs \<inter> dom (ringMap m') = {}" using m'(1) by auto
    from owner_extend [OF I' I k ne ext this, of hf] other show ?thesis by simp
  qed
qed

text \<open>Adding a fresh node and removing it again restores the ring.\<close>

lemma Add_Remove_restore:
  assumes I: "ring_inv m" and node: "node \<noteq> []" "nodeHashes m node = None"
  shows "\<exists>m1 m2. ring_Add hf r m [node] = Some m1 \<and> ring_Remove m1 node = Some m2 \<and>
    keys m2 = keys m \<and> ringMap m2 = ringMap m \<and> nodeHashes m2 = nodeHashes m \<and> nodeCounts m2 = nodeCounts m"
proof -
  have C: "ring_core m" "sorted (keys m)" using I by (simp_all add: ring_inv_def)
  obtain m1 hs where m1: "ring_Add hf r m [node] = Some m1" "set hs \<inter> dom (ringMap m) = {}"
    "ringMap m1 = (\<lambda>h. if h \<in> set hs then Some node else ringMap m h)" "keys m1 = sort (keys m @ hs)"
    "nodeHashes m1 = (nodeHashes m)(node \<mapsto> hs)" "nodeCounts m1 = (nodeCounts m)(node \<mapsto> 0)"
    using ring_Add_one [OF I node] by blast
  have "ringMap m h = None" if "h \<in> set hs" for h using m1(2) that by auto
  then have rm: "(\<lambda>h. if h \<in> set hs then None else ringMap m1 h) = ringMap m" using m1(3) by auto
  have dk: "set hs \<inter> set (keys m) = {}" using m1(2) rc_dom [OF C(1)] by simp
  have "filter (\<lambda>k. k \<notin> set hs) (keys m @ hs) = keys m" using dk by (auto intro: filter_True)
  then have ks: "filter (\<lambda>k. k \<notin> set hs) (sort (keys m @ hs)) = keys m"
    using C(2) by (metis filter_sort sorted_sort_id)
  have nc: "nodeCounts m node = None" using rc_counts [OF C(1)] node(2) by (metis domIff)
  show ?thesis using m1 rm ks node nc by (auto simp: ring_Remove_def removeNodeLocked_def fun_upd_idem)
qed

text \<open>Reading does not change the ring.\<close>

lemma ring_Get_frame:
  "keys (fst (ring_Get hf m key)) = keys m" "ringMap (fst (ring_Get hf m key)) = ringMap m"
  "nodeHashes (fst (ring_Get hf m key)) = nodeHashes m"
  by (simp_all add: ring_Get_def Let_def)

lemma ring_Get_inv: "ring_inv m \<Longrightarrow> ring_inv (fst (ring_Get hf m key))"
  by (auto simp: ring_inv_def ring_core_def ring_Get_def Let_def split: option.split)

subsection \<open>Agreement between nodes\<close>

text \<open>
  Every node of a cluster builds its own ring, adding the members in the order in which it discovers
  them. When no virtual nodes of two members collide the ring is a function of the set of members.
\<close>

definition positions :: "(string \<Rightarrow> 32 word) \<Rightarrow> nat \<Rightarrow> string \<Rightarrow> int set" where
  "positions hf r n = (\<lambda>i. uint (hf (vnode n i))) ` {..<r}"

definition collision_free :: "(string \<Rightarrow> 32 word) \<Rightarrow> nat \<Rightarrow> string set \<Rightarrow> bool" where
  "collision_free hf r U \<longleftrightarrow> (\<forall>n \<in> U. \<forall>n' \<in> U. n \<noteq> n' \<longrightarrow> positions hf r n \<inter> positions hf r n' = {})"

definition ring_full :: "(string \<Rightarrow> 32 word) \<Rightarrow> nat \<Rightarrow> ConsistentHashMap \<Rightarrow> bool" where
  "ring_full hf r m \<longleftrightarrow> (\<forall>n hs. nodeHashes m n = Some hs \<longrightarrow> set hs = positions hf r n)"

lemma union_insert_transfer:
  "h \<in> S \<Longrightarrow> S \<union> insert h D = insert h (H \<union> insert h D \<union> P) \<Longrightarrow> S \<union> D = insert h (H \<union> D \<union> P)"
  by auto

lemma add_replicas_all:
  assumes "add_replicas hf node is (m, hs) = (m', hs')"
  shows "set hs' \<union> dom (ringMap m) = set hs \<union> dom (ringMap m) \<union> (\<lambda>i. uint (hf (vnode node i))) ` set is \<and>
    set hs' \<subseteq> set hs \<union> (\<lambda>i. uint (hf (vnode node i))) ` set is"
  using assms
proof (induction "is" arbitrary: m hs)
  case (Cons i "is")
  let ?h = "uint (hf (vnode node i))"
  let ?m = "m\<lparr>keys := keys m @ [?h], ringMap := (ringMap m)(?h \<mapsto> node)\<rparr>"
  show ?case
  proof (cases "ringMap m ?h")
    case None
    have step: "add_replicas hf node is (?m, hs @ [?h]) = (m', hs')" using Cons.prems None by (simp add: Let_def)
    have h: "?h \<in> set hs'"
    proof -
      have "set hs \<subseteq> set hs'" if "add_replicas hf node is (m, hs) = (m', hs')" for m hs m' hs' "is"
        using that by (induction "is" arbitrary: m hs) (fastforce simp: Let_def split: if_splits)+
      then show ?thesis using step by fastforce
    qed
    have d: "dom (ringMap ?m) = insert ?h (dom (ringMap m))" by simp
    have "set hs' \<union> insert ?h (dom (ringMap m)) =
        insert ?h (set hs \<union> insert ?h (dom (ringMap m)) \<union> (\<lambda>i. uint (hf (vnode node i))) ` set is)"
      using Cons.IH [OF step] unfolding d by simp
    from union_insert_transfer [OF h this] show ?thesis using Cons.IH [OF step] by simp
  next
    case (Some n)
    have "?h \<in> dom (ringMap m)" using Some by blast
    then show ?thesis using Cons.IH [of m hs] Cons.prems Some by (auto simp: Let_def)
  qed
qed simp

lemma full_owner:
  assumes "ring_core m" "ring_full hf r m"
  shows "ringMap m h = Some n \<longleftrightarrow> n \<in> dom (nodeHashes m) \<and> h \<in> positions hf r n"
  unfolding rc_owner [OF assms(1)] using assms(2) by (auto simp: ring_full_def)

lemma addNode_full:
  assumes I: "ring_core m" and F: "ring_full hf r m" and cf: "collision_free hf r (insert node (dom (nodeHashes m)))"
  shows "ring_full hf r (addNodeLocked hf r m node)"
proof (cases "nodeHashes m node")
  case None
  obtain m' hs where a: "add_replicas hf node [0..<r] (m, []) = (m', hs)" by fastforce
  have "h \<notin> dom (ringMap m)" if "h \<in> positions hf r node" for h
  proof
    assume "h \<in> dom (ringMap m)"
    then obtain n where n: "n \<in> dom (nodeHashes m)" "h \<in> positions hf r n" using full_owner [OF I F] by blast
    then have "n \<noteq> node" using None by auto
    then show False using cf n that by (auto simp: collision_free_def)
  qed
  moreover have "set hs \<union> dom (ringMap m) = dom (ringMap m) \<union> positions hf r node" "set hs \<subseteq> positions hf r node"
    using add_replicas_all [OF a] by (auto simp: positions_def lessThan_atLeast0)
  ultimately have "set hs = positions hf r node" by blast
  moreover have "nodeHashes m' = nodeHashes m"
    using add_replicas_facts [OF a rc_distinct [OF I] rc_dom [OF I]] by (elim conjE)
  ultimately show ?thesis using F a None by (simp add: ring_full_def addNodeLocked_def)
qed (simp add: addNodeLocked_def F)

lemma addNode_dom:
  assumes "ring_core m"
  shows "dom (nodeHashes (addNodeLocked hf r m node)) = insert node (dom (nodeHashes m))"
proof (cases "nodeHashes m node")
  case None
  obtain m' hs where a: "add_replicas hf node [0..<r] (m, []) = (m', hs)" by fastforce
  have "nodeHashes m' = nodeHashes m"
    using add_replicas_facts [OF a rc_distinct [OF assms] rc_dom [OF assms]] by (elim conjE)
  then show ?thesis using a None by (simp add: addNodeLocked_def)
qed (auto simp: addNodeLocked_def)

lemma add_nodes_full:
  "ring_core m \<Longrightarrow> ring_full hf r m \<Longrightarrow> collision_free hf r (set nodes \<union> dom (nodeHashes m)) \<Longrightarrow>
    ring_full hf r (add_nodes hf r nodes m) \<and>
    dom (nodeHashes (add_nodes hf r nodes m)) = (set nodes - {[]}) \<union> dom (nodeHashes m)"
proof (induction nodes arbitrary: m)
  case (Cons n nodes)
  show ?case
  proof (cases "n = []")
    case True
    have "collision_free hf r (set nodes \<union> dom (nodeHashes m))" using Cons.prems(3) by (simp add: collision_free_def)
    then show ?thesis using Cons.IH [of m] Cons.prems True by simp
  next
    case False
    let ?m = "addNodeLocked hf r m n"
    have d: "dom (nodeHashes ?m) = insert n (dom (nodeHashes m))" by (rule addNode_dom [OF Cons.prems(1)])
    have "collision_free hf r (insert n (dom (nodeHashes m)))" using Cons.prems(3) by (simp add: collision_free_def)
    then have f: "ring_full hf r ?m" by (rule addNode_full [OF Cons.prems(1,2)])
    have "collision_free hf r (set nodes \<union> dom (nodeHashes ?m))" using Cons.prems(3) unfolding d by simp
    from Cons.IH [OF addNode_core [OF Cons.prems(1) False] f this] show ?thesis using False d by auto
  qed
qed simp

lemma ring_Add_full:
  assumes I: "ring_inv m" and F: "ring_full hf r m" and cf: "collision_free hf r (set nodes \<union> dom (nodeHashes m))"
    and a: "ring_Add hf r m nodes = Some m'"
  shows "ring_full hf r m'" "dom (nodeHashes m') = (set nodes - {[]}) \<union> dom (nodeHashes m)"
proof -
  have "m' = (add_nodes hf r nodes m)\<lparr>keys := sort (keys (add_nodes hf r nodes m))\<rparr>"
    using a by (simp add: ring_Add_def Let_def split: if_splits)
  then have "nodeHashes m' = nodeHashes (add_nodes hf r nodes m)" by simp
  then show "ring_full hf r m'" "dom (nodeHashes m') = (set nodes - {[]}) \<union> dom (nodeHashes m)"
    using add_nodes_full [OF _ F cf] I by (simp_all add: ring_full_def ring_inv_def)
qed

lemma ring_Remove_full:
  assumes "ring_full hf r m" "ring_Remove m node = Some m'"
  shows "ring_full hf r m'" "dom (nodeHashes m') = dom (nodeHashes m) - {node}"
  using assms by (auto simp: ring_Remove_def removeNodeLocked_def ring_full_def split: if_splits option.splits)

lemma full_agree:
  assumes I: "ring_inv m1" "ring_inv m2" and F: "ring_full hf r m1" "ring_full hf r m2"
    and d: "dom (nodeHashes m1) = dom (nodeHashes m2)"
  shows "owner hf m1 key = owner hf m2 key"
proof -
  have C: "ring_core m1" "ring_core m2" using I by (simp_all add: ring_inv_def)
  have "ringMap m1 h = Some n \<longleftrightarrow> ringMap m2 h = Some n" for h n
    unfolding full_owner [OF C(1) F(1)] full_owner [OF C(2) F(2)] d ..
  then have eq: "ringMap m1 = ringMap m2" by (metis (no_types) ext not_None_eq)
  then have ks: "set (keys m1) = set (keys m2)" using rc_dom C by metis
  show ?thesis
  proof (cases "key = [] \<or> keys m1 = []")
    case True
    then show ?thesis using ks by (auto simp: owner_def ring_Get_def)
  next
    case False
    then have "keys m2 \<noteq> []" using ks by auto
    then show ?thesis
      using ring_Get_owner(1) [OF I(1), of key hf] ring_Get_owner(1) [OF I(2), of key hf] False eq ks by simp
  qed
qed

end
