(* ===== verification/Go_Strings.thy ===== *)
theory Go_Strings
  imports Prelude
begin

text \<open>
  The functions of Go's \<open>strings\<close> package that the components use, on strings as lists of bytes.
\<close>

definition HasPrefix :: "'a list \<Rightarrow> 'a list \<Rightarrow> bool" where
  "HasPrefix s p \<longleftrightarrow> take (length p) s = p"

definition HasSuffix :: "'a list \<Rightarrow> 'a list \<Rightarrow> bool" where
  "HasSuffix s p \<longleftrightarrow> HasPrefix (rev s) (rev p)"

definition TrimPrefix :: "'a list \<Rightarrow> 'a list \<Rightarrow> 'a list" where
  "TrimPrefix s p = (if HasPrefix s p then drop (length p) s else s)"

text \<open>\<open>strings.Split\<close> at a separator of one character.\<close>

fun Split :: "'a \<Rightarrow> 'a list \<Rightarrow> 'a list list" where
  "Split c [] = [[]]"
| "Split c (x # xs) =
    (if x = c then [] # Split c xs
     else case Split c xs of [] \<Rightarrow> [[x]] | w # ws \<Rightarrow> (x # w) # ws)"

fun Join :: "'a list list \<Rightarrow> 'a list \<Rightarrow> 'a list" where
  "Join [] sep = []"
| "Join [w] sep = w"
| "Join (w # ws) sep = w @ sep @ Join ws sep"

lemma HasPrefix_append [simp]: "HasPrefix (p @ s) p"
  by (simp add: HasPrefix_def)

lemma HasPrefix_iff: "HasPrefix s p \<longleftrightarrow> (\<exists>r. s = p @ r)"
  by (auto simp: HasPrefix_def) (metis append_take_drop_id)

lemma TrimPrefix_append [simp]: "TrimPrefix (p @ s) p = s"
  by (simp add: TrimPrefix_def)

lemma Split_not_Nil [simp]: "Split c xs \<noteq> []"
  by (induction xs) (auto split: list.split)

lemma Join_Split: "Join (Split c xs) [c] = xs"
proof (induction xs)
  case (Cons x xs)
  obtain w ws where "Split c xs = w # ws" by (cases "Split c xs") auto
  then show ?case using Cons by (cases ws) auto
qed simp

lemma Split_parts: "w \<in> set (Split c xs) \<Longrightarrow> c \<notin> set w"
proof (induction xs arbitrary: w)
  case (Cons x xs)
  obtain v vs where "Split c xs = v # vs" by (cases "Split c xs") auto
  then show ?case using Cons by (auto split: if_splits)
qed simp

lemma Split_no_sep: "c \<notin> set xs \<Longrightarrow> Split c xs = [xs]"
  by (induction xs) auto

lemma Split_sep: "c \<notin> set w \<Longrightarrow> Split c (w @ c # xs) = w # Split c xs"
  by (induction w) auto

lemma Split_Join:
  "ws \<noteq> [] \<Longrightarrow> \<forall>w \<in> set ws. c \<notin> set w \<Longrightarrow> Split c (Join ws [c]) = ws"
proof (induction ws "[c]" rule: Join.induct)
  case (3 w v vs)
  then show ?case using Split_sep [of c w] by simp
qed (auto simp: Split_no_sep)

text \<open>
  The functions that look at single characters treat them as ASCII: \<open>TrimSpace\<close> removes the
  white space of ASCII, \<open>ToLower\<close> and \<open>EqualFold\<close> know the letters \<open>A\<close> to \<open>Z\<close>.
\<close>

definition isSpace :: "char \<Rightarrow> bool" where
  "isSpace c \<longleftrightarrow> (of_char c :: nat) \<in> {9, 10, 11, 12, 13, 32}"

definition TrimSpace :: "string \<Rightarrow> string" where
  "TrimSpace s = rev (dropWhile isSpace (rev (dropWhile isSpace s)))"

definition is_upper :: "char \<Rightarrow> bool" where
  "is_upper c \<longleftrightarrow> 65 \<le> (of_char c :: nat) \<and> (of_char c :: nat) \<le> 90"

definition lower_char :: "char \<Rightarrow> char" where
  "lower_char c = (if is_upper c then char_of ((of_char c :: nat) + 32) else c)"

definition ToLower :: "string \<Rightarrow> string" where
  "ToLower s = map lower_char s"

definition EqualFold :: "string \<Rightarrow> string \<Rightarrow> bool" where
  "EqualFold s t \<longleftrightarrow> ToLower s = ToLower t"

text \<open>\<open>strings.ReplaceAll\<close> of one character by a string.\<close>

definition ReplaceAll :: "string \<Rightarrow> char \<Rightarrow> string \<Rightarrow> string" where
  "ReplaceAll s c r = concat (map (\<lambda>x. if x = c then r else [x]) s)"

lemma ReplaceAll_Nil [simp]: "ReplaceAll [] c r = []"
  by (simp add: ReplaceAll_def)

lemma ReplaceAll_Cons [simp]: "ReplaceAll (x # s) c r = (if x = c then r else [x]) @ ReplaceAll s c r"
  by (simp add: ReplaceAll_def)

lemma ReplaceAll_append [simp]: "ReplaceAll (s @ t) c r = ReplaceAll s c r @ ReplaceAll t c r"
  by (simp add: ReplaceAll_def)

lemma lower_char_not_upper: "\<not> is_upper (lower_char c)"
  by (simp add: lower_char_def is_upper_def)

lemma ToLower_no_upper: "c \<in> set (ToLower s) \<Longrightarrow> \<not> is_upper c"
  by (auto simp: ToLower_def lower_char_not_upper)

lemma ToLower_append [simp]: "ToLower (s @ t) = ToLower s @ ToLower t"
  by (simp add: ToLower_def)

lemma ToLower_idem [simp]: "ToLower (ToLower s) = ToLower s"
  by (simp add: ToLower_def lower_char_not_upper [unfolded lower_char_def] lower_char_def)

lemma HasPrefix_Cons [simp]:
  "HasPrefix (x # s) [c] \<longleftrightarrow> x = c" "HasPrefix [] (c # cs) \<longleftrightarrow> False" "HasPrefix s []"
  by (simp_all add: HasPrefix_def)

end
