(* ===== verification/Peers.thy ===== *)
theory Peers
  imports Consistent_Hash Go_Strings Cache_Group
begin

text \<open>
  Peer discovery, \<open>ClientPicker\<close> of \<open>swifty_cache/peers.go\<close>, and \<open>ValidPeerAddr\<close> of
  \<open>utils.go\<close>. The events and snapshots that etcd delivers are arguments; whether a gRPC client
  for an address can be created is the parameter \<open>dial\<close>. A client is represented by its
  address; the addresses of closed clients are returned.
\<close>

definition ValidPeerAddr :: "string \<Rightarrow> bool" where
  "ValidPeerAddr addr =
    (let t1 = Split (CHR '':'') addr in
     if length t1 \<noteq> 2 then False
     else let t2 = Split (CHR ''.'') (t1 ! 0) in
       if t1 ! 0 \<noteq> ''localhost'' \<and> length t2 \<noteq> 4 then False else True)"

record ClientPicker =
  selfAddr :: string
  svcName :: string
  consHash :: ConsistentHashMap
  clients :: "(string \<times> unit) list"

text \<open>The etcd client and the discovery goroutine that \<open>NewClientPicker\<close> also starts are not part of the state.\<close>

definition NewClientPicker :: "(string \<Rightarrow> 32 word) \<Rightarrow> nat \<Rightarrow> string \<Rightarrow> string \<Rightarrow> ClientPicker" where
  "NewClientPicker hf r addr svc = \<lparr>selfAddr = addr, svcName = svc,
     consHash = (case ring_Add hf r NewConsistentHash [addr] of Some m \<Rightarrow> m | None \<Rightarrow> NewConsistentHash),
     clients = []\<rparr>"

definition servicePrefix :: "ClientPicker \<Rightarrow> string" where
  "servicePrefix p = ''/services/'' @ svcName p @ ''/''"

definition addrFromEventKey :: "ClientPicker \<Rightarrow> string \<Rightarrow> string" where
  "addrFromEventKey p key = TrimPrefix key (servicePrefix p)"

definition picker_set :: "(string \<Rightarrow> 32 word) \<Rightarrow> nat \<Rightarrow> (string \<Rightarrow> bool) \<Rightarrow> ClientPicker \<Rightarrow> string \<Rightarrow> ClientPicker" where
  "picker_set hf r dial p addr =
    (if dial addr then
       p\<lparr>consHash := (case ring_Add hf r (consHash p) [addr] of Some m \<Rightarrow> m | None \<Rightarrow> consHash p),
         clients := AList.update addr () (clients p)\<rparr>
     else p)"

definition picker_remove :: "ClientPicker \<Rightarrow> string \<Rightarrow> ClientPicker" where
  "picker_remove p addr =
    p\<lparr>consHash := (case ring_Remove (consHash p) addr of Some m \<Rightarrow> m | None \<Rightarrow> consHash p),
      clients := AList.delete addr (clients p)\<rparr>"

datatype event_type = EventTypePut | EventTypeDelete

fun handleWatchEvents :: "(string \<Rightarrow> 32 word) \<Rightarrow> nat \<Rightarrow> (string \<Rightarrow> bool) \<Rightarrow> (event_type \<times> string) list
    \<Rightarrow> ClientPicker \<Rightarrow> string list \<Rightarrow> ClientPicker \<times> string list" where
  "handleWatchEvents hf r dial [] p cl = (p, cl)"
| "handleWatchEvents hf r dial ((ty, key) # events) p cl =
    (let addr = addrFromEventKey p key in
     if addr = [] \<or> addr = selfAddr p then handleWatchEvents hf r dial events p cl
     else case ty of
       EventTypePut \<Rightarrow>
         (if map_of (clients p) addr = None
          then handleWatchEvents hf r dial events (picker_set hf r dial p addr) cl
          else handleWatchEvents hf r dial events p cl)
     | EventTypeDelete \<Rightarrow>
         (if map_of (clients p) addr \<noteq> None
          then handleWatchEvents hf r dial events (picker_remove p addr) (cl @ [addr])
          else handleWatchEvents hf r dial events p cl))"

text \<open>The two loops of \<open>fetchAllServices\<close>; the second ranges over the map \<open>clients\<close>.\<close>

fun discover :: "(string \<Rightarrow> 32 word) \<Rightarrow> nat \<Rightarrow> (string \<Rightarrow> bool) \<Rightarrow> string list \<Rightarrow> ClientPicker \<Rightarrow> string list
    \<Rightarrow> ClientPicker \<times> string list" where
  "discover hf r dial [] p current = (p, current)"
| "discover hf r dial (key # kvs) p current =
    (let addr = addrFromEventKey p key in
     if addr = [] \<or> addr = selfAddr p then discover hf r dial kvs p current
     else discover hf r dial kvs
       (if map_of (clients p) addr = None then picker_set hf r dial p addr else p) (List.insert addr current))"

fun drop_stale :: "string list \<Rightarrow> string list \<Rightarrow> ClientPicker \<Rightarrow> string list \<Rightarrow> ClientPicker \<times> string list" where
  "drop_stale current [] p cl = (p, cl)"
| "drop_stale current (addr # addrs) p cl =
    (if addr \<notin> set current then drop_stale current addrs (picker_remove p addr) (cl @ [addr])
     else drop_stale current addrs p cl)"

definition fetchAllServices :: "(string \<Rightarrow> 32 word) \<Rightarrow> nat \<Rightarrow> (string \<Rightarrow> bool) \<Rightarrow> (string list \<Rightarrow> string list)
    \<Rightarrow> string list \<Rightarrow> ClientPicker \<Rightarrow> ClientPicker \<times> string list" where
  "fetchAllServices hf r dial ord kvs p =
    (let (p, current) = discover hf r dial kvs p [] in drop_stale current (ord (map fst (clients p))) p [])"

definition PickPeer :: "(string \<Rightarrow> 32 word) \<Rightarrow> ClientPicker \<Rightarrow> string \<Rightarrow> ClientPicker \<times> string option \<times> bool \<times> bool" where
  "PickPeer hf p key =
    (let (m, addr) = ring_Get hf (consHash p) key; p = p\<lparr>consHash := m\<rparr> in
     if addr = [] then (p, None, False, False)
     else if addr = selfAddr p then (p, None, True, True)
     else if map_of (clients p) addr \<noteq> None then (p, Some addr, True, False)
     else (p, None, False, False))"

subsection \<open>Invariant\<close>

text \<open>
  The members of the ring are this node and the clients. The first virtual node of this node is added
  to an empty ring, so it is always there.
\<close>

definition picker_inv :: "ClientPicker \<Rightarrow> bool" where
  "picker_inv p \<longleftrightarrow> ring_inv (consHash p) \<and> selfAddr p \<noteq> [] \<and>
     dom (nodeHashes (consHash p)) = insert (selfAddr p) (fst ` set (clients p)) \<and>
     selfAddr p \<notin> fst ` set (clients p) \<and> (\<exists>h hs. nodeHashes (consHash p) (selfAddr p) = Some (h # hs))"

definition members :: "ClientPicker \<Rightarrow> string set" where
  "members p = fst ` set (clients p)"

lemma picker_new:
  assumes "addr \<noteq> []" "0 < r"
  shows "picker_inv (NewClientPicker hf r addr svc)"
proof -
  have n: "nodeHashes NewConsistentHash addr = None" by (simp add: NewConsistentHash_def)
  have new: "nodeHashes NewConsistentHash = Map.empty" by (simp add: NewConsistentHash_def)
  obtain m hs where m: "ring_Add hf r NewConsistentHash [addr] = Some m" "ring_inv m" "nodeHashes m = [addr \<mapsto> hs]"
    using ring_Add_one [OF ring_inv_new assms(1) n, of hf r] unfolding new by blast
  have "hs \<noteq> []"
  proof
    assume "hs = []"
    have "ring_full hf r m \<and> dom (nodeHashes m) = {addr}"
      using ring_Add_full [OF ring_inv_new _ _ m(1)] assms(1)
      by (auto simp: ring_full_def NewConsistentHash_def collision_free_def)
    then have "set hs = positions hf r addr" using m(3) by (auto simp: ring_full_def)
    then show False using assms(2) \<open>hs = []\<close> by (auto simp: positions_def)
  qed
  then show ?thesis using m assms by (auto simp: NewClientPicker_def picker_inv_def neq_Nil_conv)
qed

lemma picker_set_inv:
  assumes I: "picker_inv p" and a: "addr \<noteq> []" "addr \<noteq> selfAddr p" "addr \<notin> members p"
  shows "picker_inv (picker_set hf r dial p addr)"
    "members (picker_set hf r dial p addr) = (if dial addr then insert addr (members p) else members p)"
    "selfAddr (picker_set hf r dial p addr) = selfAddr p" "svcName (picker_set hf r dial p addr) = svcName p"
proof -
  have "nodeHashes (consHash p) addr = None" using I a by (auto simp: picker_inv_def members_def)
  from ring_Add_one [OF _ a(1) this, of hf r] I obtain m hs where m: "ring_Add hf r (consHash p) [addr] = Some m"
    "ring_inv m" "nodeHashes m = (nodeHashes (consHash p))(addr \<mapsto> hs)" by (auto simp: picker_inv_def)
  have d: "fst ` set (AList.update addr () (clients p)) = insert addr (fst ` set (clients p))"
    by (simp add: dom_update)
  show "picker_inv (picker_set hf r dial p addr)"
    using I m a(2) by (auto simp: picker_inv_def picker_set_def d)
  show "members (picker_set hf r dial p addr) = (if dial addr then insert addr (members p) else members p)"
    by (simp add: picker_set_def members_def d)
  show "selfAddr (picker_set hf r dial p addr) = selfAddr p" "svcName (picker_set hf r dial p addr) = svcName p"
    by (simp_all add: picker_set_def)
qed

lemma picker_remove_inv:
  assumes I: "picker_inv p" and a: "addr \<in> members p"
  shows "picker_inv (picker_remove p addr)" "members (picker_remove p addr) = members p - {addr}"
    "selfAddr (picker_remove p addr) = selfAddr p" "svcName (picker_remove p addr) = svcName p"
proof -
  have ne: "addr \<noteq> selfAddr p" using I a unfolding picker_inv_def members_def by metis
  have R: "ring_inv (consHash p)" using I by (simp add: picker_inv_def)
  have inD: "addr \<in> dom (nodeHashes (consHash p))" using I a by (auto simp: picker_inv_def members_def)
  then obtain hs where hs: "nodeHashes (consHash p) addr = Some hs" by blast
  have "addr \<noteq> []" using R inD rc_name by (auto simp: ring_inv_def)
  then obtain m where m: "ring_Remove (consHash p) addr = Some m" "ring_inv m"
    "nodeHashes m = (nodeHashes (consHash p))(addr := None)"
    using hs removeNode_inv [OF R, of addr] by (auto simp: ring_Remove_def removeNodeLocked_def)
  have d: "fst ` set (AList.delete addr (clients p)) = fst ` set (clients p) - {addr}"
    by (simp add: dom_map_of_conv_image_fst [symmetric])
  show "picker_inv (picker_remove p addr)"
    using I m ne by (auto simp: picker_inv_def picker_remove_def d)
  show "members (picker_remove p addr) = members p - {addr}"
    by (simp add: picker_remove_def members_def d)
  show "selfAddr (picker_remove p addr) = selfAddr p" "svcName (picker_remove p addr) = svcName p"
    by (simp_all add: picker_remove_def)
qed

lemma member_iff: "map_of (clients p) addr = None \<longleftrightarrow> addr \<notin> members p"
  by (simp add: map_of_eq_None_iff members_def)

text \<open>The members after a sequence of events, by the specification.\<close>

fun members_after :: "(string \<Rightarrow> bool) \<Rightarrow> string \<Rightarrow> (event_type \<times> string) list \<Rightarrow> string set \<Rightarrow> string set" where
  "members_after dial self [] S = S"
| "members_after dial self ((ty, addr) # evs) S =
    members_after dial self evs
      (if addr = [] \<or> addr = self then S
       else case ty of EventTypePut \<Rightarrow> if dial addr then insert addr S else S | EventTypeDelete \<Rightarrow> S - {addr})"

lemma servicePrefix_cong: "svcName p = svcName q \<Longrightarrow> addrFromEventKey p = addrFromEventKey q"
  by (simp add: addrFromEventKey_def servicePrefix_def fun_eq_iff)

lemma handleWatchEvents_ok:
  "picker_inv p \<Longrightarrow> handleWatchEvents hf r dial evs p cl = (p', cl') \<Longrightarrow>
    picker_inv p' \<and> selfAddr p' = selfAddr p \<and> svcName p' = svcName p \<and>
    members p' = members_after dial (selfAddr p) (map (\<lambda>(ty, k). (ty, addrFromEventKey p k)) evs) (members p)"
proof (induction evs arbitrary: p cl)
  case (Cons e evs)
  obtain ty key where e: "e = (ty, key)" by (cases e)
  let ?a = "addrFromEventKey p key"
  let ?put = "picker_set hf r dial p ?a" and ?rem = "picker_remove p ?a"
  show ?case
  proof (cases "?a = [] \<or> ?a = selfAddr p")
    case True
    then show ?thesis using Cons.IH [of p cl] Cons.prems e by (simp add: Let_def)
  next
    case False
    then have a: "?a \<noteq> []" "?a \<noteq> selfAddr p" by auto
    show ?thesis
    proof (cases ty)
      case EventTypePut
      show ?thesis
      proof (cases "?a \<in> members p")
        case True
        then have "(if dial ?a then insert ?a (members p) else members p) = members p" by auto
        then show ?thesis using Cons.IH [of p cl] Cons.prems e EventTypePut False True by (simp add: Let_def member_iff)
      next
        case new: False
        note S = picker_set_inv [OF Cons.prems(1) a new, of hf r dial]
        show ?thesis using Cons.IH [OF S(1), of cl] Cons.prems(2) e EventTypePut False new S
            servicePrefix_cong [OF S(4)] by (simp add: Let_def member_iff)
      qed
    next
      case EventTypeDelete
      show ?thesis
      proof (cases "?a \<in> members p")
        case True
        note S = picker_remove_inv [OF Cons.prems(1) True]
        have "map_of (clients p) ?a \<noteq> None" using True member_iff by blast
        then show ?thesis using Cons.IH [OF S(1), of "cl @ [?a]"] Cons.prems(2) e EventTypeDelete False S
            servicePrefix_cong [OF S(4)] by (simp add: Let_def)
      next
        case gone: False
        then have "members p - {?a} = members p" by simp
        then show ?thesis using Cons.IH [of p cl] Cons.prems e EventTypeDelete False gone by (simp add: Let_def member_iff)
      qed
    qed
  qed
qed simp

text \<open>A resynchronisation makes the members those of the snapshot, but for failed dials.\<close>

definition snapshot :: "ClientPicker \<Rightarrow> string list \<Rightarrow> string set" where
  "snapshot p kvs = addrFromEventKey p ` set kvs - {[], selfAddr p}"

lemma discover_ok:
  "picker_inv p \<Longrightarrow> discover hf r dial kvs p cur = (p', cur') \<Longrightarrow>
    picker_inv p' \<and> selfAddr p' = selfAddr p \<and> svcName p' = svcName p \<and> set cur' = set cur \<union> snapshot p kvs \<and>
    members p' = members p \<union> {a \<in> snapshot p kvs. dial a}"
proof (induction kvs arbitrary: p cur)
  case Nil
  then show ?case by (auto simp: snapshot_def)
next
  case (Cons key kvs)
  let ?a = "addrFromEventKey p key"
  show ?case
  proof (cases "?a = [] \<or> ?a = selfAddr p")
    case True
    then have "snapshot p (key # kvs) = snapshot p kvs" by (auto simp: snapshot_def)
    then show ?thesis using Cons.IH [of p cur] Cons.prems True by (simp add: Let_def)
  next
    case False
    then have a: "?a \<noteq> []" "?a \<noteq> selfAddr p" and sn: "snapshot p (key # kvs) = insert ?a (snapshot p kvs)"
      by (auto simp: snapshot_def)
    show ?thesis
    proof (cases "?a \<in> members p")
      case True
      then have "\<not> map_of (clients p) ?a = None" using member_iff by blast
      then show ?thesis using Cons.IH [of p "List.insert ?a cur"] Cons.prems False True sn by (auto simp: Let_def)
    next
      case new: False
      note S = picker_set_inv [OF Cons.prems(1) a new, of hf r dial]
      have "snapshot (picker_set hf r dial p ?a) kvs = snapshot p kvs"
        using servicePrefix_cong [OF S(4)] S(3) by (simp add: snapshot_def)
      then show ?thesis using Cons.IH [OF S(1), of "List.insert ?a cur"] Cons.prems(2) False new sn S
        by (auto simp: Let_def member_iff)
    qed
  qed
qed

lemma picker_remove_other:
  assumes I: "picker_inv p" and a: "addr \<notin> members p" "addr \<noteq> selfAddr p"
  shows "picker_remove p addr = p"
proof -
  have "nodeHashes (consHash p) addr = None" using I a by (auto simp: picker_inv_def members_def)
  then have "ring_Remove (consHash p) addr = None" by (simp add: ring_Remove_def removeNodeLocked_def)
  moreover have "AList.delete addr (clients p) = clients p" using a(1) by (simp add: members_def)
  ultimately show ?thesis by (simp add: picker_remove_def)
qed

lemma drop_stale_ok:
  "picker_inv p \<Longrightarrow> selfAddr p \<notin> set addrs \<Longrightarrow> drop_stale cur addrs p cl = (p', cl') \<Longrightarrow>
    picker_inv p' \<and> selfAddr p' = selfAddr p \<and> members p' = members p - (set addrs - set cur)"
proof (induction addrs arbitrary: p cl)
  case (Cons a addrs)
  show ?case
  proof (cases "a \<in> set cur")
    case True
    then show ?thesis using Cons.IH [of p cl] Cons.prems by auto
  next
    case False
    have "picker_inv (picker_remove p a) \<and> members (picker_remove p a) = members p - {a} \<and>
        selfAddr (picker_remove p a) = selfAddr p"
    proof (cases "a \<in> members p")
      case True
      show ?thesis using picker_remove_inv [OF Cons.prems(1) True] by simp
    next
      case False
      then show ?thesis using picker_remove_other [OF Cons.prems(1) False] Cons.prems by force
    qed
    then show ?thesis using Cons.IH [of "picker_remove p a" "cl @ [a]"] Cons.prems False by auto
  qed
qed simp

lemma fetchAllServices_ok:
  assumes I: "picker_inv p" and ord: "perm_of ord"
  shows "\<exists>p' cl. fetchAllServices hf r dial ord kvs p = (p', cl) \<and> picker_inv p' \<and> selfAddr p' = selfAddr p \<and>
    members p' = {a \<in> snapshot p kvs. a \<in> members p \<or> dial a}"
proof -
  obtain p1 cur where d: "discover hf r dial kvs p [] = (p1, cur)" by fastforce
  note D = discover_ok [OF I d]
  obtain p2 cl where st: "drop_stale cur (ord (map fst (clients p1))) p1 [] = (p2, cl)" by fastforce
  have set: "set (ord (map fst (clients p1))) = members p1" using ord by (simp add: perm_of_def members_def)
  have I1: "picker_inv p1" using D by blast
  have "selfAddr p1 \<notin> set (ord (map fst (clients p1)))" using I1 unfolding set by (simp add: picker_inv_def members_def)
  note S = drop_stale_ok [OF I1 this st]
  have "members p2 = {a \<in> snapshot p kvs. a \<in> members p \<or> dial a}"
    using S D unfolding set by auto
  then show ?thesis using d st S D by (auto simp: fetchAllServices_def)
qed

text \<open>The picker always answers: with this node or with a live client.\<close>

lemma PickPeer_ok:
  assumes I: "picker_inv p" and k: "key \<noteq> []"
  shows "\<exists>p' res. PickPeer hf p key = (p', res) \<and> picker_inv p' \<and> members p' = members p \<and>
    (if owner hf (consHash p) key = selfAddr p then res = (None, True, True)
     else res = (Some (owner hf (consHash p) key), True, False) \<and> owner hf (consHash p) key \<in> members p)"
proof -
  have R: "ring_inv (consHash p)" and C: "ring_core (consHash p)" using I by (simp_all add: picker_inv_def ring_inv_def)
  obtain h hs where "nodeHashes (consHash p) (selfAddr p) = Some (h # hs)" using I by (auto simp: picker_inv_def)
  then have "ringMap (consHash p) h = Some (selfAddr p)" using rc_owner [OF C] by auto
  then have "h \<in> set (keys (consHash p))" unfolding rc_dom [OF C] by blast
  then have ne: "keys (consHash p) \<noteq> []" by auto
  have o: "owner hf (consHash p) key \<in> insert (selfAddr p) (members p)"
    using ring_Get_owner(2) [OF R k ne, of hf] I by (simp add: picker_inv_def members_def)
  obtain m where m: "ring_Get hf (consHash p) key = (m, owner hf (consHash p) key)"
    by (metis owner_def prod.collapse)
  have f: "nodeHashes m = nodeHashes (consHash p)" "ring_inv m"
    using ring_Get_frame(3) [of hf "consHash p" key] ring_Get_inv [OF R, of hf key] m by simp_all
  have I': "picker_inv (p\<lparr>consHash := m\<rparr>)" "members (p\<lparr>consHash := m\<rparr>) = members p"
    using I f by (simp_all add: picker_inv_def members_def)
  have "owner hf (consHash p) key \<noteq> []"
    using ring_Get_owner(2) [OF R k ne, of hf] rc_name [OF C] by auto
  then show ?thesis
    using m I' o by (cases "owner hf (consHash p) key = selfAddr p") (auto simp: PickPeer_def member_iff)
qed

end
