(* ===== verification/Cache_Clock.thy ===== *)
theory Cache_Clock
  imports Prelude
begin

text \<open>
  The clock of \<open>swifty_cache/lru.go\<close>: a goroutine stores the time once a second and adds 100 ms in between, after each
  sleep of at least 100 ms; \<open>Now\<close> reads the stored value. Times are in nanoseconds. \<open>ck_slept\<close> is the real time since
  the current sleep began, and \<open>ck_phase\<close> the number of additions since the last store; 10 stands for the goroutine
  that has not run yet.
\<close>

record cached_clock =
  ck_clock :: int
  ck_real :: int
  ck_phase :: nat
  ck_slept :: int

definition tick :: int where
  "tick = 100000000"

definition init_clock :: "int \<Rightarrow> cached_clock" where
  "init_clock t = \<lparr>ck_clock = t, ck_real = t, ck_phase = 10, ck_slept = 0\<rparr>"

definition Now :: "cached_clock \<Rightarrow> int" where
  "Now s = ck_clock s"

datatype clock_label = CkPass nat | CkAdd | CkStore

fun clock_step :: "cached_clock \<Rightarrow> clock_label \<Rightarrow> cached_clock option" where
  "clock_step s (CkPass d) = Some (s\<lparr>ck_real := ck_real s + int d, ck_slept := ck_slept s + int d\<rparr>)"
| "clock_step s CkAdd =
    (if ck_phase s < 9 \<and> ck_slept s \<ge> tick
     then Some (s\<lparr>ck_clock := wrap64 (ck_clock s + tick), ck_phase := ck_phase s + 1, ck_slept := 0\<rparr>) else None)"
| "clock_step s CkStore =
    (if ck_phase s = 10 \<or> (ck_phase s = 9 \<and> ck_slept s \<ge> tick)
     then Some (s\<lparr>ck_clock := ck_real s, ck_phase := 0, ck_slept := 0\<rparr>) else None)"

text \<open>\<open>late\<close> bounds by how much a sleep is overslept; time ends where \<open>UnixNano\<close> does.\<close>

inductive clock_reach :: "int \<Rightarrow> cached_clock \<Rightarrow> bool" for late where
  ck_init: "0 \<le> t \<Longrightarrow> t < 2 ^ 63 \<Longrightarrow> clock_reach late (init_clock t)"
| ck_next: "clock_reach late s \<Longrightarrow> clock_step s l = Some s' \<Longrightarrow> ck_slept s' \<le> tick + late \<Longrightarrow> ck_real s' < 2 ^ 63 \<Longrightarrow> clock_reach late s'"

definition clock_inv :: "int \<Rightarrow> cached_clock \<Rightarrow> bool" where
  "clock_inv late s \<longleftrightarrow> 0 \<le> ck_clock s \<and> ck_real s < 2 ^ 63 \<and> 0 \<le> ck_slept s \<and> ck_slept s \<le> tick + late \<and>
    ck_clock s + ck_slept s \<le> ck_real s \<and>
    (if ck_phase s = 10 then ck_real s = ck_clock s + ck_slept s
     else ck_phase s \<le> 9 \<and> ck_real s \<le> ck_clock s + ck_slept s + int (ck_phase s) * late)"

lemma clock_add:
  assumes "clock_inv late s" "tick \<le> ck_slept s"
  shows "wrap64 (ck_clock s + tick) = ck_clock s + tick"
  using assms by (intro wrap64_id) (auto simp: clock_inv_def tick_def in_int64_def)

lemma clock_inv_step:
  assumes "clock_inv late s" "clock_step s l = Some s'" "ck_slept s' \<le> tick + late" "ck_real s' < 2 ^ 63" "0 \<le> late"
  shows "clock_inv late s' \<and> ck_clock s \<le> ck_clock s'"
proof (cases l)
  case (CkPass d)
  then show ?thesis using assms by (auto simp: clock_inv_def)
next
  case CkAdd
  then have "ck_phase s < 9" "tick \<le> ck_slept s" using assms(2) by (auto split: if_splits)
  then show ?thesis using assms CkAdd clock_add [OF assms(1)] by (auto simp: clock_inv_def tick_def algebra_simps)
next
  case CkStore
  then show ?thesis using assms by (auto simp: clock_inv_def tick_def split: if_splits)
qed

lemma clock_reach_inv: "clock_reach late s \<Longrightarrow> 0 \<le> late \<Longrightarrow> clock_inv late s"
proof (induction rule: clock_reach.induct)
  case (ck_init t)
  then show ?case by (simp add: clock_inv_def init_clock_def tick_def)
next
  case (ck_next s l s')
  then show ?case using clock_inv_step by blast
qed

lemma clock_rule:
  assumes "clock_reach late s" "0 \<le> late"
  shows "Now s \<le> ck_real s \<and> ck_real s \<le> Now s + tick + 10 * late \<and>
    (clock_step s l = Some s' \<and> clock_reach late s' \<longrightarrow> Now s \<le> Now s')"
proof -
  have I: "clock_inv late s" by (rule clock_reach_inv [OF assms])
  have "int (ck_phase s) * late \<le> 9 * late" if "ck_phase s \<le> 9"
    using that assms(2) by (intro mult_right_mono) auto
  then have b: "ck_clock s \<le> ck_real s" "ck_real s \<le> ck_clock s + tick + 10 * late"
    using I assms(2) by (auto simp: clock_inv_def split: if_splits)
  have "ck_clock s \<le> ck_clock s'" if "clock_step s l = Some s'" "clock_reach late s'"
  proof -
    have "clock_inv late s'" by (rule clock_reach_inv [OF that(2) assms(2)])
    then show ?thesis using clock_inv_step [OF I that(1) _ _ assms(2)] by (simp add: clock_inv_def)
  qed
  then show ?thesis using b by (simp add: Now_def)
qed

end
