(* ===== verification/Cache_Alias.thy ===== *)
theory Cache_Alias
  imports Prelude
begin

text \<open>
  Which slices of bytes are shared (\<open>byte_view.go\<close>, \<open>group.go\<close>): an explicit heap of byte arrays, where user code holds the
  addresses of some and may write to them at any time, also while goroutines of the cache run. The cached
  values are addresses too: \<open>Set\<close> and \<open>loadData\<close> store a clone, \<open>ByteSlice\<close> hands out a clone, and the field of a
  \<open>ByteView\<close> is not exported, so that user code never gets a cached address. The goroutine that tells the
  owner of the key about a \<open>Set\<close> is started with the slice of the caller. What else the operations do is in
  \<open>Cache_Group\<close>.
\<close>

record byte_heap =
  cells :: "nat \<Rightarrow> bytes"
  next_cell :: nat

definition new_cell :: "bytes \<Rightarrow> byte_heap \<Rightarrow> byte_heap \<times> nat" where
  "new_cell bs h = (h\<lparr>cells := (cells h)(next_cell h := bs), next_cell := next_cell h + 1\<rparr>, next_cell h)"

definition cloneBytes :: "nat \<Rightarrow> byte_heap \<Rightarrow> byte_heap \<times> nat" where
  "cloneBytes a h = new_cell (cells h a) h"

datatype view = View nat

fun view_Len :: "view \<Rightarrow> byte_heap \<Rightarrow> nat" where
  "view_Len (View a) h = length (cells h a)"

fun view_ByteSlice :: "view \<Rightarrow> byte_heap \<Rightarrow> byte_heap \<times> nat" where
  "view_ByteSlice (View a) h = cloneBytes a h"

fun view_String :: "view \<Rightarrow> byte_heap \<Rightarrow> bytes" where
  "view_String (View a) h = cells h a"

text \<open>\<open>syncs\<close> are the goroutines that have not sent yet; \<open>owner_has\<close> is what the owner got; \<open>put_as\<close> is for the
  statements: what each key was set to when it was set.\<close>

record alias_state =
  heap :: byte_heap
  held :: "nat set"
  cached :: "string \<Rightarrow> view option"
  syncs :: "(string \<times> nat) list"
  owner_has :: "string \<Rightarrow> bytes option"
  put_as :: "string \<Rightarrow> bytes option"

definition alias_init :: alias_state where
  "alias_init = \<lparr>heap = \<lparr>cells = (\<lambda>_. []), next_cell = 0\<rparr>, held = {}, cached = Map.empty, syncs = [], owner_has = Map.empty,
     put_as = Map.empty\<rparr>"

datatype alias_op = UserNew bytes | UserWrite nat nat byte | OpSet string nat | OpLoad string nat | OpByteSlice string
  | OpRemove string | OpSend

definition store_clone :: "string \<Rightarrow> nat \<Rightarrow> alias_state \<Rightarrow> alias_state" where
  "store_clone key a s = (let (h, b) = cloneBytes a (heap s) in
     s\<lparr>heap := h, cached := (cached s)(key \<mapsto> View b), put_as := (put_as s)(key \<mapsto> cells (heap s) a)\<rparr>)"

fun alias_step :: "alias_state \<Rightarrow> alias_op \<Rightarrow> alias_state option" where
  "alias_step s (UserNew bs) = (let (h, a) = new_cell bs (heap s) in Some (s\<lparr>heap := h, held := insert a (held s)\<rparr>))"
| "alias_step s (UserWrite a i x) =
    (if a \<in> held s then Some (s\<lparr>heap := (heap s)\<lparr>cells := (cells (heap s))(a := (cells (heap s) a)[i := x])\<rparr>\<rparr>) else None)"
| "alias_step s (OpSet key a) =
    (if a \<in> held s then let s = store_clone key a s in Some (s\<lparr>syncs := syncs s @ [(key, a)]\<rparr>) else None)"
| "alias_step s (OpLoad key a) = (if a \<in> held s then Some (store_clone key a s) else None)"
| "alias_step s (OpByteSlice key) = (case cached s key of
      None \<Rightarrow> None
    | Some v \<Rightarrow> let (h, a) = view_ByteSlice v (heap s) in Some (s\<lparr>heap := h, held := insert a (held s)\<rparr>))"
| "alias_step s (OpRemove key) = Some (s\<lparr>cached := (cached s)(key := None), put_as := (put_as s)(key := None)\<rparr>)"
| "alias_step s OpSend = (case syncs s of
      [] \<Rightarrow> None
    | (key, a) # rest \<Rightarrow> Some (s\<lparr>syncs := rest, owner_has := (owner_has s)(key \<mapsto> cells (heap s) a)\<rparr>))"

fun alias_run :: "alias_state \<Rightarrow> alias_op list \<Rightarrow> alias_state option" where
  "alias_run s [] = Some s"
| "alias_run s (x # xs) = (case alias_step s x of None \<Rightarrow> None | Some s' \<Rightarrow> alias_run s' xs)"

subsection \<open>Isolation\<close>

text \<open>Cached cells are live, are not held by user code and have the bytes that were put.\<close>

fun cell_ok :: "byte_heap \<Rightarrow> nat set \<Rightarrow> bytes option \<Rightarrow> view option \<Rightarrow> bool" where
  "cell_ok h H p None \<longleftrightarrow> p = None"
| "cell_ok h H p (Some (View b)) \<longleftrightarrow> b < next_cell h \<and> b \<notin> H \<and> p = Some (cells h b)"

definition alias_inv :: "alias_state \<Rightarrow> bool" where
  "alias_inv s \<longleftrightarrow> (\<forall>a \<in> held s. a < next_cell (heap s)) \<and> (\<forall>k. cell_ok (heap s) (held s) (put_as s k) (cached s k))"

lemma cell_ok_cases: "(v = None \<Longrightarrow> P) \<Longrightarrow> (\<And>b. v = Some (View b) \<Longrightarrow> P) \<Longrightarrow> P"
  by (metis option.exhaust view.exhaust)

lemma cell_ok_new:
  "cell_ok h H p v \<Longrightarrow> cell_ok (fst (new_cell bs h)) H p v"
  "cell_ok h H p v \<Longrightarrow> cell_ok (fst (new_cell bs h)) (insert (snd (new_cell bs h)) H) p v"
  by (cases rule: cell_ok_cases [of v]; simp add: new_cell_def)+

lemma cell_ok_write: "cell_ok h H p v \<Longrightarrow> a \<in> H \<Longrightarrow> cell_ok (h\<lparr>cells := (cells h)(a := bs)\<rparr>) H p v"
  by (cases rule: cell_ok_cases [of v]) auto

lemma alias_inv_new: "alias_inv s \<Longrightarrow> alias_inv (s\<lparr>heap := fst (new_cell bs (heap s)), held := insert (snd (new_cell bs (heap s))) (held s)\<rparr>)"
  by (auto simp: alias_inv_def cell_ok_new) (auto simp: new_cell_def intro: less_SucI)

lemma store_clone_inv:
  assumes I: "alias_inv s"
  shows "alias_inv (store_clone key a s)"
proof -
  let ?h = "fst (new_cell (cells (heap s) a) (heap s))" and ?b = "snd (new_cell (cells (heap s) a) (heap s))"
  have s: "store_clone key a s =
      s\<lparr>heap := ?h, cached := (cached s)(key \<mapsto> View ?b), put_as := (put_as s)(key \<mapsto> cells (heap s) a)\<rparr>"
    by (simp add: store_clone_def cloneBytes_def Let_def split: prod.split)
  have "cell_ok ?h (held s) (Some (cells (heap s) a)) (Some (View ?b))" using I by (auto simp: alias_inv_def new_cell_def)
  moreover have "\<forall>c \<in> held s. c < next_cell ?h" using I by (auto simp: alias_inv_def new_cell_def intro: less_SucI)
  ultimately show ?thesis unfolding s using I by (simp add: alias_inv_def cell_ok_new)
qed

lemma alias_inv_step: "alias_inv s \<Longrightarrow> alias_step s x = Some s' \<Longrightarrow> alias_inv s'"
proof (cases x)
  case (UserNew bs)
  assume "alias_inv s" "alias_step s x = Some s'"
  then show ?thesis using UserNew alias_inv_new [of s bs] by (simp add: Let_def split: prod.splits)
next
  case (UserWrite a i y)
  assume "alias_inv s" "alias_step s x = Some s'"
  then show ?thesis using UserWrite by (auto simp: alias_inv_def cell_ok_write split: if_splits)
next
  case (OpSet key a)
  assume "alias_inv s" "alias_step s x = Some s'"
  then show ?thesis using OpSet store_clone_inv [of s key a] by (auto simp: alias_inv_def Let_def split: if_splits)
next
  case (OpLoad key a)
  assume "alias_inv s" "alias_step s x = Some s'"
  then show ?thesis using OpLoad store_clone_inv [of s key a] by (auto split: if_splits)
next
  case (OpByteSlice key)
  assume I: "alias_inv s" and st: "alias_step s x = Some s'"
  then obtain b where "cached s key = Some (View b)" using OpByteSlice by (auto split: option.splits) (metis view.exhaust)
  then show ?thesis using I st OpByteSlice alias_inv_new [of s "cells (heap s) b"]
    by (simp add: cloneBytes_def Let_def split: prod.splits)
qed (auto simp: alias_inv_def split: list.splits)

lemma alias_inv_run: "alias_inv s \<Longrightarrow> alias_run s xs = Some s' \<Longrightarrow> alias_inv s'"
  by (induction xs arbitrary: s) (auto split: option.splits dest: alias_inv_step)

lemma alias_inv_init: "alias_inv alias_init"
  by (simp add: alias_inv_def alias_init_def)

lemma isolation_rule:
  assumes "alias_run alias_init xs = Some s"
  shows "map_option (\<lambda>v. view_String v (heap s)) (cached s key) = put_as s key \<and>
    (cached s key = Some v \<longrightarrow> view_Len v (heap s) = length (the (put_as s key)) \<and>
      (case view_ByteSlice v (heap s) of (h, a) \<Rightarrow> cells h a = the (put_as s key) \<and> (\<forall>k. cached s k \<noteq> Some (View a))))"
proof -
  have I: "alias_inv s" by (rule alias_inv_run [OF alias_inv_init assms])
  then have C: "cell_ok (heap s) (held s) (put_as s k) (cached s k)" for k by (simp add: alias_inv_def)
  have "cached s k \<noteq> Some (View (next_cell (heap s)))" for k using C [of k] by auto
  then show ?thesis using C [of key]
    by (cases rule: cell_ok_cases [of "cached s key"]) (auto simp: cloneBytes_def new_cell_def)
qed

text \<open>The value that reaches the owner is read when the goroutine sends: a caller that reuses its buffer after \<open>Set\<close> has
  returned makes the owner store other bytes than those it set.\<close>

lemma sync_sees_later_write:
  "\<exists>s. alias_run alias_init [UserNew [1], OpSet ''k'' 0, UserWrite 0 0 9, OpSend] = Some s \<and>
    put_as s ''k'' = Some [1] \<and> map_option (\<lambda>v. view_String v (heap s)) (cached s ''k'') = Some [1] \<and> owner_has s ''k'' = Some [9]"
  by (simp add: alias_init_def new_cell_def cloneBytes_def store_clone_def Let_def)

end
