(* ===== verification/Cache_Properties.thy ===== *)
theory Cache_Properties
  imports Cache_Group_Correct Single_Flight Peers Cache_Clock Cache_Alias
begin

text \<open>The properties of \<open>swifty_cache\<close>, each with an instance where its hypotheses hold.\<close>

text \<open>C1. Every run of the cache over the LRU store is one that an unbounded map with expiry times
  accepts: no operation panics, a hit is the last value added under the key and not expired, and
  nothing comes back after Delete, Clear or Close.\<close>

theorem cache_run_accepted:
  assumes "cache_wf (store_inv bv_len) good_options c" "cache_contents store_view c \<subseteq>\<^sub>m m"
    and "perm_of ord" "list_all op_time_ok ops"
  shows "\<exists>c' rs. cache_run lru_methods ord c ops = Some (c', rs) \<and>
    cache_wf (store_inv bv_len) good_options c' \<and> ideal_accepts m ops rs"
  using assms by (rule lru.run_ok)

theorem cache_run_accepted_witness:
  "\<exists>c' rs. cache_run lru_methods (\<lambda>ks. ks) (NewCache DefaultCacheOptions)
      [(1, OpAdd ''k'' [7]), (2, OpAddExp 0 ''l'' [8] 5), (3, OpGet ''k''), (4, OpDelete ''k''), (5, OpGet ''k'')] = Some (c', rs) \<and>
    cache_wf (store_inv bv_len) good_options c' \<and>
    ideal_accepts Map.empty [(1, OpAdd ''k'' [7]), (2, OpAddExp 0 ''l'' [8] 5), (3, OpGet ''k''), (4, OpDelete ''k''), (5, OpGet ''k'')] rs"
proof (rule cache_run_accepted)
  have g: "good_options DefaultCacheOptions" by (simp add: good_options_def DefaultCacheOptions_def)
  show "cache_wf (store_inv bv_len) good_options (NewCache DefaultCacheOptions :: bytes lruStore Cache)"
    using g by (rule lru.wf_new)
  show "cache_contents store_view (NewCache DefaultCacheOptions) \<subseteq>\<^sub>m Map.empty"
    by (simp add: lru.wf_new(2))
qed (simp_all add: perm_of_def time_Until_def maxInt64_def)

definition small_options :: StoreOptions where
  "small_options = \<lparr>oMaxBytes = 0, oBucketCount = 1, oCapPerBucket = 2, oLevel2Cap = 1, oOnEvicted = False\<rparr>"

text \<open>C2. The linked slot array with its hash index behaves as a plain list in order of use: a put
  moves the entry to the front, and drops the last entry exactly when a new key meets a full list;
  the eviction callback and counter record that.\<close>

theorem slot_cache_put:
  assumes "rep vlen c es" "ex > 0" "0 < length (slots c)"
  shows "\<exists>c' r. put vlen cb c k v ex = Some (c', r, evicted_calls cb (snd (lru_put (length (slots c)) (k, v, ex) es)))
    \<and> rep vlen c' (fst (lru_put (length (slots c)) (k, v, ex) es)) \<and> length (slots c') = length (slots c)
    \<and> nevict c' = nevict c + int (length (snd (lru_put (length (slots c)) (k, v, ex) es)))"
  using assms by (rule put_rep)

theorem slot_cache_put_witness:
  "\<exists>c' r. put bv_len True (Create 2) ''k'' (Some [7]) 5 = Some (c', r, []) \<and> rep bv_len c' [(''k'', Some [7], 5)]"
proof -
  have R: "rep bv_len (Create 2) []" "length (slots (Create 2 :: bytes cache)) = 2"
    using Create_rep(1) [of 2 bv_len] Create_rep(2) [of 2] by simp_all
  show ?thesis using slot_cache_put [OF R(1), of 5 True "''k''" "Some [7]"] R(2)
    by (auto simp: lru_put_def evicted_calls_def fired_def lru_remove_def)
qed

text \<open>C25. A write to the two level store keeps its invariant, adds at most its own entry, and leaves the
  bucket within its byte budget.\<close>

theorem store_set_budget:
  assumes "store_inv vlen s" "expiryOf now d > 0" "\<And>v. vlen v \<ge> 0"
  shows "\<exists>s' calls. store_SetWithExpiration vlen s now k v d = Some (s', calls) \<and> store_inv vlen s' \<and>
    store_view s' \<subseteq>\<^sub>m (store_view s)(k \<mapsto> (v, expiryOf now d)) \<and>
    (maxBucketBytes s > 0 \<longrightarrow> bucket_bytes s' k \<le> maxBucketBytes s) \<and>
    (maxBucketBytes s \<le> 0 \<or> entryBytes vlen k v + level2_bytes s k \<le> maxBucketBytes s
      \<longrightarrow> store_view s' k = Some (v, expiryOf now d))"
  using assms by (rule store_Set_rep)

theorem store_set_budget_witness:
  "\<exists>s s' calls. NewStore NewStoreOptions = Some s \<and> store_SetWithExpiration bv_len s 1 ''k'' (Some [7]) 4 = Some (s', calls) \<and>
    store_inv bv_len s' \<and> store_view s' \<subseteq>\<^sub>m [''k'' \<mapsto> (Some [7], 5)]"
proof -
  have g: "good_options NewStoreOptions" by (simp add: good_options_def NewStoreOptions_def)
  obtain s where s: "NewStore NewStoreOptions = Some s" "store_inv bv_len s" "store_view s = Map.empty"
    using NewStore_rep [OF g, where vlen = bv_len] by blast
  have e: "expiryOf 1 4 = 5" by (simp add: expiryOf_def wrap64_def)
  show ?thesis
    using store_set_budget [OF s(2), of 1 4 "''k''" "Some [7]"] s(1,3) unfolding e by auto
qed

text \<open>A read of the store returns the unexpired value of the key from whichever level holds it,
  forgets the entry when it is expired, and keeps every other fact about the contents.\<close>

theorem store_get_fresh:
  assumes "store_inv vlen s"
  shows "\<exists>s' calls. store_Get vlen s now k = Some (s', fresh_value now (store_view s k), calls) \<and>
    store_inv vlen s' \<and> store_view s' \<subseteq>\<^sub>m store_view s \<and>
    store_view s' k = (case store_view s k of Some (v, e) \<Rightarrow> if now \<ge> e then None else Some (v, e) | None \<Rightarrow> None)"
  using assms by (rule store_Get_rep)

theorem store_get_fresh_witness:
  "\<exists>s s' calls. NewStore small_options = Some s \<and> store_Get bv_len s 1 ''k'' = Some (s', None, calls) \<and> store_view s' ''k'' = None"
proof -
  have g: "good_options small_options" by (simp add: good_options_def small_options_def)
  obtain s where s: "NewStore small_options = Some s" "store_inv bv_len s" "store_view s = Map.empty"
    using NewStore_rep [OF g, where vlen = bv_len] by blast
  show ?thesis using store_get_fresh [OF s(2), of 1 "''k''"] s(1,3) by (auto simp: fresh_value_def)
qed

subsection \<open>Groups\<close>

text \<open>C3. Group.Get returns the unexpired cached value, else the value fetched from the owning peer, else
  (also when the peer fails) the loader's, with the loader's error or panic as an error; it caches at
  most what it fetched, under the expiry time of the group, and keeps the statistics balanced.\<close>

theorem group_get:
  assumes "group_wf (store_inv bv_len) good_options g" "env_ok ev g"
  shows "\<exists>g'. Group_Get lru_methods ev g key = Some (g', get_result (group_contents store_view g) ev g key) \<and>
    group_wf (store_inv bv_len) good_options g' \<and>
    (\<forall>k r. group_contents store_view g' k = Some r \<longrightarrow> group_contents store_view g k = Some r \<or>
       (k = key \<and> (\<exists>v. fetch ev g key = Ret v \<and> r = (Some v, value_expiry ev g)))) \<and>
    (stats_ok (stats g) \<longrightarrow> stats_ok (stats g'))"
  using assms by (rule lru.group_get_ok)

definition demo_env :: "bool \<Rightarrow> env" where
  "demo_env forwarded = \<lparr>getter = (\<lambda>k. if k = ''bad'' then Err ''no'' else Ret [1]), peer_get = (\<lambda>p g k. if k = ''r'' then Inr [2] else Inl ''down''),
     clock = 10, wall = 10, wall_later = 11, isPeerRequest = forwarded, took = 5\<rparr>"

definition demo_picker :: picker where
  "demo_picker k = (Some ''peer'', True, False)"

definition demo_group :: "bytes lruStore Group" where
  "demo_group = NewGroup ''g'' small_options 100 (Some demo_picker)"

lemma demo_group_wf: "group_wf (store_inv bv_len) good_options demo_group" "env_ok (demo_env b) demo_group"
  by (simp_all add: group_wf_def demo_group_def NewGroup_def NewCache_def cache_wf_def good_options_def small_options_def
    env_ok_def demo_env_def time_Until_def maxInt64_def)

theorem group_get_witness:
  "\<exists>g'. Group_Get lru_methods (demo_env False) demo_group ''r'' = Some (g', Inr [2]) \<and> stats_ok (stats g')"
proof -
  have "get_result (group_contents store_view demo_group) (demo_env False) demo_group ''r'' = Inr [2]"
    "stats_ok (stats demo_group)"
    by (simp_all add: get_result_def unexpired_def group_contents_def cache_contents_def demo_group_def NewGroup_def NewCache_def
      fetch_def demo_env_def demo_picker_def stats_ok_def load_balance_def zero_stats_def)
  then show ?thesis using group_get [OF demo_group_wf, of False "''r''"] by auto
qed

text \<open>Group.Set rejects closed groups, empty keys and empty values in that order, stores the value
  otherwise, and then asks exactly the owning peer to store it, unless a peer sent the request.\<close>

theorem group_set:
  assumes "group_wf (store_inv bv_len) good_options g" "env_ok ev g"
  shows "\<exists>g' err msgs. Group_Set lru_methods ev g key v = Some (g', err, msgs) \<and>
    group_wf (store_inv bv_len) good_options g' \<and> stats g' = stats g \<and>
    err = (if gclosed g then Some ErrGroupClosed else if key = [] then Some ErrKeyRequired
           else if v = [] then Some ErrValueRequired else None) \<and>
    msgs = (if err = None then sync_unless_forwarded ev g key (SyncSet v) else []) \<and>
    (\<forall>k r. group_contents store_view g' k = Some r \<longrightarrow>
      group_contents store_view g k = Some r \<or> (k = key \<and> r = (Some v, value_expiry ev g)))"
  using assms by (rule lru.group_set_ok)

theorem group_set_witness:
  "\<exists>g'. Group_Set lru_methods (demo_env False) demo_group ''k'' [3] = Some (g', None, [(''peer'', ''g'', ''k'', SyncSet [3])])"
  using group_set [OF demo_group_wf, of False "''k''" "[3]"]
  by (auto simp: demo_group_def NewGroup_def sync_unless_forwarded_def demo_env_def syncToPeers_def demo_picker_def)

text \<open>The registry holds exactly the open groups, each under its own name; creating, closing and
  destroying groups one after the other keeps it so, and DestroyAllGroups leaves no group open.\<close>

theorem registry_open_groups:
  assumes "reg_inv r"
  shows "(\<forall>r' p. reg_NewGroup r name opts ttl ps = Some (r', p) \<longrightarrow> reg_inv r' \<and> GetGroup r' name = Some p) \<and>
    (\<forall>p < length (objs r). reg_inv (reg_Close r p)) \<and>
    reg_inv (fst (DestroyGroup r name)) \<and> GetGroup (fst (DestroyGroup r name)) name = None \<and>
    (dom (groups r) \<subseteq> set names \<longrightarrow> reg_inv (DestroyAllGroups names r) \<and> (\<forall>g \<in> set (objs (DestroyAllGroups names r)). gclosed g))"
  using reg_NewGroup_inv [OF assms] reg_Close_inv [OF assms] DestroyGroup_inv(1,2) [OF assms] DestroyAllGroups_inv(2,3) [OF assms]
  by blast

theorem registry_open_groups_witness:
  "reg_inv (fst (DestroyGroup \<lparr>groups = [''g'' \<mapsto> 0], objs = [demo_group]\<rparr> ''g''))"
proof -
  have "reg_inv \<lparr>groups = [''g'' \<mapsto> 0], objs = [demo_group]\<rparr>" by (simp add: reg_inv_def demo_group_def)
  from registry_open_groups [OF this, of "''g''"] show ?thesis by blast
qed

text \<open>Because DestroyGroup releases the lock before it closes the group, a group of the same name that
  is created in between loses its registration and stays open.\<close>

theorem destroy_group_race:
  assumes "reg_inv r" "groups r name = Some p"
  shows "\<exists>r2 q. reg_NewGroup (fst (DestroyGroup_remove r name)) name opts ttl ps = Some (r2, q) \<and>
    GetGroup (reg_Close r2 p) name = None \<and> \<not> gclosed (objs (reg_Close r2 p) ! q)"
  using assms by (rule destroy_interleaving)

theorem destroy_group_race_witness:
  "\<exists>r2 q. reg_NewGroup (fst (DestroyGroup_remove \<lparr>groups = [''g'' \<mapsto> 0], objs = [demo_group]\<rparr> ''g'')) ''g'' small_options 0 None = Some (r2, q) \<and>
    GetGroup (reg_Close r2 0) ''g'' = None \<and> \<not> gclosed (objs (reg_Close r2 0) ! q)"
proof (rule destroy_group_race)
  show "reg_inv \<lparr>groups = [''g'' \<mapsto> 0], objs = [demo_group]\<rparr>" by (simp add: reg_inv_def demo_group_def)
qed simp


subsection \<open>Expiry in real time\<close>





subsection \<open>Shared slices\<close>

text \<open>C22. What is cached cannot be changed from outside: whatever slices user code holds, got from the cache or handed to
  \<open>Set\<close> and to the cache by its loader, and whatever it writes to them and when, every cached value keeps the
  bytes that it had when it was set or loaded, and \<open>ByteSlice\<close> hands out these bytes in a cell that is not cached.\<close>

theorem cached_values_isolated:
  assumes "alias_run alias_init xs = Some s"
  shows "map_option (\<lambda>v. view_String v (heap s)) (cached s key) = put_as s key \<and>
    (cached s key = Some v \<longrightarrow> view_Len v (heap s) = length (the (put_as s key)) \<and>
      (case view_ByteSlice v (heap s) of (h, a) \<Rightarrow> cells h a = the (put_as s key) \<and> (\<forall>k. cached s k \<noteq> Some (View a))))"
  by (rule isolation_rule [OF assms])

theorem cached_values_isolated_witness:
  "\<exists>s. alias_run alias_init [UserNew [1, 2], OpSet ''k'' 0, UserWrite 0 0 9, OpByteSlice ''k'', UserWrite 2 1 7] = Some s \<and>
    cells (heap s) 0 = [9, 2] \<and> cells (heap s) 2 = [1, 7] \<and>
    map_option (\<lambda>v. view_String v (heap s)) (cached s ''k'') = Some [1, 2]"
proof -
  obtain s where s: "alias_run alias_init [UserNew [1, 2], OpSet ''k'' 0, UserWrite 0 0 9, OpByteSlice ''k'', UserWrite 2 1 7] = Some s"
    "cells (heap s) 0 = [9, 2]" "cells (heap s) 2 = [1, 7]" "put_as s ''k'' = Some [1, 2]"
    by (simp add: alias_init_def new_cell_def cloneBytes_def store_clone_def Let_def)
  then show ?thesis using cached_values_isolated [OF s(1), of "''k''"] by auto
qed

end
