(* ===== verification/Cluster_Properties.thy ===== *)
theory Cluster_Properties
  imports Single_Flight Peers
begin

text \<open>The properties of \<open>swifty_cache\<close> that concern several goroutines and several nodes.\<close>

text \<open>C9. Single flight: at any moment at most one goroutine runs the function for a call, and all
  goroutines that return from the same call return the same result.\<close>

theorem single_flight_agreement:
  assumes "sf_reach s"
  shows "(\<forall>t t' key c c'. pcs s t = Leading key c \<longrightarrow> pcs s t' = Leading key c' \<longrightarrow> t = t' \<and> c = c') \<and>
    (\<forall>t t' c r r'. pcs s t = Returned c r \<longrightarrow> pcs s t' = Returned c r' \<longrightarrow> r = r')"
  using sf_one_leader [OF assms] sf_agree [OF assms] by blast

definition sf_demo :: "nat sf_label list" where
  "sf_demo = [Start 0 ''k'', Start 1 ''k'', FnReturns 0 (Ret 7), DeleteKey 0, Wake 1]"

lemma sf_demo_steps:
  "\<exists>s. sf_steps sf_init sf_demo = Some s \<and> pcs s 0 = Returned 0 (Inr 7) \<and> pcs s 1 = Returned 0 (Inr 7)"
  by (simp add: sf_demo_def sf_init_def)

theorem single_flight_agreement_witness:
  "\<exists>s. sf_steps sf_init sf_demo = Some s \<and> pcs s 0 = Returned 0 (Inr 7) \<and>
    (\<forall>t r. pcs s t = Returned 0 r \<longrightarrow> r = Inr 7)"
proof -
  obtain s where s: "sf_steps sf_init sf_demo = Some s" "pcs s 0 = Returned 0 (Inr 7)" using sf_demo_steps by blast
  have "sf_reach s" using sf_reach_steps [OF sf_reach.init s(1)] .
  from single_flight_agreement [OF this] have "\<forall>t r. pcs s t = Returned 0 r \<longrightarrow> r = Inr 7" using s(2) by blast
  then show ?thesis using s by blast
qed

text \<open>C28. A goroutine that waits in Do can return at once, or the goroutine it waits for is running the
  function, and whatever that ends with (a value, an error, a panic) lets the waiter return it.\<close>

theorem single_flight_no_stuck_waiter:
  assumes "sf_reach s" "pcs s t = Waiting c"
  shows "(\<exists>s' r. sf_step s (Wake t) = Some s' \<and> pcs s' t = Returned c r) \<or>
    (\<exists>u key. pcs s u = Leading key c \<and>
      (\<forall>out. \<exists>s1 s2. sf_step s (FnReturns u out) = Some s1 \<and> sf_step s1 (Wake t) = Some s2 \<and>
        pcs s2 t = Returned c (sf_Do out)))"
  using assms by (rule sf_waiter_progress)

theorem single_flight_no_stuck_waiter_witness:
  "\<exists>s. sf_steps sf_init [Start 0 ''k'', Start 1 ''k''] = Some (s :: nat sflight) \<and>
    ((\<exists>s' r. sf_step s (Wake 1) = Some s' \<and> pcs s' 1 = Returned 0 r) \<or>
    (\<exists>u key. pcs s u = Leading key 0 \<and>
      (\<forall>out. \<exists>s1 s2. sf_step s (FnReturns u out) = Some s1 \<and> sf_step s1 (Wake 1) = Some s2 \<and>
        pcs s2 1 = Returned 0 (sf_Do out))))"
proof -
  obtain s :: "nat sflight" where s: "sf_steps sf_init [Start 0 ''k'', Start 1 ''k''] = Some s" "pcs s 1 = Waiting 0"
    by (simp add: sf_init_def)
  have "sf_reach s" using sf_reach_steps [OF sf_reach.init s(1)] .
  from single_flight_no_stuck_waiter [OF this s(2)] s(1) show ?thesis by blast
qed

subsection \<open>The ring\<close>

text \<open>Adding a node moves keys only to the new node.\<close>

theorem ring_add_moves_to_new:
  assumes "ring_inv m" "node \<noteq> []" "keys m \<noteq> []" "key \<noteq> []" "ring_Add hf r m [node] = Some m'"
  shows "owner hf m' key = owner hf m key \<or> owner hf m' key = node"
  using assms by (rule owner_after_Add)

text \<open>Rings with one position for each node, at its first byte.\<close>

definition demo_hash :: "string \<Rightarrow> 32 word" where
  "demo_hash s = (if s = [] then 0 else of_char (hd s))"

definition demo_ring :: "string list \<Rightarrow> ConsistentHashMap" where
  "demo_ring nodes = (case ring_Add demo_hash 1 NewConsistentHash nodes of Some m \<Rightarrow> m | None \<Rightarrow> NewConsistentHash)"

lemma demo_position: "n \<noteq> [] \<Longrightarrow> demo_hash (vnode n i) = of_char (hd n)"
  by (simp add: demo_hash_def vnode_def)

lemma demo_add: "nodes \<noteq> [] \<Longrightarrow> ring_Add demo_hash 1 NewConsistentHash nodes = Some (demo_ring nodes)"
  by (simp add: demo_ring_def ring_Add_def Let_def)

lemma demo_inv: "ring_inv (demo_ring nodes)"
  using ring_Add_inv [OF ring_inv_new] ring_inv_new by (auto simp: demo_ring_def split: option.split)

lemma demo_keys: "keys (demo_ring [''a'', ''b'']) = [97, 98]" "keys (demo_ring [''b'', ''a'']) = [97, 98]"
  by (simp_all add: demo_ring_def ring_Add_def NewConsistentHash_def addNodeLocked_def demo_position)

lemma demo_collision_free: "collision_free demo_hash 1 {''a'', ''b''}"
  by (auto simp: collision_free_def positions_def demo_position)

lemma demo_ring_full:
  assumes "nodes \<noteq> []" "set nodes = {''a'', ''b''}"
  shows "ring_full demo_hash 1 (demo_ring nodes)" "dom (nodeHashes (demo_ring nodes)) = {''a'', ''b''}"
proof -
  have n: "ring_full demo_hash 1 NewConsistentHash" "dom (nodeHashes NewConsistentHash) = {}"
    by (simp_all add: ring_full_def NewConsistentHash_def)
  have cf: "collision_free demo_hash 1 (set nodes \<union> dom (nodeHashes NewConsistentHash))"
    using demo_collision_free assms(2) n(2) by simp
  show "ring_full demo_hash 1 (demo_ring nodes)" "dom (nodeHashes (demo_ring nodes)) = {''a'', ''b''}"
    using ring_Add_full [OF ring_inv_new n(1) cf demo_add [OF assms(1)]] assms(2) n(2) by auto
qed

theorem ring_add_moves_to_new_witness:
  "\<exists>m'. ring_Add demo_hash 1 (demo_ring [''a'', ''b'']) [''c''] = Some m' \<and>
    (owner demo_hash m' ''key'' = owner demo_hash (demo_ring [''a'', ''b'']) ''key'' \<or> owner demo_hash m' ''key'' = ''c'')"
proof -
  obtain m' where m': "ring_Add demo_hash 1 (demo_ring [''a'', ''b'']) [''c''] = Some m'" by (simp add: ring_Add_def Let_def)
  have "keys (demo_ring [''a'', ''b'']) \<noteq> []" by (simp add: demo_keys)
  from ring_add_moves_to_new [OF demo_inv _ this _ m', of "''key''"] m' show ?thesis by auto
qed

text \<open>C27. Removing a node moves only the keys that it owned.\<close>

theorem ring_remove_keeps_others:
  assumes "ring_inv m" "key \<noteq> []" "ring_Remove m node = Some m'" "owner hf m key \<noteq> node"
  shows "owner hf m' key = owner hf m key"
  using assms by (rule owner_after_Remove)

theorem ring_remove_keeps_others_witness:
  "\<exists>m'. ring_Remove (demo_ring [''a'', ''b'']) ''c'' = None \<and> ring_Remove (demo_ring [''a'', ''b'']) ''b'' = Some m' \<and>
    owner demo_hash m' ''Key'' = owner demo_hash (demo_ring [''a'', ''b'']) ''Key''"
proof -
  have d: "dom (nodeHashes (demo_ring [''a'', ''b''])) = {''a'', ''b''}" by (rule demo_ring_full) auto
  have "nodeHashes (demo_ring [''a'', ''b'']) ''b'' \<noteq> None" "nodeHashes (demo_ring [''a'', ''b'']) ''c'' = None"
    using d domIff [of "''b''" "nodeHashes (demo_ring [''a'', ''b''])"] domIff [of "''c''" "nodeHashes (demo_ring [''a'', ''b''])"]
    by simp_all
  then obtain m' where m': "ring_Remove (demo_ring [''a'', ''b'']) ''b'' = Some m'"
      "ring_Remove (demo_ring [''a'', ''b'']) ''c'' = None"
    by (auto simp: ring_Remove_def removeNodeLocked_def)
  have "ringMap (demo_ring [''a'', ''b'']) 97 = Some ''a''"
    by (simp add: demo_ring_def ring_Add_def NewConsistentHash_def addNodeLocked_def demo_position)
  moreover have "{k \<in> {97, 98 :: int}. 75 \<le> k} = {97, 98}" by auto
  then have "successor {97, 98} 75 = 97" by (simp add: successor_def)
  moreover have "uint (demo_hash ''Key'') = 75" by (simp add: demo_hash_def)
  ultimately have "owner demo_hash (demo_ring [''a'', ''b'']) ''Key'' = ''a''"
    using ring_Get_owner(1) [OF demo_inv, of "''Key''" "[''a'', ''b'']" demo_hash] by (simp add: demo_keys)
  then have "owner demo_hash (demo_ring [''a'', ''b'']) ''Key'' \<noteq> ''b''" by simp
  from ring_remove_keeps_others [OF demo_inv _ m'(1) this] m' show ?thesis by auto
qed



subsection \<open>Peers\<close>

text \<open>The picker follows the registry: after a batch of watch events its members are those that the
  events leave, after a full fetch those of the snapshot that can be dialled or were known; ring and
  client table stay in step.\<close>

theorem picker_follows_registry:
  assumes "picker_inv p" "perm_of ord" "handleWatchEvents hf r dial evs p [] = (p1, closed1)"
    and "fetchAllServices hf r dial ord kvs p = (p2, closed2)"
  shows "picker_inv p1 \<and> members p1 = members_after dial (selfAddr p) (map (\<lambda>(ty, k). (ty, addrFromEventKey p k)) evs) (members p) \<and>
    picker_inv p2 \<and> members p2 = {a \<in> snapshot p kvs. a \<in> members p \<or> dial a}"
  using handleWatchEvents_ok [OF assms(1,3)] fetchAllServices_ok [OF assms(1,2), of hf r dial kvs] assms(4) by auto

definition demo_picker :: ClientPicker where
  "demo_picker = NewClientPicker demo_hash 1 ''a:1'' ''s''"

theorem picker_follows_registry_witness:
  "\<exists>p1 cl1 p2 cl2. handleWatchEvents demo_hash 1 (\<lambda>a. True) [(EventTypePut, ''/services/s/b:1'')] demo_picker [] = (p1, cl1) \<and>
    fetchAllServices demo_hash 1 (\<lambda>a. True) (\<lambda>ks. ks) [''/services/s/b:1''] demo_picker = (p2, cl2) \<and>
    members p1 = {''b:1''} \<and> members p2 = {''b:1''} \<and> picker_inv p1 \<and> picker_inv p2"
proof -
  have I: "picker_inv demo_picker" unfolding demo_picker_def by (rule picker_new) auto
  have f: "selfAddr demo_picker = ''a:1''" "svcName demo_picker = ''s''" "members demo_picker = {}"
    by (simp_all add: demo_picker_def NewClientPicker_def members_def)
  have a: "addrFromEventKey demo_picker ''/services/s/b:1'' = ''b:1''"
    by (simp add: addrFromEventKey_def servicePrefix_def f TrimPrefix_def HasPrefix_def)
  obtain p1 cl1 where p1: "handleWatchEvents demo_hash 1 (\<lambda>a. True) [(EventTypePut, ''/services/s/b:1'')] demo_picker [] = (p1, cl1)"
    by fastforce
  obtain p2 cl2 where p2: "fetchAllServices demo_hash 1 (\<lambda>a. True) (\<lambda>ks. ks) [''/services/s/b:1''] demo_picker = (p2, cl2)"
    by fastforce
  have "perm_of (\<lambda>ks. ks)" by (simp add: perm_of_def)
  from picker_follows_registry [OF I this p1 p2] p1 p2 show ?thesis by (auto simp: f a snapshot_def)
qed

end
