(* ===== verification/Big_Endian.thy ===== *)
theory Big_Endian
  imports Prelude
begin

text \<open>
  \<open>binary.BigEndian\<close> for 16, 32 and 64 bits: what the frames of \<open>swifty_rpc\<close> and the web sockets of
  \<open>swifty_http\<close> use for their lengths.
\<close>

definition PutUint16 :: "16 word \<Rightarrow> bytes" where
  "PutUint16 w = [ucast (drop_bit 8 w), ucast w]"

definition PutUint32 :: "32 word \<Rightarrow> bytes" where
  "PutUint32 w = [ucast (drop_bit 24 w), ucast (drop_bit 16 w), ucast (drop_bit 8 w), ucast w]"

definition Uint16 :: "bytes \<Rightarrow> 16 word" where
  "Uint16 b = push_bit 8 (ucast (b ! 0)) OR ucast (b ! 1)"

definition Uint32 :: "bytes \<Rightarrow> 32 word" where
  "Uint32 b = push_bit 24 (ucast (b ! 0)) OR push_bit 16 (ucast (b ! 1)) OR push_bit 8 (ucast (b ! 2)) OR ucast (b ! 3)"

lemma Uint16_PutUint16: "Uint16 (PutUint16 w) = w"
  by (rule bit_word_eqI)
    (auto simp: Uint16_def PutUint16_def bit_or_iff bit_push_bit_iff bit_drop_bit_eq bit_unsigned_iff)

lemma Uint32_PutUint32: "Uint32 (PutUint32 w) = w"
proof (rule bit_word_eqI)
  fix n assume n: "n < LENGTH(32)"
  have E: "bit (Uint32 (PutUint32 w)) n \<longleftrightarrow>
      n \<ge> 24 \<and> bit w (24 + (n - 24)) \<and> n - 24 < 8 \<or> n \<ge> 16 \<and> bit w (16 + (n - 16)) \<and> n - 16 < 8 \<or>
      n \<ge> 8 \<and> bit w (8 + (n - 8)) \<and> n - 8 < 8 \<or> bit w n \<and> n < 8"
    using n by (auto simp: Uint32_def PutUint32_def bit_or_iff bit_push_bit_iff bit_drop_bit_eq bit_unsigned_iff)
  consider "n < 8" | "8 \<le> n" "n < 16" | "16 \<le> n" "n < 24" | "24 \<le> n" by linarith
  then show "bit (Uint32 (PutUint32 w)) n = bit w n"
    unfolding E using n by cases auto
qed

lemma PutUint_length [simp]: "length (PutUint16 w) = 2" "length (PutUint32 v) = 4"
  by (simp_all add: PutUint16_def PutUint32_def)

text \<open>64 bits as two halves.\<close>

definition PutUint64 :: "64 word \<Rightarrow> bytes" where
  "PutUint64 w = PutUint32 (ucast (drop_bit 32 w)) @ PutUint32 (ucast w)"

definition Uint64 :: "bytes \<Rightarrow> 64 word" where
  "Uint64 b = push_bit 32 (ucast (Uint32 (take 4 b))) OR ucast (Uint32 (drop 4 b))"

lemma PutUint64_length [simp]: "length (PutUint64 w) = 8"
  by (simp add: PutUint64_def)

lemma word64_halves:
  "push_bit 32 (ucast (ucast (drop_bit 32 w) :: 32 word)) OR ucast (ucast w :: 32 word) = (w :: 64 word)"
proof (rule bit_word_eqI)
  fix n assume n: "n < LENGTH(64)"
  consider "n < 32" | "32 \<le> n" by linarith
  then show "bit (push_bit 32 (ucast (ucast (drop_bit 32 w) :: 32 word)) OR ucast (ucast w :: 32 word) :: 64 word) n = bit w n"
    using n by cases (auto simp: bit_or_iff bit_push_bit_iff bit_drop_bit_eq bit_unsigned_iff)
qed

lemma Uint64_PutUint64: "Uint64 (PutUint64 w) = w"
  by (simp add: Uint64_def PutUint64_def Uint32_PutUint32 word64_halves)

end
