(* ===== verification/Rpc_Message.thy ===== *)
theory Rpc_Message
  imports Big_Endian
begin

text \<open>
  The wire format of \<open>swifty_rpc\<close>: \<open>Encode\<close> and \<open>Decode\<close> of
  \<open>internal/protocol/message.go\<close>, the header of \<open>header.go\<close>, the registries of codecs and
  compressors of \<open>internal/codec\<close>, and the reassembly of frames in \<open>PacketBuffer\<close> of
  \<open>internal/transport/tcp_connection.go\<close>.

  Codecs and compressors are interface values in global maps; what they do (\<open>encoding/json\<close>,
  \<open>compress/gzip\<close>) is a parameter, held by the registry \<open>codecs\<close>. Lengths are
  \<open>uint32\<close> in the code and here; \<open>None\<close> as the result of an operation is a panic.
\<close>

record Header =
  RequestID :: "64 word"
  ServiceName :: string
  MethodName :: string
  HError :: string
  CodecType :: byte
  Compression :: byte
  StreamFlag :: byte

definition StreamNone :: byte where "StreamNone = 0"
definition StreamData :: byte where "StreamData = 1"
definition StreamEnd :: byte where "StreamEnd = 2"
definition StreamError :: byte where "StreamError = 3"
definition CompressionNone :: byte where "CompressionNone = 0"
definition CompressionGzip :: byte where "CompressionGzip = 1"
definition JSON :: byte where "JSON = 1"

record Message =
  header :: Header
  body :: bytes

text \<open>The two registries: a header codec per type and a compressor per type.\<close>

record codecs =
  marshal :: "byte \<Rightarrow> (Header \<Rightarrow> bytes option) option"
  unmarshal :: "byte \<Rightarrow> (bytes \<Rightarrow> Header option) option"
  compressor :: "byte \<Rightarrow> (bytes \<Rightarrow> bytes option) option"
  decompressor :: "byte \<Rightarrow> (bytes \<Rightarrow> bytes option) option"

datatype wire_error =
  HeaderNil | CompressorNotFound | CompressFailed | CodecNotRegistered | MarshalFailed
| TooShort | BadMagic | PacketTooLarge | Incomplete | UnmarshalFailed | DecompressFailed

definition Compress :: "codecs \<Rightarrow> bytes \<Rightarrow> byte \<Rightarrow> wire_error + bytes" where
  "Compress C data t = (case compressor C t of None \<Rightarrow> Inl CompressorNotFound
    | Some f \<Rightarrow> (case f data of None \<Rightarrow> Inl CompressFailed | Some b \<Rightarrow> Inr b))"

definition Decompress :: "codecs \<Rightarrow> bytes \<Rightarrow> byte \<Rightarrow> wire_error + bytes" where
  "Decompress C data t = (case decompressor C t of None \<Rightarrow> Inl CompressorNotFound
    | Some f \<Rightarrow> (case f data of None \<Rightarrow> Inl DecompressFailed | Some b \<Rightarrow> Inr b))"

definition Magic :: "16 word" where
  "Magic = 0x1234"

subsection \<open>Encode and Decode\<close>

text \<open>\<open>copy(buf[off:], src)\<close>; slicing past the end panics.\<close>

definition copy_at :: "bytes \<Rightarrow> nat \<Rightarrow> bytes \<Rightarrow> bytes option" where
  "copy_at buf off src =
    (if off \<le> length buf then
       (let n = min (length src) (length buf - off) in Some (take off buf @ take n src @ drop (off + n) buf))
     else None)"

definition Encode :: "codecs \<Rightarrow> Header option \<Rightarrow> bytes \<Rightarrow> (wire_error + bytes) option" where
  "Encode C hdr bdy =
    (case hdr of
      None \<Rightarrow> Some (Inl HeaderNil)
    | Some h \<Rightarrow>
        (case (if Compression h \<noteq> CompressionNone then Compress C bdy (Compression h) else Inr bdy) of
          Inl e \<Rightarrow> Some (Inl e)
        | Inr bodyBytes \<Rightarrow>
            (case marshal C JSON of
              None \<Rightarrow> Some (Inl CodecNotRegistered)
            | Some f \<Rightarrow>
                (case f h of
                  None \<Rightarrow> Some (Inl MarshalFailed)
                | Some headerBytes \<Rightarrow>
                    let headerLen = of_nat (length headerBytes) :: 32 word;
                        bodyLen = of_nat (length bodyBytes) :: 32 word;
                        total = 2 + 4 + 4 + headerLen + bodyLen;
                        buf = replicate (unat total) 0
                    in if unat total < 10 then None
                       else do {
                         b1 \<leftarrow> copy_at buf 0 (PutUint16 Magic @ PutUint32 headerLen @ PutUint32 bodyLen);
                         b2 \<leftarrow> copy_at b1 10 headerBytes;
                         b3 \<leftarrow> copy_at b2 (unat (10 + headerLen)) bodyBytes;
                         Some (Inr b3)
                       }))))"

definition slice :: "'a list \<Rightarrow> nat \<Rightarrow> nat \<Rightarrow> 'a list option" where
  "slice xs i j = (if i \<le> j \<and> j \<le> length xs then Some (take (j - i) (drop i xs)) else None)"

definition DecodeHeaderLen :: "bytes \<Rightarrow> 32 word" where
  "DecodeHeaderLen data = (if length data < 4 then 0 else Uint32 data)"

definition DecodeBodyLen :: "bytes \<Rightarrow> 32 word" where
  "DecodeBodyLen data = (if length data < 4 then 0 else Uint32 data)"

definition Decode :: "codecs \<Rightarrow> bytes \<Rightarrow> (wire_error + Message) option" where
  "Decode C data =
    (if length data < 10 then Some (Inl TooShort)
     else if Uint16 (take 2 data) \<noteq> Magic then Some (Inl BadMagic)
     else
       let headerLen = Uint32 (take 4 (drop 2 data));
           bodyLen = Uint32 (take 4 (drop 6 data));
           totalLen = (10 + ucast headerLen + ucast bodyLen) :: 64 word
       in if unat totalLen > 2 ^ 63 - 1 then Some (Inl PacketTooLarge)
          else if length data < unat totalLen then Some (Inl Incomplete)
          else do {
            headerBytes \<leftarrow> slice data 10 (unat (10 + headerLen));
            case unmarshal C JSON of
              None \<Rightarrow> Some (Inl CodecNotRegistered)
            | Some f \<Rightarrow> (case f headerBytes of
                None \<Rightarrow> Some (Inl UnmarshalFailed)
              | Some h \<Rightarrow> do {
                  bodyBytes \<leftarrow> slice data (unat (10 + headerLen)) (unat (10 + headerLen + bodyLen));
                  if Compression h \<noteq> CompressionNone then
                    (case Decompress C bodyBytes (Compression h) of
                      Inl e \<Rightarrow> Some (Inl e)
                    | Inr b \<Rightarrow> Some (Inr \<lparr>header = h, body = b\<rparr>))
                  else Some (Inr \<lparr>header = h, body = bodyBytes\<rparr>)
                })
          })"

subsection \<open>Framing\<close>

text \<open>The byte string that \<open>Encode\<close> is to produce for a frame.\<close>

definition frame :: "bytes \<Rightarrow> bytes \<Rightarrow> bytes" where
  "frame hb bb = PutUint16 Magic @ PutUint32 (of_nat (length hb)) @ PutUint32 (of_nat (length bb)) @ hb @ bb"

definition frame_fits :: "bytes \<Rightarrow> bytes \<Rightarrow> bool" where
  "frame_fits hb bb \<longleftrightarrow> 10 + length hb + length bb < 2 ^ 32"

text \<open>\<open>PacketBuffer.Read\<close>: the loop that drops garbage, then the extraction of one frame.\<close>

fun resync :: "bytes \<Rightarrow> bytes" where
  "resync (a # b # rest) = (if Uint16 [a, b] \<noteq> Magic then resync (b # rest) else a # b # rest)"
| "resync buf = buf"

definition PacketBuffer_Read :: "bytes \<Rightarrow> bytes \<times> bytes option" where
  "PacketBuffer_Read buf =
    (let buf = resync buf in
     if length buf < 10 then (buf, None)
     else
       let headerLen = unat (DecodeHeaderLen (take 4 (drop 2 buf)));
           bodyLen = unat (DecodeBodyLen (take 4 (drop 6 buf)));
           totalLen = 10 + headerLen + bodyLen
       in if length buf < totalLen then (buf, None)
          else (drop totalLen buf, Some (take totalLen buf)))"

definition PacketBuffer_Write :: "bytes \<Rightarrow> bytes \<Rightarrow> bytes" where
  "PacketBuffer_Write buf data = buf @ data"

text \<open>
  \<open>TCPConnection.Read\<close> on a connection that delivers the chunks \<open>cs\<close> and then an error
  or the end of the stream (\<open>Inl None\<close>).
\<close>

fun conn_Read :: "codecs \<Rightarrow> bytes \<Rightarrow> bytes list \<Rightarrow> (bytes \<times> bytes list \<times> (wire_error option + Message)) option" where
  "conn_Read C buf cs =
    (case PacketBuffer_Read buf of
      (buf', Some packet) \<Rightarrow> (case Decode C packet of
          None \<Rightarrow> None
        | Some (Inl e) \<Rightarrow> Some (buf', cs, Inl (Some e))
        | Some (Inr m) \<Rightarrow> Some (buf', cs, Inr m))
    | (buf', None) \<Rightarrow> (case cs of
          [] \<Rightarrow> Some (buf', [], Inl None)
        | c # cs' \<Rightarrow> conn_Read C (PacketBuffer_Write buf' c) cs'))"

declare conn_Read.simps [simp del]

text \<open>The messages that the read loop of a connection sees before the first error.\<close>

function read_all :: "codecs \<Rightarrow> nat \<Rightarrow> bytes \<Rightarrow> bytes list \<Rightarrow> Message list option" where
  "read_all C 0 buf cs = Some []"
| "read_all C (Suc n) buf cs = (case conn_Read C buf cs of
      None \<Rightarrow> None
    | Some (buf', cs', Inl e) \<Rightarrow> Some []
    | Some (buf', cs', Inr m) \<Rightarrow> map_option ((#) m) (read_all C n buf' cs'))"
  by pat_completeness auto
termination by (relation "measure (\<lambda>(_, n, _, _). n)") auto

subsection \<open>Round trip\<close>

lemma frame_length: "length (frame hb bb) = 10 + length hb + length bb"
  by (simp add: frame_def)

lemma frame_parts:
  "take 2 (frame hb bb @ rest) = PutUint16 Magic"
  "take 4 (drop 2 (frame hb bb @ rest)) = PutUint32 (of_nat (length hb))"
  "take 4 (drop 6 (frame hb bb @ rest)) = PutUint32 (of_nat (length bb))"
  "drop 10 (frame hb bb @ rest) = hb @ bb @ rest"
  by (simp_all add: frame_def PutUint16_def PutUint32_def numeral_eq_Suc)

lemma frame_words:
  assumes "frame_fits hb bb"
  shows "unat (of_nat (length hb) :: 32 word) = length hb" "unat (of_nat (length bb) :: 32 word) = length bb"
    "unat (10 + of_nat (length hb) :: 32 word) = 10 + length hb"
    "unat (10 + of_nat (length hb) + of_nat (length bb) :: 32 word) = 10 + length hb + length bb"
proof -
  have len: "10 + length hb + length bb < 2 ^ 32" using assms by (simp add: frame_fits_def)
  have U: "unat (of_nat n :: 32 word) = n" if "n < 2 ^ 32" for n
    using that by (simp add: unsigned_of_nat take_bit_nat_eq_self)
  show "unat (of_nat (length hb) :: 32 word) = length hb" "unat (of_nat (length bb) :: 32 word) = length bb"
    using len by (auto intro: U)
  have "(10 + of_nat (length hb) :: 32 word) = of_nat (10 + length hb)"
    "(10 + of_nat (length hb) + of_nat (length bb) :: 32 word) = of_nat (10 + length hb + length bb)" by simp_all
  then show "unat (10 + of_nat (length hb) :: 32 word) = 10 + length hb"
    "unat (10 + of_nat (length hb) + of_nat (length bb) :: 32 word) = 10 + length hb + length bb"
    using len by (metis U add_lessD1)+
qed

lemma copy_at_fresh: "copy_at (pre @ replicate n 0) (length pre) src =
    (if length src \<le> n then Some (pre @ src @ replicate (n - length src) 0) else Some (pre @ take n src))"
  by (auto simp: copy_at_def Let_def)

definition body_bytes :: "codecs \<Rightarrow> Header \<Rightarrow> bytes \<Rightarrow> wire_error + bytes" where
  "body_bytes C h b = (if Compression h \<noteq> CompressionNone then Compress C b (Compression h) else Inr b)"

lemma Encode_frame:
  assumes b: "body_bytes C h b = Inr bb" and m: "marshal C JSON = Some f" "f h = Some hb" and fits: "frame_fits hb bb"
  shows "Encode C (Some h) b = Some (Inr (frame hb bb))"
proof -
  note W = frame_words [OF fits]
  let ?pre = "PutUint16 Magic @ PutUint32 (of_nat (length hb)) @ PutUint32 (of_nat (length bb))"
  have p: "length ?pre = 10" by simp
  have 1: "copy_at (replicate (10 + length hb + length bb) 0) 0 ?pre = Some (?pre @ replicate (length hb + length bb) 0)"
    using copy_at_fresh [of "[]" "10 + length hb + length bb" ?pre] p by simp
  have 2: "copy_at (?pre @ replicate (length hb + length bb) 0) 10 hb = Some ((?pre @ hb) @ replicate (length bb) 0)"
    using copy_at_fresh [of ?pre "length hb + length bb" hb] p by simp
  have 3: "copy_at ((?pre @ hb) @ replicate (length bb) 0) (10 + length hb) bb = Some ((?pre @ hb) @ bb)"
    using copy_at_fresh [of "?pre @ hb" "length bb" bb] p by simp
  show ?thesis
    using b m unfolding Encode_def body_bytes_def
    by (simp add: Let_def W(3,4) 1 [simplified] 2 [simplified] 3 [simplified] frame_def)
qed

definition decode_body :: "codecs \<Rightarrow> Header \<Rightarrow> bytes \<Rightarrow> wire_error + bytes" where
  "decode_body C h bb = (if Compression h \<noteq> CompressionNone then Decompress C bb (Compression h) else Inr bb)"

lemma slice_mid:
  "drop i xs = a @ b \<Longrightarrow> i + length a \<le> length xs \<Longrightarrow> slice xs i (i + length a) = Some a"
  "drop i xs = a @ b \<Longrightarrow> drop (i + length a) xs = b"
proof -
  show "drop i xs = a @ b \<Longrightarrow> i + length a \<le> length xs \<Longrightarrow> slice xs i (i + length a) = Some a"
    by (simp add: slice_def)
  have "drop (i + length a) xs = drop (length a) (drop i xs)" by (simp only: drop_drop add.commute)
  then show "drop i xs = a @ b \<Longrightarrow> drop (i + length a) xs = b" by simp
qed

lemma Decode_frame:
  assumes fits: "frame_fits hb bb" and u: "unmarshal C JSON = Some g" "g hb = Some h"
  shows "Decode C (frame hb bb @ rest) = Some (case decode_body C h bb of Inl e \<Rightarrow> Inl e | Inr b \<Rightarrow> Inr \<lparr>header = h, body = b\<rparr>)"
proof -
  note W = frame_words [OF fits]
  let ?d = "frame hb bb @ rest"
  have len: "10 + length hb + length bb \<le> length ?d" "10 + length hb + length bb < 2 ^ 32"
    using fits by (simp_all add: frame_length frame_fits_def)
  have U64: "(10 + ucast (of_nat (length hb) :: 32 word) + ucast (of_nat (length bb) :: 32 word) :: 64 word)
      = of_nat (10 + length hb + length bb)"
  proof -
    have "(ucast (of_nat (length hb) :: 32 word) :: 64 word) = of_nat (length hb)"
      "(ucast (of_nat (length bb) :: 32 word) :: 64 word) = of_nat (length bb)"
      using W(1,2) by (metis of_nat_unat)+
    then show ?thesis by simp
  qed
  have T: "unat (of_nat (10 + length hb + length bb) :: 64 word) = 10 + length hb + length bb"
  proof -
    have "unat (of_nat n :: 64 word) = n" if "n < 2 ^ 32" for n
      using that by (simp add: unsigned_of_nat take_bit_nat_eq_self)
    then show ?thesis using len(2) .
  qed
  have s1: "slice ?d 10 (10 + length hb) = Some hb"
    using slice_mid(1) [OF frame_parts(4)] len(1) by auto
  have "drop (10 + length hb) ?d = bb @ rest" by (rule slice_mid(2) [OF frame_parts(4)])
  then have s2: "slice ?d (10 + length hb) (10 + length hb + length bb) = Some bb"
    using slice_mid(1) [of "10 + length hb" ?d bb rest] len(1) by auto
  define d where "d = ?d"
  have p: "take 2 d = PutUint16 Magic" "take 4 (drop 2 d) = PutUint32 (of_nat (length hb))"
    "take 4 (drop 6 d) = PutUint32 (of_nat (length bb))"
    unfolding d_def by (rule frame_parts)+
  have "\<not> length d < 10" "\<not> length d < 10 + length hb + length bb" "\<not> 10 + length hb + length bb > 2 ^ 63 - 1"
    using len by (auto simp: d_def)
  note F = this s1 [folded d_def] s2 [folded d_def]
  have "Decode C d = Some (case decode_body C h bb of Inl e \<Rightarrow> Inl e | Inr b \<Rightarrow> Inr \<lparr>header = h, body = b\<rparr>)"
    unfolding Decode_def p Uint16_PutUint16 Uint32_PutUint32 Let_def U64 T W
    using F u by (simp add: decode_body_def split: sum.split)
  then show ?thesis by (simp add: d_def)
qed

subsection \<open>Reassembly\<close>

lemma resync_frame: "resync (frame hb bb @ rest) = frame hb bb @ rest"
  by (simp add: frame_def PutUint16_def Uint16_PutUint16 [unfolded PutUint16_def, symmetric])
    (simp add: Uint16_PutUint16 [unfolded PutUint16_def])

lemma PacketBuffer_Read_frame:
  assumes "frame_fits hb bb"
  shows "PacketBuffer_Read (frame hb bb @ rest) = (rest, Some (frame hb bb))"
  unfolding PacketBuffer_Read_def resync_frame Let_def frame_parts
  by (simp add: DecodeHeaderLen_def DecodeBodyLen_def Uint32_PutUint32 frame_words [OF assms] frame_length)

text \<open>Every proper prefix of a frame yields nothing and stays in the buffer.\<close>

lemma resync_prefix:
  assumes "frame_fits hb bb" "n \<le> length (frame hb bb)"
  shows "resync (take n (frame hb bb)) = take n (frame hb bb)"
proof (cases "n < 2")
  case True
  then have "n = 0 \<or> n = 1" by auto
  then show ?thesis by (auto simp: frame_def PutUint16_def)
next
  case False
  then obtain m where "n = Suc (Suc m)" by (metis add_2_eq_Suc le_Suc_ex not_less)
  then show ?thesis using Uint16_PutUint16 [of Magic] by (simp add: frame_def PutUint16_def)
qed

lemma PacketBuffer_Read_prefix:
  assumes f: "frame_fits hb bb" and n: "n < length (frame hb bb)"
  shows "PacketBuffer_Read (take n (frame hb bb)) = (take n (frame hb bb), None)"
proof (cases "n < 10")
  case True
  then show ?thesis using resync_prefix [OF f, of n] n by (simp add: PacketBuffer_Read_def)
next
  case False
  have h: "take 4 (drop 2 (take n (frame hb bb))) = PutUint32 (of_nat (length hb))"
    "take 4 (drop 6 (take n (frame hb bb))) = PutUint32 (of_nat (length bb))"
  proof -
    have "4 \<le> n - 2" "4 \<le> n - 6" using False by auto
    then show "take 4 (drop 2 (take n (frame hb bb))) = PutUint32 (of_nat (length hb))"
      "take 4 (drop 6 (take n (frame hb bb))) = PutUint32 (of_nat (length bb))"
      using frame_parts(2,3) [of hb bb "[]"] by (simp_all add: drop_take min_def)
  qed
  show ?thesis
    using resync_prefix [OF f, of n] n False
    by (simp add: PacketBuffer_Read_def h DecodeHeaderLen_def DecodeBodyLen_def Uint32_PutUint32
        frame_words [OF f] frame_length)
qed

lemma PacketBuffer_Read_partial:
  assumes "frame_fits hb bb" "frame hb bb = p @ q" "q \<noteq> []"
  shows "PacketBuffer_Read p = (p, None)"
  using PacketBuffer_Read_prefix [OF assms(1), of "length p"] assms(2,3) by simp

text \<open>
  However the network cuts the byte stream into chunks, the next message that \<open>Read\<close> returns is
  the next frame sent, and the rest of the stream is left for the following calls.
\<close>

lemma conn_Read_frame:
  assumes f: "frame_fits hb bb" and d: "Decode C (frame hb bb) = Some (Inr m)"
  shows "buf @ concat cs = frame hb bb @ rest \<Longrightarrow>
    \<exists>buf' cs'. conn_Read C buf cs = Some (buf', cs', Inr m) \<and> buf' @ concat cs' = rest"
proof (induction cs arbitrary: buf)
  case Nil
  then have "buf = frame hb bb @ rest" by simp
  then show ?case using d by (simp add: conn_Read.simps PacketBuffer_Read_frame [OF f])
next
  case (Cons c cs)
  show ?case
  proof (cases "length (frame hb bb) \<le> length buf")
    case True
    then obtain r where r: "buf = frame hb bb @ r" "r @ concat (c # cs) = rest"
      using Cons.prems by (metis append_eq_append_conv_if append_take_drop_id)
    then show ?thesis using d by (simp add: conn_Read.simps PacketBuffer_Read_frame [OF f])
  next
    case False
    then obtain q where q: "frame hb bb = buf @ q" "q \<noteq> []"
      using Cons.prems by (metis append_Nil2 append_eq_append_conv_if append_eq_append_conv2 length_append le_add1 order_refl)
    have "(buf @ c) @ concat cs = frame hb bb @ rest" using Cons.prems by simp
    from Cons.IH [OF this] show ?thesis
      by (simp add: conn_Read.simps [of C buf] PacketBuffer_Read_partial [OF f q] PacketBuffer_Write_def)
  qed
qed

text \<open>A whole session: every message written is read, in order, whatever the chunks.\<close>

lemma read_all_frames:
  assumes "\<forall>(m, hb, bb) \<in> set ms. frame_fits hb bb \<and> Decode C (frame hb bb) = Some (Inr m)"
    and "buf @ concat cs = concat (map (\<lambda>(m, hb, bb). frame hb bb) ms)"
  shows "read_all C (length ms) buf cs = Some (map fst ms)"
  using assms
proof (induction ms arbitrary: buf cs)
  case (Cons x ms)
  obtain m hb bb where x: "x = (m, hb, bb)" by (cases x)
  have f: "frame_fits hb bb" "Decode C (frame hb bb) = Some (Inr m)" using Cons.prems(1) x by auto
  obtain buf' cs' where r: "conn_Read C buf cs = Some (buf', cs', Inr m)"
    "buf' @ concat cs' = concat (map (\<lambda>(m, hb, bb). frame hb bb) ms)"
    using conn_Read_frame [OF f, of buf cs] Cons.prems(2) x by auto
  then show ?case using Cons.IH [OF _ r(2)] Cons.prems(1) x by simp
qed simp

text \<open>No input below 4 GiB makes \<open>Decode\<close> panic.\<close>

lemma unat_add32_small:
  "unat (a :: 32 word) + unat b < 2 ^ 32 \<Longrightarrow> unat (a + b) = unat a + unat b"
  by (simp add: unat_word_ariths)

lemma Decode_no_panic:
  assumes "length data < 2 ^ 32"
  shows "Decode C data \<noteq> None"
proof -
  let ?h = "Uint32 (take 4 (drop 2 data))" and ?b = "Uint32 (take 4 (drop 6 data))"
  let ?t = "(10 + ucast ?h + ucast ?b) :: 64 word"
  have "?t = of_nat (10 + unat ?h + unat ?b)" by simp
  moreover have "unat ?h < 2 ^ 32" "unat ?b < 2 ^ 32" using unsigned_less [of ?h] unsigned_less [of ?b] by simp_all
  then have "10 + unat ?h + unat ?b < 2 ^ 64" by simp
  ultimately have t: "unat ?t = 10 + unat ?h + unat ?b"
    by (simp only: unsigned_of_nat) (simp add: take_bit_nat_eq_self)
  show ?thesis
  proof (cases "length data < unat ?t")
    case True
    then show ?thesis by (simp add: Decode_def Let_def)
  next
    case False
    then have s: "10 + unat ?h + unat ?b < 2 ^ 32" "10 + unat ?h + unat ?b \<le> length data" using assms t by linarith+
    have 1: "unat (10 + ?h) = 10 + unat ?h" using unat_add32_small [of 10 ?h] s(1) by simp
    have 2: "unat (10 + ?h + ?b) = 10 + unat ?h + unat ?b" using unat_add32_small [of "10 + ?h" ?b] s(1) 1 by simp
    have "slice data 10 (unat (10 + ?h)) \<noteq> None" "slice data (unat (10 + ?h)) (unat (10 + ?h + ?b)) \<noteq> None"
      unfolding 2 unfolding 1 using s(2) by (simp_all add: slice_def)
    then show ?thesis unfolding Decode_def Let_def by (auto split: option.splits sum.splits)
  qed
qed

end
