(* ===== verification/Rpc_Transport.thy ===== *)
theory Rpc_Transport
  imports Prelude
begin

text \<open>
  The client side of a connection of \<open>swifty_rpc/internal/transport\<close>: futures
  (\<open>future.go\<close>), the receiving end of a stream (\<open>stream.go\<close>), the connection pool
  (\<open>tcp_connection_pool.go\<close>) and the multiplexing client (\<open>tcp_client.go\<close>), whose senders,
  read loop and shutdown run concurrently.
\<close>

subsection \<open>Future\<close>

text \<open>
  A future with the calls its completion callback received (\<open>fired_with\<close>); errors are strings,
  \<open>None\<close> is nil. \<open>done\<close> closes its channel at the same moment as \<open>fcomplete\<close> is set.
\<close>

record Future =
  fres :: bytes
  ferr :: "string option"
  fcomplete :: bool
  onComplete :: bool
  fired_with :: "string option list"

definition NewFuture :: Future where
  "NewFuture = \<lparr>fres = [], ferr = None, fcomplete = False, onComplete = False, fired_with = []\<rparr>"

definition Future_Done :: "Future \<Rightarrow> bytes \<Rightarrow> string option \<Rightarrow> Future" where
  "Future_Done f res err =
    (if fcomplete f then f
     else f\<lparr>fres := res, ferr := err, fcomplete := True,
            fired_with := (if onComplete f then fired_with f @ [err] else fired_with f)\<rparr>)"

definition Future_OnComplete :: "Future \<Rightarrow> Future" where
  "Future_OnComplete f =
    (if \<not> fcomplete f then f\<lparr>onComplete := True\<rparr> else f\<lparr>fired_with := fired_with f @ [ferr f]\<rparr>)"

text \<open>\<open>GetResultWithContext\<close>: blocks (\<open>None\<close>) until the future is done or the context ends.\<close>

definition Future_Get :: "Future \<Rightarrow> string option \<Rightarrow> (string + bytes) option" where
  "Future_Get f ctxErr =
    (if fcomplete f then Some (case ferr f of Some e \<Rightarrow> Inl e | None \<Rightarrow> Inr (fres f))
     else case ctxErr of Some e \<Rightarrow> Some (Inl e) | None \<Rightarrow> None)"

datatype future_op = FDone bytes "string option" | FOnComplete

fun future_step :: "Future \<Rightarrow> future_op \<Rightarrow> Future" where
  "future_step f (FDone res err) = Future_Done f res err"
| "future_step f FOnComplete = Future_OnComplete f"

fun first_done :: "future_op list \<Rightarrow> (bytes \<times> string option) option" where
  "first_done [] = None"
| "first_done (FDone res err # ops) = Some (res, err)"
| "first_done (FOnComplete # ops) = first_done ops"

text \<open>Only the first \<open>Done\<close> counts.\<close>

lemma future_complete_stable:
  "fcomplete f \<Longrightarrow> fcomplete (foldl future_step f ops) \<and> fres (foldl future_step f ops) = fres f \<and>
    ferr (foldl future_step f ops) = ferr f"
proof (induction ops arbitrary: f)
  case (Cons op ops)
  then show ?case by (cases op) (auto simp: Future_Done_def Future_OnComplete_def)
qed simp

lemma future_result:
  "\<not> fcomplete f \<Longrightarrow> (case first_done ops of
      None \<Rightarrow> \<not> fcomplete (foldl future_step f ops)
    | Some (res, err) \<Rightarrow> fcomplete (foldl future_step f ops) \<and> fres (foldl future_step f ops) = res \<and>
        ferr (foldl future_step f ops) = err)"
proof (induction ops arbitrary: f)
  case (Cons op ops)
  show ?case
  proof (cases op)
    case (FDone res err)
    then show ?thesis using future_complete_stable [of "Future_Done f res err" ops] Cons.prems
      by (simp add: Future_Done_def)
  next
    case FOnComplete
    have "\<not> fcomplete (Future_OnComplete f)" using Cons.prems by (simp add: Future_OnComplete_def)
    then show ?thesis using Cons.IH [of "Future_OnComplete f"] FOnComplete by (cases "first_done ops") auto
  qed
qed simp

text \<open>A callback that is registered once fires exactly once, whichever comes first.\<close>

lemma future_dones: "foldl future_step f (map (\<lambda>(r, e). FDone r e) ds) =
    (if fcomplete f \<or> ds = [] then f else Future_Done f (fst (hd ds)) (snd (hd ds)))"
proof (induction ds arbitrary: f)
  case (Cons d ds)
  obtain r e where "d = (r, e)" by (cases d)
  then show ?case using Cons.IH [of "Future_Done f r e"] by (auto simp: Future_Done_def)
qed simp

lemma callback_once:
  assumes "ds1 @ ds2 \<noteq> []"
  shows "fired_with (foldl future_step NewFuture
      (map (\<lambda>(r, e). FDone r e) ds1 @ FOnComplete # map (\<lambda>(r, e). FDone r e) ds2)) = [snd (hd (ds1 @ ds2))]"
proof (cases ds1)
  case Nil
  then show ?thesis using assms by (simp add: future_dones NewFuture_def Future_OnComplete_def Future_Done_def)
next
  case (Cons d ds)
  obtain r e where "d = (r, e)" by (cases d)
  then show ?thesis using Cons by (simp add: future_dones NewFuture_def Future_OnComplete_def Future_Done_def)
qed

subsection \<open>Streams\<close>

record ClientStreamConn =
  ch :: "bytes list"
  termErr :: "string option"
  ctxErr :: "string option"

definition EOF :: string where
  "EOF = ''EOF''"

definition NewClientStreamConn :: ClientStreamConn where
  "NewClientStreamConn = \<lparr>ch = [], termErr = None, ctxErr = None\<rparr>"

text \<open>
  \<open>Push\<close> blocks (\<open>None\<close>) on a full channel unless the stream has ended; with several cases
  ready, \<open>select\<close> may take any, which is the argument \<open>drop\<close>.
\<close>

definition stream_Push :: "ClientStreamConn \<Rightarrow> bytes \<Rightarrow> bool \<Rightarrow> ClientStreamConn option" where
  "stream_Push s body dropped =
    (if length (ch s) < 64 \<and> (\<not> dropped \<or> (ctxErr s = None \<and> termErr s = None)) then Some (s\<lparr>ch := ch s @ [body]\<rparr>)
     else if ctxErr s \<noteq> None \<or> termErr s \<noteq> None then Some s
     else None)"

definition stream_terminate :: "ClientStreamConn \<Rightarrow> string \<Rightarrow> ClientStreamConn" where
  "stream_terminate s err = (if termErr s = None then s\<lparr>termErr := Some err\<rparr> else s)"

definition stream_Recv :: "ClientStreamConn \<Rightarrow> bool \<Rightarrow> (ClientStreamConn \<times> (string + bytes)) option" where
  "stream_Recv s ctx_first = (case ch s of
      frame # rest \<Rightarrow> Some (s\<lparr>ch := rest\<rparr>, Inr frame)
    | [] \<Rightarrow> (case (termErr s, ctxErr s) of
        (None, None) \<Rightarrow> None
      | (Some e, None) \<Rightarrow> Some (s, Inl e)
      | (None, Some e) \<Rightarrow> Some (s, Inl e)
      | (Some e, Some e') \<Rightarrow> Some (s, Inl (if ctx_first then e' else e))))"

fun recv_all :: "ClientStreamConn \<Rightarrow> nat \<Rightarrow> (string + bytes) list option" where
  "recv_all s 0 = Some []"
| "recv_all s (Suc n) = (case stream_Recv s False of
      None \<Rightarrow> None
    | Some (s', r) \<Rightarrow> map_option ((#) r) (recv_all s' n))"

fun push_all :: "ClientStreamConn \<Rightarrow> bytes list \<Rightarrow> ClientStreamConn option" where
  "push_all s [] = Some s"
| "push_all s (b # bs) = (case stream_Push s b False of None \<Rightarrow> None | Some s' \<Rightarrow> push_all s' bs)"

lemma push_all_ok:
  "ctxErr s = None \<Longrightarrow> termErr s = None \<Longrightarrow> length (ch s) + length bs \<le> 64 \<Longrightarrow>
    push_all s bs = Some (s\<lparr>ch := ch s @ bs\<rparr>)"
  by (induction bs arbitrary: s) (auto simp: stream_Push_def)

lemma recv_all_ok:
  "termErr s = Some e \<Longrightarrow> ctxErr s = None \<Longrightarrow> length (ch s) = m \<Longrightarrow>
    recv_all s (m + n) = Some (map Inr (ch s) @ replicate n (Inl e))"
proof (induction m arbitrary: s)
  case 0
  then show ?case by (induction n) (auto simp: stream_Recv_def)
next
  case (Suc m)
  then obtain b bs where "ch s = b # bs" by (cases "ch s") auto
  then show ?case using Suc.IH [of "s\<lparr>ch := bs\<rparr>"] Suc.prems by (simp add: stream_Recv_def)
qed

text \<open>Every frame received before the end of the stream is delivered, in order, before the end is.\<close>

lemma stream_order:
  assumes "length bs \<le> 64"
  shows "\<exists>s. push_all NewClientStreamConn bs = Some s \<and>
    recv_all (stream_terminate s err) (length bs + n) = Some (map Inr bs @ replicate n (Inl err))"
proof -
  have "push_all NewClientStreamConn bs = Some (NewClientStreamConn\<lparr>ch := bs\<rparr>)"
    using push_all_ok [of NewClientStreamConn bs] assms by (simp add: NewClientStreamConn_def)
  then show ?thesis
    using recv_all_ok [of "stream_terminate (NewClientStreamConn\<lparr>ch := bs\<rparr>) err" err "length bs" n]
    by (simp add: stream_terminate_def NewClientStreamConn_def)
qed

subsection \<open>Connection pool\<close>

record 'c ConnectionPool =
  maxActive :: nat
  conns :: "'c list"
  pool_closed :: bool
  next_idx :: nat

definition NewConnectionPool :: "nat \<Rightarrow> 'c ConnectionPool" where
  "NewConnectionPool n = \<lparr>maxActive = n, conns = [], pool_closed = False, next_idx = 0\<rparr>"

datatype 'c acquired = Found 'c "'c list" nat | Exhausted "'c list"

text \<open>
  The loop over the pooled connections. Removing a closed one does \<open>n--; i--\<close> before the
  loop's \<open>i++\<close>, so \<open>i\<close> stays and \<open>n\<close> decreases.
\<close>

function acquire_loop :: "('c \<Rightarrow> bool) \<Rightarrow> 'c list \<Rightarrow> nat \<Rightarrow> nat \<Rightarrow> nat \<Rightarrow> 'c acquired" where
  "acquire_loop dead cs nxt i n =
    (if i < n then
       let idx = (nxt + i) mod length cs; conn = cs ! idx in
       if \<not> dead conn then Found conn cs ((idx + 1) mod length cs)
       else let cs' = take idx cs @ drop (idx + 1) cs in
         if cs' = [] then Exhausted cs' else acquire_loop dead cs' nxt i (n - 1)
     else Exhausted cs)"
  by auto
termination by (relation "measure (\<lambda>(_, _, _, i, n). n - i)") auto

declare acquire_loop.simps [simp del]

datatype pool_error = ErrPoolClosed | CtxDone | DialFailed

definition pool_Acquire :: "('c \<Rightarrow> bool) \<Rightarrow> 'c option \<Rightarrow> bool \<Rightarrow> 'c ConnectionPool \<Rightarrow> 'c ConnectionPool \<times> (pool_error + 'c)" where
  "pool_Acquire dead dial ctx_done p =
    (if pool_closed p then (p, Inl ErrPoolClosed)
     else if ctx_done then (p, Inl CtxDone)
     else if length (conns p) < maxActive p then
       (case dial of None \<Rightarrow> (p, Inl DialFailed) | Some c \<Rightarrow> (p\<lparr>conns := conns p @ [c]\<rparr>, Inr c))
     else (case acquire_loop dead (conns p) (next_idx p) 0 (length (conns p)) of
         Found c cs nxt \<Rightarrow> (p\<lparr>conns := cs, next_idx := nxt\<rparr>, Inr c)
       | Exhausted cs \<Rightarrow>
           (case dial of None \<Rightarrow> (p\<lparr>conns := cs\<rparr>, Inl DialFailed)
            | Some c \<Rightarrow> (p\<lparr>conns := cs @ [c]\<rparr>, Inr c))))"

lemma acquire_loop_spec:
  "cs \<noteq> [] \<Longrightarrow> (case acquire_loop dead cs nxt 0 (length cs) of
      Found c cs' nxt' \<Rightarrow> c \<in> set cs' \<and> \<not> dead c \<and> filter (Not \<circ> dead) cs' = filter (Not \<circ> dead) cs \<and>
        length cs' \<le> length cs \<and> set cs' \<subseteq> set cs
    | Exhausted cs' \<Rightarrow> cs' = [] \<and> list_all dead cs)"
proof (induction "length cs" arbitrary: cs)
  case (Suc n)
  let ?idx = "nxt mod length cs"
  let ?cs = "take ?idx cs @ drop (?idx + 1) cs"
  have i: "?idx < length cs" using Suc.prems by simp
  have split: "cs = take ?idx cs @ cs ! ?idx # drop (?idx + 1) cs" using i by (simp add: id_take_nth_drop)
  show ?case
  proof (cases "dead (cs ! ?idx)")
    case False
    then have "acquire_loop dead cs nxt 0 (length cs) = Found (cs ! ?idx) cs ((?idx + 1) mod length cs)"
      using Suc.prems by (subst acquire_loop.simps) (simp add: Let_def)
    then show ?thesis using i False by simp
  next
    case True
    have len: "length ?cs = n" using i Suc.hyps(2) by simp
    have f: "filter (Not \<circ> dead) ?cs = filter (Not \<circ> dead) cs"
      using True by (subst (3) split) simp
    have all: "list_all dead cs = list_all dead ?cs" using True by (subst split) simp
    have sub: "set ?cs \<subseteq> set cs" by (auto dest: in_set_takeD in_set_dropD)
    have step: "acquire_loop dead cs nxt 0 (length cs) =
        (if ?cs = [] then Exhausted ?cs else acquire_loop dead ?cs nxt 0 (length ?cs))"
    proof -
      have "length cs - 1 = length ?cs" using len Suc.hyps(2) by simp
      moreover have "0 < length cs" using Suc.prems by simp
      ultimately show ?thesis using True by (subst acquire_loop.simps) (simp only: Let_def add_0_right if_True not_not if_False simp_thms)
    qed
    show ?thesis
    proof (cases "?cs = []")
      case True
      then show ?thesis by (simp only: step all if_True acquired.case list.pred_inject simp_thms)
    next
      case False
      have "case acquire_loop dead ?cs nxt 0 (length ?cs) of
          Found c cs' nxt' \<Rightarrow> c \<in> set cs' \<and> \<not> dead c \<and> filter (Not \<circ> dead) cs' = filter (Not \<circ> dead) ?cs \<and>
            length cs' \<le> length ?cs \<and> set cs' \<subseteq> set ?cs
        | Exhausted cs' \<Rightarrow> cs' = [] \<and> list_all dead ?cs"
        using Suc.hyps(1) [of ?cs] len False by simp
      then show ?thesis unfolding step f all if_not_P [OF False] using sub Suc.hyps(2) len
        by (fastforce split: acquired.splits)
    qed
  qed
qed simp

text \<open>
  A pool that is open and can dial always hands out a connection that is not closed, keeps every
  live connection, and never exceeds \<open>maxActive\<close> (at least one).
\<close>

definition pool_ok :: "'c ConnectionPool \<Rightarrow> bool" where
  "pool_ok p \<longleftrightarrow> length (conns p) \<le> max 1 (maxActive p)"

lemma pool_Acquire_ok:
  assumes "pool_ok p" "\<not> pool_closed p" "\<not> dead fresh"
  shows "\<exists>p' c. pool_Acquire dead (Some fresh) False p = (p', Inr c) \<and> pool_ok p' \<and> \<not> dead c \<and> c \<in> set (conns p') \<and>
    set (filter (Not \<circ> dead) (conns p)) \<subseteq> set (conns p') \<and> set (conns p') \<subseteq> insert fresh (set (conns p))"
proof (cases "length (conns p) < maxActive p")
  case True
  then show ?thesis using assms by (auto simp: pool_Acquire_def pool_ok_def)
next
  case full: False
  show ?thesis
  proof (cases "conns p = []")
    case True
    then have "acquire_loop dead (conns p) (next_idx p) 0 (length (conns p)) = Exhausted []"
      by (subst acquire_loop.simps) simp
    then show ?thesis using assms full True by (simp add: pool_Acquire_def pool_ok_def)
  next
    case False
    note S = acquire_loop_spec [OF False, of dead "next_idx p"]
    show ?thesis
    proof (cases "acquire_loop dead (conns p) (next_idx p) 0 (length (conns p))")
      case (Found c cs nxt)
      then have "c \<in> set cs" "\<not> dead c" "filter (Not \<circ> dead) cs = filter (Not \<circ> dead) (conns p)"
        "length cs \<le> length (conns p)" "set cs \<subseteq> set (conns p)" using S by simp_all
      moreover then have "set (filter (Not \<circ> dead) (conns p)) \<subseteq> set cs" by (metis filter_is_subset)
      ultimately show ?thesis using assms full Found by (auto simp: pool_Acquire_def pool_ok_def)
    next
      case (Exhausted cs)
      then show ?thesis using assms full S by (auto simp: pool_Acquire_def pool_ok_def list_all_iff)
    qed
  qed
qed

subsection \<open>Requests in flight and shutdown\<close>

text \<open>
  \<open>SendAsyncWithCodec\<close> by any number of goroutines against the read loop and \<open>shutdown\<close>. The
  atomic steps are the accesses to the shared state. \<open>Range\<close> over the \<open>sync.Map\<close>
  \<open>pending\<close> visits every key that is present throughout and may visit keys stored meanwhile:
  \<open>Draining must\<close> holds the keys it still has to visit.
\<close>

datatype sender = SIdle | SChecked | SStored nat | SWriting nat | SHanded nat | SFailed

datatype drain = NotClosing | Draining "nat set" | Drained

record TCPClient =
  tcl_closed :: bool
  seq :: nat
  pending :: "nat set"
  completed :: "nat set"
  draining :: drain
  senders :: "nat \<Rightarrow> sender"

definition newTCPClient :: TCPClient where
  "newTCPClient = \<lparr>tcl_closed = False, seq = 0, pending = {}, completed = {}, draining = NotClosing, senders = (\<lambda>_. SIdle)\<rparr>"

definition tcl_fail :: "TCPClient \<Rightarrow> TCPClient" where
  "tcl_fail s = (if tcl_closed s then s else s\<lparr>tcl_closed := True, draining := Draining (pending s)\<rparr>)"

datatype tcl_label = CheckClosed nat | StorePending nat | Recheck nat | WriteOk nat | WriteErr nat
  | Response nat | Fail | Visit nat | EndRange

fun tcl_step :: "TCPClient \<Rightarrow> tcl_label \<Rightarrow> TCPClient option" where
  "tcl_step s (CheckClosed t) =
     (if senders s t = SIdle
      then Some (s\<lparr>senders := (senders s)(t := (if tcl_closed s then SFailed else SChecked))\<rparr>) else None)"
| "tcl_step s (StorePending t) =
     (if senders s t = SChecked
      then Some (s\<lparr>seq := seq s + 1, pending := insert (seq s + 1) (pending s),
                   senders := (senders s)(t := SStored (seq s + 1))\<rparr>) else None)"
| "tcl_step s (Recheck t) = (case senders s t of
      SStored n \<Rightarrow>
        if tcl_closed s \<and> n \<in> pending s
        then Some (s\<lparr>pending := pending s - {n}, senders := (senders s)(t := SFailed)\<rparr>)
        else Some (s\<lparr>senders := (senders s)(t := SWriting n)\<rparr>)
    | _ \<Rightarrow> None)"
| "tcl_step s (WriteOk t) = (case senders s t of
      SWriting n \<Rightarrow> Some (s\<lparr>senders := (senders s)(t := SHanded n)\<rparr>) | _ \<Rightarrow> None)"
| "tcl_step s (WriteErr t) = (case senders s t of
      SWriting n \<Rightarrow> Some (tcl_fail (s\<lparr>pending := pending s - {n}, senders := (senders s)(t := SFailed)\<rparr>)) | _ \<Rightarrow> None)"
| "tcl_step s (Response n) =
     (if n \<in> pending s then Some (s\<lparr>pending := pending s - {n}, completed := insert n (completed s)\<rparr>) else Some s)"
| "tcl_step s Fail = Some (tcl_fail s)"
| "tcl_step s (Visit n) = (case draining s of
      Draining must \<Rightarrow> if n \<in> pending s
        then Some (s\<lparr>pending := pending s - {n}, completed := insert n (completed s), draining := Draining (must - {n})\<rparr>)
        else None
    | _ \<Rightarrow> None)"
| "tcl_step s EndRange = (case draining s of
      Draining must \<Rightarrow> if must \<inter> pending s = {} then Some (s\<lparr>draining := Drained\<rparr>) else None
    | _ \<Rightarrow> None)"

inductive tcl_reach :: "TCPClient \<Rightarrow> bool" where
  tcl_init: "tcl_reach newTCPClient"
| tcl_next: "tcl_reach s \<Longrightarrow> tcl_step s l = Some s' \<Longrightarrow> tcl_reach s'"

fun tcl_steps :: "TCPClient \<Rightarrow> tcl_label list \<Rightarrow> TCPClient option" where
  "tcl_steps s [] = Some s"
| "tcl_steps s (l # ls) = (case tcl_step s l of None \<Rightarrow> None | Some s' \<Rightarrow> tcl_steps s' ls)"

lemma tcl_reach_steps: "tcl_reach s \<Longrightarrow> tcl_steps s ls = Some s' \<Longrightarrow> tcl_reach s'"
  by (induction ls arbitrary: s) (auto split: option.splits intro: tcl_next)

fun sender_seq :: "sender \<Rightarrow> nat option" where
  "sender_seq (SStored n) = Some n"
| "sender_seq (SWriting n) = Some n"
| "sender_seq (SHanded n) = Some n"
| "sender_seq _ = None"

text \<open>Where the future of a sender can be.\<close>

definition accounted :: "TCPClient \<Rightarrow> sender \<Rightarrow> bool" where
  "accounted s p = (case p of
      SStored n \<Rightarrow> n \<in> completed s \<or> n \<in> pending s
    | SWriting n \<Rightarrow> n \<in> completed s \<or> (n \<in> pending s \<and>
        (case draining s of NotClosing \<Rightarrow> True | Draining must \<Rightarrow> n \<in> must | Drained \<Rightarrow> False))
    | SHanded n \<Rightarrow> n \<in> completed s \<or> (n \<in> pending s \<and>
        (case draining s of NotClosing \<Rightarrow> True | Draining must \<Rightarrow> n \<in> must | Drained \<Rightarrow> False))
    | _ \<Rightarrow> True)"

definition tcl_inv :: "TCPClient \<Rightarrow> bool" where
  "tcl_inv s \<longleftrightarrow> (\<forall>t. accounted s (senders s t)) \<and> (tcl_closed s \<longleftrightarrow> draining s \<noteq> NotClosing) \<and>
    (\<forall>t n. sender_seq (senders s t) = Some n \<longrightarrow> n \<le> seq s) \<and>
    (\<forall>t t' n. sender_seq (senders s t) = Some n \<longrightarrow> sender_seq (senders s t') = Some n \<longrightarrow> t = t')"

lemma accounted_none [simp]: "accounted s SIdle" "accounted s SChecked" "accounted s SFailed"
  by (simp_all add: accounted_def)

lemma accounted_senders [simp]: "accounted (s\<lparr>senders := f\<rparr>) p = accounted s p"
  by (cases p) (simp_all add: accounted_def)

lemma tcl_invD:
  assumes "tcl_inv s"
  shows tinv_acc: "accounted s (senders s t)" and tinv_closed: "tcl_closed s \<longleftrightarrow> draining s \<noteq> NotClosing"
    and tinv_seq: "sender_seq (senders s t) = Some n \<Longrightarrow> n \<le> seq s"
    and tinv_uniq: "sender_seq (senders s t) = Some n \<Longrightarrow> sender_seq (senders s t') = Some n \<Longrightarrow> t = t'"
  using assms unfolding tcl_inv_def by blast+

lemma tcl_inv_init: "tcl_inv newTCPClient"
  by (simp add: tcl_inv_def newTCPClient_def accounted_def)

text \<open>A step that keeps the sequence numbers only has to account for every sender.\<close>

lemma tcl_inv_keep:
  assumes I: "tcl_inv s" and sd: "\<And>u. u \<noteq> t \<Longrightarrow> senders s' u = senders s u"
    and own: "sender_seq (senders s' t) = None \<or> sender_seq (senders s' t) = sender_seq (senders s t)"
    and seq: "seq s' = seq s" and cl: "tcl_closed s' \<longleftrightarrow> draining s' \<noteq> NotClosing"
    and acc: "\<And>u. accounted s' (senders s' u)"
  shows "tcl_inv s'"
proof -
  have bk: "sender_seq (senders s u) = Some n" if "sender_seq (senders s' u) = Some n" for u n
    using that sd [of u] own by (cases "u = t") auto
  show ?thesis
    unfolding tcl_inv_def using bk acc cl seq tinv_seq [OF I] tinv_uniq [OF I] by metis
qed

text \<open>Removing one number from \<open>pending\<close> keeps the account of every sender that does not own it.\<close>

lemma accounted_remove:
  assumes "accounted s p" "sender_seq p \<noteq> Some n" "pending s' = pending s - {n}" "completed s \<subseteq> completed s'"
    and "draining s' = draining s \<or> (\<exists>m. draining s = Draining m \<and> draining s' = Draining (m - {n}))"
  shows "accounted s' p"
  using assms by (cases p) (auto simp: accounted_def split: drain.splits)

lemma accounted_complete:
  assumes "accounted s p" "n \<in> completed s'" "pending s' = pending s - {n}" "completed s \<subseteq> completed s'"
    and "draining s' = draining s \<or> (\<exists>m. draining s = Draining m \<and> draining s' = Draining (m - {n}))"
  shows "accounted s' p"
proof (cases "sender_seq p = Some n")
  case True
  then show ?thesis using assms(2) by (cases p) (auto simp: accounted_def)
next
  case False
  then show ?thesis using accounted_remove assms by blast
qed

lemma accounted_fail:
  assumes "accounted s p" "draining s = NotClosing \<or> tcl_closed s"
  shows "accounted (tcl_fail s) p"
  using assms by (cases p) (auto simp: accounted_def tcl_fail_def)

lemma tcl_fail_closed: "(tcl_closed s \<longleftrightarrow> draining s \<noteq> NotClosing) \<Longrightarrow>
    tcl_closed (tcl_fail s) \<longleftrightarrow> draining (tcl_fail s) \<noteq> NotClosing"
  by (auto simp: tcl_fail_def)

lemma tcl_fail_frame [simp]: "senders (tcl_fail s) = senders s" "seq (tcl_fail s) = seq s"
  by (simp_all add: tcl_fail_def)

lemma tcl_inv_recheck:
  assumes I: "tcl_inv s" and t: "senders s t = SStored n" and st: "tcl_step s (Recheck t) = Some s'"
  shows "tcl_inv s'"
proof (cases "tcl_closed s \<and> n \<in> pending s")
  case True
  then have s': "s' = s\<lparr>pending := pending s - {n}, senders := (senders s)(t := SFailed)\<rparr>" using st t by simp
  have "sender_seq (senders s u) \<noteq> Some n" if "u \<noteq> t" for u using tinv_uniq [OF I, of u n t] t that by auto
  then have "accounted s' (senders s' u)" for u
    using accounted_remove [OF tinv_acc [OF I, of u], of n s'] s' by (cases "u = t") (auto simp: accounted_def)
  then show ?thesis using tinv_closed [OF I] s' by (intro tcl_inv_keep [OF I, of t]) auto
next
  case False
  then have s': "s' = s\<lparr>senders := (senders s)(t := SWriting n)\<rparr>" using st t by (simp only: tcl_step.simps sender.case if_False option.inject)
  have "accounted s (SWriting n)"
    using tinv_acc [OF I, of t] False tinv_closed [OF I] t by (auto simp: accounted_def split: drain.split)
  then have "accounted s' (senders s' u)" for u
    using tinv_acc [OF I, of u] s' by (cases "u = t") auto
  then show ?thesis using tinv_closed [OF I] s' t by (intro tcl_inv_keep [OF I, of t]) auto
qed

lemma tcl_inv_write:
  assumes I: "tcl_inv s" and t: "senders s t = SWriting n"
  shows "tcl_inv (s\<lparr>senders := (senders s)(t := SHanded n)\<rparr>)"
    and "tcl_inv (tcl_fail (s\<lparr>pending := pending s - {n}, senders := (senders s)(t := SFailed)\<rparr>))"
proof -
  let ?s = "s\<lparr>senders := (senders s)(t := SHanded n)\<rparr>"
  have "accounted s (SHanded n)" using tinv_acc [OF I, of t] t by (simp add: accounted_def)
  then have "accounted ?s (senders ?s u)" for u using tinv_acc [OF I, of u] by (cases "u = t") auto
  then show "tcl_inv ?s" using tinv_closed [OF I] t by (intro tcl_inv_keep [OF I, of t]) auto
next
  let ?r = "s\<lparr>pending := pending s - {n}, senders := (senders s)(t := SFailed)\<rparr>"
  have other: "sender_seq (senders s u) \<noteq> Some n" if "u \<noteq> t" for u using tinv_uniq [OF I, of u n t] t that by auto
  have "accounted ?r (senders ?r u)" for u
    using accounted_remove [OF tinv_acc [OF I, of u], of n ?r] other by (cases "u = t") (auto simp: accounted_def)
  then have acc: "accounted (tcl_fail ?r) (senders (tcl_fail ?r) u)" for u
    using accounted_fail [of ?r] tinv_closed [OF I] by simp
  have "tcl_closed (tcl_fail ?r) \<longleftrightarrow> draining (tcl_fail ?r) \<noteq> NotClosing"
    using tinv_closed [OF I] by (intro tcl_fail_closed) simp
  then show "tcl_inv (tcl_fail ?r)" using acc by (intro tcl_inv_keep [OF I, of t]) auto
qed

lemma tcl_inv_store:
  assumes I: "tcl_inv s" and t: "senders s t = SChecked"
  shows "tcl_inv (s\<lparr>seq := seq s + 1, pending := insert (seq s + 1) (pending s),
                   senders := (senders s)(t := SStored (seq s + 1))\<rparr>)"
proof -
  let ?s = "s\<lparr>seq := seq s + 1, pending := insert (seq s + 1) (pending s), senders := (senders s)(t := SStored (seq s + 1))\<rparr>"
  have mono: "accounted s p \<Longrightarrow> accounted ?s p" for p by (cases p) (auto simp: accounted_def split: drain.splits)
  have acc: "accounted ?s (senders ?s u)" for u
    using mono [OF tinv_acc [OF I, of u]] by (cases "u = t") (auto simp: accounted_def)
  have le: "n \<le> seq s" if "sender_seq (senders s u) = Some n" for u n using tinv_seq [OF I that] .
  have sq: "(u = t \<and> n = seq s + 1) \<or> (u \<noteq> t \<and> sender_seq (senders s u) = Some n \<and> n \<le> seq s)"
    if "sender_seq (senders ?s u) = Some n" for u n
    using that le [of u n] by (cases "u = t") auto
  have "n \<le> seq ?s" if "sender_seq (senders ?s u) = Some n" for u n
    using sq [OF that] by auto
  moreover have "u = u'" if "sender_seq (senders ?s u) = Some n" "sender_seq (senders ?s u') = Some n" for u u' n
    using sq [OF that(1)] sq [OF that(2)] tinv_uniq [OF I, of u n u'] by auto
  moreover have "tcl_closed ?s \<longleftrightarrow> draining ?s \<noteq> NotClosing" using tinv_closed [OF I] by simp
  ultimately show ?thesis unfolding tcl_inv_def using acc by blast
qed

lemma tcl_inv_step:
  assumes I: "tcl_inv s" and st: "tcl_step s l = Some s'"
  shows "tcl_inv s'"
proof (cases l)
  case (CheckClosed t)
  then have s': "senders s t = SIdle" "s' = s\<lparr>senders := (senders s)(t := (if tcl_closed s then SFailed else SChecked))\<rparr>"
    using st by (auto split: if_splits)
  have "accounted s' (senders s' u)" for u
    using tinv_acc [OF I, of u] s' by (cases "u = t") auto
  then show ?thesis using tinv_closed [OF I] s' by (intro tcl_inv_keep [OF I, of t]) auto
next
  case (StorePending t)
  then show ?thesis using st tcl_inv_store [OF I] by (auto split: if_splits)
next
  case (Recheck t)
  then show ?thesis using st tcl_inv_recheck [OF I] by (auto split: sender.splits)
next
  case (WriteOk t)
  then show ?thesis using st tcl_inv_write(1) [OF I] by (auto split: sender.splits)
next
  case (WriteErr t)
  then show ?thesis using st tcl_inv_write(2) [OF I] by (auto split: sender.splits)
next
  case (Response n)
  show ?thesis
  proof (cases "n \<in> pending s")
    case True
    then have s': "s' = s\<lparr>pending := pending s - {n}, completed := insert n (completed s)\<rparr>" using st Response by simp
    have "accounted s' (senders s' u)" for u
      using accounted_complete [OF tinv_acc [OF I, of u], of n s'] s' by auto
    then show ?thesis using tinv_closed [OF I] s' by (intro tcl_inv_keep [OF I]) auto
  next
    case False
    then show ?thesis using st Response I by simp
  qed
next
  case Fail
  have "accounted (tcl_fail s) (senders (tcl_fail s) u)" for u
    using accounted_fail [OF tinv_acc [OF I, of u]] tinv_closed [OF I] by auto
  then have "tcl_inv (tcl_fail s)" using tcl_fail_closed [of s] tinv_closed [OF I] by (intro tcl_inv_keep [OF I]) auto
  then show ?thesis using st Fail by simp
next
  case (Visit n)
  then obtain must where d: "draining s = Draining must" "n \<in> pending s"
    and s': "s' = s\<lparr>pending := pending s - {n}, completed := insert n (completed s), draining := Draining (must - {n})\<rparr>"
    using st by (auto split: drain.splits if_splits)
  have "accounted s' (senders s' u)" for u
    using accounted_complete [OF tinv_acc [OF I, of u], of n s'] s' d by auto
  then show ?thesis using tinv_closed [OF I] s' d by (intro tcl_inv_keep [OF I]) auto
next
  case EndRange
  then obtain must where d: "draining s = Draining must" "must \<inter> pending s = {}" and s': "s' = s\<lparr>draining := Drained\<rparr>"
    using st by (auto split: drain.splits if_splits)
  have "accounted s' (senders s' u)" for u
    using tinv_acc [OF I, of u] s' d by (cases "senders s u") (auto simp: accounted_def)
  then show ?thesis using tinv_closed [OF I] s' d by (intro tcl_inv_keep [OF I]) auto
qed

lemma tcl_inv_reach: "tcl_reach s \<Longrightarrow> tcl_inv s"
  by (induction rule: tcl_reach.induct) (auto intro: tcl_inv_init tcl_inv_step)

text \<open>No future is leaked: once the shutdown is over, every future that a caller holds is complete.\<close>

lemma no_leaked_future:
  assumes "tcl_reach s" "draining s = Drained" "senders s t = SHanded n"
  shows "n \<in> completed s"
  using tinv_acc [OF tcl_inv_reach [OF assms(1)], of t] assms(2,3) by (simp add: accounted_def)

text \<open>Before that, an incomplete future that a caller holds is pending, so a response or the shutdown completes it.\<close>

lemma handed_future_pending:
  assumes "tcl_reach s" "senders s t = SHanded n" "n \<notin> completed s"
  shows "n \<in> pending s"
  using tinv_acc [OF tcl_inv_reach [OF assms(1)], of t] assms(2,3) by (simp add: accounted_def)

lemma seq_unique:
  assumes "tcl_reach s" "senders s t = SHanded n" "senders s t' = SHanded n"
  shows "t = t'"
  using tinv_uniq [OF tcl_inv_reach [OF assms(1)], of t n t'] assms(2,3) by simp

end
