(* ===== verification/Rpc_Properties.thy ===== *)
theory Rpc_Properties
  imports Rpc_Message Rpc_Transport
begin

text \<open>The properties of the wire format and of the transport of \<open>swifty_rpc\<close>.\<close>

text \<open>C37. Encode then Decode gives the message back, whatever bytes follow it, for a codec and a
  compressor that invert themselves and a frame that fits 32 bit lengths.\<close>

theorem encode_decode:
  assumes "marshal C JSON = Some f" "unmarshal C JSON = Some g" "f (header m) = Some hb" "g hb = Some (header m)"
    and "if Compression (header m) = CompressionNone then bb = body m
         else \<exists>z d. compressor C (Compression (header m)) = Some z \<and> decompressor C (Compression (header m)) = Some d \<and>
           z (body m) = Some bb \<and> d bb = Some (body m)"
    and "frame_fits hb bb"
  shows "\<exists>data. Encode C (Some (header m)) (body m) = Some (Inr data) \<and> Decode C (data @ rest) = Some (Inr m)"
proof (intro exI conjI)
  have "body_bytes C (header m) (body m) = Inr bb" "decode_body C (header m) bb = Inr (body m)"
    using assms(5) by (auto simp: body_bytes_def decode_body_def Compress_def Decompress_def split: if_splits)
  then show "Encode C (Some (header m)) (body m) = Some (Inr (frame hb bb))"
    "Decode C (frame hb bb @ rest) = Some (Inr m)"
    using Encode_frame [OF _ assms(1,3,6)] Decode_frame [OF assms(6,2,4)] by auto
qed

definition demo_header :: Header where
  "demo_header = \<lparr>RequestID = 1, ServiceName = [], MethodName = [], HError = [], CodecType = 1, Compression = 0, StreamFlag = 0\<rparr>"

definition demo_codecs :: codecs where
  "demo_codecs = \<lparr>marshal = (\<lambda>t. if t = JSON then Some (\<lambda>h. Some [ucast (RequestID h)]) else None),
     unmarshal = (\<lambda>t. if t = JSON then Some (\<lambda>b. Some (demo_header\<lparr>RequestID := ucast (hd b)\<rparr>)) else None),
     compressor = (\<lambda>_. None), decompressor = (\<lambda>_. None)\<rparr>"

theorem encode_decode_witness:
  "\<exists>data. Encode demo_codecs (Some demo_header) [1, 2, 3] = Some (Inr data) \<and>
    Decode demo_codecs (data @ [9]) = Some (Inr \<lparr>header = demo_header, body = [1, 2, 3]\<rparr>)"
proof -
  have "\<exists>f g. marshal demo_codecs JSON = Some f \<and> unmarshal demo_codecs JSON = Some g \<and> f demo_header = Some [1] \<and> g [1] = Some demo_header"
    by (simp add: demo_codecs_def demo_header_def)
  moreover have "frame_fits [1] [1, 2, 3]" by (simp add: frame_fits_def)
  moreover have "Compression demo_header = CompressionNone" by (simp add: demo_header_def CompressionNone_def)
  ultimately show ?thesis
    using encode_decode [of demo_codecs _ _ "\<lparr>header = demo_header, body = [1, 2, 3]\<rparr>" "[1]" "[1, 2, 3]" "[9]"] by auto
qed

text \<open>C4. Messages come out of the connection whole, complete and in order, however the network cuts
  the byte stream into chunks.\<close>

theorem frames_reassembled:
  assumes "\<forall>(m, hb, bb) \<in> set ms. frame_fits hb bb \<and> Decode C (frame hb bb) = Some (Inr m)"
    and "buf @ concat cs = concat (map (\<lambda>(m, hb, bb). frame hb bb) ms)"
  shows "read_all C (length ms) buf cs = Some (map fst ms)"
  using assms by (rule read_all_frames)

theorem frames_reassembled_witness:
  "read_all demo_codecs 2 [] [take 3 (frame [1] [7]), drop 3 (frame [1] [7]) @ take 5 (frame [1] []), drop 5 (frame [1] [])] =
    Some [\<lparr>header = demo_header, body = [7]\<rparr>, \<lparr>header = demo_header, body = []\<rparr>]"
proof -
  have d: "Decode demo_codecs (frame [1] bb) = Some (Inr \<lparr>header = demo_header, body = bb\<rparr>)" if f: "frame_fits [1] bb" for bb
  proof -
    obtain g where u: "unmarshal demo_codecs JSON = Some g" "g [1] = Some demo_header"
      by (simp add: demo_codecs_def demo_header_def)
    show ?thesis using Decode_frame [OF f u, of "[]"] by (simp add: decode_body_def demo_header_def CompressionNone_def)
  qed
  have fits: "frame_fits [1] [7]" "frame_fits [1] []" by (simp_all add: frame_fits_def)
  let ?ms = "[(\<lparr>header = demo_header, body = [7]\<rparr>, [1], [7]), (\<lparr>header = demo_header, body = []\<rparr>, [1], [])] :: (Message \<times> bytes \<times> bytes) list"
  have "[] @ concat [take 3 (frame [1] [7]), drop 3 (frame [1] [7]) @ take 5 (frame [1] []), drop 5 (frame [1] [])] =
      concat (map (\<lambda>(m, hb, bb). frame hb bb) ?ms)"
    by (simp add: append_take_drop_id [symmetric] flip: append_assoc) (simp add: append_take_drop_id)
  from frames_reassembled [OF _ this, of demo_codecs] d fits show ?thesis by (simp add: numeral_2_eq_2 del: read_all.simps)
qed

text \<open>Decode never panics, whatever the bytes, on inputs below 4 GiB.\<close>

theorem decode_never_panics:
  assumes "length data < 2 ^ 32"
  shows "Decode C data \<noteq> None"
  using assms by (rule Decode_no_panic)

theorem decode_never_panics_witness: "Decode demo_codecs [0x12, 0x34, 255, 255, 255, 255, 0, 0, 0, 7, 1] \<noteq> None"
  by (rule decode_never_panics) simp

subsection \<open>Transport\<close>



text \<open>An open pool that can dial hands out a live connection, drops only dead ones, and keeps at
  most maxActive of them (at least one).\<close>

theorem pool_acquire:
  assumes "pool_ok p" "\<not> pool_closed p" "\<not> dead fresh"
  shows "\<exists>p' c. pool_Acquire dead (Some fresh) False p = (p', Inr c) \<and> pool_ok p' \<and> \<not> dead c \<and> c \<in> set (conns p') \<and>
    set (filter (Not \<circ> dead) (conns p)) \<subseteq> set (conns p') \<and> set (conns p') \<subseteq> insert fresh (set (conns p))"
  using assms by (rule pool_Acquire_ok)

theorem pool_acquire_witness:
  "\<exists>p' c. pool_Acquire (\<lambda>c. c = 1) (Some 3) False \<lparr>maxActive = 2, conns = [1, 2 :: nat], pool_closed = False, next_idx = 0\<rparr> = (p', Inr c) \<and>
    pool_ok p' \<and> c \<noteq> 1 \<and> 2 \<in> set (conns p')"
  using pool_acquire [of "\<lparr>maxActive = 2, conns = [1, 2 :: nat], pool_closed = False, next_idx = 0\<rparr>" "\<lambda>c. c = 1" 3]
  by (fastforce simp: pool_ok_def)

end
