(* ===== verification/Rpc_Control.thy ===== *)
theory Rpc_Control
  imports Prelude "HOL-Library.Multiset"
begin

text \<open>
  The traffic control of the RPC client: the circuit breaker (\<open>internal/breaker/breaker.go\<close>), the
  token bucket (\<open>internal/limiter/token_bucket.go\<close>) and the load balancers
  (\<open>internal/load_balance\<close>). Each method runs under its mutex, so it is a function of the
  state; the clock and the random number are parameters.
\<close>

subsection \<open>Circuit breaker\<close>

datatype breaker_state = Closed | Open | HalfOpen

text \<open>
  \<open>rate_ge f t\<close> is the comparison \<open>float64(f) / float64(t) >= failureThreshold\<close>.
\<close>

record CircuitBreaker =
  bstate :: breaker_state
  failureCount :: nat
  successCount :: nat
  windowSize :: nat
  rate_ge :: "nat \<Rightarrow> nat \<Rightarrow> bool"
  openTimeout :: int
  lastStateChange :: int
  halfOpenProbe :: bool

definition NewCircuitBreaker :: "nat \<Rightarrow> (nat \<Rightarrow> nat \<Rightarrow> bool) \<Rightarrow> int \<Rightarrow> int \<Rightarrow> CircuitBreaker" where
  "NewCircuitBreaker w thr timeout now = \<lparr>bstate = Closed, failureCount = 0, successCount = 0, windowSize = w,
     rate_ge = thr, openTimeout = timeout, lastStateChange = now, halfOpenProbe = False\<rparr>"

definition breaker_Allow :: "CircuitBreaker \<Rightarrow> int \<Rightarrow> CircuitBreaker \<times> bool" where
  "breaker_Allow cb now = (case bstate cb of
      Closed \<Rightarrow> (cb, True)
    | Open \<Rightarrow> if now - lastStateChange cb > openTimeout cb
        then (cb\<lparr>bstate := HalfOpen, halfOpenProbe := True\<rparr>, True) else (cb, False)
    | HalfOpen \<Rightarrow> if halfOpenProbe cb then (cb, False) else (cb\<lparr>halfOpenProbe := True\<rparr>, True))"

definition resetCounts :: "CircuitBreaker \<Rightarrow> CircuitBreaker" where
  "resetCounts cb = cb\<lparr>failureCount := 0, successCount := 0\<rparr>"

definition toOpen :: "CircuitBreaker \<Rightarrow> int \<Rightarrow> CircuitBreaker" where
  "toOpen cb now = (resetCounts (cb\<lparr>bstate := Open, lastStateChange := now\<rparr>))\<lparr>halfOpenProbe := False\<rparr>"

definition toClosed :: "CircuitBreaker \<Rightarrow> int \<Rightarrow> CircuitBreaker" where
  "toClosed cb now = (resetCounts (cb\<lparr>bstate := Closed, lastStateChange := now\<rparr>))\<lparr>halfOpenProbe := False\<rparr>"

definition resetClosedWindowIfReady :: "CircuitBreaker \<Rightarrow> int \<Rightarrow> CircuitBreaker" where
  "resetClosedWindowIfReady cb now =
    (let total = failureCount cb + successCount cb in
     if total < windowSize cb then cb
     else if rate_ge cb (failureCount cb) total then toOpen cb now
     else resetCounts cb)"

definition RecordSuccess :: "CircuitBreaker \<Rightarrow> int \<Rightarrow> CircuitBreaker" where
  "RecordSuccess cb now = (case bstate cb of
      Closed \<Rightarrow> resetClosedWindowIfReady (cb\<lparr>successCount := successCount cb + 1\<rparr>) now
    | HalfOpen \<Rightarrow> toClosed cb now
    | Open \<Rightarrow> cb)"

definition RecordFailure :: "CircuitBreaker \<Rightarrow> int \<Rightarrow> CircuitBreaker" where
  "RecordFailure cb now = (case bstate cb of
      Closed \<Rightarrow>
        (let cb = cb\<lparr>failureCount := failureCount cb + 1\<rparr>; total = failureCount cb + successCount cb in
         if total < windowSize cb then cb
         else if rate_ge cb (failureCount cb) total then toOpen cb now
         else resetCounts cb)
    | HalfOpen \<Rightarrow> toOpen cb now
    | Open \<Rightarrow> cb)"

datatype breaker_op = BAllow | BSuccess | BFailure

fun breaker_step :: "CircuitBreaker \<Rightarrow> breaker_op \<times> int \<Rightarrow> CircuitBreaker \<times> bool" where
  "breaker_step cb (BAllow, now) = breaker_Allow cb now"
| "breaker_step cb (BSuccess, now) = (RecordSuccess cb now, False)"
| "breaker_step cb (BFailure, now) = (RecordFailure cb now, False)"

fun breaker_run :: "CircuitBreaker \<Rightarrow> (breaker_op \<times> int) list \<Rightarrow> CircuitBreaker \<times> bool list" where
  "breaker_run cb [] = (cb, [])"
| "breaker_run cb (op # ops) =
    (let (cb', r) = breaker_step cb op; (cb'', rs) = breaker_run cb' ops in (cb'', r # rs))"

text \<open>
  The counts stay below the window while closed and are zero otherwise; the probe flag is set exactly
  in the half open state, so there a further request is never let through.
\<close>

definition breaker_inv :: "CircuitBreaker \<Rightarrow> bool" where
  "breaker_inv cb \<longleftrightarrow> 0 < windowSize cb \<and>
     (bstate cb = Closed \<longrightarrow> failureCount cb + successCount cb < windowSize cb) \<and>
     (bstate cb \<noteq> Closed \<longrightarrow> failureCount cb = 0 \<and> successCount cb = 0) \<and>
     (halfOpenProbe cb \<longleftrightarrow> bstate cb = HalfOpen)"

lemmas breaker_defs = breaker_Allow_def RecordSuccess_def RecordFailure_def resetClosedWindowIfReady_def
  toOpen_def toClosed_def resetCounts_def Let_def

lemma breaker_new_inv: "0 < w \<Longrightarrow> breaker_inv (NewCircuitBreaker w thr timeout now)"
  by (simp add: breaker_inv_def NewCircuitBreaker_def)

lemma breaker_step_inv: "breaker_inv cb \<Longrightarrow> breaker_inv (fst (breaker_step cb op))"
  by (cases "(cb, op)" rule: breaker_step.cases; cases "bstate cb") (auto simp: breaker_inv_def breaker_defs)

lemma breaker_run_inv: "breaker_inv cb \<Longrightarrow> breaker_inv (fst (breaker_run cb ops))"
proof (induction ops arbitrary: cb)
  case (Cons op ops)
  have "breaker_inv (fst (breaker_step cb op))" by (rule breaker_step_inv [OF Cons.prems])
  from Cons.IH [OF this] show ?case by (simp add: case_prod_unfold Let_def)
qed simp

text \<open>Between two records of an outcome, at most one request passes a breaker that is not closed.\<close>

fun count_allowed :: "bool list \<Rightarrow> nat" where
  "count_allowed bs = length (filter id bs)"

lemma halfopen_stuck:
  assumes "breaker_inv cb" "bstate cb = HalfOpen" "\<forall>(op, _) \<in> set ops. op = BAllow"
  shows "breaker_run cb ops = (cb, replicate (length ops) False)"
  using assms(3)
proof (induction ops)
  case (Cons x ops)
  obtain now where x: "x = (BAllow, now)" using Cons.prems by (cases x) auto
  have "breaker_step cb x = (cb, False)" using assms(1,2) x by (simp add: breaker_Allow_def breaker_inv_def)
  then show ?case using Cons by simp
qed simp

lemma open_one_probe:
  assumes "breaker_inv cb" "bstate cb = Open" "\<forall>(op, _) \<in> set ops. op = BAllow"
  shows "count_allowed (snd (breaker_run cb ops)) \<le> 1"
  using assms
proof (induction ops arbitrary: cb)
  case (Cons x ops)
  obtain now where x: "x = (BAllow, now)" using Cons.prems by (cases x) auto
  show ?case
  proof (cases "now - lastStateChange cb > openTimeout cb")
    case True
    let ?cb = "cb\<lparr>bstate := HalfOpen, halfOpenProbe := True\<rparr>"
    have s: "breaker_step cb x = (?cb, True)" using Cons.prems True x by (simp add: breaker_Allow_def)
    have "breaker_inv ?cb" using breaker_step_inv [OF Cons.prems(1), of x] s by simp
    then have "breaker_run ?cb ops = (?cb, replicate (length ops) False)"
      using Cons.prems(3) by (intro halfopen_stuck) auto
    then show ?thesis using s by simp
  next
    case False
    then have "breaker_step cb x = (cb, False)" using Cons.prems x by (simp add: breaker_Allow_def)
    then show ?thesis using Cons by (simp add: case_prod_unfold Let_def)
  qed
qed simp

text \<open>
  A full window decides: with \<open>windowSize\<close> outcomes recorded since the counts were zero, the
  breaker opens exactly when the share of failures reaches the threshold.
\<close>

definition outcome_op :: "bool \<Rightarrow> breaker_op" where
  "outcome_op ok = (if ok then BSuccess else BFailure)"

lemma record_below:
  assumes "bstate cb = Closed" "failureCount cb + successCount cb + 1 < windowSize cb"
  shows "fst (breaker_step cb (outcome_op ok, now)) =
    (if ok then cb\<lparr>successCount := successCount cb + 1\<rparr> else cb\<lparr>failureCount := failureCount cb + 1\<rparr>)"
  using assms by (auto simp: outcome_op_def breaker_defs)

lemma record_window:
  "bstate cb = Closed \<Longrightarrow> failureCount cb + successCount cb + length oks < windowSize cb \<Longrightarrow>
    fst (breaker_run cb (map (\<lambda>(ok, t). (outcome_op ok, t)) oks)) =
      cb\<lparr>failureCount := failureCount cb + length (filter (\<lambda>(ok, _). \<not> ok) oks),
        successCount := successCount cb + length (filter (\<lambda>(ok, _). ok) oks)\<rparr>"
proof (induction oks arbitrary: cb)
  case (Cons x oks)
  obtain ok t where x: "x = (ok, t)" by (cases x)
  have b: "failureCount cb + successCount cb + 1 < windowSize cb" using Cons.prems(2) by simp
  let ?cb = "if ok then cb\<lparr>successCount := successCount cb + 1\<rparr> else cb\<lparr>failureCount := failureCount cb + 1\<rparr>"
  have s: "fst (breaker_step cb (outcome_op ok, t)) = ?cb" by (rule record_below [OF Cons.prems(1) b])
  have "bstate ?cb = Closed" "failureCount ?cb + successCount ?cb + length oks < windowSize ?cb"
    using Cons.prems by auto
  from Cons.IH [OF this] show ?case using s x by (auto simp: case_prod_unfold Let_def)
qed simp

lemma breaker_run_append:
  "fst (breaker_run cb (ops @ ops')) = fst (breaker_run (fst (breaker_run cb ops)) ops')"
  by (induction ops arbitrary: cb) (simp_all add: case_prod_unfold Let_def)

lemma breaker_window_decides:
  fixes ok :: bool and t :: int
  assumes cb: "bstate cb = Closed" "failureCount cb = 0" "successCount cb = 0"
    and n: "length oks + 1 = windowSize cb"
  defines "f \<equiv> length (filter (\<lambda>(ok, _). \<not> ok) (oks @ [(ok, t)]))"
  shows "bstate (fst (breaker_run cb (map (\<lambda>(ok, t). (outcome_op ok, t)) (oks @ [(ok, t)])))) =
    (if rate_ge cb f (windowSize cb) then Open else Closed)"
proof -
  let ?F = "length (filter (\<lambda>(ok, _). \<not> ok) oks)" and ?S = "length (filter (\<lambda>(ok, _). ok) oks)"
  have "?S + ?F = length oks" using sum_length_filter_compl [of "\<lambda>(ok, _). ok" oks] by (simp add: case_prod_unfold)
  then have w: "Suc (?F + ?S) = windowSize cb" using n by simp
  have "fst (breaker_run cb (map (\<lambda>(ok, t). (outcome_op ok, t)) oks)) = cb\<lparr>failureCount := ?F, successCount := ?S\<rparr>"
    using record_window [OF cb(1), of oks] cb(2,3) n by simp
  then show ?thesis
    using cb w by (cases ok) (simp_all add: breaker_run_append f_def outcome_op_def breaker_defs)
qed

subsection \<open>Token bucket\<close>

record TokenBucket =
  tokens :: nat
  rate :: nat

definition NewTokenBucket :: "int \<Rightarrow> TokenBucket" where
  "NewTokenBucket r = (let r = (if r < 0 then 0 else r) in \<lparr>tokens = nat r, rate = nat r\<rparr>)"

definition bucket_Allow :: "TokenBucket \<Rightarrow> TokenBucket \<times> bool" where
  "bucket_Allow tb = (if tokens tb > 0 then (tb\<lparr>tokens := tokens tb - 1\<rparr>, True) else (tb, False))"

definition bucket_tick :: "TokenBucket \<Rightarrow> TokenBucket" where
  "bucket_tick tb = tb\<lparr>tokens := rate tb\<rparr>"

datatype bucket_op = TAllow | TTick

fun bucket_run :: "TokenBucket \<Rightarrow> bucket_op list \<Rightarrow> TokenBucket \<times> nat" where
  "bucket_run tb [] = (tb, 0)"
| "bucket_run tb (TAllow # ops) =
    (let (tb', ok) = bucket_Allow tb; (tb'', n) = bucket_run tb' ops in (tb'', n + (if ok then 1 else 0)))"
| "bucket_run tb (TTick # ops) = bucket_run (bucket_tick tb) ops"

lemma bucket_frame [simp]: "rate (fst (bucket_Allow tb)) = rate tb" "rate (bucket_tick tb) = rate tb"
  by (simp_all add: bucket_Allow_def bucket_tick_def)

text \<open>With \<open>k\<close> ticks in between, at most \<open>tokens + k * rate\<close> requests pass; exactly so many when there are enough.\<close>

lemma bucket_run_bound:
  "snd (bucket_run tb ops) \<le> tokens tb + length (filter ((=) TTick) ops) * rate tb"
proof (induction tb ops rule: bucket_run.induct)
  case (2 tb ops)
  obtain tb' ok where a: "bucket_Allow tb = (tb', ok)" by fastforce
  have "snd (bucket_run tb' ops) \<le> tokens tb' + length (filter ((=) TTick) ops) * rate tb'" using 2 [OF refl] a by simp
  moreover have "rate tb' = rate tb" "tokens tb' + (if ok then 1 else 0) = tokens tb"
    using a by (auto simp: bucket_Allow_def split: if_splits)
  ultimately show ?case using a by (simp add: case_prod_unfold Let_def)
next
  case (3 tb ops)
  then show ?case by (simp add: bucket_tick_def)
qed simp

lemma bucket_run_exact:
  "snd (bucket_run tb (replicate n TAllow)) = min n (tokens tb)"
proof (induction n arbitrary: tb)
  case (Suc n)
  obtain tb' ok where a: "bucket_Allow tb = (tb', ok)" by fastforce
  have "tokens tb' = tokens tb - 1" "ok \<longleftrightarrow> tokens tb > 0" using a by (auto simp: bucket_Allow_def split: if_splits)
  then show ?case using Suc [of tb'] a by (auto simp: case_prod_unfold Let_def)
qed simp

subsection \<open>Round robin\<close>

type_synonym inst = string

definition rr_Select :: "64 word \<Rightarrow> inst list \<Rightarrow> 64 word \<times> inst" where
  "rr_Select idx list =
    (if length list = 0 then (idx, [])
     else let i = idx + 1 in (i, list ! unat ((i - 1) mod of_nat (length list))))"

fun rr_run :: "64 word \<Rightarrow> inst list \<Rightarrow> nat \<Rightarrow> inst list" where
  "rr_run idx list 0 = []"
| "rr_run idx list (Suc n) = (let (idx', x) = rr_Select idx list in x # rr_run idx' list n)"

lemma rr_Select_nth:
  assumes "xs \<noteq> []" "length xs < 2 ^ 64"
  shows "rr_Select idx xs = (idx + 1, xs ! (unat idx mod length xs))"
proof -
  have "unat (of_nat (length xs) :: 64 word) = length xs"
    using assms(2) by (simp add: unsigned_of_nat take_bit_nat_eq_self)
  then show ?thesis using assms(1) by (simp add: rr_Select_def Let_def unat_mod_distrib)
qed

lemma rr_run_nth:
  "xs \<noteq> [] \<Longrightarrow> length xs < 2 ^ 64 \<Longrightarrow> unat idx + n < 2 ^ 64 \<Longrightarrow>
    rr_run idx xs n = map (\<lambda>j. xs ! ((unat idx + j) mod length xs)) [0..<n]"
proof (induction n arbitrary: idx)
  case (Suc n)
  have "unat (idx + 1) = unat idx + 1" using Suc.prems(3) by (simp add: unat_word_ariths)
  then have "rr_run (idx + 1) xs n = map (\<lambda>j. xs ! ((unat idx + Suc j) mod length xs)) [0..<n]"
    using Suc.IH [of "idx + 1"] Suc.prems by simp
  then show ?case using rr_Select_nth [OF Suc.prems(1,2)]
    by (simp add: upt_conv_Cons map_Suc_upt [symmetric] del: upt_Suc)
qed simp

text \<open>As long as the counter does not wrap, any \<open>n\<close> consecutive selections from \<open>n\<close> instances hit each once.\<close>

lemma mod_shift_bij:
  assumes "0 < (n::nat)"
  shows "bij_betw (\<lambda>j. (i + j) mod n) {..<n} {..<n}"
proof -
  have one: "a = b" if "a \<le> b" "b < n" "(i + a) mod n = (i + b) mod n" for a b
  proof -
    have "n dvd (i + b) - (i + a)" using that mod_eq_dvd_iff_nat [of "i + a" "i + b" n] by simp
    then have "n dvd b - a" by simp
    then show "a = b" using that by (meson diff_is_0_eq dvd_imp_le le_antisym less_imp_diff_less linorder_not_less neq0_conv)
  qed
  have inj: "inj_on (\<lambda>j. (i + j) mod n) {..<n}"
  proof (rule inj_onI)
    fix a b assume "a \<in> {..<n}" "b \<in> {..<n}" "(i + a) mod n = (i + b) mod n"
    then show "a = b" using one [of a b] one [of b a] by (cases "a \<le> b") auto
  qed
  have "(\<lambda>j. (i + j) mod n) ` {..<n} \<subseteq> {..<n}" using assms by auto
  then have "(\<lambda>j. (i + j) mod n) ` {..<n} = {..<n}" using inj by (simp add: endo_inj_surj)
  then show ?thesis using inj by (simp add: bij_betw_def)
qed

lemma rr_fair:
  assumes "xs \<noteq> []" "length xs < 2 ^ 64" "unat idx + length xs < 2 ^ 64"
  shows "mset (rr_run idx xs (length xs)) = mset xs"
proof -
  let ?f = "\<lambda>j. (unat idx + j) mod length xs"
  have b: "bij_betw ?f {..<length xs} {..<length xs}" using assms(1) by (intro mod_shift_bij) simp
  have "mset (map ?f [0..<length xs]) = mset [0..<length xs]"
  proof -
    have "distinct (map ?f [0..<length xs])" using b by (simp add: distinct_map bij_betw_def lessThan_atLeast0)
    moreover have "set (map ?f [0..<length xs]) = set [0..<length xs]" using b by (simp add: bij_betw_def lessThan_atLeast0)
    ultimately show ?thesis by (metis distinct_upt set_eq_iff_mset_eq_distinct)
  qed
  then have "mset (map (nth xs) (map ?f [0..<length xs])) = mset (map (nth xs) [0..<length xs])" by (metis mset_map)
  then show ?thesis using rr_run_nth [OF assms] by (simp add: map_nth comp_def)
qed

text \<open>\<open>Intn\<close> of the random balancer is a parameter.\<close>

definition random_Select :: "(nat \<Rightarrow> nat) \<Rightarrow> inst list \<Rightarrow> inst" where
  "random_Select Intn list = (if length list = 0 then [] else list ! Intn (length list))"

end
