(* ===== verification/Rpc_Weighted.thy ===== *)
theory Rpc_Weighted
  imports Rpc_Control
begin

text \<open>
  Smooth weighted round robin, \<open>WeightedRR\<close> of \<open>internal/load_balance/weighted_rr.go\<close>. The
  theorem is its fairness: over any period of \<open>totalWeight\<close> selections, instance \<open>i\<close> is chosen
  exactly \<open>weights[i]\<close> times, and the current weights are back at zero. The weights are Go
  \<open>int\<close>s; their sums are assumed not to overflow, so they are integers here.
\<close>

record WeightedRR =
  weights :: "int list"
  currentWeight :: "int list"
  totalWeight :: int

definition NewWeightedRR :: "int list \<Rightarrow> WeightedRR" where
  "NewWeightedRR ws =
    (let ws' = map (\<lambda>wt. if wt < 0 then 0 else wt) ws in
     \<lparr>weights = ws', currentWeight = replicate (length ws) 0, totalWeight = sum_list ws'\<rparr>)"

text \<open>The loop over the indices; \<open>None\<close> is \<open>maxIdx == -1\<close>.\<close>

fun wrr_loop :: "int list \<Rightarrow> nat list \<Rightarrow> int list \<Rightarrow> nat option \<Rightarrow> int list \<times> nat option" where
  "wrr_loop ws [] cur mx = (cur, mx)"
| "wrr_loop ws (i # is) cur mx =
    (let cur = cur[i := cur ! i + ws ! i];
         mx = (case mx of None \<Rightarrow> Some i | Some j \<Rightarrow> if cur ! i > cur ! j then Some i else Some j)
     in wrr_loop ws is cur mx)"

definition wrr_Select :: "WeightedRR \<Rightarrow> inst list \<Rightarrow> WeightedRR \<times> inst" where
  "wrr_Select w list =
    (if length list = 0 then (w, [])
     else if length list \<noteq> length (weights w) then (w, [])
     else if totalWeight w \<le> 0 then (w, [])
     else case wrr_loop (weights w) [0..<length list] (currentWeight w) None of
       (cur, Some m) \<Rightarrow> (w\<lparr>currentWeight := cur[m := cur ! m - totalWeight w]\<rparr>, list ! m)
     | (cur, None) \<Rightarrow> (w, []))"

fun wrr_run :: "WeightedRR \<Rightarrow> inst list \<Rightarrow> nat \<Rightarrow> WeightedRR \<times> inst list" where
  "wrr_run w list 0 = (w, [])"
| "wrr_run w list (Suc n) = (let (w', x) = wrr_Select w list; (w'', xs) = wrr_run w' list n in (w'', x # xs))"

subsection \<open>The loop\<close>

lemma wrr_loop_suffix:
  assumes "length cs = n" "length ws = n" "k \<le> n"
    and "mx = None \<longleftrightarrow> k = 0" "\<And>j. mx = Some j \<Longrightarrow> j < k \<and> (\<forall>i < k. cs ! i + ws ! i \<le> cs ! j + ws ! j)"
    and "cur = map (\<lambda>i. if i < k then cs ! i + ws ! i else cs ! i) [0..<n]"
  shows "\<exists>mx'. wrr_loop ws [k..<n] cur mx = (map (\<lambda>i. cs ! i + ws ! i) [0..<n], mx') \<and>
    (mx' = None \<longleftrightarrow> n = 0) \<and> (\<forall>j. mx' = Some j \<longrightarrow> j < n \<and> (\<forall>i < n. cs ! i + ws ! i \<le> cs ! j + ws ! j))"
  using assms(3-)
proof (induction "n - k" arbitrary: k cur mx)
  case 0
  then have "k = n" by simp
  moreover have "cur = map (\<lambda>i. cs ! i + ws ! i) [0..<n]" using 0(5) \<open>k = n\<close> by (auto intro: map_cong)
  ultimately show ?case using 0 by auto
next
  case (Suc d)
  have k: "k < n" using Suc.hyps(2) by simp
  let ?cur = "map (\<lambda>i. if i < Suc k then cs ! i + ws ! i else cs ! i) [0..<n]"
  let ?mx = "case mx of None \<Rightarrow> Some k | Some j \<Rightarrow> if cs ! k + ws ! k > cs ! j + ws ! j then Some k else Some j"
  have cur': "cur[k := cur ! k + ws ! k] = ?cur"
    by (rule nth_equalityI) (use k in \<open>auto simp: Suc.prems(4) nth_list_update less_Suc_eq\<close>)
  have mx': "(case mx of None \<Rightarrow> Some k | Some j \<Rightarrow> if ?cur ! k > ?cur ! j then Some k else Some j) = ?mx"
    using k Suc.prems(3) by (auto split: option.split)
  have step: "wrr_loop ws [k..<n] cur mx = wrr_loop ws [Suc k..<n] ?cur ?mx"
  proof -
    have "[k..<n] = k # [Suc k..<n]" using k by (rule upt_conv_Cons)
    then show ?thesis by (simp only: wrr_loop.simps cur' Let_def mx')
  qed
  have inv: "j < Suc k \<and> (\<forall>i < Suc k. cs ! i + ws ! i \<le> cs ! j + ws ! j)" if "?mx = Some j" for j
  proof (cases mx)
    case None
    then show ?thesis using that Suc.prems(2) by auto
  next
    case (Some m)
    then have m: "m < k" "\<forall>i < k. cs ! i + ws ! i \<le> cs ! m + ws ! m" using Suc.prems(3) by blast+
    show ?thesis using that Some m by (force simp: less_Suc_eq split: if_splits)
  qed
  have "?mx = None \<longleftrightarrow> Suc k = 0" by (auto split: option.split)
  from Suc.hyps(1) [of "Suc k" ?mx ?cur, OF _ _ this inv refl] Suc.hyps(2) k
  show ?case unfolding step by auto
qed

lemma wrr_loop_max:
  assumes "length cs = n" "length ws = n" "0 < n"
  shows "\<exists>m. wrr_loop ws [0..<n] cs None = (map (\<lambda>i. cs ! i + ws ! i) [0..<n], Some m) \<and> m < n \<and>
    (\<forall>i < n. cs ! i + ws ! i \<le> cs ! m + ws ! m)"
proof -
  have "cs = map (\<lambda>i. if i < 0 then cs ! i + ws ! i else cs ! i) [0..<n]"
    using assms(1) by (intro nth_equalityI) auto
  from wrr_loop_suffix [OF assms(1,2) _ _ _ this, of None] assms(3) show ?thesis by auto
qed

subsection \<open>Fairness\<close>

definition total :: "(nat \<Rightarrow> int) \<Rightarrow> nat \<Rightarrow> int" where
  "total f n = (\<Sum>i<n. f i)"

text \<open>After \<open>k\<close> selections in which instance \<open>i\<close> was chosen \<open>c i\<close> times.\<close>

definition wrr_inv :: "WeightedRR \<Rightarrow> nat \<Rightarrow> nat \<Rightarrow> (nat \<Rightarrow> nat) \<Rightarrow> bool" where
  "wrr_inv w n k c \<longleftrightarrow> length (weights w) = n \<and> length (currentWeight w) = n \<and> 0 < n \<and> totalWeight w > 0 \<and>
    totalWeight w = (\<Sum>i<n. weights w ! i) \<and> (\<forall>i<n. weights w ! i \<ge> 0) \<and>
    (\<forall>i<n. currentWeight w ! i = int k * weights w ! i - totalWeight w * int (c i)) \<and>
    (\<Sum>i<n. c i) = k \<and> (\<forall>i<n. currentWeight w ! i > - totalWeight w)"

lemma wrr_invD:
  assumes "wrr_inv w n k c"
  shows "length (weights w) = n" "length (currentWeight w) = n" "0 < n" "totalWeight w > 0"
    "totalWeight w = (\<Sum>i<n. weights w ! i)" "\<forall>i<n. weights w ! i \<ge> 0"
    "\<forall>i<n. currentWeight w ! i = int k * weights w ! i - totalWeight w * int (c i)" "(\<Sum>i<n. c i) = k"
    "\<forall>i<n. currentWeight w ! i > - totalWeight w"
  using assms unfolding wrr_inv_def by blast+

lemma wrr_inv_step:
  assumes I: "wrr_inv w n k c" and len: "length list = n"
  shows "\<exists>w' m. wrr_Select w list = (w', list ! m) \<and> m < n \<and> wrr_inv w' n (Suc k) (c(m := c m + 1)) \<and>
    weights w' = weights w \<and> totalWeight w' = totalWeight w"
proof -
  let ?W = "totalWeight w" and ?ws = "weights w" and ?cs = "currentWeight w"
  note l = wrr_invD [OF I]
  obtain m where m: "wrr_loop ?ws [0..<n] ?cs None = (map (\<lambda>i. ?cs ! i + ?ws ! i) [0..<n], Some m)" "m < n"
    "\<forall>i < n. ?cs ! i + ?ws ! i \<le> ?cs ! m + ?ws ! m" using wrr_loop_max [OF l(2,1,3)] by blast
  let ?cur = "(map (\<lambda>i. ?cs ! i + ?ws ! i) [0..<n])[m := ?cs ! m + ?ws ! m - ?W]"
  let ?w = "w\<lparr>currentWeight := ?cur\<rparr>"
  have sel: "wrr_Select w list = (?w, list ! m)"
    using len l m by (simp add: wrr_Select_def)
  have cur: "?cur ! i = ?cs ! i + ?ws ! i - (if i = m then ?W else 0)" if "i < n" for i
    using that m(2) by (simp add: nth_list_update)
  have sumcs: "(\<Sum>i<n. ?cs ! i) = 0"
  proof -
    have "(\<Sum>i<n. ?cs ! i) = (\<Sum>i<n. int k * ?ws ! i - ?W * int (c i))" using l(7) by (intro sum.cong) auto
    also have "\<dots> = int k * (\<Sum>i<n. ?ws ! i) - ?W * int (\<Sum>i<n. c i)"
      by (simp add: sum_subtractf sum_distrib_left)
    also have "\<dots> = 0" using l(5,8) by simp
    finally show ?thesis .
  qed
  have pos: "?cs ! m + ?ws ! m > 0"
  proof (rule ccontr)
    assume "\<not> ?cs ! m + ?ws ! m > 0"
    then have "(\<Sum>i<n. ?cs ! i + ?ws ! i) \<le> 0" using m(3) by (intro sum_nonpos) force
    then show False using sumcs l(4,5) by (simp add: sum.distrib)
  qed
  have c': "(\<Sum>i<n. (c(m := c m + 1)) i) = Suc k"
  proof -
    have "(\<Sum>i<n. (c(m := c m + 1)) i) = (\<Sum>i<n. c i + (if i = m then 1 else 0))" by (intro sum.cong) auto
    also have "\<dots> = k + 1" using l(8) m(2) by (simp add: sum.distrib)
    finally show ?thesis by simp
  qed
  have "\<forall>i<n. ?cur ! i = int (Suc k) * ?ws ! i - ?W * int ((c(m := c m + 1)) i)"
    using cur l(7) by (auto simp: algebra_simps)
  moreover have "\<forall>i<n. ?cur ! i > - ?W"
  proof (intro allI impI)
    fix i assume i: "i < n"
    have "?cs ! i > - ?W" "?ws ! i \<ge> 0" using i l(6,9) by simp_all
    then show "?cur ! i > - ?W" using cur [OF i] pos by (cases "i = m") auto
  qed
  ultimately have "wrr_inv ?w n (Suc k) (c(m := c m + 1))"
    unfolding wrr_inv_def using l c' by simp
  then show ?thesis using sel m(2) by auto
qed

text \<open>The chosen indices of a run.\<close>

lemma wrr_run_inv:
  "wrr_inv w n k c \<Longrightarrow> length list = n \<Longrightarrow>
    \<exists>w' ms. wrr_run w list r = (w', map (\<lambda>m. list ! m) ms) \<and> length ms = r \<and> set ms \<subseteq> {..<n} \<and>
      wrr_inv w' n (k + r) (\<lambda>i. c i + count_list ms i) \<and> weights w' = weights w \<and> totalWeight w' = totalWeight w"
proof (induction r arbitrary: w k c)
  case 0
  then show ?case by simp
next
  case (Suc r)
  obtain w1 m where s: "wrr_Select w list = (w1, list ! m)" "m < n" "wrr_inv w1 n (Suc k) (c(m := c m + 1))"
    "weights w1 = weights w" "totalWeight w1 = totalWeight w"
    using wrr_inv_step [OF Suc.prems] by blast
  obtain w2 ms where r: "wrr_run w1 list r = (w2, map (\<lambda>m. list ! m) ms)" "length ms = r" "set ms \<subseteq> {..<n}"
    "wrr_inv w2 n (Suc k + r) (\<lambda>i. (c(m := c m + 1)) i + count_list ms i)"
    "weights w2 = weights w1" "totalWeight w2 = totalWeight w1"
    using Suc.IH [OF s(3) Suc.prems(2)] by blast
  have "(\<lambda>i. (c(m := c m + 1)) i + count_list ms i) = (\<lambda>i. c i + count_list (m # ms) i)" by auto
  then show ?case using s r by (intro exI [of _ w2] exI [of _ "m # ms"]) simp
qed

lemma wrr_period:
  assumes I: "wrr_inv w n k c" and k: "int k = totalWeight w"
  shows "\<forall>i<n. int (c i) = weights w ! i" "\<forall>i<n. currentWeight w ! i = 0"
proof -
  let ?W = "totalWeight w" and ?ws = "weights w"
  have l: "?W > 0" "?W = (\<Sum>i<n. ?ws ! i)" "(\<Sum>i<n. c i) = k"
    and cur: "\<And>i. i < n \<Longrightarrow> currentWeight w ! i = int k * ?ws ! i - ?W * int (c i)"
    and low: "\<And>i. i < n \<Longrightarrow> currentWeight w ! i > - ?W" using wrr_invD [OF I] by blast+
  have le: "int (c i) \<le> ?ws ! i" if "i < n" for i
  proof -
    have "?W * (?ws ! i - int (c i)) > ?W * (- 1)" using cur [OF that] low [OF that] k by (simp add: algebra_simps)
    then have "?ws ! i - int (c i) > - 1" using l(1) mult_less_cancel_left_pos by blast
    then show ?thesis by simp
  qed
  have "(\<Sum>i<n. ?ws ! i - int (c i)) = 0" using l(2,3) k by (simp add: sum_subtractf flip: of_nat_sum)
  moreover have "\<forall>i \<in> {..<n}. 0 \<le> ?ws ! i - int (c i)" using le by simp
  ultimately have "\<forall>i \<in> {..<n}. ?ws ! i - int (c i) = 0" by (subst (asm) sum_nonneg_eq_0_iff) auto
  then show eq: "\<forall>i<n. int (c i) = ?ws ! i" by simp
  show "\<forall>i<n. currentWeight w ! i = 0" using cur eq k by simp
qed

lemma wrr_new_inv:
  assumes "(\<Sum>x \<leftarrow> ws. max 0 x) > 0"
  shows "wrr_inv (NewWeightedRR ws) (length ws) 0 (\<lambda>_. 0)"
proof -
  have e: "(\<lambda>wt. if wt < 0 then 0 else wt) = max (0::int)" by (auto simp: max_def)
  have "ws \<noteq> []" using assms by auto
  moreover have "(\<Sum>i<length ws. max 0 (ws ! i)) = (\<Sum>x \<leftarrow> ws. max 0 x)"
    by (simp add: sum_list_sum_nth atLeast0LessThan)
  ultimately show ?thesis using assms by (simp add: wrr_inv_def NewWeightedRR_def Let_def e)
qed

lemma wrr_fair:
  assumes pos: "(\<Sum>x \<leftarrow> ws. max 0 x) > 0" and len: "length list = length ws"
  shows "\<exists>w' ms. wrr_run (NewWeightedRR ws) list (nat (\<Sum>x \<leftarrow> ws. max 0 x)) = (w', map (\<lambda>m. list ! m) ms) \<and>
    set ms \<subseteq> {..<length ws} \<and> (\<forall>i < length ws. int (count_list ms i) = max 0 (ws ! i)) \<and> w' = NewWeightedRR ws"
proof -
  let ?w = "NewWeightedRR ws" and ?r = "nat (\<Sum>x \<leftarrow> ws. max 0 x)" and ?n = "length ws"
  have e: "(\<lambda>wt. if wt < 0 then 0 else wt) = max (0::int)" by (auto simp: max_def)
  have W: "totalWeight ?w = (\<Sum>x \<leftarrow> ws. max 0 x)" "weights ?w = map (max 0) ws"
    by (simp_all add: NewWeightedRR_def Let_def e)
  obtain w' ms where r: "wrr_run ?w list ?r = (w', map (\<lambda>m. list ! m) ms)" "set ms \<subseteq> {..<?n}"
    "wrr_inv w' ?n ?r (\<lambda>i. count_list ms i)" "weights w' = weights ?w" "totalWeight w' = totalWeight ?w"
    using wrr_run_inv [OF wrr_new_inv [OF pos] len, of ?r] by auto
  have "int ?r = totalWeight w'" using r(5) W(1) pos by simp
  note P = wrr_period [OF r(3) this]
  have "length (currentWeight w') = ?n" using r(3) by (simp add: wrr_inv_def)
  then have "currentWeight w' = replicate ?n 0" using P(2) by (intro nth_equalityI) auto
  then have "w' = ?w" using r(4,5) by (simp add: NewWeightedRR_def Let_def)
  moreover have "\<forall>i < ?n. int (count_list ms i) = max 0 (ws ! i)" using P(1) r(4) W(2) by simp
  ultimately show ?thesis using r(1,2) by blast
qed

end
