(* ===== verification/Rpc_Client.thy ===== *)
theory Rpc_Client
  imports Rpc_Weighted Go_Strings
begin

text \<open>
  The calling side of \<open>swifty_rpc\<close>: the service registry cache (\<open>internal/registry\<close>), and the
  control flow of a call (\<open>internal/client/invoke.go\<close>, \<open>resolver.go\<close>): rate limit, discovery,
  load balancing, circuit breaker, connection, encoding, sending, and the outcome that is fed back to
  the breaker. What etcd, the network and the codec answer is in the argument \<open>call_env\<close>.
\<close>

subsection \<open>Registry\<close>

text \<open>For every service that was asked for, the addresses of its instances.\<close>

record Registry =
  rprefix :: string
  services :: "string \<Rightarrow> (string \<times> inst) list option"

definition NewRegistry :: Registry where
  "NewRegistry = \<lparr>rprefix = ''/github.com/hangtiancheng/swifty.go/swifty_rpc/services/'', services = Map.empty\<rparr>"

definition initService :: "Registry \<Rightarrow> string \<Rightarrow> (string \<times> string) list \<Rightarrow> Registry" where
  "initService r service kvs =
    (if services r service \<noteq> None then r
     else r\<lparr>services := (services r)(service \<mapsto> foldl (\<lambda>m (_, addr). AList.update addr addr m) [] kvs)\<rparr>)"

datatype watch_event = WatchPut string string | WatchDelete string

fun watch_event_step :: "Registry \<Rightarrow> string \<Rightarrow> watch_event \<Rightarrow> Registry" where
  "watch_event_step r service (WatchPut key val) =
     r\<lparr>services := (services r)(service := map_option (AList.update val val) (services r service))\<rparr>"
| "watch_event_step r service (WatchDelete key) =
     (let addr = TrimPrefix key (rprefix r @ service @ ''/'') in
      r\<lparr>services := (services r)(service := map_option (AList.delete addr) (services r service))\<rparr>)"

definition copyInstances :: "(string list \<Rightarrow> string list) \<Rightarrow> Registry \<Rightarrow> string \<Rightarrow> inst list" where
  "copyInstances ord r service = (case services r service of None \<Rightarrow> [] | Some m \<Rightarrow> ord (map snd m))"

text \<open>\<open>kvs\<close> is what etcd answers, \<open>None\<close> an error.\<close>

definition Discover :: "(string list \<Rightarrow> string list) \<Rightarrow> (string \<times> string) list option \<Rightarrow> Registry \<Rightarrow> string
    \<Rightarrow> Registry \<times> (string + inst list)" where
  "Discover ord kvs r service =
    (if services r service \<noteq> None then (r, Inr (copyInstances ord r service))
     else case kvs of None \<Rightarrow> (r, Inl ''discover failed'')
       | Some kvs \<Rightarrow> let r = initService r service kvs in (r, Inr (copyInstances ord r service)))"

subsection \<open>The client\<close>

record RpcClient =
  limiter :: TokenBucket
  breakers :: "string \<Rightarrow> CircuitBreaker option"

record call_env =
  discovered :: "(string + inst list) option"
  lb_choice :: "inst list \<Rightarrow> inst"
  acquire_ok :: bool
  marshal_ok :: bool
  send_ok :: bool
  cnow :: int

datatype invoke_result = RateLimited | AddrFailed string | BreakerOpen | AcquireFailed | MarshalErr | SendFailed | Sent string

definition getAddr :: "call_env \<Rightarrow> string + string" where
  "getAddr e = (case discovered e of
      None \<Rightarrow> Inl ''registry not configured''
    | Some (Inl err) \<Rightarrow> Inl err
    | Some (Inr instances) \<Rightarrow>
        if length instances = 0 then Inl ''no instance available''
        else let ins = lb_choice e instances in
          if ins = [] then Inl ''load balancer returned empty address'' else Inr ins)"

text \<open>
  \<open>float64(f) / float64(t) >= 0.6\<close> for the counts of a window of 10: the quotients are multiples of
  1/10 at that point, so the comparison of the nearest doubles is the exact one.
\<close>

definition rate_ge_06 :: "nat \<Rightarrow> nat \<Rightarrow> bool" where
  "rate_ge_06 f t \<longleftrightarrow> 5 * f \<ge> 3 * t"

definition breaker_key :: "string \<Rightarrow> string \<Rightarrow> string" where
  "breaker_key service addr = service @ ''|'' @ addr"

definition getBreaker :: "RpcClient \<Rightarrow> string \<Rightarrow> int \<Rightarrow> RpcClient \<times> CircuitBreaker" where
  "getBreaker c key now = (case breakers c key of
      Some b \<Rightarrow> (c, b)
    | None \<Rightarrow> let b = NewCircuitBreaker 10 rate_ge_06 (5 * 10 ^ 9) now in (c\<lparr>breakers := (breakers c)(key \<mapsto> b)\<rparr>, b))"

definition set_breaker :: "RpcClient \<Rightarrow> string \<Rightarrow> CircuitBreaker \<Rightarrow> RpcClient" where
  "set_breaker c key b = c\<lparr>breakers := (breakers c)(key \<mapsto> b)\<rparr>"

definition invokeAsync :: "RpcClient \<Rightarrow> call_env \<Rightarrow> string \<Rightarrow> RpcClient \<times> invoke_result" where
  "invokeAsync c e service =
    (let (tb, ok) = bucket_Allow (limiter c); c = c\<lparr>limiter := tb\<rparr> in
     if \<not> ok then (c, RateLimited)
     else case getAddr e of
       Inl err \<Rightarrow> (c, AddrFailed err)
     | Inr addr \<Rightarrow>
         let key = breaker_key service addr;
             (c, br) = getBreaker c key (cnow e);
             (br, allowed) = breaker_Allow br (cnow e);
             c = set_breaker c key br
         in if \<not> allowed then (c, BreakerOpen)
            else if \<not> acquire_ok e then (set_breaker c key (RecordFailure br (cnow e)), AcquireFailed)
            else if \<not> marshal_ok e then (c, MarshalErr)
            else if \<not> send_ok e then (set_breaker c key (RecordFailure br (cnow e)), SendFailed)
            else (c, Sent key))"

text \<open>The completion callback that \<open>invokeAsync\<close> puts on the future.\<close>

definition call_completed :: "RpcClient \<Rightarrow> string \<Rightarrow> bool \<Rightarrow> int \<Rightarrow> RpcClient" where
  "call_completed c key failed now = (case breakers c key of
      None \<Rightarrow> c
    | Some b \<Rightarrow> set_breaker c key (if failed then RecordFailure b now else RecordSuccess b now))"

text \<open>The terminal results of \<open>Recv\<close> on an observed stream; the first that counts is recorded, once.\<close>

datatype recv_outcome = RecvOk | RecvEOF | RecvCanceled | RecvOther

fun observedStream_Recv :: "CircuitBreaker \<times> bool \<Rightarrow> recv_outcome \<times> int \<Rightarrow> CircuitBreaker \<times> bool" where
  "observedStream_Recv (br, fired) (RecvOk, now) = (br, fired)"
| "observedStream_Recv (br, fired) (RecvEOF, now) = (if fired then (br, fired) else (RecordSuccess br now, True))"
| "observedStream_Recv (br, fired) (RecvCanceled, now) = (br, fired)"
| "observedStream_Recv (br, fired) (RecvOther, now) = (if fired then (br, fired) else (RecordFailure br now, True))"

subsection \<open>Lemmas\<close>

lemma foldl_update_keys:
  "fst ` set (foldl (\<lambda>m (_, addr). AList.update addr addr m) m kvs) = fst ` set m \<union> snd ` set kvs"
proof (induction kvs arbitrary: m)
  case (Cons kv kvs)
  obtain k v where "kv = (k, v)" by (cases kv)
  then show ?case using Cons.IH [of "AList.update v v m"] by (auto simp: dom_update)
qed simp

definition self_keyed :: "(string \<times> string) list \<Rightarrow> bool" where
  "self_keyed m \<longleftrightarrow> (\<forall>(k, v) \<in> set m. k = v)"

definition registry_inv :: "Registry \<Rightarrow> bool" where
  "registry_inv r \<longleftrightarrow> (\<forall>s m. services r s = Some m \<longrightarrow> self_keyed m)"

lemma set_update_subset: "set (AList.update k v m) \<subseteq> insert (k, v) (set m)"
  by (induction m) auto

lemma self_keyed_update: "self_keyed m \<Longrightarrow> self_keyed (AList.update a a m)"
  using set_update_subset [of a a m] by (auto simp: self_keyed_def)

lemma self_keyed_delete: "self_keyed m \<Longrightarrow> self_keyed (AList.delete a m)"
  by (auto simp: self_keyed_def AList.delete_eq)

lemma self_keyed_foldl: "self_keyed m \<Longrightarrow> self_keyed (foldl (\<lambda>m (_, addr). AList.update addr addr m) m kvs)"
  by (induction kvs arbitrary: m) (auto intro: self_keyed_update)

lemma self_keyed_snd: "self_keyed m \<Longrightarrow> snd ` set m = fst ` set m"
  by (force simp: self_keyed_def)

lemma registry_step_inv: "registry_inv r \<Longrightarrow> registry_inv (watch_event_step r service ev)"
  by (cases ev) (auto simp: registry_inv_def Let_def intro: self_keyed_update self_keyed_delete split: if_splits)

lemma registry_Discover_inv: "registry_inv r \<Longrightarrow> registry_inv (fst (Discover ord kvs r service))"
  by (auto simp: registry_inv_def Discover_def initService_def Let_def self_keyed_def [of "[]"]
      intro: self_keyed_foldl split: option.split if_splits)

text \<open>The instances known after the events: those put and not deleted since.\<close>

fun known_after :: "string \<Rightarrow> string set \<Rightarrow> watch_event list \<Rightarrow> string set" where
  "known_after prefix S [] = S"
| "known_after prefix S (WatchPut key val # evs) = known_after prefix (insert val S) evs"
| "known_after prefix S (WatchDelete key # evs) = known_after prefix (S - {TrimPrefix key prefix}) evs"

lemma watch_steps:
  "services r service = Some m \<Longrightarrow> \<exists>m'. services (foldl (\<lambda>r. watch_event_step r service) r evs) service = Some m' \<and>
    fst ` set m' = known_after (rprefix r @ service @ ''/'') (fst ` set m) evs"
proof (induction evs arbitrary: r m)
  case (Cons ev evs)
  show ?case
  proof (cases ev)
    case (WatchPut key val)
    have "services (watch_event_step r service ev) service = Some (AList.update val val m)"
      "rprefix (watch_event_step r service ev) = rprefix r" using Cons.prems WatchPut by simp_all
    from Cons.IH [OF this(1)] this(2) WatchPut show ?thesis by (simp add: dom_update)
  next
    case (WatchDelete key)
    let ?a = "TrimPrefix key (rprefix r @ service @ ''/'')"
    have d: "fst ` set (AList.delete ?a m) = fst ` set m - {?a}"
      by (simp add: dom_map_of_conv_image_fst [symmetric])
    have "services (watch_event_step r service ev) service = Some (AList.delete ?a m)"
      "rprefix (watch_event_step r service ev) = rprefix r" using Cons.prems WatchDelete by (simp_all add: Let_def)
    from Cons.IH [OF this(1)] this(2) WatchDelete d show ?thesis by simp
  qed
qed simp

lemma Discover_after_events:
  assumes I: "registry_inv r" and new: "services r service = None" and ord: "\<And>xs. set (ord xs) = set xs"
  shows "snd (Discover ord (Some kvs) r service) = Inr xs \<Longrightarrow> set xs = snd ` set kvs"
    and "snd (Discover ord kvs' (foldl (\<lambda>r. watch_event_step r service) (fst (Discover ord (Some kvs) r service)) evs) service) = Inr ys
      \<Longrightarrow> set ys = known_after (rprefix r @ service @ ''/'') (snd ` set kvs) evs"
proof -
  let ?m = "foldl (\<lambda>m (_, addr). AList.update addr addr m) [] kvs"
  let ?r = "fst (Discover ord (Some kvs) r service)"
  have k: "self_keyed ?m" by (rule self_keyed_foldl) (simp add: self_keyed_def)
  have r: "services ?r service = Some ?m" "rprefix ?r = rprefix r" using new by (simp_all add: Discover_def initService_def Let_def)
  have m: "set (map snd ?m) = snd ` set kvs" using self_keyed_snd [OF k] foldl_update_keys [of "[]" kvs] by simp
  show "snd (Discover ord (Some kvs) r service) = Inr xs \<Longrightarrow> set xs = snd ` set kvs"
  proof -
    have "snd (Discover ord (Some kvs) r service) = Inr (ord (map snd ?m))"
      using new by (simp add: Discover_def initService_def Let_def copyInstances_def)
    then show "snd (Discover ord (Some kvs) r service) = Inr xs \<Longrightarrow> set xs = snd ` set kvs"
      using ord [of "map snd ?m"] unfolding m by simp
  qed
  obtain m' where m': "services (foldl (\<lambda>r. watch_event_step r service) ?r evs) service = Some m'"
    "fst ` set m' = known_after (rprefix r @ service @ ''/'') (fst ` set ?m) evs"
    using watch_steps [OF r(1), of evs] unfolding r(2) by blast
  have "registry_inv (foldl (\<lambda>r. watch_event_step r service) ?r evs)"
    using registry_Discover_inv [OF I] by (induction evs rule: rev_induct) (auto intro: registry_step_inv)
  then have "self_keyed m'" using m'(1) by (simp add: registry_inv_def)
  then have "set (map snd m') = known_after (rprefix r @ service @ ''/'') (snd ` set kvs) evs"
    using m'(2) self_keyed_snd self_keyed_snd [OF k] foldl_update_keys [of "[]" kvs] by simp
  then show "snd (Discover ord kvs' (foldl (\<lambda>r. watch_event_step r service) ?r evs) service) = Inr ys
      \<Longrightarrow> set ys = known_after (rprefix r @ service @ ''/'') (snd ` set kvs) evs"
    using m'(1) ord by (auto simp: Discover_def copyInstances_def)
qed

text \<open>What each result of a call says about the breaker of the chosen address.\<close>

definition breaker_of :: "RpcClient \<Rightarrow> string \<Rightarrow> int \<Rightarrow> CircuitBreaker" where
  "breaker_of c key now = snd (getBreaker c key now)"

lemma getBreaker_frame:
  "breakers (fst (getBreaker c key now)) = (breakers c)(key \<mapsto> breaker_of c key now)" "limiter (fst (getBreaker c key now)) = limiter c"
  by (cases "breakers c key"; simp add: breaker_of_def getBreaker_def Let_def fun_upd_idem)+

lemma invokeAsync_admitted:
  fixes service :: string
  assumes tok: "tokens (limiter c) > 0" and a: "getAddr e = Inr addr"
  defines "key \<equiv> breaker_key service addr" and "br \<equiv> breaker_Allow (breaker_of c (breaker_key service addr) (cnow e)) (cnow e)"
  shows "snd (invokeAsync c e service) =
      (if \<not> snd br then BreakerOpen else if \<not> acquire_ok e then AcquireFailed else if \<not> marshal_ok e then MarshalErr
       else if \<not> send_ok e then SendFailed else Sent key)"
    and "breakers (fst (invokeAsync c e service)) key =
      Some (case snd (invokeAsync c e service) of AcquireFailed \<Rightarrow> RecordFailure (fst br) (cnow e)
        | SendFailed \<Rightarrow> RecordFailure (fst br) (cnow e) | _ \<Rightarrow> fst br)"
    and "\<And>k. k \<noteq> key \<Longrightarrow> breakers (fst (invokeAsync c e service)) k = breakers c k"
proof -
  obtain tb where ok: "bucket_Allow (limiter c) = (tb, True)" using tok by (simp add: bucket_Allow_def)
  let ?c = "c\<lparr>limiter := tb\<rparr>"
  have b: "breaker_of ?c k now = breaker_of c k now" "breakers ?c = breakers c" for k now
    by (auto simp: breaker_of_def getBreaker_def Let_def split: option.split)
  obtain c2 where g: "getBreaker ?c key (cnow e) = (c2, breaker_of c key (cnow e))"
    by (metis b(1) breaker_of_def prod.collapse)
  have c2: "breakers c2 = (breakers c)(key \<mapsto> breaker_of c key (cnow e))"
    using getBreaker_frame(1) [of ?c key "cnow e"] g b by simp
  obtain br1 al where br: "breaker_Allow (breaker_of c key (cnow e)) (cnow e) = (br1, al)" by fastforce
  have brs: "br = (br1, al)" using br by (simp add: br_def key_def)
  have eq: "invokeAsync c e service =
      (let c1 = set_breaker c2 key br1 in
       if \<not> al then (c1, BreakerOpen)
       else if \<not> acquire_ok e then (set_breaker c1 key (RecordFailure br1 (cnow e)), AcquireFailed)
       else if \<not> marshal_ok e then (c1, MarshalErr)
       else if \<not> send_ok e then (set_breaker c1 key (RecordFailure br1 (cnow e)), SendFailed)
       else (c1, Sent key))"
    using g br unfolding key_def by (simp add: invokeAsync_def ok a Let_def)
  show "snd (invokeAsync c e service) =
      (if \<not> snd br then BreakerOpen else if \<not> acquire_ok e then AcquireFailed else if \<not> marshal_ok e then MarshalErr
       else if \<not> send_ok e then SendFailed else Sent key)"
    unfolding eq brs by (simp add: Let_def)
  show "breakers (fst (invokeAsync c e service)) key =
      Some (case snd (invokeAsync c e service) of AcquireFailed \<Rightarrow> RecordFailure (fst br) (cnow e)
        | SendFailed \<Rightarrow> RecordFailure (fst br) (cnow e) | _ \<Rightarrow> fst br)"
    unfolding eq brs by (simp add: Let_def set_breaker_def)
  show "\<And>k. k \<noteq> key \<Longrightarrow> breakers (fst (invokeAsync c e service)) k = breakers c k"
    unfolding eq by (simp add: Let_def set_breaker_def c2)
qed

lemma invokeAsync_limited: "tokens (limiter c) = 0 \<Longrightarrow> invokeAsync c e service = (c, RateLimited)"
  by (simp add: invokeAsync_def bucket_Allow_def)

text \<open>
  A call that fails to encode its arguments after it was let through as the probe of a half open
  breaker is never recorded: the breaker stays half open, and no later call to that address passes,
  however long it waits.
\<close>

lemma marshal_failure_sticks:
  assumes inv: "breaker_inv b" and b: "breakers c (breaker_key service addr) = Some b" "bstate b = Open"
    and late: "cnow e - lastStateChange b > openTimeout b"
    and tok: "tokens (limiter c) > 0" and a: "getAddr e = Inr addr" and m: "acquire_ok e" "\<not> marshal_ok e"
  shows "snd (invokeAsync c e service) = MarshalErr"
    and "\<exists>b'. breakers (fst (invokeAsync c e service)) (breaker_key service addr) = Some b' \<and> bstate b' = HalfOpen \<and> breaker_inv b'"
proof -
  have o: "breaker_of c (breaker_key service addr) (cnow e) = b" using b by (simp add: breaker_of_def getBreaker_def)
  have al: "breaker_Allow b (cnow e) = (b\<lparr>bstate := HalfOpen, halfOpenProbe := True\<rparr>, True)"
    using b late by (simp add: breaker_Allow_def)
  note R = invokeAsync_admitted [OF tok a, of service, unfolded o al fst_conv snd_conv]
  show "snd (invokeAsync c e service) = MarshalErr" using R(1) m by simp
  have "breaker_inv (b\<lparr>bstate := HalfOpen, halfOpenProbe := True\<rparr>)"
    using breaker_step_inv [OF inv, of "(BAllow, cnow e)"] al by simp
  then show "\<exists>b'. breakers (fst (invokeAsync c e service)) (breaker_key service addr) = Some b' \<and> bstate b' = HalfOpen \<and> breaker_inv b'"
    using R(1,2) m by simp
qed

lemma halfopen_refuses:
  assumes b: "breakers c (breaker_key service addr) = Some b" "bstate b = HalfOpen" "breaker_inv b"
    and a: "getAddr e = Inr addr"
  shows "snd (invokeAsync c e service) \<in> {RateLimited, BreakerOpen}"
    and "breakers (fst (invokeAsync c e service)) (breaker_key service addr) = Some b"
proof -
  have o: "breaker_of c (breaker_key service addr) (cnow e) = b" using b by (simp add: breaker_of_def getBreaker_def)
  have al: "breaker_Allow b (cnow e) = (b, False)" using b by (simp add: breaker_Allow_def breaker_inv_def)
  show "snd (invokeAsync c e service) \<in> {RateLimited, BreakerOpen}"
    and "breakers (fst (invokeAsync c e service)) (breaker_key service addr) = Some b"
    using invokeAsync_admitted [OF _ a, of c service, unfolded o al fst_conv snd_conv] invokeAsync_limited [of c e service] b
    by (cases "tokens (limiter c) = 0"; simp)+
qed

lemma observed_once:
  "snd (foldl observedStream_Recv (br, True) rs) \<and> fst (foldl observedStream_Recv (br, True) rs) = br"
proof (induction rs)
  case (Cons r rs)
  obtain o' now where "r = (o', now)" by (cases r)
  then show ?case using Cons by (cases o') auto
qed simp

end
