(* ===== verification/Rpc_Server.thy ===== *)
theory Rpc_Server
  imports Rpc_Message Rpc_Control
begin

text \<open>
  The serving side of \<open>swifty_rpc\<close>: \<open>Handler.Process\<close>, \<open>invoke\<close> and
  \<open>safeCall\<close> of \<open>internal/server/handler.go\<close>, the server stream of \<open>stream.go\<close> and
  the connection loop \<open>Handle\<close> of \<open>server.go\<close>. A service method is represented by what
  reflection tells about its signature and by what calling it does; what a handler writes to the
  connection is the list of messages. Writes that fail are ignored by the code, so the list is what it
  attempts to write.
\<close>

text \<open>What a call of the user's method ends with; \<open>RNil\<close> is a nil pointer result.\<close>

datatype ret = RPanic string | RError string | RNil | RValue bytes

text \<open>
  The reflected signature. \<open>rpc_unary\<close> decodes the body and calls the method (\<open>Inl\<close> is the
  error of the codec), \<open>rpc_stream\<close> additionally gives the bodies it sends.
\<close>

record smethod =
  numIn :: nat
  numOut :: nat
  in0_context :: bool
  in0_ptr :: bool
  in1_ptr :: bool
  in1_stream :: bool
  out0_ptr :: bool
  out0_error :: bool
  out1_error :: bool
  rpc_unary :: "bytes \<Rightarrow> string + ret"
  rpc_stream :: "bytes \<Rightarrow> string + (bytes list \<times> ret)"

type_synonym service = "string \<Rightarrow> smethod option"

datatype invoked = InvErr string | InvResult "bytes option" | InvStream "bytes list" "string option"

definition safeCall_error :: "ret \<Rightarrow> string option" where
  "safeCall_error r = (case r of RPanic p \<Rightarrow> Some (''handler panic: '' @ p) | RError e \<Rightarrow> Some e | _ \<Rightarrow> None)"

definition unsupported :: "string \<Rightarrow> string \<Rightarrow> string" where
  "unsupported sn mn = ''unsupported method signature: '' @ sn @ ''.'' @ mn"

definition invoke :: "service option \<Rightarrow> string \<Rightarrow> string \<Rightarrow> bytes \<Rightarrow> invoked" where
  "invoke svc sn mn bdy = (case svc of
      None \<Rightarrow> InvErr (''service not found: '' @ sn)
    | Some s \<Rightarrow> (case s mn of
        None \<Rightarrow> InvErr (''method not found: '' @ sn @ ''.'' @ mn)
      | Some m \<Rightarrow>
          if numIn m = 2 \<and> numOut m = 2 \<and> in0_context m \<and> in1_ptr m \<and> out0_ptr m \<and> out1_error m then
            (case rpc_unary m bdy of
              Inl e \<Rightarrow> InvErr e
            | Inr r \<Rightarrow> (case safeCall_error r of
                Some e \<Rightarrow> InvErr e
              | None \<Rightarrow> InvResult (case r of RValue v \<Rightarrow> Some v | _ \<Rightarrow> None)))
          else if numIn m = 2 \<and> numOut m = 1 \<and> out0_error m then
            (if \<not> in0_ptr m then InvErr (unsupported sn mn)
             else if in1_stream m then
               (case rpc_stream m bdy of
                 Inl e \<Rightarrow> InvErr e
               | Inr (frames, r) \<Rightarrow> InvStream frames (safeCall_error r))
             else (case rpc_unary m bdy of
                 Inl e \<Rightarrow> InvErr e
               | Inr r \<Rightarrow>
                   if in1_ptr m then
                     (case safeCall_error r of
                       Some e \<Rightarrow> InvErr e
                     | None \<Rightarrow> InvResult (case r of RValue v \<Rightarrow> Some v | _ \<Rightarrow> None))
                   else InvErr (unsupported sn mn)))
          else InvErr (unsupported sn mn)))"

definition reply_header :: "64 word \<Rightarrow> byte \<Rightarrow> string \<Rightarrow> Header" where
  "reply_header rid flag err = \<lparr>RequestID = rid, ServiceName = [], MethodName = [], HError = err, CodecType = 0,
     Compression = CompressionGzip, StreamFlag = flag\<rparr>"

definition writeError :: "64 word \<Rightarrow> string \<Rightarrow> Message" where
  "writeError rid err = \<lparr>header = reply_header rid StreamNone err, body = []\<rparr>"

definition stream_Send :: "64 word \<Rightarrow> bytes \<Rightarrow> Message" where
  "stream_Send rid b = \<lparr>header = reply_header rid StreamData [], body = b\<rparr>"

definition stream_end :: "64 word \<Rightarrow> Message" where
  "stream_end rid = \<lparr>header = reply_header rid StreamEnd [], body = []\<rparr>"

definition stream_sendError :: "64 word \<Rightarrow> string \<Rightarrow> Message" where
  "stream_sendError rid err = \<lparr>header = reply_header rid StreamError err, body = []\<rparr>"

text \<open>
  \<open>Process\<close>; \<open>known_codec\<close> says which codec types are registered. For a nil result the
  body stays nil. A marshalled result goes through the codec of the request.
\<close>

definition Process :: "(byte \<Rightarrow> bool) \<Rightarrow> (bytes \<Rightarrow> string + bytes) \<Rightarrow> service option \<Rightarrow> Message \<Rightarrow> Message list" where
  "Process known_codec marshal_value svc msg =
    (let h = header msg; rid = RequestID h in
     if CodecType h \<noteq> 0 \<and> \<not> known_codec (CodecType h) then [writeError rid ''codec: type not registered'']
     else case invoke svc (ServiceName h) (MethodName h) (body msg) of
       InvStream frames err \<Rightarrow>
         map (stream_Send rid) frames @ [case err of Some e \<Rightarrow> stream_sendError rid e | None \<Rightarrow> stream_end rid]
     | InvErr e \<Rightarrow> [writeError rid e]
     | InvResult res \<Rightarrow>
         (case (case res of None \<Rightarrow> Inr [] | Some v \<Rightarrow> marshal_value v) of
           Inl e \<Rightarrow> [writeError rid e]
         | Inr b \<Rightarrow> [\<lparr>header = reply_header rid StreamNone [], body = b\<rparr>]))"

text \<open>
  \<open>Handle\<close> on the messages that the connection delivers before the read fails. Streaming handlers
  run in their own goroutines; their frames are listed where the request was read, which fixes one of
  the possible interleavings with other requests.
\<close>

fun Handle :: "(byte \<Rightarrow> bool) \<Rightarrow> (bytes \<Rightarrow> string + bytes) \<Rightarrow> (string \<Rightarrow> service option) \<Rightarrow> TokenBucket
    \<Rightarrow> Message list \<Rightarrow> TokenBucket \<times> Message list list" where
  "Handle kc mv services tb [] = (tb, [])"
| "Handle kc mv services tb (msg # msgs) =
    (let (tb, ok) = bucket_Allow tb;
         out = (if \<not> ok then [writeError (RequestID (header msg)) ''rate limit exceeded'']
                else Process kc mv (services (ServiceName (header msg))) msg);
         (tb, outs) = Handle kc mv services tb msgs
     in (tb, out # outs))"

subsection \<open>Every request is answered\<close>

definition terminal :: "Message \<Rightarrow> bool" where
  "terminal m \<longleftrightarrow> StreamFlag (header m) \<noteq> StreamData"

text \<open>The answers to one request: data frames, then exactly one terminal message, all under its number.\<close>

definition answers :: "64 word \<Rightarrow> Message list \<Rightarrow> bool" where
  "answers rid out \<longleftrightarrow> (\<exists>frames last. out = frames @ [last] \<and> list_all (\<lambda>m. \<not> terminal m) frames \<and> terminal last \<and>
     list_all (\<lambda>m. RequestID (header m) = rid) out)"

lemmas reply_defs = writeError_def stream_Send_def stream_end_def stream_sendError_def reply_header_def
  terminal_def StreamNone_def StreamData_def StreamEnd_def StreamError_def

lemma answers_single: "RequestID (header m) = rid \<Longrightarrow> terminal m \<Longrightarrow> answers rid [m]"
  unfolding answers_def by (intro exI [of _ "[]"] exI [of _ m]) simp

lemma answers_stream:
  "answers rid (map (stream_Send rid) frames @ [case err of Some e \<Rightarrow> stream_sendError rid e | None \<Rightarrow> stream_end rid])"
  unfolding answers_def
  by (intro exI [of _ "map (stream_Send rid) frames"] exI [of _ "case err of Some e \<Rightarrow> stream_sendError rid e | None \<Rightarrow> stream_end rid"])
    (auto simp: reply_defs list_all_iff split: option.split)

lemma answers_error: "answers rid [writeError rid e]"
  by (rule answers_single) (simp_all add: reply_defs)

lemma Process_answers: "answers (RequestID (header msg)) (Process kc mv svc msg)"
proof -
  have reply: "answers rid [\<lparr>header = reply_header rid StreamNone [], body = b\<rparr>]" for rid b
    by (rule answers_single) (simp_all add: reply_defs)
  show ?thesis
    unfolding Process_def Let_def using answers_error reply answers_stream
    by (auto split: invoked.split sum.split)
qed

lemma Handle_answers:
  "length (snd (Handle kc mv services tb msgs)) = length msgs \<and>
    (\<forall>i < length msgs. answers (RequestID (header (msgs ! i))) (snd (Handle kc mv services tb msgs) ! i))"
proof (induction msgs arbitrary: tb)
  case (Cons msg msgs)
  obtain tb' ok where a: "bucket_Allow tb = (tb', ok)" by fastforce
  let ?out = "if \<not> ok then [writeError (RequestID (header msg)) ''rate limit exceeded'']
                else Process kc mv (services (ServiceName (header msg))) msg"
  have "snd (Handle kc mv services tb (msg # msgs)) = ?out # snd (Handle kc mv services tb' msgs)"
    by (simp add: a case_prod_unfold Let_def)
  moreover have "answers (RequestID (header msg)) ?out" using Process_answers answers_error by simp
  ultimately show ?case using Cons.IH [of tb'] by (auto simp: nth_Cons split: nat.split)
qed simp

text \<open>No more requests than tokens reach a service.\<close>

definition rate_limited :: "Message list \<Rightarrow> bool" where
  "rate_limited out \<longleftrightarrow> (\<exists>m. out = [m] \<and> HError (header m) = ''rate limit exceeded'')"

lemma Handle_limit:
  "length (filter (\<lambda>out. \<not> rate_limited out) (snd (Handle kc mv services tb msgs))) \<le> tokens tb"
proof (induction msgs arbitrary: tb)
  case (Cons msg msgs)
  obtain tb' ok where a: "bucket_Allow tb = (tb', ok)" by fastforce
  let ?out = "if \<not> ok then [writeError (RequestID (header msg)) ''rate limit exceeded'']
                else Process kc mv (services (ServiceName (header msg))) msg"
  have e: "snd (Handle kc mv services tb (msg # msgs)) = ?out # snd (Handle kc mv services tb' msgs)"
    by (simp add: a case_prod_unfold Let_def)
  show ?case
  proof (cases ok)
    case True
    then have "Suc (tokens tb') = tokens tb" using a by (auto simp: bucket_Allow_def split: if_splits)
    then show ?thesis unfolding e using Cons.IH [of tb'] by simp
  next
    case False
    then have "rate_limited ?out" by (simp add: rate_limited_def reply_defs)
    moreover have "tb' = tb" using a False by (auto simp: bucket_Allow_def split: if_splits)
    ultimately show ?thesis unfolding e using Cons.IH [of tb] False by simp
  qed
qed simp

text \<open>A panic or an error of the service becomes an error answer of that request alone.\<close>

lemma Process_panic:
  assumes "svc = Some s" "s (MethodName (header msg)) = Some m" "numIn m = 2" "numOut m = 2" "in0_context m" "in1_ptr m"
    "out0_ptr m" "out1_error m" "rpc_unary m (body msg) = Inr (RPanic p)" "CodecType (header msg) = 0"
  shows "Process kc mv svc msg = [writeError (RequestID (header msg)) (''handler panic: '' @ p)]"
  using assms by (simp add: Process_def invoke_def safeCall_error_def Let_def)

end
