(* ===== verification/Call_Properties.thy ===== *)
theory Call_Properties
  imports Rpc_Client Rpc_Server
begin

text \<open>The properties of a call of \<open>swifty_rpc\<close>, from the client's controls to the server's answer.\<close>



text \<open>While an open breaker learns of no outcome, it lets at most one probe through.\<close>

theorem breaker_one_probe:
  assumes "breaker_inv cb" "bstate cb = Open" "\<forall>(op, _) \<in> set ops. op = BAllow"
  shows "count_allowed (snd (breaker_run cb ops)) \<le> 1"
  using assms by (rule open_one_probe)

definition open_breaker :: CircuitBreaker where
  "open_breaker = (NewCircuitBreaker 2 rate_ge_06 10 0)\<lparr>bstate := Open\<rparr>"

lemma open_breaker_inv: "breaker_inv open_breaker" "bstate open_breaker = Open"
  by (simp_all add: open_breaker_def breaker_inv_def NewCircuitBreaker_def)

theorem breaker_one_probe_witness: "count_allowed (snd (breaker_run open_breaker [(BAllow, 5), (BAllow, 11), (BAllow, 12)])) \<le> 1"
  by (rule breaker_one_probe [OF open_breaker_inv]) simp

text \<open>Smooth weighted round robin is fair: in every period it picks instance i exactly weight i
  times, and is then back at its start.\<close>

theorem weighted_fair:
  assumes "(\<Sum>x \<leftarrow> ws. max 0 x) > 0" "length list = length ws"
  shows "\<exists>w' ms. wrr_run (NewWeightedRR ws) list (nat (\<Sum>x \<leftarrow> ws. max 0 x)) = (w', map (\<lambda>m. list ! m) ms) \<and>
    set ms \<subseteq> {..<length ws} \<and> (\<forall>i < length ws. int (count_list ms i) = max 0 (ws ! i)) \<and> w' = NewWeightedRR ws"
  using assms by (rule wrr_fair)

theorem weighted_fair_witness:
  "\<exists>ms. snd (wrr_run (NewWeightedRR [2, 1]) [''a'', ''b''] 3) = map (\<lambda>m. [''a'', ''b''] ! m) ms \<and> count_list ms 0 = 2 \<and> count_list ms 1 = 1"
proof -
  have s: "(\<Sum>x \<leftarrow> [2, 1 :: int]. max 0 x) > 0" and n: "nat (\<Sum>x \<leftarrow> [2, 1 :: int]. max 0 x) = 3"
    and l: "length [''a'', ''b''] = length [2, 1 :: int]" by simp_all
  obtain w' ms where m: "wrr_run (NewWeightedRR [2, 1]) [''a'', ''b''] 3 = (w', map (\<lambda>m. [''a'', ''b''] ! m) ms)"
    "\<forall>i < length [2, 1 :: int]. int (count_list ms i) = max 0 ([2, 1] ! i)"
    using weighted_fair [OF s l] unfolding n by blast
  have "int (count_list ms 0) = 2" "int (count_list ms 1) = 1" using m(2) [rule_format, of 0] m(2) [rule_format, of 1] by simp_all
  then show ?thesis using m(1) by (intro exI [of _ ms]) (simp del: wrr_run.simps)
qed

text \<open>A call that the limiter admits ends as the first obstacle on its way says; the breaker of the
  chosen address, and no other, is told of connection and send failures.\<close>

theorem call_outcome:
  assumes "tokens (limiter c) > 0" "getAddr e = Inr addr"
    and "br = breaker_Allow (breaker_of c (breaker_key service addr) (cnow e)) (cnow e)"
  shows "snd (invokeAsync c e service) =
      (if \<not> snd br then BreakerOpen else if \<not> acquire_ok e then AcquireFailed else if \<not> marshal_ok e then MarshalErr
       else if \<not> send_ok e then SendFailed else Sent (breaker_key service addr)) \<and>
    breakers (fst (invokeAsync c e service)) (breaker_key service addr) =
      Some (case snd (invokeAsync c e service) of AcquireFailed \<Rightarrow> RecordFailure (fst br) (cnow e)
        | SendFailed \<Rightarrow> RecordFailure (fst br) (cnow e) | _ \<Rightarrow> fst br) \<and>
    (\<forall>k. k \<noteq> breaker_key service addr \<longrightarrow> breakers (fst (invokeAsync c e service)) k = breakers c k)"
  using invokeAsync_admitted [OF assms(1,2)] unfolding assms(3) by blast

definition demo_client :: RpcClient where
  "demo_client = \<lparr>limiter = \<lparr>tokens = 2, rate = 1\<rparr>, breakers = [breaker_key ''s'' ''a'' \<mapsto> open_breaker]\<rparr>"

definition demo_call :: "bool \<Rightarrow> bool \<Rightarrow> call_env" where
  "demo_call m s = \<lparr>discovered = Some (Inr [''a'']), lb_choice = hd, acquire_ok = True, marshal_ok = m, send_ok = s, cnow = 20\<rparr>"

lemma demo_call_addr: "tokens (limiter demo_client) > 0" "getAddr (demo_call m s) = Inr ''a''"
  by (simp_all add: demo_client_def demo_call_def getAddr_def)

lemma demo_probe: "snd (breaker_Allow (breaker_of demo_client (breaker_key ''s'' ''a'') 20) 20)"
  by (simp add: breaker_of_def getBreaker_def demo_client_def breaker_Allow_def open_breaker_def NewCircuitBreaker_def)

theorem call_outcome_witness: "snd (invokeAsync demo_client (demo_call True True) ''s'') = Sent (breaker_key ''s'' ''a'')"
  using call_outcome [OF demo_call_addr refl, of True True "''s''"] demo_probe by (simp add: demo_call_def)

text \<open>A probe whose arguments cannot be encoded is never recorded: the breaker stays half open.\<close>

theorem marshal_failure_leaves_half_open:
  assumes "breaker_inv b" "breakers c (breaker_key service addr) = Some b" "bstate b = Open"
    and "cnow e - lastStateChange b > openTimeout b"
    and "tokens (limiter c) > 0" "getAddr e = Inr addr" "acquire_ok e" "\<not> marshal_ok e"
  shows "snd (invokeAsync c e service) = MarshalErr \<and>
    (\<exists>b'. breakers (fst (invokeAsync c e service)) (breaker_key service addr) = Some b' \<and> bstate b' = HalfOpen \<and>
      (\<forall>ops. (\<forall>(op, _) \<in> set ops. op = BAllow) \<longrightarrow> breaker_run b' ops = (b', replicate (length ops) False)))"
proof -
  obtain b' where b': "breakers (fst (invokeAsync c e service)) (breaker_key service addr) = Some b'" "bstate b' = HalfOpen" "breaker_inv b'"
    using marshal_failure_sticks(2) [OF assms] by blast
  show ?thesis using marshal_failure_sticks(1) [OF assms] halfopen_stuck [OF b'(3,2)] b' by blast
qed

theorem marshal_failure_leaves_half_open_witness:
  "\<exists>b'. breakers (fst (invokeAsync demo_client (demo_call False True) ''s'')) (breaker_key ''s'' ''a'') = Some b' \<and> bstate b' = HalfOpen"
proof -
  have "breakers demo_client (breaker_key ''s'' ''a'') = Some open_breaker" by (simp add: demo_client_def)
  from marshal_failure_leaves_half_open [OF open_breaker_inv(1) this open_breaker_inv(2) _ demo_call_addr, of False True]
  show ?thesis by (auto simp: demo_call_def open_breaker_def NewCircuitBreaker_def)
qed



text \<open>What Discover returns is the registry's snapshot changed by the watch events since, each
  address once it was put and until it is deleted.\<close>

theorem discover_current:
  assumes "registry_inv r" "services r service = None" "\<And>xs. set (ord xs) = set xs"
    and "snd (Discover ord kvs' (foldl (\<lambda>r. watch_event_step r service) (fst (Discover ord (Some kvs) r service)) evs) service) = Inr ys"
  shows "set ys = known_after (rprefix r @ service @ ''/'') (snd ` set kvs) evs"
  using assms by (rule Discover_after_events(2))

theorem discover_current_witness:
  "\<exists>ys. snd (Discover (\<lambda>xs. xs) None (watch_event_step (fst (Discover (\<lambda>xs. xs) (Some [(''k'', ''a'')]) NewRegistry ''s'')) ''s''
      (WatchPut ''l'' ''b'')) ''s'') = Inr ys \<and> set ys = {''a'', ''b''}"
proof -
  obtain ys where ys: "snd (Discover (\<lambda>xs. xs) None (foldl (\<lambda>r. watch_event_step r ''s'') (fst (Discover (\<lambda>xs. xs) (Some [(''k'', ''a'')]) NewRegistry ''s''))
      [WatchPut ''l'' ''b'']) ''s'') = Inr ys"
    by (simp add: Discover_def initService_def NewRegistry_def Let_def)
  have "registry_inv NewRegistry" "services NewRegistry ''s'' = None" by (simp_all add: registry_inv_def NewRegistry_def)
  from discover_current [OF this _ ys] ys show ?thesis by auto
qed

end
