(* ===== verification/Http_Router.thy ===== *)
theory Http_Router
  imports Go_Strings
begin

text \<open>
  The routing trie of \<open>swifty_http/trie.go\<close> and the route table of \<open>router.go\<close>. A
  \<open>*node\<close> is a tree value: the code reaches every node through its parent only. The index
  \<open>height\<close> into \<open>parts\<close> is the list of the parts that are left. \<open>None\<close> stands for the panic
  of indexing an empty string.
\<close>

datatype node = Node (npattern: string) (npart: string) (nchildren: "node list") (nwild: bool)

definition empty_node :: node where
  "empty_node = Node [] [] [] False"

text \<open>The position of the first child with that part, \<open>matchChild\<close>.\<close>

fun matchChild :: "node list \<Rightarrow> string \<Rightarrow> nat option" where
  "matchChild [] part = None"
| "matchChild (c # cs) part = (if npart c = part then Some 0 else map_option Suc (matchChild cs part))"

definition matchChildren :: "node list \<Rightarrow> string \<Rightarrow> node list" where
  "matchChildren cs part = filter (\<lambda>c. npart c = part) cs @ filter (\<lambda>c. npart c \<noteq> part \<and> nwild c) cs"

fun wild_part :: "string \<Rightarrow> bool option" where
  "wild_part [] = None"
| "wild_part (c # cs) = Some (c = CHR '':'' \<or> c = CHR ''*'')"

fun insert_node :: "string \<Rightarrow> string list \<Rightarrow> node \<Rightarrow> node option" where
  "insert_node pattern [] (Node pat p cs w) = Some (Node pattern p cs w)"
| "insert_node pattern (part # parts) (Node pat p cs w) =
    (case matchChild cs part of
      None \<Rightarrow> do {
        wild \<leftarrow> wild_part part;
        child \<leftarrow> insert_node pattern parts (Node [] part [] wild);
        Some (Node pat p (cs @ [child]) w)
      }
    | Some i \<Rightarrow> do {
        child \<leftarrow> insert_node pattern parts (cs ! i);
        Some (Node pat p (cs[i := child]) w)
      })"

text \<open>The loop of \<open>search\<close> over the children: the first result that is not nil.\<close>

fun first_some :: "('a \<Rightarrow> 'b option) \<Rightarrow> 'a list \<Rightarrow> 'b option" where
  "first_some f [] = None"
| "first_some f (x # xs) = (case f x of Some y \<Rightarrow> Some y | None \<Rightarrow> first_some f xs)"

fun search_node :: "string list \<Rightarrow> node \<Rightarrow> node option" where
  "search_node [] n = (if npattern n = [] then None else Some n)"
| "search_node (part # parts) n =
    (if HasPrefix (npart n) ''*'' then (if npattern n = [] then None else Some n)
     else first_some (search_node parts) (matchChildren (nchildren n) part))"

fun travel :: "node \<Rightarrow> node list" where
  "travel (Node pat p cs w) = (if pat \<noteq> [] then [Node pat p cs w] else []) @ concat (map travel cs)"

subsection \<open>The route table\<close>

record 'h router =
  roots :: "string \<Rightarrow> node option"
  handlers :: "string \<Rightarrow> 'h option"

definition newRouter :: "'h router" where
  "newRouter = \<lparr>roots = Map.empty, handlers = Map.empty\<rparr>"

text \<open>The loop of \<open>parsePattern\<close>: empty parts are dropped, a part with a star is the last one.\<close>

fun parse_parts :: "string list \<Rightarrow> string list" where
  "parse_parts [] = []"
| "parse_parts (item # vs) =
    (if item \<noteq> [] then (if hd item = CHR ''*'' then [item] else item # parse_parts vs)
     else parse_parts vs)"

definition parsePattern :: "string \<Rightarrow> string list" where
  "parsePattern pattern = parse_parts (Split (CHR ''/'') pattern)"

definition route_key :: "string \<Rightarrow> string \<Rightarrow> string" where
  "route_key meth pattern = meth @ ''-'' @ pattern"

definition addRoute :: "'h router \<Rightarrow> string \<Rightarrow> string \<Rightarrow> 'h \<Rightarrow> 'h router option" where
  "addRoute r meth pattern handler = do {
     let parts = parsePattern pattern;
     let pattern = ''/'' @ Join parts ''/'';
     let root = (case roots r meth of None \<Rightarrow> empty_node | Some n \<Rightarrow> n);
     root \<leftarrow> insert_node pattern parts root;
     Some (r\<lparr>roots := (roots r)(meth \<mapsto> root), handlers := (handlers r)(route_key meth pattern \<mapsto> handler)\<rparr>)
   }"

text \<open>
  The loop of \<open>getRoute\<close> that binds the parameters: \<open>parts\<close> is what is left of the pattern, \<open>ss\<close>
  of the path. An index past the end of the path panics.
\<close>

fun bind_params :: "string list \<Rightarrow> string list \<Rightarrow> (string \<Rightarrow> string option) \<Rightarrow> (string \<Rightarrow> string option) option" where
  "bind_params [] ss params = Some params"
| "bind_params (part # parts) ss params =
    (if hd part = CHR '':'' then
       (case ss of [] \<Rightarrow> None | s # ss' \<Rightarrow> bind_params parts ss' (params(tl part \<mapsto> s)))
     else if hd part = CHR ''*'' \<and> length part > 1 then Some (params(tl part \<mapsto> Join ss ''/''))
     else bind_params parts (tl ss) params)"

definition getRoute :: "'h router \<Rightarrow> string \<Rightarrow> string \<Rightarrow> (node \<times> (string \<Rightarrow> string option)) option option" where
  "getRoute r meth path = (let searchParts = parsePattern path in
    case roots r meth of
      None \<Rightarrow> Some None
    | Some root \<Rightarrow>
        (case search_node searchParts root of
          None \<Rightarrow> Some None
        | Some n \<Rightarrow> do {
            params \<leftarrow> bind_params (parsePattern (npattern n)) searchParts Map.empty;
            Some (Some (n, params))
          }))"

definition getRoutes :: "'h router \<Rightarrow> string \<Rightarrow> node list" where
  "getRoutes r meth = (case roots r meth of None \<Rightarrow> [] | Some root \<Rightarrow> travel root)"

end
