(* ===== verification/Http_Router_Correct.thy ===== *)
theory Http_Router_Correct
  imports Http_Router
begin

text \<open>
  The trie as a finite map from part lists to patterns (\<open>route_at\<close>), the matching relation between
  a pattern and a path (\<open>pmatch\<close>), and the correctness of registration and lookup: \<open>addRoute\<close>
  updates the map in one place, \<open>getRoute\<close> finds a matching route whenever there is one, prefers a
  static part to a wildcard, and never panics.
\<close>

abbreviation star :: "string \<Rightarrow> bool" where
  "star p \<equiv> HasPrefix p ''*''"

lemma HasPrefix_single: "HasPrefix s [c] \<longleftrightarrow> s \<noteq> [] \<and> hd s = c"
  by (cases s) (auto simp: HasPrefix_def)

fun route_at :: "string list \<Rightarrow> node \<Rightarrow> string option" where
  "route_at [] n = (if npattern n = [] then None else Some (npattern n))"
| "route_at (p # ps) n = (case matchChild (nchildren n) p of
      None \<Rightarrow> None | Some i \<Rightarrow> route_at ps (nchildren n ! i))"

definition child_ok :: "node \<Rightarrow> bool" where
  "child_ok c \<longleftrightarrow> wild_part (npart c) = Some (nwild c) \<and> (star (npart c) \<longrightarrow> nchildren c = [] \<and> npattern c \<noteq> [])"

fun trie_wf :: "node \<Rightarrow> bool" where
  "trie_wf (Node pat p cs w) = (distinct (map npart cs) \<and> list_all child_ok cs \<and> (\<forall>c \<in> set cs. trie_wf c))"

lemma trie_wfD:
  "trie_wf n \<Longrightarrow> distinct (map npart (nchildren n)) \<and> list_all child_ok (nchildren n) \<and> (\<forall>c \<in> set (nchildren n). trie_wf c)"
  by (cases n) simp

text \<open>Part lists as \<open>parsePattern\<close> produces them.\<close>

fun good_parts :: "string list \<Rightarrow> bool" where
  "good_parts [] = True"
| "good_parts (p # ps) = (p \<noteq> [] \<and> CHR ''/'' \<notin> set p \<and> (star p \<longrightarrow> ps = []) \<and> good_parts ps)"

definition canon :: "string list \<Rightarrow> string" where
  "canon ps = ''/'' @ Join ps ''/''"

fun pmatch :: "string list \<Rightarrow> string list \<Rightarrow> bool" where
  "pmatch [] [] = True"
| "pmatch (p # ps) (s # ss) = (if star p then ps = [] else (p = s \<or> HasPrefix p '':'') \<and> pmatch ps ss)"
| "pmatch _ _ = False"

text \<open>\<open>ps\<close> was chosen rightly over \<open>qs\<close>: where they part, \<open>qs\<close> does not have the segment of the path.\<close>

fun preferred :: "string list \<Rightarrow> string list \<Rightarrow> string list \<Rightarrow> bool" where
  "preferred (s # ss) (p # ps) (q # qs) = (if p = q then preferred ss ps qs else q \<noteq> s)"
| "preferred _ _ _ = True"

subsection \<open>Patterns\<close>

lemma good_parse_parts: "\<forall>w \<in> set ws. CHR ''/'' \<notin> set w \<Longrightarrow> good_parts (parse_parts ws)"
  by (induction ws) (auto simp: HasPrefix_single)

lemma good_parsePattern: "good_parts (parsePattern x)"
  unfolding parsePattern_def by (rule good_parse_parts) (auto dest: Split_parts)

lemma good_parts_noslash: "good_parts ps \<Longrightarrow> \<forall>w \<in> set ps. CHR ''/'' \<notin> set w"
  by (induction ps) auto

lemma parse_good: "good_parts ps \<Longrightarrow> parse_parts ps = ps"
  by (induction ps) (auto simp: HasPrefix_single)

lemma parse_canon: "good_parts ps \<Longrightarrow> parsePattern (canon ps) = ps"
proof (cases "ps = []")
  case False
  assume g: "good_parts ps"
  have "Split (CHR ''/'') (Join ps ''/'') = ps" using Split_Join [OF False good_parts_noslash [OF g]] by simp
  then show ?thesis using g by (simp add: parsePattern_def canon_def parse_good)
qed (simp add: parsePattern_def canon_def)

lemma canon_not_Nil [simp]: "canon ps \<noteq> []"
  by (simp add: canon_def)

lemma canon_inj: "good_parts ps \<Longrightarrow> good_parts qs \<Longrightarrow> canon ps = canon qs \<longleftrightarrow> ps = qs"
  using parse_canon by metis

subsection \<open>Children\<close>

lemma matchChild_Some: "matchChild cs p = Some i \<Longrightarrow> i < length cs \<and> npart (cs ! i) = p"
  by (induction cs arbitrary: i) (auto split: if_splits)

lemma matchChild_None: "matchChild cs p = None \<longleftrightarrow> p \<notin> npart ` set cs"
  by (induction cs) auto

lemma matchChild_nth: "distinct (map npart cs) \<Longrightarrow> i < length cs \<Longrightarrow> matchChild cs (npart (cs ! i)) = Some i"
  by (induction cs arbitrary: i) (auto simp: nth_Cons split: nat.split)

lemma matchChild_mem: "distinct (map npart cs) \<Longrightarrow> c \<in> set cs \<Longrightarrow> \<exists>i. matchChild cs (npart c) = Some i \<and> i < length cs \<and> cs ! i = c"
  by (metis in_set_conv_nth matchChild_nth)

lemma matchChild_append: "matchChild (cs @ [c]) p = (case matchChild cs p of Some i \<Rightarrow> Some i
    | None \<Rightarrow> if npart c = p then Some (length cs) else None)"
  by (induction cs) (auto split: option.split)

lemma matchChild_update: "npart c = npart (cs ! i) \<Longrightarrow> matchChild (cs[i := c]) p = matchChild cs p"
  by (induction cs arbitrary: i) (auto split: nat.splits)

lemma wild_part_nonempty: "p \<noteq> [] \<Longrightarrow> wild_part p = Some (star p \<or> HasPrefix p '':'')"
  by (cases p) (auto simp: HasPrefix_single)

lemma child_okD:
  assumes "child_ok c"
  shows "npart c \<noteq> []" "nwild c \<longleftrightarrow> star (npart c) \<or> HasPrefix (npart c) '':''"
  using assms by (cases "npart c"; auto simp: child_ok_def HasPrefix_single)+

subsection \<open>Insertion\<close>

lemma insert_node_ok:
  "trie_wf n \<Longrightarrow> good_parts ps \<Longrightarrow> (star (npart n) \<longrightarrow> ps = []) \<Longrightarrow> pat \<noteq> [] \<Longrightarrow>
    \<exists>n'. insert_node pat ps n = Some n' \<and> trie_wf n' \<and> npart n' = npart n \<and> nwild n' = nwild n \<and>
      (ps = [] \<longrightarrow> nchildren n' = nchildren n \<and> npattern n' = pat) \<and>
      (\<forall>qs. route_at qs n' = (if qs = ps then Some pat else route_at qs n))"
proof (induction pat ps n rule: insert_node.induct)
  case (1 pattern pat p cs w)
  have "route_at qs (Node pattern p cs w) = (if qs = [] then Some pattern else route_at qs (Node pat p cs w))" for qs
    using 1(4) by (cases qs) (auto split: option.split)
  then show ?case using 1 by simp
next
  case (2 pattern part parts pat p cs w)
  have g: "part \<noteq> []" "good_parts parts" "star part \<longrightarrow> parts = []" using 2(4) by auto
  note wf = trie_wfD [OF 2(3), simplified]
  show ?case
  proof (cases "matchChild cs part")
    case None
    obtain wild where wp: "wild_part part = Some wild" using wild_part_nonempty [OF g(1)] by blast
    note IH = 2(1) [OF None wp _ g(2) _ 2(6), simplified]
    obtain c where
      c: "insert_node pattern parts (Node [] part [] wild) = Some c" "trie_wf c" "npart c = part" "nwild c = wild"
      "parts = [] \<longrightarrow> nchildren c = [] \<and> npattern c = pattern"
      "\<forall>qs. route_at qs c = (if qs = parts then Some pattern else route_at qs (Node [] part [] wild))"
      using IH g(3) by blast
    have "child_ok c" using c(3-5) wp g(3) 2(6) by (simp add: child_ok_def)
    then have 1: "trie_wf (Node pat p (cs @ [c]) w)"
      using wf c(2,3) None by (auto simp: matchChild_None)
    have empty: "route_at rs (Node [] part [] wild) = None" for rs by (cases rs) auto
    have "route_at qs (Node pat p (cs @ [c]) w) =
        (if qs = part # parts then Some pattern else route_at qs (Node pat p cs w))" for qs
    proof (cases qs)
      case (Cons q rs)
      show ?thesis
      proof (cases "q = part")
        case True
        then show ?thesis using Cons None c(3,6) empty by (simp add: matchChild_append)
      next
        case False
        then show ?thesis using Cons c(3) matchChild_Some
          by (fastforce simp: matchChild_append nth_append split: option.split)
      qed
    qed simp
    then show ?thesis using None wp c(1) 1 by simp
  next
    case (Some i)
    note i = matchChild_Some [OF Some]
    have ci: "trie_wf (cs ! i)" "child_ok (cs ! i)" using wf i by (auto simp: list_all_length)
    from 2(2) [OF Some] ci g 2(6) i obtain c where
      c: "insert_node pattern parts (cs ! i) = Some c" "trie_wf c" "npart c = part" "nwild c = nwild (cs ! i)"
      "parts = [] \<longrightarrow> nchildren c = nchildren (cs ! i) \<and> npattern c = pattern"
      "\<forall>qs. route_at qs c = (if qs = parts then Some pattern else route_at qs (cs ! i))" by auto
    have "child_ok c" using c(3-5) ci(2) g(3) 2(6) i by (auto simp: child_ok_def)
    moreover have "map npart (cs[i := c]) = map npart cs" using c(3) i by (simp add: map_update list_update_same_conv)
    ultimately have 1: "trie_wf (Node pat p (cs[i := c]) w)"
      using wf c(2) by (auto simp: list_all_iff dest!: set_update_subset_insert [THEN subsetD])
    have m: "matchChild (cs[i := c]) q = matchChild cs q" for q using matchChild_update c(3) i by simp
    have "route_at qs (Node pat p (cs[i := c]) w) =
        (if qs = part # parts then Some pattern else route_at qs (Node pat p cs w))" for qs
    proof (cases qs)
      case (Cons q rs)
      show ?thesis
      proof (cases "q = part")
        case True
        then show ?thesis using Cons Some c(6) i m by simp
      next
        case False
        have "j \<noteq> i" if "matchChild cs q = Some j" for j using matchChild_Some [OF that] i False by auto
        then show ?thesis using Cons m False by (auto split: option.split)
      qed
    qed simp
    then show ?thesis using Some c(1) 1 by simp
  qed
qed

subsection \<open>Lookup\<close>

lemma first_some_None: "first_some f xs = None \<longleftrightarrow> (\<forall>x \<in> set xs. f x = None)"
  by (induction xs) (auto split: option.split)

lemma first_some_Some: "first_some f xs = Some y \<Longrightarrow> \<exists>us x vs. xs = us @ x # vs \<and> f x = Some y \<and> (\<forall>u \<in> set us. f u = None)"
proof (induction xs)
  case (Cons a xs)
  show ?case
  proof (cases "f a")
    case None
    with Cons obtain us x vs where "xs = us @ x # vs" "f x = Some y" "\<forall>u \<in> set us. f u = None" by auto
    then show ?thesis using None by (intro exI [of _ "a # us"]) auto
  next
    case (Some b)
    then show ?thesis using Cons.prems by (intro exI [of _ "[]"]) auto
  qed
qed simp

lemma search_star: "star (npart n) \<Longrightarrow> npattern n \<noteq> [] \<Longrightarrow> search_node ss n = Some n"
  by (cases ss) auto

lemma matchChildren_iff:
  "trie_wf n \<Longrightarrow> c \<in> set (matchChildren (nchildren n) s) \<longleftrightarrow>
    c \<in> set (nchildren n) \<and> (npart c = s \<or> star (npart c) \<or> HasPrefix (npart c) '':'')"
  using trie_wfD [of n] by (auto simp: matchChildren_def list_all_iff dest: child_okD)

lemma search_sound:
  "trie_wf n \<Longrightarrow> \<not> star (npart n) \<Longrightarrow> search_node ss n = Some m \<Longrightarrow>
    \<exists>ps. route_at ps n = Some (npattern m) \<and> pmatch ps ss"
proof (induction ss n rule: search_node.induct)
  case (1 n)
  then show ?case by (intro exI [of _ "[]"]) (auto split: if_splits)
next
  case (2 s ss n)
  note wf = trie_wfD [OF 2(2)]
  have "first_some (search_node ss) (matchChildren (nchildren n) s) = Some m" using 2(3,4) by simp
  from first_some_Some [OF this] obtain c where c: "c \<in> set (matchChildren (nchildren n) s)" "search_node ss c = Some m"
    by (metis in_set_conv_decomp)
  then have c': "c \<in> set (nchildren n)" "npart c = s \<or> star (npart c) \<or> HasPrefix (npart c) '':''"
    using matchChildren_iff [OF 2(2)] by auto
  then have ok: "child_ok c" "trie_wf c" using wf by (auto simp: list_all_iff)
  obtain i where i: "matchChild (nchildren n) (npart c) = Some i" "nchildren n ! i = c"
    using matchChild_mem wf c'(1) by blast
  show ?case
  proof (cases "star (npart c)")
    case True
    then have "npattern c \<noteq> []" "m = c" using ok(1) c(2) search_star by (auto simp: child_ok_def)
    then show ?thesis using i True by (intro exI [of _ "[npart c]"]) simp
  next
    case False
    then obtain ps where "route_at ps c = Some (npattern m)" "pmatch ps ss" using 2(1) [OF 2(3) ok(2)] c(2) by blast
    then show ?thesis using i False c'(2) by (intro exI [of _ "npart c # ps"]) simp
  qed
qed

lemma search_complete:
  "trie_wf n \<Longrightarrow> \<not> star (npart n) \<Longrightarrow> route_at ps n = Some pat \<Longrightarrow> pmatch ps ss \<Longrightarrow> search_node ss n \<noteq> None"
proof (induction ss n arbitrary: ps rule: search_node.induct)
  case (1 n)
  then show ?case by (cases ps) (auto split: if_splits)
next
  case (2 s ss n)
  note wf = trie_wfD [OF 2(2)]
  obtain p qs where ps: "ps = p # qs" using 2(5) by (cases ps) auto
  obtain i where i: "matchChild (nchildren n) p = Some i" "route_at qs (nchildren n ! i) = Some pat"
    using 2(4) ps by (auto split: option.splits)
  let ?c = "nchildren n ! i"
  have c: "?c \<in> set (nchildren n)" "npart ?c = p" using matchChild_Some [OF i(1)] by auto
  then have ok: "child_ok ?c" "trie_wf ?c" using wf by (auto simp: list_all_iff)
  have mem: "?c \<in> set (matchChildren (nchildren n) s)"
    using matchChildren_iff [OF 2(2)] c 2(5) ps by (auto split: if_splits)
  have "search_node ss ?c \<noteq> None"
  proof (cases "star p")
    case True
    then show ?thesis using ok(1) c(2) search_star [of ?c ss] by (auto simp: child_ok_def)
  next
    case False
    then show ?thesis using 2(1) [OF 2(3) ok(2) _ i(2)] c(2) 2(5) ps by auto
  qed
  with mem have "\<not> (\<forall>x \<in> set (matchChildren (nchildren n) s). search_node ss x = None)" by metis
  then show ?case using 2(3) by (simp add: first_some_None)
qed

text \<open>The children are tried with the static one first.\<close>

lemma matchChildren_first:
  assumes "matchChildren cs s = us @ c # vs" "c' \<in> set cs" "npart c' = s" "npart c \<noteq> s"
  shows "c' \<in> set us"
proof -
  define A where "A = filter (\<lambda>c. npart c = s) cs"
  have "us @ c # vs = A @ filter (\<lambda>c. npart c \<noteq> s \<and> nwild c) cs"
    using assms(1) by (simp add: matchChildren_def A_def)
  then obtain w where w: "us = A @ w \<or>
      (us @ w = A \<and> c # vs = w @ filter (\<lambda>c. npart c \<noteq> s \<and> nwild c) cs)"
    by (auto simp: append_eq_append_conv2)
  have c: "c \<notin> set A" "c' \<in> set A" using assms(2-4) by (simp_all add: A_def)
  show ?thesis
  proof (cases w)
    case (Cons x xs)
    then show ?thesis using w c by auto
  qed (use w c in auto)
qed

lemma search_preferred:
  "trie_wf n \<Longrightarrow> \<not> star (npart n) \<Longrightarrow> search_node ss n = Some m \<Longrightarrow>
    \<exists>ps. route_at ps n = Some (npattern m) \<and> pmatch ps ss \<and>
      (\<forall>qs pat. route_at qs n = Some pat \<longrightarrow> pmatch qs ss \<longrightarrow> preferred ss ps qs)"
proof (induction ss n rule: search_node.induct)
  case (1 n)
  then show ?case by (intro exI [of _ "[]"]) (auto split: if_splits)
next
  case (2 s ss n)
  note wf = trie_wfD [OF 2(2)]
  have "first_some (search_node ss) (matchChildren (nchildren n) s) = Some m" using 2(3,4) by simp
  from first_some_Some [OF this] obtain us c vs where c: "matchChildren (nchildren n) s = us @ c # vs"
    "search_node ss c = Some m" "\<forall>u \<in> set us. search_node ss u = None"
    by blast
  have mem: "c \<in> set (matchChildren (nchildren n) s)" by (simp add: c(1))
  then have c': "c \<in> set (nchildren n)" "npart c = s \<or> star (npart c) \<or> HasPrefix (npart c) '':''"
    using matchChildren_iff [OF 2(2)] by auto
  then have ok: "child_ok c" "trie_wf c" using wf by (auto simp: list_all_iff)
  obtain i where i: "matchChild (nchildren n) (npart c) = Some i" "nchildren n ! i = c"
    using matchChild_mem wf c'(1) by blast
  have pref: "q \<noteq> s" if q: "q \<noteq> npart c" "route_at (q # rs) n = Some pat" "pmatch (q # rs) (s # ss)" for q rs pat
  proof
    assume "q = s"
    obtain j where j: "matchChild (nchildren n) q = Some j" "route_at rs (nchildren n ! j) = Some pat"
      using q(2) by (auto split: option.splits)
    have d: "nchildren n ! j \<in> set (nchildren n)" "npart (nchildren n ! j) = q" using matchChild_Some [OF j(1)] by auto
    then have ok': "child_ok (nchildren n ! j)" "trie_wf (nchildren n ! j)" using wf by (auto simp: list_all_iff)
    have "search_node ss (nchildren n ! j) = None"
      using matchChildren_first [OF c(1) d(1)] d(2) \<open>q = s\<close> q(1) c(3) by auto
    moreover have "pmatch rs ss" if "\<not> star q" using that q(3) by simp
    ultimately show False
      using search_complete [OF ok'(2) _ j(2), of ss] search_star [of "nchildren n ! j" ss] ok'(1) d(2)
      by (auto simp: child_ok_def)
  qed
  show ?case
  proof (cases "star (npart c)")
    case True
    then have "npattern c \<noteq> []" "m = c" using ok(1) c(2) search_star by (auto simp: child_ok_def)
    moreover have "preferred (s # ss) [npart c] qs" if "route_at qs n = Some pat" "pmatch qs (s # ss)" for qs pat
      using pref [of "hd qs" "tl qs" pat] that by (cases qs) auto
    ultimately show ?thesis using i True by (intro exI [of _ "[npart c]"]) auto
  next
    case False
    then obtain ps where ps: "route_at ps c = Some (npattern m)" "pmatch ps ss"
      "\<And>qs pat. route_at qs c = Some pat \<Longrightarrow> pmatch qs ss \<Longrightarrow> preferred ss ps qs"
      using 2(1) [OF 2(3) ok(2)] c(2) by blast
    have "preferred (s # ss) (npart c # ps) qs" if q: "route_at qs n = Some pat" "pmatch qs (s # ss)" for qs pat
      using pref [of "hd qs" "tl qs" pat] ps(3) [of "tl qs" pat] q i False by (cases qs) auto
    then show ?thesis using i False c'(2) ps(1,2) by (intro exI [of _ "npart c # ps"]) auto
  qed
qed

subsection \<open>Parameters\<close>

definition param_name :: "string \<Rightarrow> string option" where
  "param_name part = (if HasPrefix part '':'' then Some (tl part)
     else if star part \<and> length part > 1 then Some (tl part) else None)"

definition param_names :: "string list \<Rightarrow> string list" where
  "param_names ps = List.map_filter param_name ps"

lemma param_names_simps [simp]: "param_names [] = []"
  "param_names (p # ps) = (case param_name p of None \<Rightarrow> param_names ps | Some n \<Rightarrow> n # param_names ps)"
  by (simp_all add: param_names_def map_filter_simps split: option.split)

text \<open>The value of the parameter \<open>name\<close>: the segment at its place, or the rest of the path for a star.\<close>

fun param_value :: "string list \<Rightarrow> string list \<Rightarrow> string \<Rightarrow> string option" where
  "param_value (p # ps) ss name =
    (if param_name p = Some name then Some (if star p then Join ss ''/'' else hd ss)
     else param_value ps (tl ss) name)"
| "param_value [] ss name = None"

lemma star_colon: "star p \<Longrightarrow> \<not> HasPrefix p '':''"
  by (cases p) (auto simp: HasPrefix_single)

lemma param_value_None: "name \<notin> set (param_names ps) \<Longrightarrow> param_value ps ss name = None"
  by (induction ps arbitrary: ss) (auto split: option.splits)

lemma bind_params_ok:
  "good_parts ps \<Longrightarrow> pmatch ps ss \<Longrightarrow> distinct (param_names ps) \<Longrightarrow>
    bind_params ps ss m = Some (\<lambda>name. case param_value ps ss name of Some v \<Rightarrow> Some v | None \<Rightarrow> m name)"
proof (induction ps arbitrary: ss m)
  case (Cons p ps)
  obtain s ss' where ss: "ss = s # ss'" using Cons.prems(2) by (cases ss) auto
  consider (colon) "HasPrefix p '':''" "\<not> star p" | (rest) "star p" "ps = []" | (plain) "\<not> HasPrefix p '':''" "\<not> star p"
    using star_colon Cons.prems(1) by fastforce
  then show ?case
  proof cases
    case colon
    then have n: "param_name p = Some (tl p)" "hd p = CHR '':''" by (auto simp: param_name_def HasPrefix_single)
    have IH: "bind_params ps ss' (m(tl p \<mapsto> s)) =
        Some (\<lambda>name. case param_value ps ss' name of Some v \<Rightarrow> Some v | None \<Rightarrow> (m(tl p \<mapsto> s)) name)"
      using Cons colon ss n by auto
    have "param_value ps ss' (tl p) = None" using param_value_None Cons.prems(3) n by simp
    then have "(case param_value ps ss' name of Some v \<Rightarrow> Some v | None \<Rightarrow> (m(tl p \<mapsto> s)) name) =
        (case param_value (p # ps) ss name of Some v \<Rightarrow> Some v | None \<Rightarrow> m name)" for name
      using n(1) colon(2) ss by (auto split: option.split)
    then show ?thesis using IH n ss by simp
  next
    case rest
    then show ?thesis using star_colon [of p]
      by (auto simp: param_name_def HasPrefix_single fun_eq_iff)
  next
    case plain
    then have n: "param_name p = None" "hd p \<noteq> CHR '':''" "hd p \<noteq> CHR ''*''"
      using Cons.prems(1) by (auto simp: param_name_def HasPrefix_single)
    then show ?thesis using Cons plain ss by auto
  qed
qed simp

lemma bind_params_no_panic: "good_parts ps \<Longrightarrow> pmatch ps ss \<Longrightarrow> bind_params ps ss m \<noteq> None"
proof (induction ps arbitrary: ss m)
  case (Cons p ps)
  obtain s ss' where "ss = s # ss'" using Cons.prems(2) by (cases ss) auto
  then show ?case using Cons by (auto simp: HasPrefix_single split: if_splits)
qed simp

subsection \<open>The route table\<close>

definition router_inv :: "'h router \<Rightarrow> bool" where
  "router_inv r \<longleftrightarrow> (\<forall>m n. roots r m = Some n \<longrightarrow> CHR ''-'' \<notin> set m \<and> trie_wf n \<and> npart n = [] \<and>
     (\<forall>ps pat. route_at ps n = Some pat \<longrightarrow> good_parts ps \<and> pat = canon ps \<and> handlers r (route_key m pat) \<noteq> None))"

text \<open>The handler registered for a method and a part list.\<close>

definition route_of :: "'h router \<Rightarrow> string \<Rightarrow> string list \<Rightarrow> 'h option" where
  "route_of r m ps = (case roots r m of None \<Rightarrow> None
    | Some n \<Rightarrow> (case route_at ps n of None \<Rightarrow> None | Some pat \<Rightarrow> handlers r (route_key m pat)))"

lemma newRouter_ok: "router_inv newRouter" "route_of newRouter m ps = None"
  by (simp_all add: router_inv_def newRouter_def route_of_def)

lemma append_sep_eq:
  "c \<notin> set a \<Longrightarrow> c \<notin> set b \<Longrightarrow> a @ c # x = b @ c # y \<longleftrightarrow> a = b \<and> x = y"
proof (induction a arbitrary: b)
  case Nil
  then show ?case by (cases b) auto
next
  case (Cons z a)
  then show ?case by (cases b) auto
qed

lemma route_key_inj:
  "CHR ''-'' \<notin> set m \<Longrightarrow> CHR ''-'' \<notin> set m' \<Longrightarrow> route_key m p = route_key m' p' \<longleftrightarrow> m = m' \<and> p = p'"
  using append_sep_eq [of "CHR ''-''" m m' p p'] by (simp add: route_key_def)

lemma addRoute_ok:
  assumes I: "router_inv r" and m: "CHR ''-'' \<notin> set m"
  shows "\<exists>r'. addRoute r m pattern h = Some r' \<and> router_inv r' \<and>
    (\<forall>m' ps. route_of r' m' ps = (if m' = m \<and> ps = parsePattern pattern then Some h else route_of r m' ps))"
proof -
  let ?ps = "parsePattern pattern" and ?n = "case roots r m of None \<Rightarrow> empty_node | Some n \<Rightarrow> n"
  have g: "good_parts ?ps" by (rule good_parsePattern)
  have empty: "route_at ps empty_node = None" for ps by (cases ps) (auto simp: empty_node_def)
  have root: "trie_wf ?n" "npart ?n = []"
    "\<And>ps pat. route_at ps ?n = Some pat \<Longrightarrow> good_parts ps \<and> pat = canon ps \<and> handlers r (route_key m pat) \<noteq> None"
    using I empty unfolding router_inv_def by (auto simp: empty_node_def split: option.splits)
  obtain n' where n': "insert_node (canon ?ps) ?ps ?n = Some n'" "trie_wf n'" "npart n' = []"
    "\<And>qs. route_at qs n' = (if qs = ?ps then Some (canon ?ps) else route_at qs ?n)"
    using insert_node_ok [OF root(1) g _ canon_not_Nil] root(2) by (auto simp: HasPrefix_def)
  let ?r = "r\<lparr>roots := (roots r)(m \<mapsto> n'), handlers := (handlers r)(route_key m (canon ?ps) \<mapsto> h)\<rparr>"
  have a: "addRoute r m pattern h = Some ?r" using n'(1) by (simp add: addRoute_def canon_def Let_def)
  have "router_inv ?r"
    unfolding router_inv_def
  proof (intro allI impI)
    fix k n assume k: "roots ?r k = Some n"
    show "CHR ''-'' \<notin> set k \<and> trie_wf n \<and> npart n = [] \<and>
     (\<forall>ps pat. route_at ps n = Some pat \<longrightarrow> good_parts ps \<and> pat = canon ps \<and> handlers ?r (route_key k pat) \<noteq> None)"
    proof (cases "k = m")
      case True
      then show ?thesis using k m n' g root(3) by auto
    next
      case False
      then have "roots r k = Some n" using k by simp
      then show ?thesis using I unfolding router_inv_def by auto
    qed
  qed
  moreover have "route_of ?r m' ps = (if m' = m \<and> ps = ?ps then Some h else route_of r m' ps)" for m' ps
  proof (cases "m' = m")
    case True
    have "route_at ps ?n = (case roots r m of None \<Rightarrow> None | Some n \<Rightarrow> route_at ps n)" using empty by (simp split: option.split)
    moreover have "canon ps \<noteq> canon ?ps" if "route_at ps ?n = Some pat" "ps \<noteq> ?ps" for pat
      using root(3) [OF that(1)] that(2) canon_inj g by blast
    ultimately show ?thesis using True n'(4) root(3) m route_key_inj [OF m m]
      by (auto simp: route_of_def split: option.splits)
  next
    case False
    have "CHR ''-'' \<notin> set m'" if "roots r m' = Some n" for n using I that by (simp add: router_inv_def)
    then show ?thesis using False route_key_inj [OF _ m] by (auto simp: route_of_def split: option.split)
  qed
  ultimately show ?thesis using a by blast
qed

text \<open>A lookup: nothing matches and nothing is found, or the preferred one of the matching routes is.\<close>

definition found_route :: "'h router \<Rightarrow> string \<Rightarrow> string list \<Rightarrow> string list \<Rightarrow> bool" where
  "found_route r m ss ps \<longleftrightarrow> route_of r m ps \<noteq> None \<and> pmatch ps ss \<and>
     (\<forall>qs. route_of r m qs \<noteq> None \<longrightarrow> pmatch qs ss \<longrightarrow> preferred ss ps qs)"

lemma getRoute_ok:
  fixes path :: string
  assumes I: "router_inv r"
  defines "ss \<equiv> parsePattern path"
  shows "if \<exists>ps. route_of r m ps \<noteq> None \<and> pmatch ps ss
    then \<exists>ps n params. getRoute r m path = Some (Some (n, params)) \<and> found_route r m ss ps \<and>
      npattern n = canon ps \<and> handlers r (route_key m (npattern n)) = route_of r m ps \<and>
      bind_params ps ss Map.empty = Some params \<and> good_parts ps
    else getRoute r m path = Some None"
proof (cases "roots r m")
  case None
  then show ?thesis by (simp add: getRoute_def route_of_def)
next
  case (Some root)
  then have R: "trie_wf root" "\<not> star (npart root)"
    "\<And>ps pat. route_at ps root = Some pat \<Longrightarrow> good_parts ps \<and> pat = canon ps \<and> handlers r (route_key m pat) \<noteq> None"
    using I by (auto simp: router_inv_def HasPrefix_def)
  have of: "route_of r m ps \<noteq> None \<longleftrightarrow> route_at ps root \<noteq> None" for ps
    using R(3) [of ps] Some by (auto simp: route_of_def split: option.split)
  show ?thesis
  proof (cases "search_node ss root")
    case None
    then have "\<not> (\<exists>ps. route_of r m ps \<noteq> None \<and> pmatch ps ss)"
      using search_complete [OF R(1,2)] of by blast
    then show ?thesis using None Some by (simp add: getRoute_def ss_def)
  next
    case S: (Some n)
    obtain ps where ps: "route_at ps root = Some (npattern n)" "pmatch ps ss"
      "\<forall>qs pat. route_at qs root = Some pat \<longrightarrow> pmatch qs ss \<longrightarrow> preferred ss ps qs"
      using search_preferred [OF R(1,2) S] by blast
    have g: "good_parts ps" "npattern n = canon ps" using R(3) [OF ps(1)] by auto
    obtain params where b: "bind_params ps ss Map.empty = Some params"
      using bind_params_no_panic [OF g(1) ps(2)] by blast
    have "getRoute r m path = Some (Some (n, params))"
      using Some S b g by (simp add: getRoute_def Let_def parse_canon flip: ss_def)
    moreover have "found_route r m ss ps" using ps of by (auto simp: found_route_def)
    moreover have "handlers r (route_key m (npattern n)) = route_of r m ps" using ps(1) Some by (simp add: route_of_def)
    moreover have "\<exists>ps. route_of r m ps \<noteq> None \<and> pmatch ps ss" using ps(1,2) of by blast
    ultimately show ?thesis using b g by auto
  qed
qed

text \<open>A path that is itself a registered pattern is routed to that pattern.\<close>

lemma preferred_self: "preferred ss ps ss \<Longrightarrow> pmatch ps ss \<Longrightarrow> good_parts ps \<Longrightarrow> good_parts ss \<Longrightarrow> ps = ss"
proof (induction ss arbitrary: ps)
  case Nil
  then show ?case by (cases ps) auto
next
  case (Cons s ss)
  then show ?case by (cases ps) (auto split: if_splits)
qed

lemma pmatch_self: "good_parts ss \<Longrightarrow> pmatch ss ss"
  by (induction ss) auto

lemma getRoute_static:
  assumes I: "router_inv r" and reg: "route_of r m (parsePattern path) = Some h"
  shows "\<exists>n params. getRoute r m path = Some (Some (n, params)) \<and> handlers r (route_key m (npattern n)) = Some h"
proof -
  let ?ss = "parsePattern path"
  note self = pmatch_self [OF good_parsePattern, of path]
  have "\<exists>ps. route_of r m ps \<noteq> None \<and> pmatch ps ?ss" using reg self by (intro exI [of _ ?ss]) simp
  then obtain ps n params where G: "getRoute r m path = Some (Some (n, params))" "found_route r m ?ss ps"
    "handlers r (route_key m (npattern n)) = route_of r m ps" "good_parts ps"
    using getRoute_ok [OF I, of m path] by auto
  have "preferred ?ss ps ?ss" "pmatch ps ?ss" using G(2) reg self by (auto simp: found_route_def)
  then have "ps = ?ss" using preferred_self G(4) good_parsePattern by blast
  then show ?thesis using G reg by auto
qed

end
