(* ===== verification/Http_Context.thy ===== *)
theory Http_Context
  imports Go_Strings
begin

text \<open>
  The request context of \<open>swifty_http/context.go\<close> and the response it renders,
  \<open>response.go\<close>. The \<open>http.ResponseWriter\<close> is the record of the calls made on it and the header map
  that the calls read; \<open>json.Marshal\<close>, the templates and the content of a reader are parameters. A
  body of type \<open>any\<close> is the datatype \<open>body\<close>, with one constructor for each case of the type switch
  in \<open>respond\<close>.
\<close>

type_synonym hmap = "string \<Rightarrow> string option"

datatype wcall = WriteHeader int hmap | Write string

record writer =
  wHeader :: hmap
  wCalls :: "wcall list"

definition w_Set :: "string \<Rightarrow> string \<Rightarrow> writer \<Rightarrow> writer" where
  "w_Set k v w = w\<lparr>wHeader := (wHeader w)(k \<mapsto> v)\<rparr>"

definition w_WriteHeader :: "int \<Rightarrow> writer \<Rightarrow> writer" where
  "w_WriteHeader code w = w\<lparr>wCalls := wCalls w @ [WriteHeader code (wHeader w)]\<rparr>"

definition w_Write :: "string \<Rightarrow> writer \<Rightarrow> writer" where
  "w_Write data w = w\<lparr>wCalls := wCalls w @ [Write data]\<rparr>"

text \<open>A JSON object: the map \<open>H\<close> with a message that the framework builds, or one of the user.\<close>

datatype 'j json = HMessage string | JObj 'j

datatype 'j body = HtmlBody string "'j json" | BytesBody string | StringBody string | ReaderBody string | JsonBody "'j json"

record 'j Context =
  cPath :: string
  cMethod :: string
  cStatus :: int
  cBody :: "'j body option"
  cType :: string
  cState :: "string \<Rightarrow> 'j option"
  cParams :: hmap
  cHeaders :: hmap
  cFlushed :: bool
  cStatusSet :: bool
  cWriter :: writer

definition StatusOK :: int where "StatusOK = 200"
definition StatusNotFound :: int where "StatusNotFound = 404"
definition StatusInternalServerError :: int where "StatusInternalServerError = 500"

definition newContext :: "writer \<Rightarrow> string \<Rightarrow> string \<Rightarrow> 'j Context" where
  "newContext w path meth = \<lparr>cPath = path, cMethod = meth, cStatus = StatusNotFound, cBody = None, cType = [],
     cState = Map.empty, cParams = Map.empty, cHeaders = Map.empty, cFlushed = False, cStatusSet = False, cWriter = w\<rparr>"

definition ctx_Throw :: "int \<Rightarrow> string \<Rightarrow> 'j Context \<Rightarrow> 'j Context" where
  "ctx_Throw status msg c = c\<lparr>cStatus := status, cStatusSet := True, cBody := Some (JsonBody (HMessage msg))\<rparr>"

definition ctx_SetStatus :: "int \<Rightarrow> 'j Context \<Rightarrow> 'j Context" where
  "ctx_SetStatus status c = c\<lparr>cStatus := status, cStatusSet := True\<rparr>"

text \<open>
  \<open>http.CanonicalHeaderKey\<close>: capitals at the start and after a hyphen, unless a byte is not a token
  byte.
\<close>

definition token_byte :: "char \<Rightarrow> bool" where
  "token_byte c \<longleftrightarrow> (let n = of_char c :: nat in (48 \<le> n \<and> n \<le> 57) \<or> (65 \<le> n \<and> n \<le> 90) \<or> (97 \<le> n \<and> n \<le> 122)) \<or>
     c \<in> set ''!#$%&*+-.^_|~'' \<or> c = CHR 0x27 \<or> c = CHR 0x60"

definition upper :: "char \<Rightarrow> char" where
  "upper c = (let n = of_char c :: nat in if 97 \<le> n \<and> n \<le> 122 then char_of (n - 32) else c)"

definition lower :: "char \<Rightarrow> char" where
  "lower c = (let n = of_char c :: nat in if 65 \<le> n \<and> n \<le> 90 then char_of (n + 32) else c)"

fun canon_loop :: "bool \<Rightarrow> string \<Rightarrow> string" where
  "canon_loop up [] = []"
| "canon_loop up (c # cs) = (if up then upper c else lower c) # canon_loop (c = CHR ''-'') cs"

definition CanonicalHeaderKey :: "string \<Rightarrow> string" where
  "CanonicalHeaderKey s = (if list_all token_byte s then canon_loop True s else s)"

definition ctx_Set :: "string \<Rightarrow> string \<Rightarrow> 'j Context \<Rightarrow> 'j Context" where
  "ctx_Set header val c = c\<lparr>cHeaders := (cHeaders c)(CanonicalHeaderKey header \<mapsto> val)\<rparr>"

definition ctx_Param :: "string \<Rightarrow> 'j Context \<Rightarrow> string" where
  "ctx_Param key c = (case cParams c key of None \<Rightarrow> [] | Some v \<Rightarrow> v)"

subsection \<open>Setting the body\<close>

definition promoteStatus :: "'j Context \<Rightarrow> 'j Context" where
  "promoteStatus c = (if \<not> cStatusSet c \<and> cStatus c = StatusNotFound then c\<lparr>cStatus := StatusOK\<rparr> else c)"

definition ctx_JSON :: "'j json \<Rightarrow> 'j Context \<Rightarrow> 'j Context" where
  "ctx_JSON obj c = promoteStatus (c\<lparr>cType := ''application/json'', cBody := Some (JsonBody obj)\<rparr>)"

definition ctx_String :: "string \<Rightarrow> 'j Context \<Rightarrow> 'j Context" where
  "ctx_String s c = promoteStatus (c\<lparr>cType := ''text/plain'', cBody := Some (StringBody s)\<rparr>)"

definition ctx_Data :: "string \<Rightarrow> 'j Context \<Rightarrow> 'j Context" where
  "ctx_Data data c = promoteStatus (c\<lparr>cBody := Some (BytesBody data)\<rparr>)"

definition ctx_HTML :: "string \<Rightarrow> 'j json \<Rightarrow> 'j Context \<Rightarrow> 'j Context" where
  "ctx_HTML name data c = promoteStatus (c\<lparr>cType := ''text/html'', cBody := Some (HtmlBody name data)\<rparr>)"

definition ctx_Redirect :: "string \<Rightarrow> 'j Context \<Rightarrow> 'j Context" where
  "ctx_Redirect url c =
    (let c = (if cStatus c \<in> {300, 301, 302, 303, 305, 307, 308} then c else c\<lparr>cStatus := 302\<rparr>);
         c = c\<lparr>cStatusSet := True, cHeaders := (cHeaders c)(''Location'' \<mapsto> url)\<rparr>
     in if cBody c = None then c\<lparr>cType := ''text/plain'', cBody := Some (StringBody (''Redirecting to '' @ url))\<rparr> else c)"

subsection \<open>Rendering\<close>

definition emptyStatus :: "int \<Rightarrow> bool" where
  "emptyStatus code \<longleftrightarrow> code = 204 \<or> code = 205 \<or> code = 304"

text \<open>\<open>json.Marshal\<close>, and the templates of the application (\<open>None\<close>: not loaded).\<close>

record 'j renderer =
  json_marshal :: "'j json \<Rightarrow> string option"
  templates :: "(string \<Rightarrow> 'j json \<Rightarrow> string) option"

definition setContentType :: "string \<Rightarrow> 'j Context \<Rightarrow> 'j Context" where
  "setContentType val c =
    (if val = [] then c
     else if (case wHeader (cWriter c) ''Content-Type'' of None \<Rightarrow> True | Some v \<Rightarrow> v = [])
       then c\<lparr>cWriter := w_Set ''Content-Type'' val (cWriter c)\<rparr>
     else c)"

definition send :: "int \<Rightarrow> string \<Rightarrow> 'j Context \<Rightarrow> 'j Context" where
  "send code data c = c\<lparr>cWriter := w_Write data (w_WriteHeader code (cWriter c))\<rparr>"

definition respondJSON :: "'j renderer \<Rightarrow> 'j json \<Rightarrow> 'j Context \<Rightarrow> 'j Context" where
  "respondJSON R obj c = (case json_marshal R obj of
      None \<Rightarrow> send StatusInternalServerError ''{\"message\":\"Internal Server Error\"}''
        (c\<lparr>cWriter := w_Set ''Content-Type'' ''application/json'' (cWriter c)\<rparr>)
    | Some data \<Rightarrow>
        (let c = (if cType c = [] then c\<lparr>cType := ''application/json''\<rparr> else c)
         in send (cStatus c) data (setContentType (cType c) c)))"

definition respondString :: "string \<Rightarrow> 'j Context \<Rightarrow> 'j Context" where
  "respondString s c =
    (let c = (if cType c = [] then c\<lparr>cType := ''text/plain''\<rparr> else c)
     in send (cStatus c) s (setContentType (cType c) c))"

definition respondBytes :: "string \<Rightarrow> 'j Context \<Rightarrow> 'j Context" where
  "respondBytes data c = send (cStatus c) data (setContentType (cType c) c)"

definition respondReader :: "string \<Rightarrow> 'j Context \<Rightarrow> 'j Context" where
  "respondReader data c = send (cStatus c) data (setContentType (cType c) c)"

definition respondHTML :: "'j renderer \<Rightarrow> string \<Rightarrow> 'j json \<Rightarrow> 'j Context \<Rightarrow> 'j Context" where
  "respondHTML R name data c = (case templates R of
      None \<Rightarrow> send StatusInternalServerError ''{\"message\":\"HTML templates are not loaded\"}'' c
    | Some t \<Rightarrow> send (cStatus c) (t name data) (setContentType ''text/html'' c))"

text \<open>
  The keys of \<open>ctx.headers\<close> are canonical, so that the loop over the map sets each one once,
  in whatever order.
\<close>

definition respond :: "'j renderer \<Rightarrow> 'j Context \<Rightarrow> 'j Context" where
  "respond R c =
    (if cFlushed c then c
     else
       let c = (if cBody c \<noteq> None \<and> \<not> cStatusSet c \<and> cStatus c = StatusNotFound then c\<lparr>cStatus := StatusOK\<rparr> else c);
           c = (if emptyStatus (cStatus c) then c\<lparr>cBody := None,
                  cHeaders := (cHeaders c)(''Content-Type'' := None, ''Content-Length'' := None, ''Transfer-Encoding'' := None)\<rparr>
                else c);
           c = c\<lparr>cWriter := (cWriter c)\<lparr>wHeader := wHeader (cWriter c) ++ cHeaders c\<rparr>\<rparr>
       in case cBody c of
            None \<Rightarrow> c\<lparr>cWriter := w_WriteHeader (cStatus c) (cWriter c)\<rparr>
          | Some (HtmlBody name data) \<Rightarrow> respondHTML R name data c
          | Some (BytesBody data) \<Rightarrow> respondBytes data c
          | Some (StringBody s) \<Rightarrow> respondString s c
          | Some (ReaderBody data) \<Rightarrow> respondReader data c
          | Some (JsonBody obj) \<Rightarrow> respondJSON R obj c)"

subsection \<open>One response per request\<close>

definition no_response :: "writer \<Rightarrow> bool" where
  "no_response w \<longleftrightarrow> wCalls w = []"

text \<open>The status that reaches the client, and whether a body does.\<close>

fun status_of :: "wcall list \<Rightarrow> int option" where
  "status_of [] = None"
| "status_of (WriteHeader code h # calls) = Some code"
| "status_of (Write s # calls) = Some StatusOK"

definition writes :: "wcall list \<Rightarrow> string list" where
  "writes calls = List.map_filter (\<lambda>x. case x of Write s \<Rightarrow> Some s | _ \<Rightarrow> None) calls"

definition headers_sent :: "wcall list \<Rightarrow> nat" where
  "headers_sent calls = length (filter (\<lambda>x. case x of WriteHeader _ _ \<Rightarrow> True | _ \<Rightarrow> False) calls)"

text \<open>The status \<open>respond\<close> settles on.\<close>

definition final_status :: "'j renderer \<Rightarrow> 'j Context \<Rightarrow> int" where
  "final_status R c =
    (let s = (if cBody c \<noteq> None \<and> \<not> cStatusSet c \<and> cStatus c = StatusNotFound then StatusOK else cStatus c)
     in if emptyStatus s then s
        else case cBody c of
          Some (JsonBody obj) \<Rightarrow> if json_marshal R obj = None then StatusInternalServerError else s
        | Some (HtmlBody n d) \<Rightarrow> if templates R = None then StatusInternalServerError else s
        | _ \<Rightarrow> s)"

lemma send_calls: "wCalls (cWriter (send code data c)) =
    wCalls (cWriter c) @ [WriteHeader code (wHeader (cWriter c)), Write data]"
  by (simp add: send_def w_Write_def w_WriteHeader_def)

lemma setContentType_frame [simp]: "wCalls (cWriter (setContentType t c)) = wCalls (cWriter c)"
    "cStatus (setContentType t c) = cStatus c"
  by (simp_all add: setContentType_def w_Set_def)

lemma w_Set_calls [simp]: "wCalls (w_Set k v w) = wCalls w"
  by (simp add: w_Set_def)

text \<open>The calls that rendering makes, in one expression.\<close>

lemma respond_calls:
  assumes "\<not> cFlushed c"
  shows "\<exists>h. wCalls (cWriter (respond R c)) = wCalls (cWriter c) @ WriteHeader (final_status R c) h #
    (if cBody c = None \<or> emptyStatus (final_status R c) then []
     else [Write (case the (cBody c) of
         HtmlBody n d \<Rightarrow> (case templates R of None \<Rightarrow> ''{\"message\":\"HTML templates are not loaded\"}'' | Some t \<Rightarrow> t n d)
       | BytesBody s \<Rightarrow> s | StringBody s \<Rightarrow> s | ReaderBody s \<Rightarrow> s
       | JsonBody obj \<Rightarrow> (case json_marshal R obj of None \<Rightarrow> ''{\"message\":\"Internal Server Error\"}'' | Some s \<Rightarrow> s))])"
proof -
  have codes: "\<not> emptyStatus 500" "\<not> emptyStatus 200" by (simp_all add: emptyStatus_def)
  note defs = respond_def final_status_def Let_def StatusOK_def StatusNotFound_def StatusInternalServerError_def
  show ?thesis
  proof (cases "cBody c")
    case None
    then show ?thesis using assms codes by (auto simp: defs w_WriteHeader_def)
  next
    case (Some b)
    show ?thesis
    proof (cases b)
      case HtmlBody
      then show ?thesis using assms codes Some
        by (auto simp: defs w_WriteHeader_def respondHTML_def send_calls split: option.split)
    next
      case JsonBody
      then show ?thesis using assms codes Some
        by (auto simp: defs w_WriteHeader_def respondJSON_def send_calls split: option.split)
    qed (use assms codes Some in \<open>auto simp: defs w_WriteHeader_def respondBytes_def respondString_def respondReader_def send_calls\<close>)
  qed
qed

lemma respond_one:
  assumes "\<not> cFlushed c" "no_response (cWriter c)"
  shows "headers_sent (wCalls (cWriter (respond R c))) = 1 \<and>
    status_of (wCalls (cWriter (respond R c))) = Some (final_status R c) \<and>
    (writes (wCalls (cWriter (respond R c))) = [] \<longleftrightarrow> cBody c = None \<or> emptyStatus (final_status R c))"
proof -
  obtain h where "wCalls (cWriter (respond R c)) = wCalls (cWriter c) @ WriteHeader (final_status R c) h #
    (if cBody c = None \<or> emptyStatus (final_status R c) then []
     else [Write (case the (cBody c) of
         HtmlBody n d \<Rightarrow> (case templates R of None \<Rightarrow> ''{\"message\":\"HTML templates are not loaded\"}'' | Some t \<Rightarrow> t n d)
       | BytesBody s \<Rightarrow> s | StringBody s \<Rightarrow> s | ReaderBody s \<Rightarrow> s
       | JsonBody obj \<Rightarrow> (case json_marshal R obj of None \<Rightarrow> ''{\"message\":\"Internal Server Error\"}'' | Some s \<Rightarrow> s))])"
    using respond_calls [OF assms(1)] by blast
  then show ?thesis using assms(2)
    by (simp add: no_response_def headers_sent_def writes_def map_filter_simps)
qed

lemma respond_flushed: "cFlushed c \<Longrightarrow> respond R c = c"
  by (simp add: respond_def)

end
