(* ===== verification/Http_App.thy ===== *)
theory Http_App
  imports Http_Router_Correct Http_Context
begin

text \<open>
  The application of \<open>swifty_http\<close>: the middleware chain \<open>compose\<close> and \<open>ServeHTTP\<close> of
  \<open>swifty.go\<close>, the router groups of \<open>group.go\<close>, \<open>handle\<close> of \<open>router.go\<close>, and the middlewares of
  \<open>recovery.go\<close> and \<open>logger.go\<close>.

  A middleware is a Go function of the context and of a continuation \<open>next\<close> that it may call any number
  of times. It is represented by what it does with them, the tree \<open>act\<close>: it ends with a context, it
  panics, or it calls \<open>next\<close> and goes on according to what came of the call: the context then, and
  the panic if there was one (which only a deferred function can look at).
\<close>

datatype panic = ErrAbortHandler | PanicMsg string

datatype 'c act = Finish 'c | Throw panic 'c | Next 'c "'c \<times> panic option \<Rightarrow> 'c act"

type_synonym 'c middleware = "'c \<Rightarrow> 'c act"

text \<open>A run: the variable \<open>index\<close> of \<open>compose\<close>, the context and the panic, if any.\<close>

type_synonym 'c run = "int \<times> 'c \<times> panic option"

primrec run_act :: "(int \<Rightarrow> 'c \<Rightarrow> 'c run) \<Rightarrow> 'c act \<Rightarrow> int \<Rightarrow> 'c run" where
  "run_act nxt (Finish c) = (\<lambda>index. (index, c, None))"
| "run_act nxt (Throw p c) = (\<lambda>index. (index, c, Some p))"
| "run_act nxt (Next c k) = (\<lambda>index. case nxt index c of (index', c', p) \<Rightarrow> run_act nxt (k (c', p)) index')"

definition next_twice :: panic where
  "next_twice = PanicMsg ''swifty_http: next() called multiple times''"

text \<open>\<open>dispatch(i)\<close>; the first argument is the middlewares from position \<open>i\<close> on.\<close>

primrec dispatch :: "'c middleware list \<Rightarrow> 'c middleware option \<Rightarrow> nat \<Rightarrow> int \<Rightarrow> 'c \<Rightarrow> 'c run" where
  "dispatch [] final i index c =
    (if int i \<le> index then (index, c, Some next_twice)
     else case final of
       None \<Rightarrow> (int i, c, None)
     | Some h \<Rightarrow> run_act (\<lambda>index c. (index, c, None)) (h c) (int i))"
| "dispatch (m # ms) final i index c =
    (if int i \<le> index then (index, c, Some next_twice)
     else run_act (dispatch ms final (Suc i)) (m c) (int i))"

definition compose :: "'c middleware list \<Rightarrow> 'c middleware option \<Rightarrow> 'c \<Rightarrow> 'c \<times> panic option" where
  "compose middlewares final c = snd (dispatch middlewares final 0 (-1) c)"

text \<open>A statement after \<open>next()\<close> is not reached when \<open>next\<close> panics.\<close>

definition after_next :: "'c \<Rightarrow> ('c \<Rightarrow> 'c act) \<Rightarrow> 'c act" where
  "after_next c f = Next c (\<lambda>(c', p). case p of None \<Rightarrow> f c' | Some p \<Rightarrow> Throw p c')"

subsection \<open>The middlewares of the package\<close>

definition Recovery :: "'j Context middleware" where
  "Recovery c = Next c (\<lambda>(c, p). case p of
      None \<Rightarrow> Finish c
    | Some p \<Rightarrow>
        if p = ErrAbortHandler then Throw p c
        else Finish (c\<lparr>cStatus := StatusInternalServerError, cStatusSet := True, cType := [], cHeaders := Map.empty,
          cBody := Some (JsonBody (HMessage ''Internal Server Error''))\<rparr>))"

definition Logger :: "'j Context middleware" where
  "Logger c = after_next c Finish"

subsection \<open>Router groups\<close>

record 'c Router =
  prefix :: string
  middlewares :: "'c middleware list"

record 'c Application =
  routers :: "'c Router list"
  table :: "'c middleware router"

fun trim_slashes :: "nat \<Rightarrow> string \<Rightarrow> string" where
  "trim_slashes 0 p = p"
| "trim_slashes (Suc fuel) p =
    (if length p > 1 \<and> HasSuffix p ''/'' then trim_slashes fuel (take (length p - 1) p) else p)"

definition normalizePrefix :: "string \<Rightarrow> string" where
  "normalizePrefix p =
    (if p = [] then []
     else let p = (if HasPrefix p ''/'' then p else ''/'' @ p);
              p = trim_slashes (length p) p
          in if p = ''/'' then [] else p)"

definition New :: "'c Application" where
  "New = \<lparr>routers = [\<lparr>prefix = [], middlewares = []\<rparr>], table = newRouter\<rparr>"

text \<open>The methods of the router at position \<open>i\<close> of \<open>app.routers\<close>.\<close>

definition Router_Router :: "'c Application \<Rightarrow> nat \<Rightarrow> string \<Rightarrow> 'c Application" where
  "Router_Router app i p =
    app\<lparr>routers := routers app @ [\<lparr>prefix = prefix (routers app ! i) @ normalizePrefix p, middlewares = []\<rparr>]\<rparr>"

definition Router_Use :: "'c Application \<Rightarrow> nat \<Rightarrow> 'c middleware list \<Rightarrow> 'c Application" where
  "Router_Use app i ms =
    (let r = routers app ! i in app\<lparr>routers := (routers app)[i := r\<lparr>middlewares := middlewares r @ ms\<rparr>]\<rparr>)"

definition Router_addRoute :: "'c Application \<Rightarrow> nat \<Rightarrow> string \<Rightarrow> string \<Rightarrow> 'c middleware \<Rightarrow> 'c Application option" where
  "Router_addRoute app i meth pat handler = do {
     let pattern = prefix (routers app ! i) @ pat;
     t \<leftarrow> addRoute (table app) meth pattern handler;
     Some (app\<lparr>table := t\<rparr>)
   }"

definition all_methods :: "string list" where
  "all_methods = [''GET'', ''POST'', ''PUT'', ''DELETE'', ''PATCH'', ''HEAD'', ''OPTIONS'']"

fun add_routes :: "'c Application \<Rightarrow> nat \<Rightarrow> string list \<Rightarrow> string \<Rightarrow> 'c middleware \<Rightarrow> 'c Application option" where
  "add_routes app i [] pattern handler = Some app"
| "add_routes app i (m # ms) pattern handler = do {
     app \<leftarrow> Router_addRoute app i m pattern handler;
     add_routes app i ms pattern handler
   }"

definition Router_All :: "'c Application \<Rightarrow> nat \<Rightarrow> string \<Rightarrow> 'c middleware \<Rightarrow> 'c Application option" where
  "Router_All app i pattern handler = add_routes app i all_methods pattern handler"

text \<open>
  The existence test of the static file handler: \<open>open_file\<close> gives, for a name that can be opened,
  whether it is a directory, or nothing when \<open>Stat\<close> fails; \<open>index\<close> is the path of its index page.
\<close>

definition staticFileExists :: "(string \<Rightarrow> bool option option) \<Rightarrow> string \<Rightarrow> string \<Rightarrow> bool" where
  "staticFileExists open_file name index = (case open_file name of
      None \<Rightarrow> False
    | Some None \<Rightarrow> False
    | Some (Some isDir) \<Rightarrow> if \<not> isDir then True else open_file index \<noteq> None)"

definition matchRouterPath :: "string \<Rightarrow> string \<Rightarrow> bool" where
  "matchRouterPath requestPath routerPrefix =
    (if routerPrefix = [] \<or> routerPrefix = ''/'' then True
     else if \<not> HasPrefix requestPath routerPrefix then False
     else length requestPath = length routerPrefix \<or> requestPath ! length routerPrefix = CHR ''/'')"

subsection \<open>A request\<close>

definition notFound :: "'j Context middleware" where
  "notFound c = Finish (c\<lparr>cStatus := StatusNotFound, cStatusSet := True,
     cBody := Some (StringBody (''404 NOT FOUND: '' @ cPath c @ ''\<newline>''))\<rparr>)"

text \<open>The result carries the panic that leaves the handler, for which nothing is rendered.\<close>

definition handle :: "'j renderer \<Rightarrow> 'j Context middleware router \<Rightarrow> 'j Context \<Rightarrow> 'j Context middleware list
    \<Rightarrow> ('j Context \<times> panic option) option" where
  "handle R r c ms = do {
     found \<leftarrow> getRoute r (cMethod c) (cPath c);
     let (c, p) = (case found of
        Some (n, params) \<Rightarrow>
          let key = route_key (cMethod c) (npattern n)
          in compose ms (handlers r key) (c\<lparr>cParams := params\<rparr>)
      | None \<Rightarrow> compose ms (Some notFound) c);
     Some (case p of None \<Rightarrow> (respond R c, None) | Some p \<Rightarrow> (c, Some p))
   }"

fun matching :: "'c Router list \<Rightarrow> string \<Rightarrow> 'c middleware list" where
  "matching [] path = []"
| "matching (r # rs) path = (if matchRouterPath path (prefix r) then middlewares r else []) @ matching rs path"

definition ServeHTTP :: "'j renderer \<Rightarrow> 'j Context Application \<Rightarrow> writer \<Rightarrow> string \<Rightarrow> string
    \<Rightarrow> ('j Context \<times> panic option) option" where
  "ServeHTTP R app w meth path =
    handle R (table app) (newContext w path meth) (matching (routers app) path)"

end
