(* ===== verification/Http_App_Correct.thy ===== *)
theory Http_App_Correct
  imports Http_App
begin

text \<open>
  The middleware chain runs its parts from the outside in and back, and each of them at most once; a
  group's middlewares run exactly for the paths below its prefix; \<open>Recovery\<close> turns a panic into a
  response with status 500; every request gets the handler of the route that \<open>getRoute\<close> chooses, or
  the answer 404.
\<close>

subsection \<open>The chain\<close>

lemma dispatch_again: "int i \<le> index \<Longrightarrow> dispatch ms final i index c = (index, c, Some next_twice)"
  by (cases ms) auto

lemma run_act_index:
  assumes "\<And>ix c. fst (nxt ix c) \<ge> ix"
  shows "fst (run_act nxt a index) \<ge> index"
proof (induction a arbitrary: index)
  case (Next c k)
  obtain ix c' p where n: "nxt index c = (ix, c', p)" by (cases "nxt index c") auto
  then have "ix \<ge> index" using assms [of index c] by simp
  then show ?case using Next [OF rangeI [of k "(c', p)"], of ix] n by simp
qed auto

lemma run_last_index: "fst (run_act (\<lambda>index c. (index, c, None)) a index) = index"
  by (induction a arbitrary: index) auto

lemma dispatch_index: "fst (dispatch ms final i index c) \<ge> index"
proof (induction ms arbitrary: i index c)
  case (Cons m ms)
  have "fst (run_act (dispatch ms final (Suc i)) (m c) (int i)) \<ge> int i"
    using Cons.IH by (intro run_act_index)
  then show ?case by auto
qed (simp add: run_last_index split: option.split)

lemma dispatch_reached: "index < int i \<Longrightarrow> fst (dispatch ms final i index c) \<ge> int i"
proof (cases ms)
  case (Cons m ns)
  have "fst (run_act (dispatch ns final (Suc i)) (m c) (int i)) \<ge> int i"
    by (intro run_act_index dispatch_index)
  then show ?thesis using Cons by simp
qed (simp add: run_last_index split: option.split)

text \<open>The second call of \<open>next\<close> panics, whatever the first one did.\<close>

lemma next_twice_panics:
  assumes "m c = Next c1 (\<lambda>r1. Next (fst r1) k)"
  shows "\<exists>index c2 p. dispatch ms final 1 0 c1 = (index, c2, p) \<and>
    compose (m # ms) final c = snd (run_act (dispatch ms final 1) (k (c2, Some next_twice)) index)"
proof -
  obtain ix c2 p where d: "dispatch ms final 1 0 c1 = (ix, c2, p)" by (cases "dispatch ms final 1 0 c1") auto
  have "ix \<ge> 1" using dispatch_reached [of 0 1 ms final c1] d by simp
  then show ?thesis using assms d dispatch_again [of 1 ix ms final] by (simp add: compose_def)
qed

text \<open>Middlewares that call \<open>next\<close> once, around what is inside.\<close>

definition wrap_mw :: "('c \<Rightarrow> 'c) \<Rightarrow> ('c \<Rightarrow> 'c) \<Rightarrow> 'c middleware" where
  "wrap_mw before after c = after_next (before c) (\<lambda>c'. Finish (after c'))"

lemma dispatch_onion:
  "index < int i \<Longrightarrow> dispatch (map (\<lambda>(f, g). wrap_mw f g) fgs) (Some (\<lambda>c. Finish (h c))) i index c =
    (int (i + length fgs), foldr (\<lambda>(f, g) k. g \<circ> k \<circ> f) fgs h c, None)"
proof (induction fgs arbitrary: i index c)
  case (Cons fg fgs)
  then show ?case by (cases fg) (simp add: wrap_mw_def after_next_def)
qed simp

lemma compose_onion:
  "compose (map (\<lambda>(f, g). wrap_mw f g) fgs) (Some (\<lambda>c. Finish (h c))) c = (foldr (\<lambda>(f, g) k. g \<circ> k \<circ> f) fgs h c, None)"
  by (simp add: compose_def dispatch_onion)

text \<open>
  The handler runs at most once: middlewares are lifted to a context with a counter that they do not
  see, and the handler counts its runs.
\<close>

primrec counted :: "'c act \<Rightarrow> nat \<Rightarrow> ('c \<times> nat) act" where
  "counted (Finish c) = (\<lambda>n. Finish (c, n))"
| "counted (Throw p c) = (\<lambda>n. Throw p (c, n))"
| "counted (Next c k) = (\<lambda>n. Next (c, n) (\<lambda>r. counted (k (fst (fst r), snd r)) (snd (fst r))))"

definition counted_mw :: "'c middleware \<Rightarrow> ('c \<times> nat) middleware" where
  "counted_mw m c = counted (m (fst c)) (snd c)"

definition counted_handler :: "'c middleware \<Rightarrow> ('c \<times> nat) middleware" where
  "counted_handler h c = counted (h (fst c)) (Suc (snd c))"

definition runs :: "('c \<times> nat) run \<Rightarrow> nat" where
  "runs r = snd (fst (snd r))"

lemma run_counted:
  assumes ix: "\<And>ix c. fst (nxt ix c) \<ge> ix \<and> (ix < j \<longrightarrow> fst (nxt ix c) \<ge> j)"
    and one: "\<And>ix c. runs (nxt ix c) \<le> snd c + (if ix < j then 1 else 0)"
  shows "runs (run_act nxt (counted a n) index) \<le> n + (if index < j then 1 else 0)"
proof (induction a arbitrary: n index)
  case (Next c k)
  obtain ix c' n' p where r: "nxt index (c, n) = (ix, (c', n'), p)" by (cases "nxt index (c, n)") auto
  have 1: "n' \<le> n + (if index < j then 1 else 0)" "ix \<ge> index" "index < j \<longrightarrow> ix \<ge> j"
    using one [of index "(c, n)"] ix [of index "(c, n)"] r by (auto simp: runs_def)
  have "runs (run_act nxt (counted (k (c', p)) n') ix) \<le> n' + (if ix < j then 1 else 0)"
    by (rule Next [OF rangeI])
  then show ?case using r 1 by (simp split: if_splits)
qed (simp_all add: runs_def)

lemma runs_last: "runs (run_act (\<lambda>index c. (index, c, None)) (counted a n) index) = n"
  by (induction a arbitrary: n index) (auto simp: runs_def)

lemma dispatch_counted:
  "runs (dispatch (map counted_mw ms) (Some (counted_handler h)) i index c) \<le> snd c + (if index < int i then 1 else 0)"
proof (induction ms arbitrary: i index c)
  case Nil
  have "runs (run_act (\<lambda>index c. (index, c, None)) (counted (h (fst c)) (Suc (snd c))) (int i)) = Suc (snd c)"
    by (rule runs_last)
  then show ?case by (simp add: runs_def counted_handler_def)
next
  case (Cons m ms)
  let ?nxt = "dispatch (map counted_mw ms) (Some (counted_handler h)) (Suc i)"
  have "runs (run_act ?nxt (counted (m (fst c)) (snd c)) (int i)) \<le> snd c + (if int i < int (Suc i) then 1 else 0)"
  proof (rule run_counted)
    show "fst (?nxt ix c) \<ge> ix \<and> (ix < int (Suc i) \<longrightarrow> fst (?nxt ix c) \<ge> int (Suc i))" for ix c
      by (intro conjI impI dispatch_index dispatch_reached)
    show "runs (?nxt ix c) \<le> snd c + (if ix < int (Suc i) then 1 else 0)" for ix c by (rule Cons.IH)
  qed
  then show ?case by (simp add: runs_def counted_mw_def [of m c])
qed

lemma handler_at_most_once:
  "snd (fst (compose (map counted_mw ms) (Some (counted_handler h)) (c, 0))) \<le> 1"
  using dispatch_counted [of ms h 0 "-1" "(c, 0)"] by (simp add: compose_def runs_def)

subsection \<open>Recovery\<close>

lemma compose_Recovery:
  "\<exists>c' p. snd (dispatch ms final 1 0 c) = (c', p) \<and>
    compose (Recovery # ms) final c = (case p of
        None \<Rightarrow> (c', None)
      | Some ErrAbortHandler \<Rightarrow> (c', Some ErrAbortHandler)
      | Some (PanicMsg s) \<Rightarrow> (c'\<lparr>cStatus := StatusInternalServerError, cStatusSet := True, cType := [], cHeaders := Map.empty,
          cBody := Some (JsonBody (HMessage ''Internal Server Error''))\<rparr>, None))"
proof -
  obtain ix c' p where d: "dispatch ms final 1 0 c = (ix, c', p)" by (cases "dispatch ms final 1 0 c") auto
  then show ?thesis by (auto simp: compose_def Recovery_def split: option.split panic.split)
qed

lemma compose_Logger: "compose (Logger # ms) final c = snd (dispatch ms final 1 0 c)"
  by (cases "dispatch ms final 1 0 c") (auto simp: compose_def Logger_def after_next_def split: option.split)

subsection \<open>Groups\<close>

lemma HasPrefix_self: "HasPrefix s s"
  by (simp add: HasPrefix_def)

lemma HasPrefix_slash: "HasPrefix s ''/'' \<longleftrightarrow> (\<exists>t. s = CHR ''/'' # t)"
  by (auto simp: HasPrefix_iff)

text \<open>A prefix matches a path up to the end of a segment.\<close>

lemma matchRouterPath_iff:
  "p \<noteq> ''/'' \<Longrightarrow> matchRouterPath path p \<longleftrightarrow> p = [] \<or> path = p \<or> (\<exists>rest. path = p @ ''/'' @ rest)"
proof (cases "HasPrefix path p")
  case True
  then obtain r where "path = p @ r" by (auto simp: HasPrefix_iff)
  then show "p \<noteq> ''/'' \<Longrightarrow> ?thesis" using True by (cases r) (auto simp: matchRouterPath_def)
qed (auto simp: matchRouterPath_def HasPrefix_self)

lemma trim_slashes_head: "HasPrefix p ''/'' \<Longrightarrow> HasPrefix (trim_slashes n p) ''/''"
proof (induction n arbitrary: p)
  case (Suc n)
  have "HasPrefix (take (length p - 1) p) ''/''" if "length p > 1"
    using Suc.prems that by (cases p) (auto simp: HasPrefix_slash take_Cons')
  then show ?case using Suc by simp
qed simp

lemma trim_slashes_end: "length p \<le> n \<Longrightarrow> length (trim_slashes n p) \<le> 1 \<or> \<not> HasSuffix (trim_slashes n p) ''/''"
proof (induction n arbitrary: p)
  case (Suc n)
  then show ?case by auto
qed simp

text \<open>A normalised prefix is empty, or starts with a slash and does not end with one.\<close>

lemma normalizePrefix_ok:
  "normalizePrefix p = [] \<or> (HasPrefix (normalizePrefix p) ''/'' \<and> \<not> HasSuffix (normalizePrefix p) ''/'')"
proof -
  let ?q = "if HasPrefix p ''/'' then p else ''/'' @ p"
  let ?t = "trim_slashes (length ?q) ?q"
  have h: "HasPrefix ?t ''/''" by (rule trim_slashes_head) (auto simp: HasPrefix_slash)
  have "?t = ''/'' \<or> \<not> HasSuffix ?t ''/''"
    using trim_slashes_end [of ?q "length ?q"] h by (auto simp: HasPrefix_slash)
  then show ?thesis using h unfolding normalizePrefix_def Let_def by (auto simp: if_splits)
qed

text \<open>A path below a nested group is below its parent too, so that its middlewares run first.\<close>

lemma matchRouterPath_nested:
  assumes p: "p \<noteq> ''/''" and m: "matchRouterPath path (p @ normalizePrefix q)"
  shows "matchRouterPath path p"
proof (cases "normalizePrefix q = []")
  case False
  then have n: "HasPrefix (normalizePrefix q) ''/''" "\<not> HasSuffix (normalizePrefix q) ''/''"
    using normalizePrefix_ok [of q] by auto
  then obtain t where t: "normalizePrefix q = CHR ''/'' # t" by (auto simp: HasPrefix_slash)
  then have tn: "t \<noteq> []" using n(2) by (auto simp: HasSuffix_def HasPrefix_def)
  then have "p @ normalizePrefix q \<noteq> ''/''" using t by (cases p) auto
  then show ?thesis using m t by (auto simp: matchRouterPath_iff [OF p] matchRouterPath_iff)
qed (use m in simp)

text \<open>The prefixes of an application are never a single slash.\<close>

definition app_ok :: "'c Application \<Rightarrow> bool" where
  "app_ok app \<longleftrightarrow> router_inv (table app) \<and> (\<forall>r \<in> set (routers app). prefix r \<noteq> ''/'')"

lemma normalized_not_slash: "p \<noteq> ''/'' \<Longrightarrow> p @ normalizePrefix q \<noteq> ''/''"
  using normalizePrefix_ok [of q] by (cases p) (auto simp: HasPrefix_slash HasSuffix_def HasPrefix_def)

lemma New_ok: "app_ok New"
  by (simp add: app_ok_def New_def newRouter_ok)

lemma Router_Router_ok:
  assumes "app_ok app" "i < length (routers app)"
  shows "app_ok (Router_Router app i p)"
  using assms normalized_not_slash [of "prefix (routers app ! i)" p] by (auto simp: app_ok_def Router_Router_def)

lemma Router_Use_ok:
  assumes "app_ok app" "i < length (routers app)"
  shows "app_ok (Router_Use app i ms)"
  using assms by (auto simp: app_ok_def Router_Use_def Let_def dest!: set_update_subset_insert [THEN subsetD])

lemma Router_addRoute_ok:
  assumes A: "app_ok app" and m: "CHR ''-'' \<notin> set meth"
  shows "\<exists>app'. Router_addRoute app i meth pat h = Some app' \<and> app_ok app' \<and> routers app' = routers app \<and>
    (\<forall>m' ps. route_of (table app') m' ps =
      (if m' = meth \<and> ps = parsePattern (prefix (routers app ! i) @ pat) then Some h else route_of (table app) m' ps))"
  using addRoute_ok [OF _ m, of "table app" "prefix (routers app ! i) @ pat" h] A
  by (auto simp: app_ok_def Router_addRoute_def Let_def)

lemma add_routes_ok:
  "app_ok app \<Longrightarrow> \<forall>m \<in> set ms. CHR ''-'' \<notin> set m \<Longrightarrow>
    \<exists>app'. add_routes app i ms pat h = Some app' \<and> app_ok app' \<and> routers app' = routers app \<and>
    (\<forall>m' ps. route_of (table app') m' ps =
      (if m' \<in> set ms \<and> ps = parsePattern (prefix (routers app ! i) @ pat) then Some h else route_of (table app) m' ps))"
proof (induction ms arbitrary: app)
  case (Cons m ms)
  obtain app1 where a1: "Router_addRoute app i m pat h = Some app1" "app_ok app1" "routers app1 = routers app"
    "\<forall>m' ps. route_of (table app1) m' ps =
      (if m' = m \<and> ps = parsePattern (prefix (routers app ! i) @ pat) then Some h else route_of (table app) m' ps)"
    using Router_addRoute_ok [OF Cons.prems(1), of m i pat h] Cons.prems(2) by auto
  from Cons.IH [OF a1(2)] Cons.prems(2) a1 show ?case by auto
qed simp

subsection \<open>Requests\<close>

definition routed :: "'j renderer \<Rightarrow> 'j Context \<times> panic option \<Rightarrow> 'j Context \<times> panic option" where
  "routed R r = (case snd r of None \<Rightarrow> (respond R (fst r), None) | Some p \<Rightarrow> r)"

lemma ServeHTTP_ok:
  fixes path :: string and app :: "'j Context Application" and w :: writer and meth :: string
  assumes A: "app_ok app"
  defines "ss \<equiv> parsePattern path" and "c \<equiv> newContext w path meth" and "ms \<equiv> matching (routers app) path"
  shows "if \<exists>ps. route_of (table app) meth ps \<noteq> None \<and> pmatch ps ss
    then \<exists>ps params. found_route (table app) meth ss ps \<and> bind_params ps ss Map.empty = Some params \<and>
      ServeHTTP R app w meth path = Some (routed R (compose ms (route_of (table app) meth ps) (c\<lparr>cParams := params\<rparr>)))
    else ServeHTTP R app w meth path = Some (routed R (compose ms (Some notFound) c))"
proof -
  have I: "router_inv (table app)" using A by (simp add: app_ok_def)
  have f: "cMethod c = meth" "cPath c = path" by (simp_all add: c_def newContext_def)
  note G = getRoute_ok [OF I, of meth path, folded ss_def]
  have S: "ServeHTTP R app w meth path = handle R (table app) c ms" by (simp add: ServeHTTP_def c_def ms_def)
  show ?thesis
  proof (cases "\<exists>ps. route_of (table app) meth ps \<noteq> None \<and> pmatch ps ss")
    case True
    then obtain ps n params where "getRoute (table app) meth path = Some (Some (n, params))" "found_route (table app) meth ss ps"
      "handlers (table app) (route_key meth (npattern n)) = route_of (table app) meth ps"
      "bind_params ps ss Map.empty = Some params"
      using G by auto
    moreover then have "handle R (table app) c ms = Some (routed R (compose ms (route_of (table app) meth ps) (c\<lparr>cParams := params\<rparr>)))"
      by (simp add: handle_def f Let_def routed_def split: prod.split option.split)
    ultimately show ?thesis unfolding if_P [OF True] S by blast
  next
    case False
    then have "getRoute (table app) meth path = Some None" using G by auto
    then have "handle R (table app) c ms = Some (routed R (compose ms (Some notFound) c))"
      by (simp add: handle_def f Let_def routed_def split: prod.split option.split)
    then show ?thesis using S by (simp only: if_not_P [OF False])
  qed
qed

text \<open>A request outside every route, in an application without middlewares.\<close>

lemma ServeHTTP_404:
  fixes path :: string
  assumes A: "app_ok app" and none: "\<forall>ps. pmatch ps (parsePattern path) \<longrightarrow> route_of (table app) meth ps = None"
    and m: "\<forall>r \<in> set (routers app). matchRouterPath path (prefix r) \<longrightarrow> middlewares r = []"
    and w: "no_response w"
  shows "\<exists>c. ServeHTTP R app w meth path = Some (c, None) \<and> status_of (wCalls (cWriter c)) = Some 404"
proof -
  have ms: "matching rs path = []" if "\<forall>r \<in> set rs. matchRouterPath path (prefix r) \<longrightarrow> middlewares r = []" for rs :: "'a Context Router list"
    using that by (induction rs) auto
  have E: "\<not> (\<exists>ps. route_of (table app) meth ps \<noteq> None \<and> pmatch ps (parsePattern path))"
    using none by auto
  have S: "ServeHTTP R app w meth path = Some (routed R (compose [] (Some notFound) (newContext w path meth)))"
    using ServeHTTP_ok [OF A, of meth path R w] unfolding if_not_P [OF E] ms [OF m] .
  obtain c :: "'a Context" where c: "compose [] (Some notFound) (newContext w path meth) = (c, None)" "\<not> cFlushed c" "cWriter c = w"
    "final_status R c = 404"
    by (simp add: compose_def notFound_def newContext_def final_status_def emptyStatus_def StatusNotFound_def StatusOK_def)
  then have "status_of (wCalls (cWriter (respond R c))) = Some 404"
    using respond_one [of c R] w by simp
  then show ?thesis using S c(1) by (simp add: routed_def)
qed

subsection \<open>Repeated slashes\<close>

text \<open>
  The trie ignores empty segments and the prefix test does not: with one more slash in front, a path
  reaches the same route without the middlewares of the group that it was registered in.
\<close>

lemma getRoute_slash: "getRoute r meth (CHR ''/'' # path) = getRoute r meth path"
  by (simp add: getRoute_def parsePattern_def)

lemma double_slash_bypass:
  assumes "c \<noteq> CHR ''/''"
  shows "\<not> matchRouterPath (''//'' @ path) (CHR ''/'' # c # p)"
    "getRoute r meth (''//'' @ path) = getRoute r meth (''/'' @ path)"
  using assms by (simp_all add: matchRouterPath_def HasPrefix_def getRoute_slash)

end
