(* ===== verification/Http_Sse.thy ===== *)
theory Http_Sse
  imports Http_Context
begin

text \<open>
  The server sent event writer of \<open>swifty_http/sse.go\<close>: each method appends to the response what it
  prints. The parser of the event stream format is the reference: a stream written with \<open>Event\<close> and
  \<open>Data\<close> is read back as the same events.
\<close>

abbreviation nl :: char where
  "nl \<equiv> CHR ''\<newline>''"

definition print :: "string \<Rightarrow> 'j Context \<Rightarrow> 'j Context" where
  "print s c = c\<lparr>cWriter := w_Write s (cWriter c)\<rparr>"

definition ctx_SSE :: "'j Context \<Rightarrow> 'j Context" where
  "ctx_SSE c =
    (let c = c\<lparr>cFlushed := True, cStatus := StatusOK, cStatusSet := True\<rparr>;
         w = w_Set ''Connection'' ''keep-alive'' (w_Set ''Cache-Control'' ''no-cache''
               (w_Set ''Content-Type'' ''text/event-stream'' (cWriter c)));
         w = w\<lparr>wHeader := wHeader w ++ cHeaders c\<rparr>
     in c\<lparr>cWriter := w_WriteHeader StatusOK w\<rparr>)"

fun print_lines :: "string \<Rightarrow> string list \<Rightarrow> 'j Context \<Rightarrow> 'j Context" where
  "print_lines pre [] c = c"
| "print_lines pre (line # lines) c = print_lines pre lines (print (pre @ line @ [nl]) c)"

definition writeData :: "string \<Rightarrow> 'j Context \<Rightarrow> 'j Context" where
  "writeData data c = print [nl] (print_lines ''data: '' (Split nl data) c)"

definition sse_Event :: "string \<Rightarrow> string \<Rightarrow> 'j Context \<Rightarrow> 'j Context" where
  "sse_Event event data c = writeData data (print (''event: '' @ event @ [nl]) c)"

definition sse_Data :: "string \<Rightarrow> 'j Context \<Rightarrow> 'j Context" where
  "sse_Data data c = writeData data c"

definition sse_JSON :: "'j renderer \<Rightarrow> string \<Rightarrow> 'j json \<Rightarrow> 'j Context \<Rightarrow> 'j Context" where
  "sse_JSON R event obj c = (case json_marshal R obj of
      None \<Rightarrow> c
    | Some bytes \<Rightarrow>
        (let c = (if event \<noteq> [] then print (''event: '' @ event @ [nl]) c else c)
         in print (''data: '' @ bytes @ [nl, nl]) c))"

definition sse_ID :: "string \<Rightarrow> 'j Context \<Rightarrow> 'j Context" where
  "sse_ID i c = print (''id: '' @ i @ [nl]) c"

definition sse_Retry :: "nat \<Rightarrow> 'j Context \<Rightarrow> 'j Context" where
  "sse_Retry ms c = print (''retry: '' @ show_nat ms @ [nl, nl]) c"

definition sse_Comment :: "string \<Rightarrow> 'j Context \<Rightarrow> 'j Context" where
  "sse_Comment t c = print [nl] (print_lines '': '' (Split nl t) c)"

definition sse_keepalive :: "'j Context \<Rightarrow> 'j Context" where
  "sse_keepalive c = print ('': keepalive'' @ [nl, nl]) c"

definition sse_Done :: "'j Context \<Rightarrow> 'j Context" where
  "sse_Done c = sse_Data ''[DONE]'' c"

text \<open>\<open>Stream\<close> until its channel is closed: one event for each message.\<close>

fun sse_Stream :: "string list \<Rightarrow> 'j Context \<Rightarrow> 'j Context" where
  "sse_Stream [] c = c"
| "sse_Stream (m # ms) c = sse_Stream ms (sse_Data m c)"

subsection \<open>The event stream format\<close>

text \<open>What has been sent, as one string.\<close>

definition sent :: "'j Context \<Rightarrow> string" where
  "sent c = concat (writes (wCalls (cWriter c)))"

text \<open>
  A reader, by the lines of the stream: fields accumulate, an empty line dispatches the event, an event
  without data is dropped, a comment is ignored. One space after the colon is not part of a value. The
  text after the last line end is incomplete and ignored.
\<close>

record sse_buf =
  ev_type :: string
  ev_data :: "string list"

definition no_event :: sse_buf where
  "no_event = \<lparr>ev_type = [], ev_data = []\<rparr>"

definition field :: "string \<Rightarrow> string \<Rightarrow> string option" where
  "field name line = (if HasPrefix line (name @ '': '') then Some (drop (length name + 2) line) else None)"

fun read_events :: "sse_buf \<Rightarrow> string list \<Rightarrow> (string \<times> string) list" where
  "read_events b [] = []"
| "read_events b [incomplete] = []"
| "read_events b (line # l2 # ls) =
    (if line = [] then
       (if ev_data b = [] then [] else [(ev_type b, Join (rev (ev_data b)) [nl])]) @ read_events no_event (l2 # ls)
     else case field ''event'' line of
       Some v \<Rightarrow> read_events (b\<lparr>ev_type := v\<rparr>) (l2 # ls)
     | None \<Rightarrow> (case field ''data'' line of
         Some v \<Rightarrow> read_events (b\<lparr>ev_data := v # ev_data b\<rparr>) (l2 # ls)
       | None \<Rightarrow> read_events b (l2 # ls)))"

definition parse_events :: "string \<Rightarrow> (string \<times> string) list" where
  "parse_events s = read_events no_event (Split nl s)"

lemma sent_print [simp]: "sent (print s c) = sent c @ s"
  by (simp add: sent_def print_def w_Write_def writes_def map_filter_def)

fun text_lines :: "string \<Rightarrow> string list \<Rightarrow> string" where
  "text_lines pre [] = []"
| "text_lines pre (l # ls) = pre @ l @ nl # text_lines pre ls"

lemma sent_print_lines: "sent (print_lines pre ls c) = sent c @ text_lines pre ls"
  by (induction ls arbitrary: c) auto

lemma sent_writeData: "sent (writeData data c) = sent c @ text_lines ''data: '' (Split nl data) @ [nl]"
  by (simp add: writeData_def sent_print_lines)

text \<open>Reading the lines of one event.\<close>

lemma read_line: "nl \<notin> set line \<Longrightarrow> read_events b (Split nl (line @ nl # rest)) =
    (if line = [] then
       (if ev_data b = [] then [] else [(ev_type b, Join (rev (ev_data b)) [nl])]) @ read_events no_event (Split nl rest)
     else case field ''event'' line of
       Some v \<Rightarrow> read_events (b\<lparr>ev_type := v\<rparr>) (Split nl rest)
     | None \<Rightarrow> (case field ''data'' line of
         Some v \<Rightarrow> read_events (b\<lparr>ev_data := v # ev_data b\<rparr>) (Split nl rest)
       | None \<Rightarrow> read_events b (Split nl rest)))"
  by (cases "Split nl rest") (auto simp: Split_sep split: option.split)

lemma read_fields:
  assumes l: "nl \<notin> set l"
  shows "read_events b (Split nl (''data: '' @ l @ nl # rest)) = read_events (b\<lparr>ev_data := l # ev_data b\<rparr>) (Split nl rest)"
    "read_events b (Split nl (''event: '' @ l @ nl # rest)) = read_events (b\<lparr>ev_type := l\<rparr>) (Split nl rest)"
    "read_events b (Split nl ('': '' @ l @ nl # rest)) = read_events b (Split nl rest)"
  using read_line [of "''data: '' @ l" b rest] read_line [of "''event: '' @ l" b rest] read_line [of "'': '' @ l" b rest] l
  by (simp_all add: field_def HasPrefix_def)

text \<open>Lines with the same prefix, each with the effect \<open>f\<close>.\<close>

lemma read_text_lines:
  assumes "\<And>l b rest. nl \<notin> set l \<Longrightarrow> read_events b (Split nl (pre @ l @ nl # rest)) = read_events (f l b) (Split nl rest)"
    and "\<forall>l \<in> set ls. nl \<notin> set l"
  shows "read_events b (Split nl (text_lines pre ls @ rest)) = read_events (fold f ls b) (Split nl rest)"
  using assms(2)
proof (induction ls arbitrary: b)
  case (Cons l ls)
  then show ?case using assms(1) [of l b "text_lines pre ls @ rest"] by simp
qed simp

lemma fold_data: "fold (\<lambda>l b. b\<lparr>ev_data := l # ev_data b\<rparr>) ls b = b\<lparr>ev_data := rev ls @ ev_data b\<rparr>"
  by (induction ls arbitrary: b) auto

lemma fold_skip: "fold (\<lambda>l b. b) ls b = b"
  by (induction ls) auto

lemma read_blank: "read_events b (Split nl (nl # rest)) =
    (if ev_data b = [] then [] else [(ev_type b, Join (rev (ev_data b)) [nl])]) @ parse_events rest"
  using read_line [of "[]" b rest] by (simp add: parse_events_def)

lemma read_writeData:
  "read_events b (Split nl (text_lines ''data: '' (Split nl data) @ nl # rest)) =
    (ev_type b, Join (rev (ev_data b) @ Split nl data) [nl]) # parse_events rest"
  using Split_parts [of _ nl data]
  by (subst read_text_lines [where f = "\<lambda>l b. b\<lparr>ev_data := l # ev_data b\<rparr>", OF read_fields(1)])
    (simp_all only: fold_data read_blank, auto)

text \<open>The stream that a sequence of \<open>Event\<close> and \<open>Data\<close> calls writes, read back.\<close>

datatype sse_call = CEvent string string | CData string | CComment string | CKeepalive

fun sse_do :: "sse_call \<Rightarrow> 'j Context \<Rightarrow> 'j Context" where
  "sse_do (CEvent e d) c = sse_Event e d c"
| "sse_do (CData d) c = sse_Data d c"
| "sse_do (CComment t) c = sse_Comment t c"
| "sse_do CKeepalive c = sse_keepalive c"

fun call_event :: "sse_call \<Rightarrow> (string \<times> string) list" where
  "call_event (CEvent e d) = [(e, d)]"
| "call_event (CData d) = [([], d)]"
| "call_event _ = []"

fun call_ok :: "sse_call \<Rightarrow> bool" where
  "call_ok (CEvent e d) = (nl \<notin> set e)"
| "call_ok _ = True"

text \<open>What one call writes.\<close>

fun call_text :: "sse_call \<Rightarrow> string" where
  "call_text (CEvent e d) = ''event: '' @ e @ nl # text_lines ''data: '' (Split nl d) @ [nl]"
| "call_text (CData d) = text_lines ''data: '' (Split nl d) @ [nl]"
| "call_text (CComment t) = text_lines '': '' (Split nl t) @ [nl]"
| "call_text CKeepalive = '': '' @ ''keepalive'' @ nl # [nl]"

lemma sent_call: "sent (sse_do x c) = sent c @ call_text x"
  by (cases x) (simp_all add: sse_Event_def sse_Data_def sent_writeData sse_Comment_def sent_print_lines sse_keepalive_def)

lemma read_call:
  assumes "call_ok x"
  shows "parse_events (call_text x @ rest) = call_event x @ parse_events rest"
proof (cases x)
  case (CEvent e d)
  then show ?thesis using assms read_writeData [of "no_event\<lparr>ev_type := e\<rparr>" d rest]
      read_fields(2) [of e no_event "text_lines ''data: '' (Split nl d) @ nl # rest"]
    by (simp add: parse_events_def [of "_ @ rest"] parse_events_def [of "_ # _"] no_event_def Join_Split)
next
  case (CData d)
  then show ?thesis using read_writeData [of no_event d rest]
    by (simp add: parse_events_def [of "_ @ _"] no_event_def Join_Split)
next
  case (CComment t)
  have "read_events no_event (Split nl (text_lines '': '' (Split nl t) @ nl # rest)) = parse_events rest"
    using Split_parts [of _ nl t]
    by (subst read_text_lines [where f = "\<lambda>l b. b", OF read_fields(3)])
      (simp_all only: read_blank fold_skip, auto simp: no_event_def)
  then show ?thesis using CComment by (simp add: parse_events_def [of "_ @ _"])
next
  case CKeepalive
  have "read_events no_event (Split nl ('': '' @ ''keepalive'' @ nl # nl # rest)) = parse_events rest"
  proof (subst read_fields(3))
    show "read_events no_event (Split nl (nl # rest)) = parse_events rest"
      by (simp only: read_blank) (simp add: no_event_def)
  qed simp
  then show ?thesis using CKeepalive by (simp add: parse_events_def [of "_ # _"])
qed

lemma sse_roundtrip:
  "list_all call_ok xs \<Longrightarrow> sent c = [] \<Longrightarrow> parse_events (sent (fold sse_do xs c)) = concat (map call_event xs)"
proof -
  have 1: "sent (fold sse_do xs c) = sent c @ concat (map call_text xs)" for xs and c :: "'a Context"
    by (induction xs arbitrary: c) (simp_all add: sent_call)
  have 2: "list_all call_ok xs \<Longrightarrow> parse_events (concat (map call_text xs)) = concat (map call_event xs)" for xs
    by (induction xs) (simp_all add: read_call, simp add: parse_events_def)
  show "list_all call_ok xs \<Longrightarrow> sent c = [] \<Longrightarrow> ?thesis" using 1 [of xs c] 2 [of xs] by simp
qed

end
