(* ===== verification/Go_Path.thy ===== *)
theory Go_Path
  imports Go_Strings
begin

text \<open>
  \<open>Clean\<close> and \<open>Join\<close> of Go's \<open>path\<close> package, as a machine over the segments of a path with the segments kept so far as
  its stack. In a rooted path a leading \<open>..\<close> is dropped, in a relative one it stays.
\<close>

fun clean_segs :: "bool \<Rightarrow> string list \<Rightarrow> string list \<Rightarrow> string list" where
  "clean_segs rooted st [] = rev st"
| "clean_segs rooted st (s # ss) =
    (if s = [] \<or> s = ''.'' then clean_segs rooted st ss
     else if s = ''..'' then
       (case st of
         [] \<Rightarrow> clean_segs rooted (if rooted then [] else [s]) ss
       | t # ts \<Rightarrow> clean_segs rooted (if t = ''..'' then s # st else ts) ss)
     else clean_segs rooted (s # st) ss)"

definition path_Clean :: "string \<Rightarrow> string" where
  "path_Clean p =
    (let rooted = HasPrefix p ''/''; segs = clean_segs rooted [] (Split (CHR ''/'') p)
     in if rooted then ''/'' @ Join segs ''/'' else if segs = [] then ''.'' else Join segs ''/'')"

definition path_Join :: "string list \<Rightarrow> string" where
  "path_Join elems = (case filter (\<lambda>e. e \<noteq> []) elems of [] \<Rightarrow> [] | es \<Rightarrow> path_Clean (Join es ''/''))"

subsection \<open>Paths from segments\<close>

definition slashed :: "string list \<Rightarrow> string" where
  "slashed ss = concat (map (\<lambda>s. ''/'' @ s) ss)"

definition no_slash :: "string list \<Rightarrow> bool" where
  "no_slash ss \<longleftrightarrow> (\<forall>s \<in> set ss. CHR ''/'' \<notin> set s)"

definition plain_seg :: "string \<Rightarrow> bool" where
  "plain_seg s \<longleftrightarrow> s \<noteq> [] \<and> CHR ''/'' \<notin> set s \<and> s \<noteq> ''.'' \<and> s \<noteq> ''..''"

lemma slashed_simps [simp]: "slashed [] = []" "slashed (s # ss) = CHR ''/'' # s @ slashed ss"
  "slashed (xs @ ys) = slashed xs @ slashed ys"
  by (simp_all add: slashed_def)

lemma no_slash_simps [simp]: "no_slash []" "no_slash (s # ss) \<longleftrightarrow> CHR ''/'' \<notin> set s \<and> no_slash ss"
  "no_slash (xs @ ys) \<longleftrightarrow> no_slash xs \<and> no_slash ys"
  by (auto simp: no_slash_def)

lemma slashed_Join: "ss \<noteq> [] \<Longrightarrow> slashed ss = ''/'' @ Join ss ''/''"
proof (induction ss)
  case (Cons s ss)
  then show ?case by (cases ss) auto
qed simp

lemma Split_slashed: "no_slash ss \<Longrightarrow> Split (CHR ''/'') (slashed ss) = (if ss = [] then [[]] else [] # ss)"
  using slashed_Join [of ss] Split_Join [of ss "CHR ''/''"] by (auto simp: no_slash_def)

lemma plain_no_slash: "list_all plain_seg ss \<Longrightarrow> no_slash ss"
  by (auto simp: list_all_iff plain_seg_def no_slash_def)

subsection \<open>Cleaning\<close>

lemma clean_append: "clean_segs r st (xs @ ys) = clean_segs r (rev (clean_segs r st xs)) ys"
  by (induction r st xs rule: clean_segs.induct) (auto split: list.split)

lemma clean_plain: "list_all plain_seg ss \<Longrightarrow> clean_segs r st ss = rev st @ ss"
  by (induction ss arbitrary: st) (auto simp: plain_seg_def)

lemma clean_empty: "clean_segs r st (filter (\<lambda>s. s \<noteq> []) ss) = clean_segs r st ss"
  by (induction r st ss rule: clean_segs.induct) (auto split: list.split)

text \<open>What is kept of a rooted path is plain, so that it never leaves the root.\<close>

lemma clean_rooted_plain:
  "list_all plain_seg st \<Longrightarrow> no_slash ss \<Longrightarrow> list_all plain_seg (clean_segs True st ss)"
  by (induction True st ss rule: clean_segs.induct) (auto simp: plain_seg_def split: list.split)

text \<open>Cleaning a relative path first makes no difference below a root.\<close>

lemma clean_relative:
  "list_all plain_seg bs \<Longrightarrow> no_slash ss \<Longrightarrow>
    clean_segs True [] (clean_segs False (bs @ replicate k ''..'') ss) = clean_segs True bs ss"
proof (induction ss arbitrary: bs k)
  case Nil
  have "clean_segs True [] (replicate k ''..'') = []" by (induction k) auto
  then have "clean_segs True [] (replicate k ''..'' @ rev bs) = clean_segs True [] (rev bs)" by (simp add: clean_append)
  moreover have "clean_segs True [] (rev bs) = rev bs" using clean_plain [of "rev bs"] Nil.prems(1) by simp
  ultimately show ?case by simp
next
  case (Cons s ss)
  consider "s = [] \<or> s = ''.''" | (up) "s = ''..''" | (plain) "plain_seg s" using Cons.prems(2) by (auto simp: plain_seg_def)
  then show ?case
  proof cases
    case 1
    then show ?thesis using Cons by auto
  next
    case up
    show ?thesis
    proof (cases bs)
      case Nil
      have "clean_segs False (replicate k ''..'') (s # ss) = clean_segs False (replicate (Suc k) ''..'') ss"
        using up by (cases k) simp_all
      then show ?thesis using Cons.IH [of "[]" "Suc k"] Cons.prems Nil up by simp
    next
      case (Cons b bs')
      then have "b \<noteq> ''..''" using Cons.prems(1) by (simp add: plain_seg_def)
      then show ?thesis using Cons.IH [of bs' k] Cons.prems Cons up by simp
    qed
  next
    case plain
    then show ?thesis using Cons.IH [of "s # bs" k] Cons.prems by (auto simp: plain_seg_def)
  qed
qed

lemma clean_no_slash: "no_slash st \<Longrightarrow> no_slash ss \<Longrightarrow> no_slash (clean_segs r st ss)"
proof (induction ss arbitrary: st)
  case (Cons s ss)
  then show ?case by (cases st) simp_all
qed (simp add: no_slash_def)

lemma Join_snoc: "ws \<noteq> [] \<Longrightarrow> Join (ws @ [w]) sep = Join ws sep @ sep @ w"
  by (induction ws sep rule: Join.induct) auto

lemma Clean_slashed: "no_slash ss \<Longrightarrow> ss \<noteq> [] \<Longrightarrow> path_Clean (slashed ss) = ''/'' @ Join (clean_segs True [] ss) ''/''"
  by (cases ss) (simp_all add: path_Clean_def Let_def Split_slashed del: slashed_simps(2), simp_all add: HasPrefix_def Split_slashed)

lemma Clean_slashed_plain: "list_all plain_seg ss \<Longrightarrow> ss \<noteq> [] \<Longrightarrow> path_Clean (slashed ss) = slashed ss"
proof -
  assume ss: "list_all plain_seg ss" "ss \<noteq> []"
  have "clean_segs True [] ss = ss" using clean_plain [OF ss(1), of True "[]"] by simp
  then have "path_Clean (slashed ss) = ''/'' @ Join ss ''/''" using Clean_slashed [OF plain_no_slash [OF ss(1)] ss(2)] by simp
  then show ?thesis using slashed_Join [OF ss(2)] by metis
qed

lemma Clean_rooted_Join:
  "no_slash ss \<Longrightarrow> ss \<noteq> [] \<Longrightarrow> path_Clean (''/'' @ Join ss ''/'') = path_Clean (slashed ss)"
  by (simp add: slashed_Join)

text \<open>Joins that occur in the code.\<close>

lemma Join_two: "p \<noteq> [] \<Longrightarrow> q \<noteq> [] \<Longrightarrow> path_Join [p, q] = path_Clean (p @ ''/'' @ q)"
  by (simp add: path_Join_def)

lemma Join_slashed:
  assumes "list_all plain_seg (xs @ ys)"
  shows "path_Join [slashed xs, slashed ys] = slashed (xs @ ys)"
proof -
  have s: "slashed zs = [] \<longleftrightarrow> zs = []" for zs by (cases zs) auto
  consider "xs = []" "ys = []" | "xs = []" "ys \<noteq> []" | "xs \<noteq> []" "ys = []" | "xs \<noteq> []" "ys \<noteq> []" by blast
  then show ?thesis
  proof cases
    case 4
    have "path_Join [slashed xs, slashed ys] = path_Clean (slashed (xs @ [] # ys))"
      using Join_two [of "slashed xs" "slashed ys"] s 4 by simp
    also have "\<dots> = ''/'' @ Join (clean_segs True [] (xs @ [] # ys)) ''/''"
      using assms plain_no_slash [of "xs @ ys"] by (intro Clean_slashed) auto
    also have "clean_segs True [] (xs @ [] # ys) = xs @ ys"
      using clean_plain [of xs True "[]"] clean_plain [of ys True "rev xs"] assms by (simp add: clean_append)
    finally show ?thesis using slashed_Join [of "xs @ ys"] 4 by simp
  qed (use assms s in \<open>auto simp: path_Join_def Clean_slashed_plain simp del: slashed_simps(2)\<close>)
qed

text \<open>A file below a name that may climb: the name is cleaned on its own first, then below the root.\<close>

lemma Clean_below:
  assumes "no_slash ps" "filter (\<lambda>p. p \<noteq> []) ps \<noteq> []" "plain_seg f"
  shows "path_Clean (''/'' @ path_Join [Join (filter (\<lambda>p. p \<noteq> []) ps) ''/'', f]) = path_Clean (slashed (ps @ [f]))"
proof -
  let ?qs = "filter (\<lambda>p. p \<noteq> []) ps"
  let ?cs = "clean_segs False [] (?qs @ [f])"
  have n: "no_slash (?qs @ [f])" using assms(1,3) by (auto simp: no_slash_def plain_seg_def)
  obtain q qs where q: "?qs = q # qs" using assms(2) by (cases ?qs) auto
  have qn: "q \<noteq> []" "CHR ''/'' \<notin> set q" using q assms(1) by (auto simp: no_slash_def filter_eq_Cons_iff)
  have j: "Join ?qs ''/'' \<noteq> []" "Join (?qs @ [f]) ''/'' = Join ?qs ''/'' @ ''/'' @ f"
    using q qn Join_snoc [OF assms(2)] by (cases qs; simp)+
  have rel: "\<not> HasPrefix (Join (?qs @ [f]) ''/'') ''/''"
    using q qn by (cases q; cases qs) auto
  have split: "Split (CHR ''/'') (Join (?qs @ [f]) ''/'') = ?qs @ [f]"
    by (rule Split_Join) (use n in \<open>auto simp: no_slash_def\<close>)
  have "last ?cs = f" "?cs \<noteq> []" using assms(3) by (auto simp: clean_append plain_seg_def)
  then have "path_Join [Join ?qs ''/'', f] = Join ?cs ''/''"
    using Join_two [OF j(1), of f] assms(3) rel split j(2) by (simp add: path_Clean_def Let_def plain_seg_def)
  moreover have "path_Clean (''/'' @ Join ?cs ''/'') = ''/'' @ Join (clean_segs True [] ?cs) ''/''"
    using Clean_slashed [OF clean_no_slash [OF no_slash_simps(1) n] \<open>?cs \<noteq> []\<close>] slashed_Join [OF \<open>?cs \<noteq> []\<close>] by (simp only:)
  moreover have "clean_segs True [] ?cs = clean_segs True [] (?qs @ [f])"
    using clean_relative [of "[]" "?qs @ [f]" 0] n by simp
  moreover have "clean_segs True [] (ps @ [f]) = clean_segs True [] (?qs @ [f])"
    using clean_empty [of True "[]" "ps @ [f]"] assms(3) by (simp add: plain_seg_def)
  moreover have "no_slash (ps @ [f])" using assms(1,3) by (simp add: plain_seg_def)
  ultimately show ?thesis using Clean_slashed [of "ps @ [f]"] by simp
qed

end
