(* ===== verification/Http_Static.thy ===== *)
theory Http_Static
  imports Http_App_Correct Go_Path
begin

text \<open>
  Static files of \<open>swifty_http\<close> (\<open>Static\<close>, \<open>createStaticHandler\<close>, \<open>staticFileExists\<close> and \<open>statusRecorder\<close> of
  \<open>group.go\<close>), the methods that register routes, and \<open>Default\<close>. What \<open>http.FileServer\<close> and \<open>http.NotFound\<close> call on
  the writer is a parameter, as is the tree of files; \<open>StripPrefix\<close>, \<open>Dir.Open\<close> and the cleaning of paths are
  translated from their documentation.
\<close>

subsection \<open>The file server\<close>

datatype fcall = FSet string string | FHeader int | FBody string

text \<open>\<open>fs_serve\<close>: the calls for a URL path and the cleaned name of the file that it stands for.\<close>

record file_server =
  fs_serve :: "string \<Rightarrow> string \<Rightarrow> fcall list"
  fs_not_found :: "fcall list"

definition FileServer :: "file_server \<Rightarrow> string \<Rightarrow> fcall list" where
  "FileServer S upath = fs_serve S upath (path_Clean (if HasPrefix upath ''/'' then upath else ''/'' @ upath))"

definition StripPrefix :: "file_server \<Rightarrow> string \<Rightarrow> (string \<Rightarrow> fcall list) \<Rightarrow> string \<Rightarrow> fcall list" where
  "StripPrefix S pre h upath =
    (if pre = [] then h upath
     else let p = TrimPrefix upath pre in if length p < length upath then h p else fs_not_found S)"

text \<open>The files below the root: whether a name is a directory, or nothing when \<open>Stat\<close> fails.\<close>

type_synonym disk = "string \<Rightarrow> bool option option"

definition Dir_Open :: "disk \<Rightarrow> string \<Rightarrow> bool option option" where
  "Dir_Open D name = D (path_Clean (''/'' @ name))"

subsection \<open>The recorder of the status\<close>

record recorder =
  rc_status :: int
  rc_wrote :: bool
  rc_writer :: writer

definition rec_WriteHeader :: "int \<Rightarrow> recorder \<Rightarrow> recorder" where
  "rec_WriteHeader code w =
    (let w = (if \<not> rc_wrote w then w\<lparr>rc_status := code, rc_wrote := True\<rparr> else w)
     in w\<lparr>rc_writer := w_WriteHeader code (rc_writer w)\<rparr>)"

definition rec_Write :: "string \<Rightarrow> recorder \<Rightarrow> recorder" where
  "rec_Write b w =
    (let w = (if \<not> rc_wrote w then w\<lparr>rc_status := StatusOK, rc_wrote := True\<rparr> else w)
     in w\<lparr>rc_writer := w_Write b (rc_writer w)\<rparr>)"

fun rec_run :: "fcall list \<Rightarrow> recorder \<Rightarrow> recorder" where
  "rec_run [] w = w"
| "rec_run (FSet k v # fs) w = rec_run fs (w\<lparr>rc_writer := w_Set k v (rc_writer w)\<rparr>)"
| "rec_run (FHeader code # fs) w = rec_run fs (rec_WriteHeader code w)"
| "rec_run (FBody b # fs) w = rec_run fs (rec_Write b w)"

subsection \<open>The handler\<close>

definition createStaticHandler :: "file_server \<Rightarrow> disk \<Rightarrow> string \<Rightarrow> string \<Rightarrow> 'j Context middleware" where
  "createStaticHandler S D pre relativePath =
    (let absolutePath = path_Join [pre, relativePath];
         fileServer = StripPrefix S absolutePath (FileServer S)
     in (\<lambda>c. let file = ctx_Param ''filepath'' c in
       if \<not> staticFileExists (Dir_Open D) file (path_Join [file, ''index.html''])
       then Finish (c\<lparr>cStatus := StatusNotFound, cStatusSet := True\<rparr>)
       else let w = (cWriter c)\<lparr>wHeader := wHeader (cWriter c) ++ cHeaders c\<rparr>;
                r = rec_run (fileServer (cPath c)) \<lparr>rc_status = cStatus c, rc_wrote = False, rc_writer = w\<rparr>
            in Finish (c\<lparr>cFlushed := True, cStatus := rc_status r, cWriter := rc_writer r\<rparr>)))"

definition Router_Get :: "'c Application \<Rightarrow> nat \<Rightarrow> string \<Rightarrow> 'c middleware \<Rightarrow> 'c Application option" where
  "Router_Get app i pattern handler = Router_addRoute app i ''GET'' pattern handler"

definition Router_Post :: "'c Application \<Rightarrow> nat \<Rightarrow> string \<Rightarrow> 'c middleware \<Rightarrow> 'c Application option" where
  "Router_Post app i pattern handler = Router_addRoute app i ''POST'' pattern handler"

definition Router_Put :: "'c Application \<Rightarrow> nat \<Rightarrow> string \<Rightarrow> 'c middleware \<Rightarrow> 'c Application option" where
  "Router_Put app i pattern handler = Router_addRoute app i ''PUT'' pattern handler"

definition Router_Delete :: "'c Application \<Rightarrow> nat \<Rightarrow> string \<Rightarrow> 'c middleware \<Rightarrow> 'c Application option" where
  "Router_Delete app i pattern handler = Router_addRoute app i ''DELETE'' pattern handler"

definition Router_Patch :: "'c Application \<Rightarrow> nat \<Rightarrow> string \<Rightarrow> 'c middleware \<Rightarrow> 'c Application option" where
  "Router_Patch app i pattern handler = Router_addRoute app i ''PATCH'' pattern handler"

definition Router_Head :: "'c Application \<Rightarrow> nat \<Rightarrow> string \<Rightarrow> 'c middleware \<Rightarrow> 'c Application option" where
  "Router_Head app i pattern handler = Router_addRoute app i ''HEAD'' pattern handler"

definition Router_Options :: "'c Application \<Rightarrow> nat \<Rightarrow> string \<Rightarrow> 'c middleware \<Rightarrow> 'c Application option" where
  "Router_Options app i pattern handler = Router_addRoute app i ''OPTIONS'' pattern handler"

definition Router_Static :: "file_server \<Rightarrow> disk \<Rightarrow> 'j Context Application \<Rightarrow> nat \<Rightarrow> string \<Rightarrow> 'j Context Application option" where
  "Router_Static S D app i relativePath =
    (let handler = createStaticHandler S D (prefix (routers app ! i)) relativePath;
         urlPattern = path_Join [relativePath, ''/*filepath'']
     in Router_Get app i urlPattern handler)"

text \<open>\<open>Default\<close>: the root router logs and recovers.\<close>

definition Default :: "'j Context Application" where
  "Default = Router_Use New 0 [Logger, Recovery]"

subsection \<open>The recorded status is the one that is sent\<close>

fun calls_of :: "hmap \<Rightarrow> fcall list \<Rightarrow> wcall list" where
  "calls_of h [] = []"
| "calls_of h (FSet k v # fs) = calls_of (h(k \<mapsto> v)) fs"
| "calls_of h (FHeader code # fs) = WriteHeader code h # calls_of h fs"
| "calls_of h (FBody b # fs) = Write b # calls_of h fs"

lemma rec_run_calls:
  "wCalls (rc_writer (rec_run fs w)) = wCalls (rc_writer w) @ calls_of (wHeader (rc_writer w)) fs"
  by (induction fs w rule: rec_run.induct)
    (simp_all add: w_Set_def rec_WriteHeader_def rec_Write_def w_WriteHeader_def w_Write_def Let_def del: fun_upd_apply)

lemma rec_run_wrote: "rc_wrote w \<Longrightarrow> rc_status (rec_run fs w) = rc_status w"
  by (induction fs w rule: rec_run.induct) (simp_all add: rec_WriteHeader_def rec_Write_def Let_def)

lemma rec_run_status:
  "\<not> rc_wrote w \<Longrightarrow> rc_status (rec_run fs w) =
    (case status_of (calls_of h fs) of None \<Rightarrow> rc_status w | Some s \<Rightarrow> s)"
proof (induction fs w arbitrary: h rule: rec_run.induct)
  case (2 k v fs w)
  then show ?case using 2(1) [where h = "h(k \<mapsto> v)"] 2(2) by (simp del: fun_upd_apply cong: option.case_cong)
qed (simp_all add: rec_run_wrote rec_WriteHeader_def rec_Write_def Let_def)

subsection \<open>Which file a request is answered with\<close>

text \<open>A segment of a route that is neither a parameter nor changed by cleaning.\<close>

definition route_seg :: "string \<Rightarrow> bool" where
  "route_seg s \<longleftrightarrow> plain_seg s \<and> \<not> HasPrefix s ''*'' \<and> \<not> HasPrefix s '':''"

text \<open>There is a file at the cleaned path of the segments, or a directory with an index page.\<close>

definition file_at :: "disk \<Rightarrow> string list \<Rightarrow> bool" where
  "file_at D ps \<longleftrightarrow> (case D (path_Clean (slashed ps)) of
      Some (Some isDir) \<Rightarrow> isDir \<longrightarrow> D (path_Clean (slashed (ps @ [''index.html'']))) \<noteq> None
    | _ \<Rightarrow> False)"

lemma route_segs: "list_all route_seg ss \<Longrightarrow> list_all plain_seg ss" "list_all route_seg ss \<Longrightarrow> no_slash ss"
  by (auto simp: list_all_iff route_seg_def no_slash_def plain_seg_def)

lemma Clean_slashed_filter:
  "no_slash ps \<Longrightarrow> filter (\<lambda>p. p \<noteq> []) ps \<noteq> [] \<Longrightarrow>
    path_Clean (''/'' @ Join (filter (\<lambda>p. p \<noteq> []) ps) ''/'') = path_Clean (slashed ps)"
proof -
  assume n: "no_slash ps" and f: "filter (\<lambda>p. p \<noteq> []) ps \<noteq> []"
  have n': "no_slash (filter (\<lambda>p. p \<noteq> []) ps)" using n by (auto simp: no_slash_def)
  have "ps \<noteq> []" using f by auto
  show ?thesis unfolding Clean_rooted_Join [OF n' f] Clean_slashed [OF n' f] Clean_slashed [OF n \<open>ps \<noteq> []\<close>] clean_empty by rule
qed

lemma staticFileExists_at:
  assumes "no_slash ps" "filter (\<lambda>p. p \<noteq> []) ps \<noteq> []"
  defines "file \<equiv> Join (filter (\<lambda>p. p \<noteq> []) ps) ''/''"
  shows "staticFileExists (Dir_Open D) file (path_Join [file, ''index.html'']) = file_at D ps"
proof -
  have "plain_seg ''index.html''" by (simp add: plain_seg_def)
  from Clean_below [OF assms(1,2) this] Clean_slashed_filter [OF assms(1,2)]
  show ?thesis by (simp add: staticFileExists_def Dir_Open_def file_at_def file_def split: option.split)
qed

text \<open>The part of the URL that the file server sees.\<close>

lemma static_stripped:
  assumes "list_all route_seg (xs @ ys)" "ps \<noteq> []"
  shows "StripPrefix S (path_Join [slashed xs, slashed ys]) (FileServer S) (slashed (xs @ ys @ ps)) =
    fs_serve S (slashed ps) (path_Clean (slashed ps))"
proof -
  have a: "path_Join [slashed xs, slashed ys] = slashed (xs @ ys)"
    by (rule Join_slashed) (use route_segs(1) [OF assms(1)] in simp)
  have t: "TrimPrefix (slashed (xs @ ys @ ps)) (slashed (xs @ ys)) = slashed ps"
    using TrimPrefix_append [of "slashed (xs @ ys)" "slashed ps"] by simp
  have p: "HasPrefix (slashed ps) ''/''" using assms(2) by (cases ps) simp_all
  have l: "length (slashed ps) < length (slashed (xs @ ys @ ps))" if "slashed (xs @ ys) \<noteq> []"
    using that by simp
  show ?thesis unfolding a StripPrefix_def t Let_def FileServer_def using p l by auto
qed

text \<open>How the route of a static directory is registered and how a path below it is parsed.\<close>

lemma parse_parts_segs:
  "list_all route_seg as \<Longrightarrow> parse_parts (as @ ps) = as @ parse_parts ps"
  by (induction as) (auto simp: route_seg_def plain_seg_def HasPrefix_single)

lemma parse_parts_rest: "\<forall>p \<in> set ps. \<not> HasPrefix p ''*'' \<Longrightarrow> parse_parts ps = filter (\<lambda>p. p \<noteq> []) ps"
  by (induction ps) (auto simp: HasPrefix_single)

lemma parsePattern_slashed: "no_slash ss \<Longrightarrow> parsePattern (slashed ss) = parse_parts ss"
  by (simp add: parsePattern_def Split_slashed)

lemma static_pattern:
  assumes "list_all route_seg ys"
  shows "path_Join [slashed ys, ''/*filepath''] = slashed (ys @ [''*filepath''])"
proof -
  have "list_all plain_seg (ys @ [''*filepath''])" using route_segs(1) [OF assms] by (simp add: plain_seg_def)
  from Join_slashed [OF this] show ?thesis by simp
qed

lemma bind_static:
  "list_all route_seg as \<Longrightarrow> bind_params (as @ [''*filepath'']) (as @ qs) Map.empty = Some [''filepath'' \<mapsto> Join qs ''/'']"
  by (induction as) (auto simp: route_seg_def plain_seg_def HasPrefix_single)

text \<open>The handler on a path below its route.\<close>

lemma static_handler:
  assumes "list_all route_seg (xs @ ys)" "no_slash ps" "filter (\<lambda>p. p \<noteq> []) ps \<noteq> []"
    and "cPath c = slashed (xs @ ys @ ps)" "cParams c = [''filepath'' \<mapsto> Join (filter (\<lambda>p. p \<noteq> []) ps) ''/'']"
  shows "\<exists>c'. createStaticHandler S D (slashed xs) (slashed ys) c = Finish c' \<and>
    (let calls = calls_of (wHeader (cWriter c) ++ cHeaders c) (fs_serve S (slashed ps) (path_Clean (slashed ps)))
     in if file_at D ps
       then cFlushed c' \<and> wCalls (cWriter c') = wCalls (cWriter c) @ calls \<and>
         cStatus c' = (case status_of calls of None \<Rightarrow> cStatus c | Some s \<Rightarrow> s)
       else c' = c\<lparr>cStatus := StatusNotFound, cStatusSet := True\<rparr>)"
proof -
  have ne: "ps \<noteq> []" using assms(3) by auto
  show ?thesis
    using staticFileExists_at [OF assms(2,3), of D] static_stripped [OF assms(1) ne, of S] assms(4,5)
      rec_run_status [where h = "wHeader (cWriter c) ++ cHeaders c"]
    by (simp add: createStaticHandler_def Let_def ctx_Param_def rec_run_calls del: slashed_simps(3) cong: option.case_cong)
qed

text \<open>The route of a static directory, and the request that it is chosen for.\<close>

lemma static_route:
  assumes I: "router_inv (table app)" and p: "prefix (routers app ! i) = slashed xs"
    and segs: "list_all route_seg (xs @ ys)" and reg: "Router_Static S D app i (slashed ys) = Some app'"
  shows "router_inv (table app') \<and> route_of (table app') ''GET'' ((xs @ ys) @ [''*filepath'']) =
    Some (createStaticHandler S D (slashed xs) (slashed ys))"
proof -
  let ?h = "createStaticHandler S D (slashed xs) (slashed ys)"
  let ?as = "(xs @ ys) @ [''*filepath'']"
  have s: "list_all route_seg ys" "slashed xs @ slashed (ys @ [''*filepath'']) = slashed ?as" using segs by simp_all
  have "no_slash ?as" using route_segs(2) [OF segs] by simp
  then have "parsePattern (slashed ?as) = ?as"
    using parse_parts_segs [OF segs, of "[''*filepath'']"] by (simp add: parsePattern_slashed del: slashed_simps append_assoc)
  moreover obtain r' where "addRoute (table app) ''GET'' (slashed ?as) ?h = Some r'" "router_inv r'"
    "\<forall>m' qs. route_of r' m' qs = (if m' = ''GET'' \<and> qs = parsePattern (slashed ?as) then Some ?h else route_of (table app) m' qs)"
    using addRoute_ok [OF I, of "''GET''" "slashed ?as" ?h] by auto
  moreover from this have "app' = app\<lparr>table := r'\<rparr>"
    using reg p s(2) static_pattern [OF s(1)]
    by (simp add: Router_Static_def Router_Get_def Router_addRoute_def Let_def del: slashed_simps)
  ultimately show ?thesis by simp
qed

lemma static_served:
  assumes I: "router_inv (table app)" and p: "prefix (routers app ! i) = slashed xs"
    and segs: "list_all route_seg (xs @ ys)" and reg: "Router_Static S D app i (slashed ys) = Some app'"
    and path: "cPath c = slashed (xs @ ys @ ps)" "no_slash ps" "\<forall>q \<in> set ps. \<not> HasPrefix q ''*''"
    and found: "getRoute (table app') ''GET'' (cPath c) = Some (Some (n, params))"
      "npattern n = canon ((xs @ ys) @ [''*filepath''])"
  shows "\<exists>h c'. handlers (table app') (route_key ''GET'' (npattern n)) = Some h \<and> h (c\<lparr>cParams := params\<rparr>) = Finish c' \<and>
    (let calls = calls_of (wHeader (cWriter c) ++ cHeaders c) (fs_serve S (slashed ps) (path_Clean (slashed ps)))
     in if file_at D ps
       then cFlushed c' \<and> wCalls (cWriter c') = wCalls (cWriter c) @ calls \<and>
         cStatus c' = (case status_of calls of None \<Rightarrow> cStatus c | Some s \<Rightarrow> s)
       else c' = c\<lparr>cParams := params, cStatus := StatusNotFound, cStatusSet := True\<rparr>)"
proof -
  let ?as = "(xs @ ys) @ [''*filepath'']" and ?qs = "filter (\<lambda>p. p \<noteq> []) ps"
  let ?h = "createStaticHandler S D (slashed xs) (slashed ys) :: 'a Context middleware"
  note R = static_route [OF I p segs reg]
  have "no_slash ((xs @ ys) @ ps)" using route_segs(2) [OF segs] path(2) by simp
  then have ss: "parsePattern (cPath c) = (xs @ ys) @ ?qs"
    using parse_parts_segs [OF segs, of ps] parse_parts_rest [OF path(3)] path(1)
    by (simp add: parsePattern_slashed del: slashed_simps)
  obtain rs n' params' where G: "getRoute (table app') ''GET'' (cPath c) = Some (Some (n', params'))"
    "found_route (table app') ''GET'' (parsePattern (cPath c)) rs" "npattern n' = canon rs"
    "handlers (table app') (route_key ''GET'' (npattern n')) = route_of (table app') ''GET'' rs"
    "bind_params rs (parsePattern (cPath c)) Map.empty = Some params'" "good_parts rs"
    using getRoute_ok [of "table app'" "''GET''" "cPath c"] R found(1) by (auto split: if_splits)
  have "good_parts ?as"
  proof -
    have "list_all route_seg as \<Longrightarrow> good_parts (as @ [''*filepath''])" for as
      by (induction as) (auto simp: route_seg_def plain_seg_def)
    then show ?thesis using segs by blast
  qed
  then have rs: "rs = ?as" using canon_inj [OF G(6)] G(1,3) found by simp
  have "pmatch ?as ((xs @ ys) @ ?qs)" using G(2) rs ss by (simp add: found_route_def)
  moreover have "pmatch (as @ [''*filepath'']) (as @ qs) \<Longrightarrow> qs \<noteq> []" if "list_all route_seg as" for as qs
    using that by (induction as) (auto simp: route_seg_def)
  ultimately have q: "?qs \<noteq> []" using segs by blast
  have b: "params = [''filepath'' \<mapsto> Join ?qs ''/'']"
    using bind_static [OF segs, of ?qs] G(1,5) rs ss found(1) by simp
  let ?c = "c\<lparr>cParams := params\<rparr>"
  have "cPath ?c = slashed (xs @ ys @ ps)" "cParams ?c = [''filepath'' \<mapsto> Join ?qs ''/'']" using path(1) b by simp_all
  from static_handler [OF segs path(2) q this, of S D] obtain c' where c':
    "?h ?c = Finish c'"
    "let calls = calls_of (wHeader (cWriter ?c) ++ cHeaders ?c) (fs_serve S (slashed ps) (path_Clean (slashed ps)))
     in if file_at D ps
       then cFlushed c' \<and> wCalls (cWriter c') = wCalls (cWriter ?c) @ calls \<and>
         cStatus c' = (case status_of calls of None \<Rightarrow> cStatus ?c | Some s \<Rightarrow> s)
       else c' = ?c\<lparr>cStatus := StatusNotFound, cStatusSet := True\<rparr>"
    by blast
  have "handlers (table app') (route_key ''GET'' (npattern n)) = Some ?h" using G(1,4) rs R found(1) by simp
  then show ?thesis using c' by (intro exI [of _ ?h] exI [of _ c']) (simp add: Let_def cong: option.case_cong)
qed

subsection \<open>Directories that are not served\<close>

text \<open>Without its leading slash a path is registered all the same, but the prefix is never stripped.\<close>

lemma static_needs_slash:
  assumes "plain_seg f"
  shows "StripPrefix S (path_Join [[], f]) h (slashed (f # ps)) = fs_not_found S"
proof -
  obtain a as where f: "f = a # as" "a \<noteq> CHR ''/''" using assms by (cases f) (auto simp: plain_seg_def)
  have "\<not> HasPrefix f ''/''" using f by simp
  moreover have "clean_segs False [] [f] = [f]" using clean_plain [of "[f]" False "[]"] assms by simp
  ultimately have "path_Join [[], f] = f" using f Split_no_sep [of "CHR ''/''" f] assms
    by (simp add: path_Join_def path_Clean_def plain_seg_def Let_def del: Split.simps clean_segs.simps)
  moreover have "\<not> HasPrefix (slashed (f # ps)) f" using f by (simp add: HasPrefix_def)
  ultimately show ?thesis using f by (simp add: StripPrefix_def TrimPrefix_def Let_def)
qed

text \<open>Nor is it below a group with a parameter.\<close>

lemma static_param_group:
  "StripPrefix S (path_Join [''/:user'', ''/files'']) h ''/bob/files/x'' = fs_not_found S"
  by (simp add: path_Join_def path_Clean_def StripPrefix_def TrimPrefix_def HasPrefix_def Let_def)

text \<open>The index page of the directory itself has no route: a star needs a segment.\<close>

lemma static_root_index: "list_all route_seg as \<Longrightarrow> \<not> pmatch (as @ [''*filepath'']) as"
  by (induction as) (auto simp: route_seg_def)

subsection \<open>Building an application\<close>

text \<open>The methods of \<open>Application\<close> are those of its root router, the one at position 0.\<close>

definition App_Use :: "'c Application \<Rightarrow> 'c middleware list \<Rightarrow> 'c Application" where
  "App_Use app ms = Router_Use app 0 ms"

definition App_Router :: "'c Application \<Rightarrow> string \<Rightarrow> 'c Application" where
  "App_Router app p = Router_Router app 0 p"

definition App_Get :: "'c Application \<Rightarrow> string \<Rightarrow> 'c middleware \<Rightarrow> 'c Application option" where
  "App_Get app pattern handler = Router_Get app 0 pattern handler"

definition App_Post :: "'c Application \<Rightarrow> string \<Rightarrow> 'c middleware \<Rightarrow> 'c Application option" where
  "App_Post app pattern handler = Router_Post app 0 pattern handler"

definition App_Put :: "'c Application \<Rightarrow> string \<Rightarrow> 'c middleware \<Rightarrow> 'c Application option" where
  "App_Put app pattern handler = Router_Put app 0 pattern handler"

definition App_Delete :: "'c Application \<Rightarrow> string \<Rightarrow> 'c middleware \<Rightarrow> 'c Application option" where
  "App_Delete app pattern handler = Router_Delete app 0 pattern handler"

definition App_Patch :: "'c Application \<Rightarrow> string \<Rightarrow> 'c middleware \<Rightarrow> 'c Application option" where
  "App_Patch app pattern handler = Router_Patch app 0 pattern handler"

definition App_Head :: "'c Application \<Rightarrow> string \<Rightarrow> 'c middleware \<Rightarrow> 'c Application option" where
  "App_Head app pattern handler = Router_Head app 0 pattern handler"

definition App_Options :: "'c Application \<Rightarrow> string \<Rightarrow> 'c middleware \<Rightarrow> 'c Application option" where
  "App_Options app pattern handler = Router_Options app 0 pattern handler"

definition App_All :: "'c Application \<Rightarrow> string \<Rightarrow> 'c middleware \<Rightarrow> 'c Application option" where
  "App_All app pattern handler = Router_All app 0 pattern handler"

definition App_Static :: "file_server \<Rightarrow> disk \<Rightarrow> 'j Context Application \<Rightarrow> string \<Rightarrow> 'j Context Application option" where
  "App_Static S D app relativePath = Router_Static S D app 0 relativePath"

text \<open>What a program does to set up its application; the numbers are routers that it holds.\<close>

datatype verb = GET | POST | PUT | DELETE | PATCH | HEAD | OPTIONS

datatype 'c app_op = OUse nat "'c middleware list" | OGroup nat string | ORoute verb nat string "'c middleware"
  | OAll nat string "'c middleware" | OStatic nat string

fun route_op :: "verb \<Rightarrow> 'c Application \<Rightarrow> nat \<Rightarrow> string \<Rightarrow> 'c middleware \<Rightarrow> 'c Application option" where
  "route_op GET = Router_Get"
| "route_op POST = Router_Post"
| "route_op PUT = Router_Put"
| "route_op DELETE = Router_Delete"
| "route_op PATCH = Router_Patch"
| "route_op HEAD = Router_Head"
| "route_op OPTIONS = Router_Options"

fun app_step :: "file_server \<Rightarrow> disk \<Rightarrow> 'j Context Application \<Rightarrow> 'j Context app_op \<Rightarrow> 'j Context Application option" where
  "app_step S D app (OUse i ms) = Some (Router_Use app i ms)"
| "app_step S D app (OGroup i p) = Some (Router_Router app i p)"
| "app_step S D app (ORoute v i pattern handler) = route_op v app i pattern handler"
| "app_step S D app (OAll i pattern handler) = Router_All app i pattern handler"
| "app_step S D app (OStatic i relativePath) = Router_Static S D app i relativePath"

fun app_steps :: "file_server \<Rightarrow> disk \<Rightarrow> 'j Context Application \<Rightarrow> 'j Context app_op list \<Rightarrow> 'j Context Application option" where
  "app_steps S D app [] = Some app"
| "app_steps S D app (x # xs) = (case app_step S D app x of None \<Rightarrow> None | Some app' \<Rightarrow> app_steps S D app' xs)"

text \<open>A program is well formed when it only uses routers that it has got before.\<close>

fun op_router :: "'c app_op \<Rightarrow> nat" where
  "op_router (OUse i ms) = i"
| "op_router (OGroup i p) = i"
| "op_router (ORoute v i pattern handler) = i"
| "op_router (OAll i pattern handler) = i"
| "op_router (OStatic i p) = i"

fun ops_ok :: "nat \<Rightarrow> 'c app_op list \<Rightarrow> bool" where
  "ops_ok n [] = True"
| "ops_ok n (x # xs) = (op_router x < n \<and> ops_ok (case x of OGroup _ _ \<Rightarrow> Suc n | _ \<Rightarrow> n) xs)"

text \<open>Preservation, and progress for requests.\<close>

lemma route_op_ok:
  assumes "app_ok app"
  shows "\<exists>app'. route_op v app i pattern handler = Some app' \<and> app_ok app' \<and> routers app' = routers app"
proof -
  have "\<exists>m. CHR ''-'' \<notin> set m \<and> route_op v app i pattern handler = Router_addRoute app i m pattern handler"
    by (cases v)
      (simp_all add: Router_Get_def Router_Post_def Router_Put_def Router_Delete_def Router_Patch_def Router_Head_def Router_Options_def,
       (rule exI, rule conjI [OF _ refl], simp)+)
  then show ?thesis using Router_addRoute_ok [OF assms] by metis
qed

lemma app_step_ok:
  assumes "app_ok app" "op_router x < length (routers app)"
  shows "\<exists>app'. app_step S D app x = Some app' \<and> app_ok app' \<and>
    length (routers app') = (case x of OGroup _ _ \<Rightarrow> Suc (length (routers app)) | _ \<Rightarrow> length (routers app))"
proof (cases x)
  case (OUse i ms)
  then show ?thesis using Router_Use_ok [OF assms(1), of i ms] assms(2) by (simp add: Router_Use_def Let_def)
next
  case (OGroup i p)
  then show ?thesis using Router_Router_ok [OF assms(1), of i p] assms(2) by (simp add: Router_Router_def)
next
  case (ORoute v i p h)
  then show ?thesis using route_op_ok [OF assms(1), of v i p h] by auto
next
  case (OAll i p h)
  then show ?thesis using add_routes_ok [OF assms(1), of all_methods i p h] by (auto simp: Router_All_def all_methods_def)
next
  case (OStatic i p)
  then show ?thesis
    using route_op_ok [OF assms(1), of GET i "path_Join [p, ''/*filepath'']" "createStaticHandler S D (prefix (routers app ! i)) p"]
    by (auto simp: Router_Static_def Let_def)
qed

lemma app_steps_ok:
  "app_ok app \<Longrightarrow> ops_ok (length (routers app)) xs \<Longrightarrow> \<exists>app'. app_steps S D app xs = Some app' \<and> app_ok app'"
proof (induction xs arbitrary: app)
  case (Cons x xs)
  obtain app1 where a: "app_step S D app x = Some app1" "app_ok app1"
    "length (routers app1) = (case x of OGroup _ _ \<Rightarrow> Suc (length (routers app)) | _ \<Rightarrow> length (routers app))"
    using app_step_ok [OF Cons.prems(1), of x] Cons.prems(2) by auto
  then show ?case using Cons.IH [OF a(2)] Cons.prems(2) by simp
qed simp

lemma ServeHTTP_total: "app_ok app \<Longrightarrow> ServeHTTP R app w meth path \<noteq> None"
  using ServeHTTP_ok [of app meth path R w] by (metis option.distinct(1))

end
