(* ===== verification/Http_Properties.thy ===== *)
theory Http_Properties
  imports Http_App_Correct Http_Sse Http_Static
begin

text \<open>The properties of \<open>swifty_http\<close>: routing, the middleware chain, responses and event streams.\<close>


definition demo_writer :: writer where
  "demo_writer = \<lparr>wHeader = Map.empty, wCalls = []\<rparr>"

definition demo_renderer :: "nat renderer" where
  "demo_renderer = \<lparr>json_marshal = (\<lambda>_. None), templates = None\<rparr>"



text \<open>Registering a route changes the handler of that method and pattern, whatever slashes it was
  written with, and of no other.\<close>

theorem route_register:
  assumes "router_inv r" "CHR ''-'' \<notin> set m"
  shows "\<exists>r'. addRoute r m pattern h = Some r' \<and> router_inv r' \<and>
    (\<forall>m' ps. route_of r' m' ps = (if m' = m \<and> ps = parsePattern pattern then Some h else route_of r m' ps))"
  using assms by (rule addRoute_ok)

theorem route_register_witness:
  "\<exists>r. addRoute newRouter ''GET'' ''//a/b/'' (5 :: nat) = Some r \<and> route_of r ''GET'' [''a'', ''b''] = Some 5 \<and> route_of r ''GET'' [''a''] = None"
proof -
  have p: "parsePattern ''//a/b/'' = [''a'', ''b'']" by (simp add: parsePattern_def)
  obtain r where r: "addRoute newRouter ''GET'' ''//a/b/'' (5 :: nat) = Some r" "router_inv r"
    "\<forall>m' ps. route_of r m' ps = (if m' = ''GET'' \<and> ps = parsePattern ''//a/b/'' then Some 5 else route_of newRouter m' ps)"
    using route_register [OF newRouter_ok(1), of "''GET''" "''//a/b/''" 5] by force
  then show ?thesis unfolding p by (simp add: newRouter_ok(2))
qed

text \<open>However often the middlewares of a chain call next, the handler runs at most once.\<close>

theorem handler_once: "snd (fst (compose (map counted_mw ms) (Some (counted_handler h)) (c, 0))) \<le> 1"
  by (rule handler_at_most_once)



text \<open>Behind Recovery, a panic of anything inside becomes a context with status 500, the JSON error
  and no other headers; only the abort sentinel of net/http goes on.\<close>

theorem recovery_500:
  "\<exists>c' p. snd (dispatch ms final 1 0 c) = (c', p) \<and>
    compose (Recovery # ms) final c = (case p of
        None \<Rightarrow> (c', None)
      | Some ErrAbortHandler \<Rightarrow> (c', Some ErrAbortHandler)
      | Some (PanicMsg s) \<Rightarrow> (c'\<lparr>cStatus := StatusInternalServerError, cStatusSet := True, cType := [], cHeaders := Map.empty,
          cBody := Some (JsonBody (HMessage ''Internal Server Error''))\<rparr>, None))"
  by (rule compose_Recovery)

text \<open>Rendering writes exactly one header, with the status the context settled on (404 promoted to 200
  for a body, 500 when the body cannot be rendered), and a body exactly when there is one and the status
  allows it.\<close>

theorem one_response:
  assumes "\<not> cFlushed c" "no_response (cWriter c)"
  shows "headers_sent (wCalls (cWriter (respond R c))) = 1 \<and>
    status_of (wCalls (cWriter (respond R c))) = Some (final_status R c) \<and>
    (writes (wCalls (cWriter (respond R c))) = [] \<longleftrightarrow> cBody c = None \<or> emptyStatus (final_status R c))"
  using assms by (rule respond_one)

theorem one_response_witness:
  "status_of (wCalls (cWriter (respond demo_renderer (ctx_String ''hi'' (newContext demo_writer ''/'' ''GET''))))) = Some 200"
proof -
  let ?c = "ctx_String ''hi'' (newContext demo_writer ''/'' ''GET'')"
  have c: "\<not> cFlushed ?c" "no_response (cWriter ?c)" "final_status demo_renderer ?c = 200"
    by (simp_all add: ctx_String_def promoteStatus_def newContext_def demo_writer_def no_response_def final_status_def
      StatusOK_def StatusNotFound_def emptyStatus_def)
  show ?thesis using one_response [OF c(1,2), of demo_renderer] c(3) by simp
qed



text \<open>With one more slash in front, a path below a group's prefix reaches the same route without
  matching the group, so that the middlewares of the group are not run for it.\<close>

theorem group_bypass:
  assumes "c \<noteq> CHR ''/''"
  shows "\<not> matchRouterPath (''//'' @ path) (CHR ''/'' # c # p) \<and>
    getRoute r meth (''//'' @ path) = getRoute r meth (''/'' @ path)"
  using double_slash_bypass [OF assms] by blast

theorem group_bypass_witness:
  "matchRouterPath ''/admin/x'' ''/admin'' \<and> \<not> matchRouterPath ''//admin/x'' ''/admin'' \<and>
    getRoute (newRouter :: nat router) ''GET'' ''//admin/x'' = getRoute (newRouter :: nat router) ''GET'' ''/admin/x''"
  using group_bypass [of "CHR ''a''" "''admin/x''" "''dmin''" "newRouter :: nat router" "''GET''"] by (simp add: matchRouterPath_def HasPrefix_def)


subsection \<open>Static files\<close>


definition demo_files :: disk where
  "demo_files = [''/'' \<mapsto> Some True, ''/a.txt'' \<mapsto> Some False]"

definition demo_server :: file_server where
  "demo_server = \<lparr>fs_serve = (\<lambda>url name. [FSet ''Content-Type'' ''text/plain'', FHeader 206, FBody name]),
     fs_not_found = [FHeader 404]\<rparr>"




text \<open>C20. Applications that are set up in a well formed way do not go wrong: whatever groups, middlewares, routes, static
  directories and whatever patterns a program registers on routers that it holds, no registration panics, the trie
  keeps its invariant, and then no request of any method and path makes the routing panic.\<close>

theorem app_does_not_panic:
  assumes "ops_ok 1 ops"
  shows "\<exists>app. app_steps S D New ops = Some app \<and> app_ok app \<and> (\<forall>R w meth path. ServeHTTP R app w meth path \<noteq> None)"
  using app_steps_ok [OF New_ok, of ops S D] assms ServeHTTP_total by (auto simp: New_def)

theorem app_does_not_panic_witness:
  "\<exists>app. app_steps demo_server demo_files New
      [OGroup 0 ''api//'', OUse 1 [Recovery], ORoute GET 1 ''/:id/*'' notFound, OAll 1 [] notFound, OStatic 0 ''*''] = Some (app :: nat Context Application) \<and>
    ServeHTTP demo_renderer app demo_writer ''GET'' ''///'' \<noteq> None"
  using app_does_not_panic [of "[OGroup 0 ''api//'', OUse 1 [Recovery], ORoute GET 1 ''/:id/*'' notFound, OAll 1 [] notFound, OStatic 0 ''*'']"
      demo_server demo_files] by fastforce

end
