(* ===== verification/Http_WebSocket.thy ===== *)
theory Http_WebSocket
  imports Http_Context Big_Endian
begin

text \<open>
  Web sockets (\<open>swifty_http/websocket.go\<close>): the upgrade, the frames, the reassembly of messages and the
  read loops. The input of a connection is the list of bytes that will arrive before it ends; what is
  written and which handlers are called is recorded. A reader is a function that takes bytes off the
  input or fails, as \<open>io.ReadFull\<close> does.
\<close>

definition ContinuationFrame :: nat where "ContinuationFrame = 0"
definition TextMessage :: nat where "TextMessage = 1"
definition BinaryMessage :: nat where "BinaryMessage = 2"
definition CloseMessage :: nat where "CloseMessage = 8"
definition PingMessage :: nat where "PingMessage = 9"
definition PongMessage :: nat where "PongMessage = 10"

lemmas opcode_defs = ContinuationFrame_def TextMessage_def BinaryMessage_def CloseMessage_def
  PingMessage_def PongMessage_def

definition maxFrameSize :: nat where "maxFrameSize = 65536"
definition closeNormal :: nat where "closeNormal = 1000"

datatype ws_error = ErrWSClosed | ErrWSInvalidFrame | ErrEOF | ErrUnexpectedEOF | ErrWrite

subsection \<open>Readers\<close>

type_synonym 'a reader = "bytes \<Rightarrow> (ws_error + 'a) \<times> bytes"

definition ReadFull :: "nat \<Rightarrow> bytes reader" where
  "ReadFull n bs =
    (if n \<le> length bs then (Inr (take n bs), drop n bs)
     else (Inl (if bs = [] then ErrEOF else ErrUnexpectedEOF), []))"

definition rbind :: "'a reader \<Rightarrow> ('a \<Rightarrow> 'b reader) \<Rightarrow> 'b reader" where
  "rbind m f bs = (case m bs of (Inl e, bs) \<Rightarrow> (Inl e, bs) | (Inr x, bs) \<Rightarrow> f x bs)"

definition ret :: "'a \<Rightarrow> 'a reader" where
  "ret x bs = (Inr x, bs)"

definition fail :: "ws_error \<Rightarrow> 'a reader" where
  "fail e bs = (Inl e, bs)"

subsection \<open>Frames\<close>

definition read_length :: "nat \<Rightarrow> nat reader" where
  "read_length len =
    (if len = 126 then rbind (ReadFull 2) (\<lambda>ext. ret (unat (Uint16 ext)))
     else if len = 127 then rbind (ReadFull 8) (\<lambda>ext. ret (unat (Uint64 ext)))
     else ret len)"

definition mask_bytes :: "bytes \<Rightarrow> bytes \<Rightarrow> bytes" where
  "mask_bytes maskKey payload = map (\<lambda>i. payload ! i XOR maskKey ! (i mod 4)) [0..<length payload]"

definition known_opcode :: "nat \<Rightarrow> bool \<Rightarrow> nat \<Rightarrow> bool" where
  "known_opcode opcode fin len \<longleftrightarrow>
    (if opcode = ContinuationFrame \<or> opcode = TextMessage \<or> opcode = BinaryMessage then True
     else if opcode = CloseMessage \<or> opcode = PingMessage \<or> opcode = PongMessage
       then \<not> (\<not> fin \<or> 125 < len)
     else False)"

definition readFrame :: "nat \<Rightarrow> (nat \<times> bool \<times> bytes) reader" where
  "readFrame limit =
    rbind (ReadFull 2) (\<lambda>header.
      let fin = (header ! 0) AND 0x80 \<noteq> 0 in
      if (header ! 0) AND 0x70 \<noteq> 0 then fail ErrWSInvalidFrame
      else
        let opcode = unat ((header ! 0) AND 0x0F);
            masked = (header ! 1) AND 0x80 \<noteq> 0;
            len = unat ((header ! 1) AND 0x7F)
        in if \<not> known_opcode opcode fin len then fail ErrWSInvalidFrame
           else if \<not> masked then fail ErrWSInvalidFrame
           else rbind (read_length len) (\<lambda>len.
             if limit < len then fail ErrWSInvalidFrame
             else rbind (ReadFull 4) (\<lambda>maskKey.
               rbind (ReadFull len) (\<lambda>payload. ret (opcode, fin, mask_bytes maskKey payload)))))"

definition writeFrame :: "nat \<Rightarrow> bytes \<Rightarrow> bytes" where
  "writeFrame opcode payload =
    (let len = length payload;
         header =
           (if len \<le> 125 then [of_nat (0x80 OR opcode), of_nat len]
            else if len \<le> 65535 then [of_nat (0x80 OR opcode), 126] @ PutUint16 (of_nat len)
            else [of_nat (0x80 OR opcode), 127] @ PutUint64 (of_nat len))
     in header @ payload)"

subsection \<open>Lengths\<close>

lemma ReadFull_shorter: "ReadFull n bs = (r, rest) \<Longrightarrow> length rest \<le> length bs"
  by (auto simp: ReadFull_def split: if_splits)

lemma ReadFull_Inr: "ReadFull n bs = (Inr x, rest) \<longleftrightarrow> n \<le> length bs \<and> x = take n bs \<and> rest = drop n bs"
  by (auto simp: ReadFull_def)

lemma rbind_Inr: "rbind m f bs = (Inr y, rest) \<longleftrightarrow> (\<exists>x mid. m bs = (Inr x, mid) \<and> f x mid = (Inr y, rest))"
  by (auto simp: rbind_def split: prod.splits sum.splits)

lemma ret_Inr [simp]: "ret x bs = (Inr y, rest) \<longleftrightarrow> y = x \<and> rest = bs"
  by (auto simp: ret_def)

lemma fail_Inr [simp]: "fail e bs \<noteq> (Inr y, rest)"
  by (simp add: fail_def)

lemma read_length_Inr: "read_length len bs = (Inr n, rest) \<Longrightarrow> length rest \<le> length bs"
  by (auto simp: read_length_def rbind_Inr ReadFull_Inr split: if_splits)

lemma mask_bytes_length [simp]: "length (mask_bytes k p) = length p"
  by (simp add: mask_bytes_def)

lemma readFrame_Inr:
  assumes "readFrame limit bs = (Inr (opcode, fin, payload), rest)"
  shows "length rest < length bs" "length payload \<le> limit" "known_opcode opcode fin (length payload)"
proof -
  obtain mid len rest1 rest2 maskKey raw where
    h: "2 \<le> length bs" "mid = drop 2 bs"
    and k: "known_opcode opcode fin (unat ((take 2 bs ! 1) AND 0x7F))"
    and l: "read_length (unat ((take 2 bs ! 1) AND 0x7F)) mid = (Inr len, rest1)" "\<not> limit < len"
    and r: "ReadFull 4 rest1 = (Inr maskKey, rest2)" "ReadFull len rest2 = (Inr raw, rest)"
    and p: "payload = mask_bytes maskKey raw"
    using assms unfolding readFrame_def rbind_Inr ReadFull_Inr Let_def
    by (auto simp: rbind_Inr ReadFull_Inr split: if_splits)
  show "length rest < length bs"
    using h r read_length_Inr [OF l(1)] by (auto simp: ReadFull_Inr)
  have "length raw = len" using r by (auto simp: ReadFull_Inr)
  then have pl: "length payload = len" using p by simp
  then show "length payload \<le> limit" using l(2) by simp
  show "known_opcode opcode fin (length payload)"
    using k l(1) pl by (auto simp: known_opcode_def read_length_def opcode_defs split: if_splits)
qed

subsection \<open>Messages\<close>

function readMessage_loop :: "nat \<Rightarrow> nat \<Rightarrow> bytes \<Rightarrow> (nat \<times> bytes) reader" where
  "readMessage_loop limit msgType buf bs = (case readFrame limit bs of
      (Inl e, bs) \<Rightarrow> (Inl e, bs)
    | (Inr (opcode, fin, data), rest) \<Rightarrow>
        if opcode = CloseMessage \<or> opcode = PingMessage \<or> opcode = PongMessage then (Inr (opcode, data), rest)
        else if opcode = ContinuationFrame then
          (if msgType = 0 then (Inl ErrWSInvalidFrame, rest)
           else if length buf + length data > limit then (Inl ErrWSInvalidFrame, rest)
           else
             let buf = buf @ data in
             if fin then (Inr (msgType, buf), rest) else readMessage_loop limit msgType buf rest)
        else
          (if msgType \<noteq> 0 then (Inl ErrWSInvalidFrame, rest)
           else if fin then (Inr (opcode, data), rest)
           else readMessage_loop limit opcode (buf @ data) rest))"
  by pat_completeness auto
termination
  by (relation "measure (\<lambda>(limit, msgType, buf, bs). length bs)")
    (auto dest: readFrame_Inr(1) simp: eq_commute [of _ "readFrame _ _"])

declare readMessage_loop.simps [simp del]

definition readMessage :: "nat \<Rightarrow> (nat \<times> bytes) reader" where
  "readMessage limit = readMessage_loop limit 0 []"

lemma readMessage_loop_bounds:
  "readMessage_loop limit msgType buf bs = (Inr (opcode, data), rest) \<Longrightarrow>
    length buf \<le> limit \<Longrightarrow> msgType \<in> {0, 1, 2} \<Longrightarrow> (msgType = 0 \<longrightarrow> buf = []) \<Longrightarrow>
    length rest < length bs \<and> length data \<le> limit \<and>
    (opcode \<in> {TextMessage, BinaryMessage} \<or>
     opcode \<in> {CloseMessage, PingMessage, PongMessage} \<and> length data \<le> 125)"
proof (induction limit msgType buf bs rule: readMessage_loop.induct)
  case (1 limit msgType buf bs)
  obtain r mid where f: "readFrame limit bs = (r, mid)" by (cases "readFrame limit bs")
  then obtain frame where r: "r = Inr frame" using 1(3) by (cases r) (simp_all add: readMessage_loop.simps)
  obtain fo fin fd where frame: "frame = (fo, fin, fd)" by (cases frame)
  have F: "readFrame limit bs = (Inr (fo, fin, fd), mid)" using f r frame by simp
  note B = readFrame_Inr [OF F]
  note E = 1(3) [unfolded readMessage_loop.simps [of limit msgType buf bs] F prod.case sum.case]
  consider "fo = CloseMessage \<or> fo = PingMessage \<or> fo = PongMessage" | "fo = ContinuationFrame"
    | "fo = TextMessage \<or> fo = BinaryMessage"
    using B(3) by (auto simp: known_opcode_def split: if_splits)
  then show ?case
  proof cases
    case c1: 1
    then show ?thesis using E B by (auto simp: known_opcode_def opcode_defs)
  next
    case c2: 2
    then have nc: "\<not> (fo = CloseMessage \<or> fo = PingMessage \<or> fo = PongMessage)" by (simp add: opcode_defs)
    have m: "msgType \<noteq> 0" "\<not> length buf + length fd > limit"
      using E nc c2 by (auto split: if_splits)
    show ?thesis
    proof (cases fin)
      case True
      then show ?thesis using E nc c2 m B 1(5) by (auto simp: opcode_defs)
    next
      case False
      then have "readMessage_loop limit msgType (buf @ fd) mid = (Inr (opcode, data), rest)"
        using E nc c2 m by simp
      then show ?thesis
        using 1(1) [OF f [symmetric] r frame [symmetric] refl nc c2 m refl False] m B(1) 1(5) by auto
    qed
  next
    case c3: 3
    then have nc: "\<not> (fo = CloseMessage \<or> fo = PingMessage \<or> fo = PongMessage)" "fo \<noteq> ContinuationFrame"
      by (auto simp: opcode_defs)
    have m: "\<not> msgType \<noteq> 0" using E nc by (auto split: if_splits)
    show ?thesis
    proof (cases fin)
      case True
      then show ?thesis using E nc m c3 B by auto
    next
      case False
      then have "readMessage_loop limit fo (buf @ fd) mid = (Inr (opcode, data), rest)"
        using E nc m by simp
      moreover have "fo \<in> {0, 1, 2}" "fo \<noteq> 0" using c3 by (auto simp: opcode_defs)
      ultimately show ?thesis
        using 1(2) [OF f [symmetric] r frame [symmetric] refl nc m False] B(1,2) m 1(6) by auto
    qed
  qed
qed

lemma readMessage_bounds:
  assumes "readMessage limit bs = (Inr (opcode, data), rest)"
  shows "length rest < length bs" "length data \<le> limit"
    "opcode \<in> {TextMessage, BinaryMessage} \<or>
     opcode \<in> {CloseMessage, PingMessage, PongMessage} \<and> length data \<le> 125"
  using readMessage_loop_bounds [of limit 0 "[]" bs] assms by (auto simp: readMessage_def)

subsection \<open>The frames of a client\<close>

text \<open>
  What a client sends: the header with the mask bit, the length, the key and the payload. It masks with a
  key that goes around, byte by byte.
\<close>

fun client_mask :: "bytes \<Rightarrow> bytes \<Rightarrow> bytes" where
  "client_mask k [] = []"
| "client_mask k (b # bs) = (b XOR hd k) # client_mask (rotate1 k) bs"

definition client_frame :: "bool \<Rightarrow> nat \<Rightarrow> bytes \<Rightarrow> bytes \<Rightarrow> bytes" where
  "client_frame fin opcode maskKey payload =
    (let b0 = (if fin then 0x80 else 0) OR of_nat opcode;
         len = length payload
     in (if len \<le> 125 then [b0, 0x80 OR of_nat len]
         else if len \<le> 65535 then [b0, 0x80 OR 126] @ PutUint16 (of_nat len)
         else [b0, 0x80 OR 127] @ PutUint64 (of_nat len)) @
        maskKey @ client_mask maskKey payload)"

lemma client_mask_length [simp]: "length (client_mask k p) = length p"
  by (induction k p rule: client_mask.induct) simp_all

lemma client_mask_nth:
  "length k = 4 \<Longrightarrow> i < length p \<Longrightarrow> client_mask k p ! i = p ! i XOR k ! (i mod 4)"
proof (induction k p arbitrary: i rule: client_mask.induct)
  case (2 k b bs)
  show ?case
  proof (cases i)
    case 0
    then show ?thesis using 2(2) by (cases k) auto
  next
    case (Suc j)
    have "rotate1 k ! (j mod 4) = k ! (Suc j mod 4)"
      using 2(2) by (simp add: nth_rotate1 mod_Suc_eq)
    then show ?thesis using 2 Suc by simp
  qed
qed simp

lemma mask_client: "length k = 4 \<Longrightarrow> mask_bytes k (client_mask k p) = p"
  by (rule nth_equalityI) (auto simp: mask_bytes_def client_mask_nth xor.assoc)

lemma rbind_ReadFull:
  "length xs = n \<Longrightarrow> rbind (ReadFull n) f (xs @ rest) = f xs rest"
  by (simp add: rbind_def ReadFull_def)

lemma rbind_ret [simp]: "rbind (ret x) f = f x"
  by (rule ext) (simp add: rbind_def ret_def)

lemma rbind_assoc: "rbind (rbind m f) g = rbind m (\<lambda>x. rbind (f x) g)"
  by (rule ext) (simp add: rbind_def split: prod.split sum.split)

lemma mask_bit: "((0x80 OR w) AND 0x80 :: byte) \<noteq> 0"
proof -
  have "bit ((0x80 OR w) AND 0x80 :: byte) 7" by (simp add: bit_simps)
  then show ?thesis by (metis bit_0_eq bot_apply bot_bool_def)
qed

lemma length_bits: "n < 128 \<Longrightarrow> unat ((0x80 OR of_nat n) AND 0x7F :: byte) = n"
proof -
  assume n: "n < 128"
  have "(0x80 OR of_nat n) AND 0x7F = (of_nat n AND 0x7F :: byte)"
    by (simp add: bit.conj_disj_distrib2)
  also have "\<dots> = take_bit 7 (of_nat n)" by (simp add: take_bit_eq_mask mask_eq_exp_minus_1)
  also have "unat \<dots> = n" using n by (simp add: unsigned_take_bit_eq unsigned_of_nat take_bit_nat_eq_self_iff)
  finally show ?thesis .
qed

lemma opcode_byte:
  assumes "opcode \<in> {0, 1, 2, 8, 9, 10}"
  shows "(((if fin then 0x80 else 0) OR of_nat opcode) AND 0x80 \<noteq> (0 :: byte)) = fin"
    "((if fin then 0x80 else 0) OR of_nat opcode) AND 0x70 = (0 :: byte)"
    "unat (((if fin then 0x80 else 0) OR of_nat opcode) AND 0x0F :: byte) = opcode"
  using assms by (cases fin; auto)+

lemma read_length_ext:
  assumes "len < 2 ^ 64"
  shows "rbind (read_length (if len \<le> 125 then len else if len \<le> 65535 then 126 else 127)) f
      ((if len \<le> 125 then [] else if len \<le> 65535 then PutUint16 (of_nat len) else PutUint64 (of_nat len)) @ rest) =
    f len rest"
proof -
  have "unat (of_nat len :: 16 word) = len" if "len \<le> 65535"
    using that by (simp add: unsigned_of_nat take_bit_nat_eq_self_iff)
  moreover have "unat (of_nat len :: 64 word) = len"
    using assms by (simp add: unsigned_of_nat take_bit_nat_eq_self_iff)
  ultimately show ?thesis
    by (auto simp: read_length_def rbind_assoc rbind_ReadFull Uint16_PutUint16 Uint64_PutUint64)
qed

theorem readFrame_client:
  assumes "known_opcode opcode fin (length payload)" "length maskKey = 4" "length payload < 2 ^ 64"
  shows "readFrame limit (client_frame fin opcode maskKey payload @ rest) =
    (if limit < length payload then (Inl ErrWSInvalidFrame, maskKey @ client_mask maskKey payload @ rest)
     else (Inr (opcode, fin, payload), rest))"
proof -
  let ?len = "length payload"
  let ?len7 = "if ?len \<le> 125 then ?len else if ?len \<le> 65535 then 126 else 127"
  let ?b0 = "(if fin then 0x80 else 0) OR of_nat opcode :: byte"
  let ?ext = "if ?len \<le> 125 then [] else if ?len \<le> 65535 then PutUint16 (of_nat ?len) else PutUint64 (of_nat ?len)"
  have oc: "opcode \<in> {0, 1, 2, 8, 9, 10}"
    using assms(1) by (auto simp: known_opcode_def opcode_defs split: if_splits)
  have fr: "client_frame fin opcode maskKey payload @ rest =
      [?b0, 0x80 OR of_nat ?len7] @ (?ext @ (maskKey @ (client_mask maskKey payload @ rest)))"
    by (simp add: client_frame_def Let_def)
  have k: "known_opcode opcode fin ?len7"
    using assms(1) by (auto simp: known_opcode_def opcode_defs split: if_splits)
  have l7: "?len7 < 128" by simp
  have m: "unat ((0x80 OR of_nat ?len7) AND 0x7F :: byte) = ?len7" by (rule length_bits [OF l7])
  show ?thesis
    unfolding readFrame_def fr
    apply (subst rbind_ReadFull, simp)
    unfolding Let_def nth_Cons_0 nth_Cons_Suc One_nat_def opcode_byte [OF oc] m
    apply (simp only: k mask_bit simp_thms if_True if_False read_length_ext [OF assms(3)])
    using assms(2) by (simp add: rbind_ReadFull mask_client ret_def fail_def)
qed

text \<open>A message in one or more frames, each with its own key.\<close>

fun continuation :: "(bytes \<times> bytes) list \<Rightarrow> bytes" where
  "continuation [] = []"
| "continuation [(k, p)] = client_frame True ContinuationFrame k p"
| "continuation ((k, p) # fs) = client_frame False ContinuationFrame k p @ continuation fs"

fun client_message :: "nat \<Rightarrow> (bytes \<times> bytes) list \<Rightarrow> bytes" where
  "client_message opcode [] = []"
| "client_message opcode [(k, p)] = client_frame True opcode k p"
| "client_message opcode ((k, p) # fs) = client_frame False opcode k p @ continuation fs"

definition frames_ok :: "(bytes \<times> bytes) list \<Rightarrow> bool" where
  "frames_ok fs \<longleftrightarrow> list_all (\<lambda>(k, p). length k = 4 \<and> length p < 2 ^ 64) fs"

abbreviation payload_of :: "(bytes \<times> bytes) list \<Rightarrow> bytes" where
  "payload_of fs \<equiv> concat (map snd fs)"

lemma known_data [simp]:
  "known_opcode ContinuationFrame fin n" "known_opcode TextMessage fin n" "known_opcode BinaryMessage fin n"
  by (simp_all add: known_opcode_def)

lemma data_opcodes:
  "opcode = TextMessage \<or> opcode = BinaryMessage \<Longrightarrow>
    known_opcode opcode fin n \<and> opcode \<noteq> ContinuationFrame \<and> opcode \<noteq> 0 \<and>
    \<not> (opcode = CloseMessage \<or> opcode = PingMessage \<or> opcode = PongMessage)"
  by (auto simp: known_opcode_def opcode_defs)

lemma continuation_not_control [simp]:
  "(ContinuationFrame = CloseMessage) = False" "(ContinuationFrame = PingMessage) = False"
  "(ContinuationFrame = PongMessage) = False"
  by (simp_all add: opcode_defs)

lemma loop_continuation:
  assumes "length k = 4" "length p < 2 ^ 64" "msgType \<noteq> 0"
  shows "readMessage_loop limit msgType buf (client_frame fin ContinuationFrame k p @ rest) =
    (if limit < length p then (Inl ErrWSInvalidFrame, k @ client_mask k p @ rest)
     else if limit < length buf + length p then (Inl ErrWSInvalidFrame, rest)
     else if fin then (Inr (msgType, buf @ p), rest)
     else readMessage_loop limit msgType (buf @ p) rest)"
  using assms by (subst readMessage_loop.simps) (simp add: readFrame_client Let_def)

lemma loop_continuations:
  "fs \<noteq> [] \<Longrightarrow> frames_ok fs \<Longrightarrow> msgType \<noteq> 0 \<Longrightarrow> length buf \<le> limit \<Longrightarrow>
    (if length buf + length (payload_of fs) \<le> limit
     then readMessage_loop limit msgType buf (continuation fs @ rest) = (Inr (msgType, buf @ payload_of fs), rest)
     else fst (readMessage_loop limit msgType buf (continuation fs @ rest)) = Inl ErrWSInvalidFrame)"
proof (induction fs arbitrary: buf rule: continuation.induct)
  case (2 k p)
  then show ?case by (auto simp: frames_ok_def loop_continuation)
next
  case (3 k p f fs)
  have k: "length k = 4" "length p < 2 ^ 64" using 3 by (auto simp: frames_ok_def)
  show ?case
  proof (cases "limit < length buf + length p")
    case True
    then show ?thesis using 3 k by (auto simp: loop_continuation)
  next
    case False
    then have "readMessage_loop limit msgType buf (continuation ((k, p) # f # fs) @ rest) =
        readMessage_loop limit msgType (buf @ p) (continuation (f # fs) @ rest)"
      using k 3 by (simp add: loop_continuation)
    then show ?thesis using 3(1) [of "buf @ p"] 3(3-) False by (auto simp: frames_ok_def add.assoc)
  qed
qed simp

theorem readMessage_client:
  assumes "opcode = TextMessage \<or> opcode = BinaryMessage" "fs \<noteq> []" "frames_ok fs"
  shows "if length (payload_of fs) \<le> limit
    then readMessage limit (client_message opcode fs @ rest) = (Inr (opcode, payload_of fs), rest)
    else fst (readMessage limit (client_message opcode fs @ rest)) = Inl ErrWSInvalidFrame"
proof -
  note D = data_opcodes [OF assms(1)]
  obtain k p gs where fs: "fs = (k, p) # gs" using assms(2) by (cases fs) auto
  have k: "length k = 4" "length p < 2 ^ 64" "frames_ok gs" using assms(3) fs by (auto simp: frames_ok_def)
  have first: "readMessage_loop limit 0 [] (client_frame fin opcode k p @ more) =
      (if limit < length p then (Inl ErrWSInvalidFrame, k @ client_mask k p @ more)
       else if fin then (Inr (opcode, p), more) else readMessage_loop limit opcode p more)" for fin more
    using D k by (subst readMessage_loop.simps) (simp add: readFrame_client)
  show ?thesis
  proof (cases gs)
    case Nil
    then show ?thesis using fs first [of True rest] by (simp add: readMessage_def)
  next
    case (Cons g gs')
    then have m: "readMessage limit (client_message opcode fs @ rest) =
        (if limit < length p then (Inl ErrWSInvalidFrame, k @ client_mask k p @ continuation gs @ rest)
         else readMessage_loop limit opcode p (continuation gs @ rest))"
      using fs first [of False "continuation gs @ rest"] by (simp add: readMessage_def)
    have "length p \<le> limit \<Longrightarrow> opcode \<noteq> 0 \<Longrightarrow> (if length p + length (payload_of gs) \<le> limit
        then readMessage_loop limit opcode p (continuation gs @ rest) = (Inr (opcode, p @ payload_of gs), rest)
        else fst (readMessage_loop limit opcode p (continuation gs @ rest)) = Inl ErrWSInvalidFrame)"
      using loop_continuations [of gs opcode p limit rest] k(3) Cons by simp
    then show ?thesis unfolding m using D fs by auto
  qed
qed

text \<open>
  A control frame between two fragments: it is returned at once, and the fragment that was read before
  it is gone, so the next fragment is an error.
\<close>

theorem control_between_fragments:
  assumes "opcode = TextMessage \<or> opcode = BinaryMessage" "ctl \<in> {PingMessage, PongMessage}"
    "length k1 = 4" "length k2 = 4" "length k3 = 4" "length p1 \<le> limit" "length p3 \<le> limit"
    "length p1 < 2 ^ 64" "length p2 \<le> 125" "length p2 \<le> limit" "length p3 < 2 ^ 64"
  shows "readMessage limit (client_frame False opcode k1 p1 @ client_frame True ctl k2 p2 @
      client_frame True ContinuationFrame k3 p3 @ rest) =
      (Inr (ctl, p2), client_frame True ContinuationFrame k3 p3 @ rest)"
    "readMessage limit (client_frame True ContinuationFrame k3 p3 @ rest) = (Inl ErrWSInvalidFrame, rest)"
proof -
  note D = data_opcodes [OF assms(1)]
  have c: "known_opcode ctl True (length p2)" "ctl = PingMessage \<or> ctl = PongMessage"
    using assms(2,9) by (auto simp: known_opcode_def opcode_defs)
  have "length p2 < 2 ^ 64" using assms(9) by (rule le_less_trans) simp
  then have "readMessage_loop limit opcode p1 (client_frame True ctl k2 p2 @ more) = (Inr (ctl, p2), more)" for more
    using assms c by (subst readMessage_loop.simps) (auto simp: readFrame_client)
  then show "readMessage limit (client_frame False opcode k1 p1 @ client_frame True ctl k2 p2 @
      client_frame True ContinuationFrame k3 p3 @ rest) =
      (Inr (ctl, p2), client_frame True ContinuationFrame k3 p3 @ rest)"
    using assms D by (simp add: readMessage_def) (subst readMessage_loop.simps, simp add: readFrame_client)
  show "readMessage limit (client_frame True ContinuationFrame k3 p3 @ rest) = (Inl ErrWSInvalidFrame, rest)"
    unfolding readMessage_def using assms by (subst readMessage_loop.simps) (simp add: readFrame_client)
qed

end
