(* ===== verification/Http_WebSocket_Conn.thy ===== *)
theory Http_WebSocket_Conn
  imports Http_WebSocket
begin

text \<open>
  A web socket connection (\<open>swifty_http/websocket.go\<close>): the upgrade of a request, the writing methods,
  the read loop \<open>Listen\<close>, \<open>ReadMessage\<close> and closing. \<open>wsIn\<close> are the bytes that will still arrive, \<open>wsOut\<close>
  the completed writes, \<open>wsEvents\<close> the calls of the registered handlers; the handlers' own actions are
  not part of the model. Locks only order the operations.
\<close>

datatype ws_event = EvMessage nat bytes | EvClose nat bytes | EvError ws_error | EvPing bytes | EvPong bytes

record WSConn =
  wsIn :: bytes
  wsOut :: "bytes list"
  wsOpen :: bool
  wsBroken :: bool
  wsClosed :: bool
  wsMax :: int
  hasMessage :: bool
  hasClose :: bool
  hasError :: bool
  hasPing :: bool
  hasPong :: bool
  wsEvents :: "ws_event list"

definition messageLimit :: "WSConn \<Rightarrow> nat" where
  "messageLimit ws = (if wsMax ws > 0 then nat (wsMax ws) else maxFrameSize)"

definition call_handler :: "bool \<Rightarrow> ws_event \<Rightarrow> WSConn \<Rightarrow> WSConn" where
  "call_handler registered e ws = (if registered then ws\<lparr>wsEvents := wsEvents ws @ [e]\<rparr> else ws)"

definition conn_Write :: "bytes \<Rightarrow> WSConn \<Rightarrow> ws_error option \<times> WSConn" where
  "conn_Write data ws =
    (if wsOpen ws \<and> \<not> wsBroken ws then (None, ws\<lparr>wsOut := wsOut ws @ [data]\<rparr>) else (Some ErrWrite, ws))"

definition ws_writeFrame :: "nat \<Rightarrow> bytes \<Rightarrow> WSConn \<Rightarrow> ws_error option \<times> WSConn" where
  "ws_writeFrame opcode payload = conn_Write (writeFrame opcode payload)"

subsection \<open>Close payloads\<close>

text \<open>\<open>utf8.ValidString\<close> of the standard library.\<close>

definition tail_byte :: "byte \<Rightarrow> bool" where
  "tail_byte b \<longleftrightarrow> 0x80 \<le> b \<and> b \<le> 0xBF"

fun ValidString :: "bytes \<Rightarrow> bool" where
  "ValidString [] = True"
| "ValidString (a # bs) =
    (if a < 0x80 then ValidString bs
     else case bs of
         [] \<Rightarrow> False
       | b # bs \<Rightarrow>
           if 0xC2 \<le> a \<and> a \<le> 0xDF then tail_byte b \<and> ValidString bs
           else case bs of
               [] \<Rightarrow> False
             | c # bs \<Rightarrow>
                 if 0xE0 \<le> a \<and> a \<le> 0xEF then
                   tail_byte b \<and> (a = 0xE0 \<longrightarrow> 0xA0 \<le> b) \<and> (a = 0xED \<longrightarrow> b \<le> 0x9F) \<and> tail_byte c \<and> ValidString bs
                 else case bs of
                     [] \<Rightarrow> False
                   | d # bs \<Rightarrow>
                       0xF0 \<le> a \<and> a \<le> 0xF4 \<and> tail_byte b \<and> (a = 0xF0 \<longrightarrow> 0x90 \<le> b) \<and> (a = 0xF4 \<longrightarrow> b \<le> 0x8F) \<and>
                       tail_byte c \<and> tail_byte d \<and> ValidString bs)"

definition parseClosePayload :: "bytes \<Rightarrow> nat \<times> bytes" where
  "parseClosePayload payload =
    (if length payload < 2 then (closeNormal, [])
     else
       let code = unat (Uint16 (take 2 payload));
           text = (if length payload > 2 then
               (let text = drop 2 payload in if \<not> ValidString text then [] else text)
             else [])
       in (code, text))"

definition formatClosePayload :: "int \<Rightarrow> bytes \<Rightarrow> bytes" where
  "formatClosePayload code text = PutUint16 (of_int code) @ text"

definition writeCloseFrame :: "int \<Rightarrow> WSConn \<Rightarrow> ws_error option \<times> WSConn" where
  "writeCloseFrame code ws = ws_writeFrame CloseMessage (formatClosePayload code []) ws"

subsection \<open>Writing and closing\<close>

definition ws_WriteMessage :: "nat \<Rightarrow> bytes \<Rightarrow> WSConn \<Rightarrow> ws_error option \<times> WSConn" where
  "ws_WriteMessage messageType data ws = ws_writeFrame messageType data ws"

definition ws_Send :: "bytes \<Rightarrow> WSConn \<Rightarrow> ws_error option \<times> WSConn" where
  "ws_Send text = ws_WriteMessage TextMessage text"

definition ws_WriteText :: "bytes \<Rightarrow> WSConn \<Rightarrow> ws_error option \<times> WSConn" where
  "ws_WriteText text = ws_WriteMessage TextMessage text"

definition ws_WriteBinary :: "bytes \<Rightarrow> WSConn \<Rightarrow> ws_error option \<times> WSConn" where
  "ws_WriteBinary data = ws_WriteMessage BinaryMessage data"

definition ws_Ping :: "WSConn \<Rightarrow> ws_error option \<times> WSConn" where
  "ws_Ping ws = ws_writeFrame PingMessage [] ws"

definition ws_CloseWithMessage :: "int \<Rightarrow> bytes \<Rightarrow> WSConn \<Rightarrow> WSConn" where
  "ws_CloseWithMessage code text ws =
    (let ws = ws\<lparr>wsClosed := True\<rparr>;
         (_, ws) = ws_writeFrame CloseMessage (formatClosePayload code text) ws
     in ws\<lparr>wsOpen := False, wsIn := []\<rparr>)"

definition ws_Close :: "WSConn \<Rightarrow> WSConn" where
  "ws_Close ws =
    (let ws = ws\<lparr>wsClosed := True\<rparr>;
         (_, ws) = ws_writeFrame CloseMessage (formatClosePayload (int closeNormal) []) ws
     in ws\<lparr>wsOpen := False, wsIn := []\<rparr>)"

definition handleError :: "ws_error \<Rightarrow> WSConn \<Rightarrow> WSConn" where
  "handleError err ws =
    (let ws = (if wsClosed ws then ws else call_handler (hasError ws) (EvError err) ws)
     in ws\<lparr>wsClosed := True\<rparr>)"

subsection \<open>Reading\<close>

text \<open>The case \<open>CloseMessage\<close> of both loops.\<close>

definition peer_close :: "bytes \<Rightarrow> WSConn \<Rightarrow> WSConn" where
  "peer_close payload ws =
    (let (code, text) = parseClosePayload payload;
         (_, ws) = writeCloseFrame (int code) ws;
         ws = ws\<lparr>wsClosed := True\<rparr>
     in call_handler (hasClose ws) (EvClose code text) ws)"

lemma wsIn_call [simp]: "wsIn (call_handler b e ws) = wsIn ws"
  by (simp add: call_handler_def)

lemma wsIn_write [simp]: "wsIn (snd (ws_writeFrame op p ws)) = wsIn ws"
  by (simp add: ws_writeFrame_def conn_Write_def)

function Listen :: "WSConn \<Rightarrow> WSConn" where
  "Listen ws = (case readMessage (messageLimit ws) (wsIn ws) of
      (Inl err, rest) \<Rightarrow> handleError err (ws\<lparr>wsIn := rest\<rparr>)
    | (Inr (opcode, payload), rest) \<Rightarrow>
        let ws = ws\<lparr>wsIn := rest\<rparr> in
        if opcode = PingMessage then
          Listen (snd (ws_writeFrame PongMessage payload (call_handler (hasPing ws) (EvPing payload) ws)))
        else if opcode = PongMessage then Listen (call_handler (hasPong ws) (EvPong payload) ws)
        else if opcode = CloseMessage then peer_close payload ws
        else if opcode = TextMessage \<or> opcode = BinaryMessage then
          Listen (call_handler (hasMessage ws) (EvMessage opcode payload) ws)
        else Listen ws)"
  by pat_completeness auto

termination
  by (relation "measure (\<lambda>ws. length (wsIn ws))")
    (auto dest: readMessage_bounds(1) simp: eq_commute [of _ "readMessage _ _"])

declare Listen.simps [simp del]

function ReadMessage :: "WSConn \<Rightarrow> (ws_error + nat \<times> bytes) \<times> WSConn" where
  "ReadMessage ws = (case readMessage (messageLimit ws) (wsIn ws) of
      (Inl err, rest) \<Rightarrow> (Inl err, handleError err (ws\<lparr>wsIn := rest\<rparr>))
    | (Inr (opcode, payload), rest) \<Rightarrow>
        let ws = ws\<lparr>wsIn := rest\<rparr> in
        if opcode = PingMessage then ReadMessage (snd (ws_writeFrame PongMessage payload ws))
        else if opcode = PongMessage then ReadMessage ws
        else if opcode = CloseMessage then (Inl ErrWSClosed, peer_close payload ws)
        else if opcode = TextMessage \<or> opcode = BinaryMessage then (Inr (opcode, payload), ws)
        else (Inl ErrWSInvalidFrame, ws))"
  by pat_completeness auto
termination
  by (relation "measure (\<lambda>ws. length (wsIn ws))")
    (auto dest: readMessage_bounds(1) simp: eq_commute [of _ "readMessage _ _"])

declare ReadMessage.simps [simp del]

subsection \<open>The upgrade\<close>

type_synonym headers = "string \<Rightarrow> string list"

definition headerContains :: "headers \<Rightarrow> string \<Rightarrow> string \<Rightarrow> bool" where
  "headerContains h key val \<longleftrightarrow>
    list_ex (\<lambda>v. list_ex (\<lambda>s. EqualFold (TrimSpace s) val) (Split (CHR '','') v)) (h (CanonicalHeaderKey key))"

definition header_Get :: "headers \<Rightarrow> string \<Rightarrow> string" where
  "header_Get h key = (case h (CanonicalHeaderKey key) of [] \<Rightarrow> [] | v # _ \<Rightarrow> v)"

fun negotiateSubprotocol :: "string \<Rightarrow> string list \<Rightarrow> string" where
  "negotiateSubprotocol clientHeader [] = []"
| "negotiateSubprotocol clientHeader (sp # sps) =
    (if list_ex (\<lambda>cp. TrimSpace cp = sp) (Split (CHR '','') clientHeader) then sp
     else negotiateSubprotocol clientHeader sps)"

record UpgradeOptions =
  MaxMessageSize :: int
  CheckOrigin :: "bool option"
  Subprotocols :: "string list"

datatype upgrade_error = OriginFailed | NotGet | MissingConnection | MissingUpgrade | BadVersion | MissingKey
  | HijackFailed | HandshakeFailed

text \<open>\<open>accept\<close> is \<open>computeAcceptKey\<close> (SHA-1 and base 64) and \<open>crlf\<close> ends a line.\<close>

definition crlf :: string where
  "crlf = [CHR 0x0D, CHR 0x0A]"

definition handshake :: "(string \<Rightarrow> string) \<Rightarrow> string \<Rightarrow> string \<Rightarrow> string" where
  "handshake accept key subprotocol =
    ''HTTP/1.1 101 Switching Protocols'' @ crlf @ ''Upgrade: websocket'' @ crlf @ ''Connection: Upgrade'' @ crlf @
    ''Sec-WebSocket-Accept: '' @ accept key @ crlf @
    (if subprotocol \<noteq> [] then ''Sec-WebSocket-Protocol: '' @ subprotocol @ crlf else []) @ crlf"

definition string_bytes :: "string \<Rightarrow> bytes" where
  "string_bytes s = map (\<lambda>c. of_nat (of_char c)) s"

text \<open>
  \<open>hijack\<close> is what \<open>Hijack\<close> returns: the bytes in its buffer, those that will still arrive, and whether
  the connection accepts writes. Both readers between which the code chooses give the same bytes.
\<close>

definition Upgrade :: "(string \<Rightarrow> string) \<Rightarrow> headers \<Rightarrow> UpgradeOptions option \<Rightarrow> (bytes \<times> bytes \<times> bool) option \<Rightarrow>
    'j Context \<Rightarrow> (upgrade_error + WSConn) \<times> 'j Context" where
  "Upgrade accept h opts hijack c =
    (if (case opts of None \<Rightarrow> False | Some oo \<Rightarrow> CheckOrigin oo = Some False)
       then (Inl OriginFailed, ctx_Throw 403 ''origin not allowed'' c)
     else if cMethod c \<noteq> ''GET''
       then (Inl NotGet, ctx_Throw 405 ''websocket: request method is not GET'' c)
     else if \<not> headerContains h ''Connection'' ''upgrade''
       then (Inl MissingConnection, ctx_Throw 400 ''missing Connection: upgrade'' c)
     else if \<not> headerContains h ''Upgrade'' ''websocket''
       then (Inl MissingUpgrade, ctx_Throw 400 ''missing Upgrade: websocket'' c)
     else if \<not> headerContains h ''Sec-WebSocket-Version'' ''13''
       then (Inl BadVersion, ctx_Throw 400 ''unsupported websocket version: 13 required''
         (ctx_Set ''Sec-WebSocket-Version'' ''13'' c))
     else
       let key = header_Get h ''Sec-WebSocket-Key'' in
       if key = [] then (Inl MissingKey, ctx_Throw 400 ''missing Sec-WebSocket-Key'' c)
       else
         let subprotocol = (case opts of
             Some oo \<Rightarrow> if Subprotocols oo \<noteq> []
               then negotiateSubprotocol (header_Get h ''Sec-WebSocket-Protocol'') (Subprotocols oo) else []
           | None \<Rightarrow> [])
         in case hijack of
             None \<Rightarrow> (Inl HijackFailed, ctx_Throw 500 ''hijack not supported'' c)
           | Some (buffered, arriving, writable) \<Rightarrow>
               let c = c\<lparr>cFlushed := True, cStatus := 101, cStatusSet := True\<rparr> in
               if \<not> writable then (Inl HandshakeFailed, c)
               else
                 (Inr \<lparr>wsIn = buffered @ arriving, wsOut = [string_bytes (handshake accept key subprotocol)],
                    wsOpen = True, wsBroken = False, wsClosed = False,
                    wsMax = (case opts of Some oo \<Rightarrow> if MaxMessageSize oo > 0 then MaxMessageSize oo else 0 | None \<Rightarrow> 0),
                    hasMessage = False, hasClose = False, hasError = False, hasPing = False, hasPong = False,
                    wsEvents = []\<rparr>, c))"

subsection \<open>Correctness\<close>

lemma close_payload_roundtrip:
  "0 \<le> code \<Longrightarrow> code < 65536 \<Longrightarrow>
    parseClosePayload (formatClosePayload code text) = (nat code, if ValidString text then text else [])"
proof -
  assume c: "0 \<le> code" "code < 65536"
  have "unat (of_int code :: 16 word) = nat code"
    using c by (simp add: unsigned_of_int take_bit_int_eq_self)
  then show ?thesis
    by (cases "text") (simp_all add: parseClosePayload_def formatClosePayload_def Uint16_PutUint16)
qed

lemma negotiateSubprotocol_ok:
  "negotiateSubprotocol client sps = p \<Longrightarrow> p \<noteq> [] \<Longrightarrow>
    p \<in> set sps \<and> (\<exists>cp \<in> set (Split (CHR '','') client). TrimSpace cp = p)"
  by (induction sps) (auto simp: list_ex_iff split: if_splits)

text \<open>
  The events of a loop: messages and control payloads within their bounds, then at most one \<open>EvClose\<close> or
  \<open>EvError\<close>, and nothing after it.
\<close>

fun loop_event :: "nat \<Rightarrow> ws_event \<Rightarrow> bool" where
  "loop_event limit (EvMessage opcode data) \<longleftrightarrow> (opcode = TextMessage \<or> opcode = BinaryMessage) \<and> length data \<le> limit"
| "loop_event limit (EvPing data) \<longleftrightarrow> length data \<le> min limit 125"
| "loop_event limit (EvPong data) \<longleftrightarrow> length data \<le> min limit 125"
| "loop_event limit _ \<longleftrightarrow> False"

fun final_event :: "ws_event \<Rightarrow> bool" where
  "final_event (EvClose _ _) = True"
| "final_event (EvError _) = True"
| "final_event _ = False"

lemma messageLimit_simps:
  "messageLimit (ws\<lparr>wsIn := i\<rparr>) = messageLimit ws" "messageLimit (call_handler b e ws) = messageLimit ws"
  "messageLimit (snd (ws_writeFrame opcode p ws)) = messageLimit ws"
  by (simp_all add: messageLimit_def call_handler_def ws_writeFrame_def conn_Write_def)

theorem Listen_ends:
  "\<exists>es fs. wsEvents (Listen ws) = wsEvents ws @ es @ fs \<and> list_all (loop_event (messageLimit ws)) es \<and>
    (fs = [] \<or> (\<exists>e. fs = [e] \<and> final_event e)) \<and> wsClosed (Listen ws)"
proof (induction ws rule: Listen.induct)
  case (1 ws)
  obtain r rest where m: "readMessage (messageLimit ws) (wsIn ws) = (r, rest)"
    by (cases "readMessage (messageLimit ws) (wsIn ws)")
  let ?ws = "ws\<lparr>wsIn := rest\<rparr>"
  show ?case
  proof (cases r)
    case (Inl err)
    then have "Listen ws = handleError err ?ws" using m by (subst Listen.simps) simp
    then show ?thesis
      by (intro exI [of _ "[]"] exI [of _ "if wsClosed ws \<or> \<not> hasError ws then [] else [EvError err]"])
        (auto simp: handleError_def call_handler_def)
  next
    case (Inr msg)
    obtain opcode payload where msg: "msg = (opcode, payload)" by (cases msg)
    have step: "\<exists>es fs. wsEvents (Listen ws) = wsEvents ws @ es @ fs \<and> list_all (loop_event (messageLimit ws)) es \<and>
        (fs = [] \<or> (\<exists>e. fs = [e] \<and> final_event e)) \<and> wsClosed (Listen ws)"
      if S: "Listen ws = Listen t" "wsEvents t = wsEvents ws @ new" "list_all (loop_event (messageLimit ws)) new"
        "messageLimit t = messageLimit ws"
        "\<exists>es fs. wsEvents (Listen t) = wsEvents t @ es @ fs \<and> list_all (loop_event (messageLimit t)) es \<and>
          (fs = [] \<or> (\<exists>e. fs = [e] \<and> final_event e)) \<and> wsClosed (Listen t)" for t new
    proof -
      obtain es fs where "wsEvents (Listen t) = wsEvents t @ es @ fs" "list_all (loop_event (messageLimit ws)) es"
        "fs = [] \<or> (\<exists>e. fs = [e] \<and> final_event e)" "wsClosed (Listen t)" using S(4,5) by auto
      then show ?thesis using S(1-3) by (intro exI [of _ "new @ es"] exI [of _ fs]) simp
    qed
    note L = Listen.simps [of ws, unfolded m Inr msg prod.case sum.case Let_def]
    consider "opcode = PingMessage" | "opcode = PongMessage" | "opcode = CloseMessage"
      | "opcode = TextMessage \<or> opcode = BinaryMessage"
      using readMessage_bounds(3) [of "messageLimit ws" "wsIn ws" opcode payload rest] m Inr msg by auto
    moreover have len: "length payload \<le> messageLimit ws"
      "opcode = PingMessage \<or> opcode = PongMessage \<Longrightarrow> length payload \<le> 125"
      using readMessage_bounds(2,3) [of "messageLimit ws" "wsIn ws" opcode payload rest] m Inr msg
      by (auto simp: opcode_defs)
    ultimately show ?thesis
    proof cases
      case c1: 1
      let ?t = "snd (ws_writeFrame PongMessage payload (call_handler (hasPing ?ws) (EvPing payload) ?ws))"
      have "Listen ws = Listen ?t" using L c1 by simp
      moreover have "wsEvents ?t = wsEvents ws @ (if hasPing ws then [EvPing payload] else [])"
        by (simp add: ws_writeFrame_def conn_Write_def call_handler_def)
      ultimately show ?thesis
        by (rule step) (use 1(1) [OF m [symmetric] Inr msg [symmetric] refl c1] c1 len in \<open>simp_all add: messageLimit_simps\<close>)
    next
      case c2: 2
      have ne: "opcode \<noteq> PingMessage" using c2 by (simp add: opcode_defs)
      let ?t = "call_handler (hasPong ?ws) (EvPong payload) ?ws"
      have "Listen ws = Listen ?t" using L c2 ne by simp
      moreover have "wsEvents ?t = wsEvents ws @ (if hasPong ws then [EvPong payload] else [])"
        by (simp add: call_handler_def)
      ultimately show ?thesis
        by (rule step) (use 1(2) [OF m [symmetric] Inr msg [symmetric] refl ne c2] c2 len in \<open>simp_all add: messageLimit_simps\<close>)
    next
      case c3: 3
      then have "Listen ws = peer_close payload ?ws" using L by (simp add: opcode_defs)
      then show ?thesis
        by (intro exI [of _ "[]"] exI [of _ "if hasClose ws then
            [EvClose (fst (parseClosePayload payload)) (snd (parseClosePayload payload))] else []"])
          (auto simp: peer_close_def writeCloseFrame_def ws_writeFrame_def conn_Write_def call_handler_def
            Let_def split: prod.split)
    next
      case c4: 4
      then have ne: "opcode \<noteq> PingMessage" "opcode \<noteq> PongMessage" "opcode \<noteq> CloseMessage" by (auto simp: opcode_defs)
      let ?t = "call_handler (hasMessage ?ws) (EvMessage opcode payload) ?ws"
      have "Listen ws = Listen ?t" using L c4 ne by simp
      moreover have "wsEvents ?t = wsEvents ws @ (if hasMessage ws then [EvMessage opcode payload] else [])"
        by (simp add: call_handler_def)
      ultimately show ?thesis
        by (rule step) (use 1(3) [OF m [symmetric] Inr msg [symmetric] refl ne c4] c4 len in \<open>simp_all add: messageLimit_simps\<close>)
    qed
  qed
qed

end
