(* ===== verification/Http_WebSocket_Key.thy ===== *)
theory Http_WebSocket_Key
  imports Http_WebSocket_Conn
begin

text \<open>
  The answer to a web socket upgrade, the registration of handlers, and the messages in JSON.
  \<open>computeAcceptKey\<close> of the web socket upgrade, with the functions of the Go library that it calls written out:
  \<open>crypto/sha1\<close> over a window of sixteen words, and \<open>base64.StdEncoding\<close>.
\<close>

unbundle bit_operations_syntax

subsection \<open>SHA-1\<close>

definition rotl :: "nat \<Rightarrow> 32 word \<Rightarrow> 32 word" where
  "rotl n x = push_bit n x OR drop_bit (32 - n) x"

definition sha1_f :: "nat \<Rightarrow> 32 word \<Rightarrow> 32 word \<Rightarrow> 32 word \<Rightarrow> 32 word" where
  "sha1_f t b c d =
    (if t < 20 then b AND c OR NOT b AND d
     else if 40 \<le> t \<and> t < 60 then (b OR c) AND d OR b AND c
     else b XOR c XOR d)"

definition sha1_k :: "nat \<Rightarrow> 32 word" where
  "sha1_k t = (if t < 20 then 0x5A827999 else if t < 40 then 0x6ED9EBA1 else if t < 60 then 0x8F1BBCDC else 0xCA62C1D6)"

type_synonym sha1_state = "32 word \<times> 32 word \<times> 32 word \<times> 32 word \<times> 32 word"

definition sha1_round :: "nat \<Rightarrow> 32 word \<Rightarrow> sha1_state \<Rightarrow> sha1_state" where
  "sha1_round t w s = (case s of (a, b, c, d, e) \<Rightarrow>
    (rotl 5 a + sha1_f t b c d + e + w + sha1_k t, a, rotl 30 b, c, d))"

text \<open>The window holds the words of round \<open>t\<close> and of the fifteen rounds behind it.\<close>

fun sha1_rounds :: "nat \<Rightarrow> nat \<Rightarrow> 32 word list \<Rightarrow> sha1_state \<Rightarrow> sha1_state" where
  "sha1_rounds 0 t ws s = s"
| "sha1_rounds (Suc n) t ws s =
    sha1_rounds n (Suc t) (tl ws @ [rotl 1 (ws ! 13 XOR ws ! 8 XOR ws ! 2 XOR ws ! 0)]) (sha1_round t (ws ! 0) s)"

definition sha1_add :: "sha1_state \<Rightarrow> sha1_state \<Rightarrow> sha1_state" where
  "sha1_add s s' = (case s of (a, b, c, d, e) \<Rightarrow> case s' of (a', b', c', d', e') \<Rightarrow> (a + a', b + b', c + c', d + d', e + e'))"

fun words32 :: "bytes \<Rightarrow> 32 word list" where
  "words32 (a # b # c # d # bs) = Uint32 [a, b, c, d] # words32 bs"
| "words32 _ = []"

definition sha1_block :: "sha1_state \<Rightarrow> bytes \<Rightarrow> sha1_state" where
  "sha1_block s b = sha1_add s (sha1_rounds 80 0 (words32 b) s)"

function blocks64 :: "bytes \<Rightarrow> bytes list" where
  "blocks64 bs = (if length bs < 64 then [] else take 64 bs # blocks64 (drop 64 bs))"
  by pat_completeness auto
termination by (relation "measure length") auto

declare blocks64.simps [simp del]

definition sha1_pad :: "bytes \<Rightarrow> bytes" where
  "sha1_pad m = m @ [0x80] @ replicate ((119 - length m mod 64) mod 64) 0 @ PutUint64 (of_nat (8 * length m))"

definition sha1_init :: sha1_state where
  "sha1_init = (0x67452301, 0xEFCDAB89, 0x98BADCFE, 0x10325476, 0xC3D2E1F0)"

definition sha1 :: "bytes \<Rightarrow> bytes" where
  "sha1 m = (case foldl sha1_block sha1_init (blocks64 (sha1_pad m)) of
    (a, b, c, d, e) \<Rightarrow> PutUint32 a @ PutUint32 b @ PutUint32 c @ PutUint32 d @ PutUint32 e)"

lemma sha1_length [simp]: "length (sha1 m) = 20"
  by (simp add: sha1_def split: prod.split)

lemma sha1_pad_blocks: "64 dvd length (sha1_pad m)"
proof -
  define q r where "q = length m div 64" and "r = length m mod 64"
  have m: "length m = 64 * q + r" "r < 64" by (simp_all add: q_def r_def)
  have "\<exists>k. r + 1 + (119 - r) mod 64 + 8 = 64 * k"
  proof (cases "r < 56")
    case True
    then have "(119 - r) mod 64 = 55 - r" by (simp add: mod_if)
    then show ?thesis using True by (intro exI [of _ 1]) simp
  next
    case False
    then have "(119 - r) mod 64 = 119 - r" by simp
    then show ?thesis using False m(2) by (intro exI [of _ 2]) simp
  qed
  then obtain k where "r + 1 + (119 - r) mod 64 + 8 = 64 * k" ..
  then have "length (sha1_pad m) = 64 * (q + k)"
    unfolding sha1_pad_def r_def [symmetric] by (simp add: m(1))
  then show ?thesis by simp
qed

subsection \<open>Base 64\<close>

definition b64_alphabet :: string where
  "b64_alphabet = ''ABCDEFGHIJKLMNOPQRSTUVWXYZabcdefghijklmnopqrstuvwxyz0123456789+/''"

definition b64_char :: "nat \<Rightarrow> char" where
  "b64_char n = b64_alphabet ! n"

fun EncodeToString :: "bytes \<Rightarrow> string" where
  "EncodeToString (a # b # c # bs) =
    (let v = unat a * 65536 + unat b * 256 + unat c
     in b64_char (v div 262144) # b64_char (v div 4096 mod 64) # b64_char (v div 64 mod 64) # b64_char (v mod 64) #
       EncodeToString bs)"
| "EncodeToString [a, b] =
    (let v = unat a * 65536 + unat b * 256
     in [b64_char (v div 262144), b64_char (v div 4096 mod 64), b64_char (v div 64 mod 64), CHR ''=''])"
| "EncodeToString [a] =
    (let v = unat a * 65536 in [b64_char (v div 262144), b64_char (v div 4096 mod 64), CHR ''='', CHR ''=''])"
| "EncodeToString [] = []"

text \<open>A decoder as the reference: the position of a character in the alphabet.\<close>

fun index_of :: "'a \<Rightarrow> 'a list \<Rightarrow> nat" where
  "index_of c [] = 0"
| "index_of c (x # xs) = (if c = x then 0 else Suc (index_of c xs))"

fun b64_decode :: "string \<Rightarrow> bytes" where
  "b64_decode (p # q # r # s # cs) =
    (let i = (\<lambda>c. if c = CHR ''='' then 0 else index_of c b64_alphabet);
         v = i p * 262144 + i q * 4096 + i r * 64 + i s
     in (if r = CHR ''='' then [of_nat (v div 65536)]
         else if s = CHR ''='' then [of_nat (v div 65536), of_nat (v div 256 mod 256)]
         else [of_nat (v div 65536), of_nat (v div 256 mod 256), of_nat (v mod 256)]) @ b64_decode cs)"
| "b64_decode _ = []"

lemma index_of_nth: "distinct xs \<Longrightarrow> n < length xs \<Longrightarrow> index_of (xs ! n) xs = n"
  by (induction xs arbitrary: n) (auto simp: nth_Cons' split: if_splits)

lemma b64_char:
  assumes "n < 64"
  shows "index_of (b64_char n) b64_alphabet = n" "b64_char n \<noteq> CHR ''=''"
proof -
  have d: "distinct b64_alphabet" "length b64_alphabet = 64" "CHR ''='' \<notin> set b64_alphabet"
    by (simp_all add: b64_alphabet_def)
  show "index_of (b64_char n) b64_alphabet = n" using assms d by (simp add: b64_char_def index_of_nth)
  show "b64_char n \<noteq> CHR ''=''" using assms d by (metis b64_char_def nth_mem)
qed

text \<open>The four digits of three bytes, and the three bytes of four digits.\<close>

lemma sextets:
  fixes v :: nat
  assumes "v < 16777216"
  shows "v div 262144 * 262144 + v div 4096 mod 64 * 4096 + v div 64 mod 64 * 64 + v mod 64 = v" "v div 262144 < 64"
proof -
  have d: "v div 4096 = v div 64 div 64" "v div 262144 = v div 64 div 64 div 64" by (simp_all add: div_mult2_eq [symmetric])
  have "v div 64 * 64 + v mod 64 = v" "v div 64 div 64 * 64 + v div 64 mod 64 = v div 64"
    "v div 64 div 64 div 64 * 64 + v div 64 div 64 mod 64 = v div 64 div 64" by (simp_all only: div_mult_mod_eq)
  then show "v div 262144 * 262144 + v div 4096 mod 64 * 4096 + v div 64 mod 64 * 64 + v mod 64 = v"
    unfolding d by linarith
  show "v div 262144 < 64" using assms by (simp add: div_less_iff_less_mult)
qed

lemma byte_bound: "unat (b :: byte) < 256"
  using unsigned_less [of b] by simp

lemma octets:
  fixes v :: nat
  assumes "a < 256" "b < 256" "c < 256" "v = a * 65536 + b * 256 + c"
  shows "v < 16777216" "v div 65536 = a" "v div 256 mod 256 = b" "v mod 256 = c"
proof -
  have v: "v = c + 256 * (b + 256 * a)" using assms by simp
  have d: "v div 256 = b + 256 * a" using assms by (simp add: v)
  have "v div 65536 = v div 256 div 256" by (simp add: div_mult2_eq [symmetric])
  then show "v div 65536 = a" unfolding d using assms by simp
  show "v div 256 mod 256 = b" unfolding d using assms(2) by simp
  have "(c + 256 * k) mod 256 = c" for k using assms(3) by (metis mod_less mod_mult_self2)
  then show "v mod 256 = c" unfolding v .
  show "v < 16777216" using assms by linarith
qed

lemma digit_bounds: "(v :: nat) div 4096 mod 64 < 64" "v div 64 mod 64 < 64" "v mod 64 < 64"
  by simp_all

lemma EncodeToString_char:
  assumes "(v :: nat) < 16777216"
  shows "index_of (b64_char (v div 262144)) b64_alphabet = v div 262144" "b64_char (v div 262144) \<noteq> CHR ''=''"
  using b64_char [OF sextets(2) [OF assms]] by auto

lemma base64_roundtrip: "b64_decode (EncodeToString bs) = bs"
proof (induction bs rule: EncodeToString.induct)
  case (1 a b c bs)
  define v where "v = unat a * 65536 + unat b * 256 + unat c"
  note o = octets [OF byte_bound byte_bound byte_bound v_def]
  show ?case
    using 1 sextets(1) [OF o(1)] o
    by (simp add: v_def [symmetric] b64_char [OF digit_bounds(1)] b64_char [OF digit_bounds(2)] b64_char [OF digit_bounds(3)]
      EncodeToString_char Let_def del: One_nat_def)
next
  case (2 a b)
  define v where "v = unat a * 65536 + unat b * 256"
  have v: "v = unat a * 65536 + unat b * 256 + 0" by (simp add: v_def)
  note o = octets [OF byte_bound byte_bound _ v]
  have "v mod 64 = 0" by (simp add: v_def mod_eq_0_iff_dvd)
  then show ?case
    using sextets(1) [OF o(1)] o
    by (simp add: v_def [symmetric] b64_char [OF digit_bounds(1)] b64_char [OF digit_bounds(2)]
      EncodeToString_char Let_def del: One_nat_def)
next
  case (3 a)
  define v where "v = unat a * 65536"
  have v: "v = unat a * 65536 + 0 * 256 + 0" by (simp add: v_def)
  note o = octets [OF byte_bound _ _ v]
  have z: "v mod 64 = 0" "v div 64 mod 64 = 0" by (simp_all add: v_def mod_eq_0_iff_dvd)
  then show ?case
    using sextets(1) [OF o(1)] o
    by (simp add: v_def [symmetric] b64_char [OF digit_bounds(1)] EncodeToString_char Let_def del: One_nat_def)
qed simp

subsection \<open>The key of the answer\<close>

definition wsGUID :: string where
  "wsGUID = ''258EAFA5-E914-47DA-95CA-C5AB0DC85B11''"

definition computeAcceptKey :: "string \<Rightarrow> string" where
  "computeAcceptKey key = EncodeToString (sha1 (string_bytes key @ string_bytes wsGUID))"

text \<open>Two keys get the same answer only when their digests collide.\<close>

lemma computeAcceptKey_inj:
  "computeAcceptKey k = computeAcceptKey k' \<longleftrightarrow> sha1 (string_bytes k @ string_bytes wsGUID) = sha1 (string_bytes k' @ string_bytes wsGUID)"
  unfolding computeAcceptKey_def by (metis base64_roundtrip)

text \<open>
  A connection is only upgraded when its request passes every check; the answer is then the first thing written,
  with the key of the request, and with a subprotocol only if the client asked for it and the server has it.
\<close>

lemma upgrade_ok:
  assumes "Upgrade computeAcceptKey h opts hijack c = (Inr ws, c')"
  shows "cMethod c = ''GET'' \<and> headerContains h ''Connection'' ''upgrade'' \<and> headerContains h ''Upgrade'' ''websocket'' \<and>
    headerContains h ''Sec-WebSocket-Version'' ''13'' \<and> header_Get h ''Sec-WebSocket-Key'' \<noteq> []"
    "\<exists>sp. wsOut ws = [string_bytes (handshake computeAcceptKey (header_Get h ''Sec-WebSocket-Key'') sp)] \<and>
      (sp \<noteq> [] \<longrightarrow> (\<exists>oo. opts = Some oo \<and> sp \<in> set (Subprotocols oo) \<and>
        (\<exists>cp \<in> set (Split (CHR '','') (header_Get h ''Sec-WebSocket-Protocol'')). TrimSpace cp = sp)))"
    "cStatus c' = 101 \<and> cFlushed c'" "wsOpen ws \<and> \<not> wsClosed ws \<and> wsEvents ws = []"
proof -
  let ?p = "\<lambda>oo. negotiateSubprotocol (header_Get h ''Sec-WebSocket-Protocol'') (Subprotocols oo)"
  let ?sp = "case opts of Some oo \<Rightarrow> if Subprotocols oo \<noteq> [] then ?p oo else [] | None \<Rightarrow> []"
  show "cMethod c = ''GET'' \<and> headerContains h ''Connection'' ''upgrade'' \<and> headerContains h ''Upgrade'' ''websocket'' \<and>
      headerContains h ''Sec-WebSocket-Version'' ''13'' \<and> header_Get h ''Sec-WebSocket-Key'' \<noteq> []"
    "cStatus c' = 101 \<and> cFlushed c'" "wsOpen ws \<and> \<not> wsClosed ws \<and> wsEvents ws = []"
    using assms by (auto simp: Upgrade_def Let_def split: if_splits option.splits)
  have "wsOut ws = [string_bytes (handshake computeAcceptKey (header_Get h ''Sec-WebSocket-Key'') ?sp)]"
    using assms by (auto simp: Upgrade_def Let_def split: if_splits option.splits)
  moreover have "?sp \<noteq> [] \<longrightarrow> (\<exists>oo. opts = Some oo \<and> ?sp \<in> set (Subprotocols oo) \<and>
      (\<exists>cp \<in> set (Split (CHR '','') (header_Get h ''Sec-WebSocket-Protocol'')). TrimSpace cp = ?sp))"
    using negotiateSubprotocol_ok [OF refl] by (auto split: option.split)
  ultimately show "\<exists>sp. wsOut ws = [string_bytes (handshake computeAcceptKey (header_Get h ''Sec-WebSocket-Key'') sp)] \<and>
      (sp \<noteq> [] \<longrightarrow> (\<exists>oo. opts = Some oo \<and> sp \<in> set (Subprotocols oo) \<and>
        (\<exists>cp \<in> set (Split (CHR '','') (header_Get h ''Sec-WebSocket-Protocol'')). TrimSpace cp = sp)))"
    by blast
qed

subsection \<open>Handlers and JSON\<close>

text \<open>Registering a function for an event; \<open>None\<close> is Go's nil, which unregisters.\<close>

definition ws_OnMessage :: "unit option \<Rightarrow> WSConn \<Rightarrow> WSConn" where
  "ws_OnMessage fn ws = ws\<lparr>hasMessage := fn \<noteq> None\<rparr>"

definition ws_OnClose :: "unit option \<Rightarrow> WSConn \<Rightarrow> WSConn" where
  "ws_OnClose fn ws = ws\<lparr>hasClose := fn \<noteq> None\<rparr>"

definition ws_OnError :: "unit option \<Rightarrow> WSConn \<Rightarrow> WSConn" where
  "ws_OnError fn ws = ws\<lparr>hasError := fn \<noteq> None\<rparr>"

definition ws_OnPing :: "unit option \<Rightarrow> WSConn \<Rightarrow> WSConn" where
  "ws_OnPing fn ws = ws\<lparr>hasPing := fn \<noteq> None\<rparr>"

definition ws_OnPong :: "unit option \<Rightarrow> WSConn \<Rightarrow> WSConn" where
  "ws_OnPong fn ws = ws\<lparr>hasPong := fn \<noteq> None\<rparr>"

text \<open>\<open>json.Marshal\<close> and \<open>json.Unmarshal\<close> are arguments, with their own errors.\<close>

datatype 'e json_io_error = WsErr ws_error | JsonErr 'e

definition ws_ReadJSON :: "(bytes \<Rightarrow> 'e + 'j) \<Rightarrow> WSConn \<Rightarrow> ('e json_io_error + 'j) \<times> WSConn" where
  "ws_ReadJSON unmarshal ws = (case ReadMessage ws of
      (Inl err, ws) \<Rightarrow> (Inl (WsErr err), ws)
    | (Inr (_, data), ws) \<Rightarrow> (map_sum JsonErr id (unmarshal data), ws))"

definition ws_WriteJSON :: "('j \<Rightarrow> 'e + bytes) \<Rightarrow> 'j \<Rightarrow> WSConn \<Rightarrow> 'e json_io_error option \<times> WSConn" where
  "ws_WriteJSON marshal v ws = (case marshal v of
      Inl err \<Rightarrow> (Some (JsonErr err), ws)
    | Inr data \<Rightarrow> (case ws_WriteMessage TextMessage data ws of (err, ws) \<Rightarrow> (map_option WsErr err, ws)))"

text \<open>A value that cannot be encoded leaves the connection as it was.\<close>

lemma ws_WriteJSON_error: "marshal v = Inl e \<Longrightarrow> ws_WriteJSON marshal v ws = (Some (JsonErr e), ws)"
  by (simp add: ws_WriteJSON_def)

text \<open>
  Pings and pongs in front of a message, and the message: \<open>ReadMessage\<close> answers every ping, in their order and
  with their payload, and returns the message, the bytes behind it unread.
\<close>

fun control_frames :: "(bool \<times> bytes \<times> bytes) list \<Rightarrow> bytes" where
  "control_frames [] = []"
| "control_frames ((ping, k, p) # cs) = client_frame True (if ping then PingMessage else PongMessage) k p @ control_frames cs"

fun pongs :: "(bool \<times> bytes \<times> bytes) list \<Rightarrow> bytes list" where
  "pongs [] = []"
| "pongs ((ping, k, p) # cs) = (if ping then [writeFrame PongMessage p] else []) @ pongs cs"

definition control_ok :: "nat \<Rightarrow> (bool \<times> bytes \<times> bytes) list \<Rightarrow> bool" where
  "control_ok limit cs \<longleftrightarrow> (\<forall>(ping, k, p) \<in> set cs. length k = 4 \<and> length p \<le> min limit 125)"

lemma readMessage_control:
  assumes "length k = 4" "length p \<le> min limit 125" "ctl = PingMessage \<or> ctl = PongMessage"
  shows "readMessage limit (client_frame True ctl k p @ rest) = (Inr (ctl, p), rest)"
proof -
  have l: "length p < 2 ^ 64" using assms(2) by (simp add: order_le_less_trans)
  have "known_opcode ctl True (length p)" using assms(2,3) by (auto simp: known_opcode_def opcode_defs)
  then show ?thesis
    unfolding readMessage_def using assms l by (subst readMessage_loop.simps) (auto simp: readFrame_client)
qed

lemma ReadMessage_pings:
  assumes "opcode = TextMessage \<or> opcode = BinaryMessage" "fs \<noteq> []" "frames_ok fs"
    "length (payload_of fs) \<le> messageLimit ws" "control_ok (messageLimit ws) cs"
    "wsOpen ws" "\<not> wsBroken ws" "wsIn ws = control_frames cs @ client_message opcode fs @ rest"
  shows "ReadMessage ws = (Inr (opcode, payload_of fs), ws\<lparr>wsIn := rest, wsOut := wsOut ws @ pongs cs\<rparr>)"
  using assms(4-8)
proof (induction cs arbitrary: ws rule: control_frames.induct)
  case 1
  have "opcode \<noteq> PingMessage" "opcode \<noteq> PongMessage" "opcode \<noteq> CloseMessage"
    using assms(1) by (auto simp: opcode_defs)
  then show ?case
    using 1 readMessage_client [OF assms(1-3), of "messageLimit ws" rest] assms(1)
    by (subst ReadMessage.simps) (auto simp: Let_def)
next
  case (2 ping k p cs)
  let ?more = "control_frames cs @ client_message opcode fs @ rest"
  have m: "readMessage (messageLimit ws) (wsIn ws) = (Inr (if ping then PingMessage else PongMessage, p), ?more)"
    using 2 readMessage_control [of k p "messageLimit ws" _ ?more] by (auto simp: control_ok_def)
  define t where "t = ws\<lparr>wsIn := ?more, wsOut := wsOut ws @ pongs [(ping, k, p)]\<rparr>"
  have "ReadMessage ws = ReadMessage t"
    unfolding t_def using 2(4,5) m
    by (subst ReadMessage.simps) (auto simp: Let_def ws_writeFrame_def conn_Write_def opcode_defs)
  moreover have "ReadMessage t = (Inr (opcode, payload_of fs), t\<lparr>wsIn := rest, wsOut := wsOut t @ pongs cs\<rparr>)"
    using 2 by (intro 2(1)) (auto simp: t_def messageLimit_def control_ok_def)
  ultimately show ?case by (simp add: t_def)
qed

text \<open>What the peer sends with its own encoder, \<open>ReadJSON\<close> returns.\<close>

lemma ReadJSON_message:
  assumes "ReadMessage ws = (Inr (opcode, data), ws')" "unmarshal data = Inr v"
  shows "ws_ReadJSON unmarshal ws = (Inr v, ws')"
  using assms by (simp add: ws_ReadJSON_def)

end
