(* ===== verification/Http_Heartbeat.thy ===== *)
theory Http_Heartbeat
  imports Prelude
begin

text \<open>
  The heartbeat goroutines of \<open>swifty_http\<close>: \<open>WSConn.Heartbeat\<close> (\<open>websocket.go\<close>), which pings and ends when a ping
  fails, and \<open>SSEWriter.Heartbeat\<close> (\<open>sse.go\<close>), which writes a comment and ignores errors. Both return a function that
  stops the goroutine and waits for it. The steps are those of the goroutine, of any number of callers of that
  function, and of the connection.
\<close>

datatype beat_state = BWaiting | BWriting | BEnded

datatype caller = CIdle | CWaiting | CReturned

record heart =
  beat :: beat_state
  stop_closed :: bool
  done_closed :: bool
  gone :: bool
  beats :: nat
  callers :: "nat \<Rightarrow> caller"

definition new_heart :: heart where
  "new_heart = \<lparr>beat = BWaiting, stop_closed = False, done_closed = False, gone = False, beats = 0, callers = (\<lambda>_. CIdle)\<rparr>"

datatype beat_label = BTick | BWrite bool | BGone | BStop | CCall nat | CReturn nat | ConnGone

text \<open>\<open>ends\<close> says that an error of the write ends the goroutine: true of the web socket, false of the event stream.\<close>

fun beat_step :: "bool \<Rightarrow> heart \<Rightarrow> beat_label \<Rightarrow> heart option" where
  "beat_step ends h BTick = (if beat h = BWaiting then Some (h\<lparr>beat := BWriting\<rparr>) else None)"
| "beat_step ends h (BWrite ok) =
    (if beat h = BWriting
     then Some (if ok \<or> \<not> ends then h\<lparr>beats := beats h + 1, beat := BWaiting\<rparr> else h\<lparr>beat := BEnded, done_closed := True\<rparr>)
     else None)"
| "beat_step ends h BGone =
    (if beat h = BWaiting \<and> gone h then Some (h\<lparr>beat := BEnded, done_closed := True\<rparr>) else None)"
| "beat_step ends h BStop =
    (if beat h = BWaiting \<and> stop_closed h then Some (h\<lparr>beat := BEnded, done_closed := True\<rparr>) else None)"
| "beat_step ends h (CCall t) =
    (if callers h t = CIdle then Some (h\<lparr>stop_closed := True, callers := (callers h)(t := CWaiting)\<rparr>) else None)"
| "beat_step ends h (CReturn t) =
    (if callers h t = CWaiting \<and> done_closed h then Some (h\<lparr>callers := (callers h)(t := CReturned)\<rparr>) else None)"
| "beat_step ends h ConnGone = Some (h\<lparr>gone := True\<rparr>)"

definition ws_beat_step :: "heart \<Rightarrow> beat_label \<Rightarrow> heart option" where
  "ws_beat_step = beat_step True"

definition sse_beat_step :: "heart \<Rightarrow> beat_label \<Rightarrow> heart option" where
  "sse_beat_step = beat_step False"

fun beat_run :: "bool \<Rightarrow> heart \<Rightarrow> beat_label list \<Rightarrow> heart option" where
  "beat_run ends h [] = Some h"
| "beat_run ends h (l # ls) = (case beat_step ends h l of None \<Rightarrow> None | Some h' \<Rightarrow> beat_run ends h' ls)"

definition heart_inv :: "heart \<Rightarrow> bool" where
  "heart_inv h \<longleftrightarrow> (done_closed h \<longleftrightarrow> beat h = BEnded) \<and> (\<forall>t. callers h t \<noteq> CIdle \<longrightarrow> stop_closed h) \<and>
    (\<forall>t. callers h t = CReturned \<longrightarrow> done_closed h)"

lemma heart_inv_step: "heart_inv h \<Longrightarrow> beat_step ends h l = Some h' \<Longrightarrow> heart_inv h'"
  by (cases l) (auto simp: heart_inv_def split: if_splits)

lemma heart_inv_run: "heart_inv h \<Longrightarrow> beat_run ends h ls = Some h' \<Longrightarrow> heart_inv h'"
  by (induction ls arbitrary: h) (auto split: option.splits dest: heart_inv_step)

lemma heart_inv_new: "heart_inv new_heart"
  by (simp add: heart_inv_def new_heart_def)

lemma ended_step: "heart_inv h \<Longrightarrow> beat h = BEnded \<Longrightarrow> beat_step ends h l = Some h' \<Longrightarrow> beat h' = BEnded \<and> beats h' = beats h"
  by (cases l) (auto split: if_splits)

lemma ended_run: "heart_inv h \<Longrightarrow> beat h = BEnded \<Longrightarrow> beat_run ends h ls = Some h' \<Longrightarrow> beats h' = beats h"
proof (induction ls arbitrary: h)
  case (Cons l ls)
  then obtain h1 where h1: "beat_step ends h l = Some h1" "beat_run ends h1 ls = Some h'" by (auto split: option.splits)
  then show ?case using Cons.IH [OF heart_inv_step [OF Cons.prems(1) h1(1)] _ h1(2)] ended_step [OF Cons.prems(1,2) h1(1)] by simp
qed simp

text \<open>The goroutine ends after at most two steps of its own once somebody waits for it.\<close>

lemma stop_returns:
  assumes I: "heart_inv h" and w: "callers h t = CWaiting"
  shows "\<exists>ls h'. length ls \<le> 3 \<and> beat_run ends h ls = Some h' \<and> callers h' t = CReturned \<and>
    (\<forall>l \<in> set ls. l \<in> {BWrite True, BStop, CReturn t})"
proof -
  have s: "stop_closed h" using I w unfolding heart_inv_def by (metis caller.distinct(1))
  show ?thesis
  proof (cases "beat h")
    case BWaiting
    then show ?thesis using s w by (intro exI [of _ "[BStop, CReturn t]"]) simp
  next
    case BWriting
    then show ?thesis using s w by (intro exI [of _ "[BWrite True, BStop, CReturn t]"]) simp
  next
    case BEnded
    then have "done_closed h" using I by (simp add: heart_inv_def)
    then show ?thesis using w by (intro exI [of _ "[CReturn t]"]) simp
  qed
qed

lemma heartbeat_rule:
  assumes "beat_run ends new_heart ls = Some h"
  shows "(callers h t = CReturned \<and> beat_run ends h ls' = Some h' \<longrightarrow> beats h' = beats h) \<and>
    (callers h t = CWaiting \<longrightarrow>
      (\<exists>ls h'. length ls \<le> 3 \<and> beat_run ends h ls = Some h' \<and> callers h' t = CReturned \<and> set ls \<subseteq> {BWrite True, BStop, CReturn t}))"
proof -
  have I: "heart_inv h" using heart_inv_run [OF heart_inv_new assms] .
  have "beat h = BEnded" if "callers h t = CReturned" using I that unfolding heart_inv_def by blast
  then show ?thesis using ended_run [OF I] stop_returns [OF I, of t ends] by (fastforce simp: subset_iff)
qed

end
