(* ===== verification/WebSocket_Properties.thy ===== *)
theory WebSocket_Properties
  imports Http_WebSocket_Key Http_Heartbeat
begin

text \<open>The properties of the web sockets of \<open>swifty_http\<close>.\<close>

text \<open>C7. A message that a client sends in one frame or in many, each masked with its own key, is read as one message
  with the concatenated payload, and the bytes behind it stay for the next read; a message beyond the limit of
  the connection is refused.\<close>

theorem ws_message:
  assumes "opcode = TextMessage \<or> opcode = BinaryMessage" "fs \<noteq> []" "frames_ok fs"
  shows "if length (payload_of fs) \<le> limit
    then readMessage limit (client_message opcode fs @ rest) = (Inr (opcode, payload_of fs), rest)
    else fst (readMessage limit (client_message opcode fs @ rest)) = Inl ErrWSInvalidFrame"
  by (rule readMessage_client [OF assms])

theorem ws_message_witness:
  "readMessage 9 (client_message 1 [([1, 2, 3, 4], [72, 105]), ([9, 9, 9, 9], [33])] @ [0x88]) = (Inr (1, [72, 105, 33]), [0x88])"
proof -
  have f: "frames_ok [([1, 2, 3, 4], [72, 105]), ([9, 9, 9, 9], [33])]" by (simp add: frames_ok_def)
  have o: "(1 :: nat) = TextMessage \<or> (1 :: nat) = BinaryMessage" by (simp add: opcode_defs)
  show ?thesis using ws_message [OF o _ f, of 9 "[0x88]"] by simp
qed

text \<open>A ping or pong between two fragments of a message, which is permitted, makes the connection forget the first
  fragment: the control frame is returned, and the continuation that follows is refused as invalid.\<close>

theorem ws_control_between_fragments:
  assumes "opcode = TextMessage \<or> opcode = BinaryMessage" "ctl \<in> {PingMessage, PongMessage}"
    "frames_ok [(k1, p1), (k2, p2), (k3, p3)]" "length p1 \<le> limit" "length p2 \<le> min limit 125" "length p3 \<le> limit"
  shows "\<exists>mid. readMessage limit (client_frame False opcode k1 p1 @ client_frame True ctl k2 p2 @
      client_frame True ContinuationFrame k3 p3 @ rest) = (Inr (ctl, p2), mid) \<and>
    readMessage limit mid = (Inl ErrWSInvalidFrame, rest)"
  using control_between_fragments [of opcode ctl k1 k2 k3 p1 limit p3 p2 rest] assms by (simp add: frames_ok_def)

theorem ws_control_between_fragments_witness:
  "\<exists>mid. readMessage 9 (client_frame False 1 [1, 2, 3, 4] [72] @ client_frame True 9 [1, 2, 3, 4] [] @
      client_frame True 0 [1, 2, 3, 4] [105] @ []) = (Inr (9, []), mid) \<and>
    readMessage 9 mid = (Inl ErrWSInvalidFrame, [])"
proof -
  have f: "frames_ok [([1, 2, 3, 4], [72]), ([1, 2, 3, 4], []), ([1, 2, 3, 4], [105])]" by (simp add: frames_ok_def)
  show ?thesis
    using ws_control_between_fragments [OF _ _ f, of 1 9 9 "[]"] by (simp add: opcode_defs)
qed

text \<open>C35. Whatever bytes arrive, the read loop comes to its end: it delivers messages within the limit and control payloads
  of at most 125 bytes, then reports at most one close or error, and the connection is marked closed.\<close>

theorem ws_listen:
  "\<exists>es fs. wsEvents (Listen ws) = wsEvents ws @ es @ fs \<and> list_all (loop_event (messageLimit ws)) es \<and>
    (fs = [] \<or> (\<exists>e. fs = [e] \<and> final_event e)) \<and> wsClosed (Listen ws)"
  by (rule Listen_ends)


text \<open>Once the stop function of a heartbeat has returned, no ping or comment is written any more; and a call of it
  never waits for ever: the goroutine ends and the call returns as soon as the write under way, if any, is done.\<close>

theorem heartbeat_stops:
  assumes "beat_run ends new_heart ls = Some h"
  shows "(callers h t = CReturned \<and> beat_run ends h ls' = Some h' \<longrightarrow> beats h' = beats h) \<and>
    (callers h t = CWaiting \<longrightarrow>
      (\<exists>ls h'. length ls \<le> 3 \<and> beat_run ends h ls = Some h' \<and> callers h' t = CReturned \<and> set ls \<subseteq> {BWrite True, BStop, CReturn t}))"
  by (rule heartbeat_rule [OF assms])

theorem heartbeat_stops_witness:
  "\<exists>h. beat_run True new_heart [BTick, CCall 0, CCall 1, BWrite True, BStop, CReturn 1] = Some h \<and> beats h = 1 \<and>
    (\<exists>ls h'. length ls \<le> 3 \<and> beat_run True h ls = Some h' \<and> callers h' 0 = CReturned \<and> set ls \<subseteq> {BWrite True, BStop, CReturn 0})"
proof -
  obtain h where h: "beat_run True new_heart [BTick, CCall 0, CCall 1, BWrite True, BStop, CReturn 1] = Some h" "beats h = 1"
    "callers h 0 = CWaiting"
    by (simp add: new_heart_def)
  then show ?thesis using heartbeat_stops [OF h(1), of 0] by blast
qed

end
