(* ===== verification/Orm_Filter.thy ===== *)
theory Orm_Filter
  imports Go_Strings "HOL-Library.Char_ord" "HOL-Library.List_Lexorder"
begin

text \<open>
  The conditions of a query and the filter documents built from them (\<open>swifty_orm/filter.go\<close>).

  \<^item> \<open>val\<close> are the values that reach the query builder as \<open>any\<close>, told apart the way the code
    does with type switches and \<open>reflect\<close>. Go maps are association lists with distinct keys.
  \<^item> \<open>buildConditionFilter\<close> returns \<open>None\<close> where a type assertion of the code panics.
  \<^item> What a filter document selects is decided by MongoDB. \<open>filter_laws\<close> are the documented rules
    for conjunction, \<open>$and\<close>, \<open>$or\<close> and operator documents that the code relies on; the
    meaning of the single operators stays a parameter.
\<close>

subsection \<open>Values\<close>

datatype val =
    VNil
  | VStr string
  | VInt int
  | VPair val val
  | VSlice bool "val list"
  | VM "(string \<times> val) list"
  | VMap "(string \<times> val) list"
  | VD "(string \<times> val) list"
  | VA "val list"
  | VRegex string string
  | VPtr "val option"
  | VStruct "(string \<times> val) list"
  | VOther nat

type_synonym doc = "(string \<times> val) list"

datatype orm_error =
    FieldNotString
  | OperatorNotString
  | UnsupportedOperator string
  | BetweenArgument
  | PatternNotString string
  | SingleNotMap
  | WhereArity nat
  | GroupFieldEmpty
  | AggFieldEmpty string
  | AliasEmpty
  | AliasReserved
  | AliasSyntax string
  | CollectionRequired
  | OnlyAggregate
  | GroupByRequired
  | SelectWithGroupBy
  | DuplicateGroupKey string
  | AliasIsGroupKey string
  | DuplicateAlias string
  | HavingUnknown string
  | OrderByUnknown string
  | NoDocuments
  | PluckField
  | PluckOut
  | EngineNotInitialized
  | SequenceName
  | UriRequired
  | DatabaseRequired
  | DriverError string

text \<open>The elements of a value whose kind is slice or array, with whether they are bytes.\<close>

fun slice_elems :: "val \<Rightarrow> (bool \<times> val list) option" where
  "slice_elems (VPair a b) = Some (False, [a, b])"
| "slice_elems (VSlice u vs) = Some (u, vs)"
| "slice_elems (VD kvs) = Some (False, map (\<lambda>(k, v). VStruct [(''Key'', VStr k), (''Value'', v)]) kvs)"
| "slice_elems (VA vs) = Some (False, vs)"
| "slice_elems _ = None"

subsection \<open>Conditions\<close>

record condition =
  cfield :: string
  cop :: string
  cvalue :: val

definition cond :: "string \<Rightarrow> string \<Rightarrow> val \<Rightarrow> condition" where
  "cond f p v = \<lparr>cfield = f, cop = p, cvalue = v\<rparr>"

lemma cond_sel [simp]: "cfield (cond f p v) = f" "cop (cond f p v) = p" "cvalue (cond f p v) = v"
  by (simp_all add: cond_def)

definition opAliases :: "(string \<times> string) list" where
  "opAliases =
    [(''='', ''=''), (''=='', ''=''), (''!='', ''$ne''), (''<>'', ''$ne''), (''>'', ''$gt''),
     (''>='', ''$gte''), (''<'', ''$lt''), (''<='', ''$lte''), (''in'', ''$in''),
     (''not in'', ''$nin''), (''nin'', ''$nin''), (''like'', ''like''), (''ilike'', ''ilike''),
     (''between'', ''between''), (''not between'', ''notBetween'')]"

definition toBetweenPair :: "val \<Rightarrow> orm_error + val" where
  "toBetweenPair v = (case slice_elems v of
      Some (_, [a, b]) \<Rightarrow> Inr (VPair a b)
    | _ \<Rightarrow> Inl BetweenArgument)"

definition normalizeOp :: "string \<Rightarrow> val \<Rightarrow> orm_error + string \<times> val" where
  "normalizeOp rawOp v = (case map_of opAliases (ToLower (TrimSpace rawOp)) of
      None \<Rightarrow> if HasPrefix rawOp ''$'' then Inr (rawOp, v) else Inl (UnsupportedOperator rawOp)
    | Some p \<Rightarrow>
        if p = ''between'' \<or> p = ''notBetween'' then
          (case toBetweenPair v of Inl e \<Rightarrow> Inl e | Inr pair \<Rightarrow> Inr (p, pair))
        else if p = ''like'' \<or> p = ''ilike'' then
          (case v of VStr _ \<Rightarrow> Inr (p, v) | _ \<Rightarrow> Inl (PatternNotString p))
        else Inr (p, v))"

definition key_condition :: "doc \<Rightarrow> string \<Rightarrow> condition" where
  "key_condition m k = (case map_of m k of
      Some v \<Rightarrow> if v = VNil then cond k ''null'' VNil else cond k ''='' v
    | None \<Rightarrow> cond k ''null'' VNil)"

definition parseWhereMap :: "val \<Rightarrow> orm_error + condition list" where
  "parseWhereMap arg =
    (let conditions = \<lambda>m. map (key_condition m) (sort (map fst m)) in
     case arg of VM m \<Rightarrow> Inr (conditions m) | VMap m \<Rightarrow> Inr (conditions m) | _ \<Rightarrow> Inl SingleNotMap)"

definition field_name :: "val \<Rightarrow> string option" where
  "field_name v = (case v of VStr f \<Rightarrow> if TrimSpace f = [] then None else Some f | _ \<Rightarrow> None)"

fun parseWhere :: "val list \<Rightarrow> orm_error + condition list" where
  "parseWhere [arg] = parseWhereMap arg"
| "parseWhere [f, v] = (case field_name f of
      None \<Rightarrow> Inl FieldNotString
    | Some field \<Rightarrow> if v = VNil then Inr [cond field ''null'' VNil] else Inr [cond field ''='' v])"
| "parseWhere [f, p, v] = (case field_name f of
      None \<Rightarrow> Inl FieldNotString
    | Some field \<Rightarrow> (case p of
        VStr rawOp \<Rightarrow> (case normalizeOp rawOp v of
            Inl e \<Rightarrow> Inl e
          | Inr (p, v) \<Rightarrow> Inr [cond field p v])
      | _ \<Rightarrow> Inl OperatorNotString))"
| "parseWhere args = Inl (WhereArity (length args))"

subsection \<open>Patterns\<close>

text \<open>\<open>regexp.QuoteMeta\<close> of the standard library.\<close>

definition metachars :: string where
  "metachars = [CHR 0x5C] @ ''.+*?()|[]{}^$''"

definition QuoteMeta :: "string \<Rightarrow> string" where
  "QuoteMeta s = concat (map (\<lambda>c. if c \<in> set metachars then [CHR 0x5C, c] else [c]) s)"

definition likeToRegex :: "string \<Rightarrow> string" where
  "likeToRegex pattern =
    (let quoted = QuoteMeta pattern;
         quoted = ReplaceAll quoted (CHR ''%'') ''.*'';
         quoted = ReplaceAll quoted (CHR ''_'') ''.''
     in ''^'' @ quoted @ ''$'')"

subsection \<open>Filter documents\<close>

record fbuild =
  flt :: doc
  opFields :: "string list"
  andClauses :: "doc list"

definition setEquality :: "string \<Rightarrow> val \<Rightarrow> fbuild \<Rightarrow> fbuild option" where
  "setEquality field v s =
    (let clash = s\<lparr>andClauses := andClauses s @ [[(field, v)]]\<rparr> in
     case map_of (flt s) field of
       None \<Rightarrow> Some (s\<lparr>flt := AList.update field v (flt s)\<rparr>)
     | Some existing \<Rightarrow>
         if field \<in> set (opFields s) then
           (case existing of
              VM m \<Rightarrow> if map_of m ''$eq'' = None
                       then Some (s\<lparr>flt := AList.update field (VM (AList.update ''$eq'' v m)) (flt s)\<rparr>)
                       else Some clash
            | _ \<Rightarrow> None)
         else Some clash)"

definition setOp :: "string \<Rightarrow> string \<Rightarrow> val \<Rightarrow> fbuild \<Rightarrow> fbuild option" where
  "setOp field p v s =
    (let clash = s\<lparr>andClauses := andClauses s @ [[(field, VM [(p, v)])]]\<rparr> in
     case map_of (flt s) field of
       None \<Rightarrow> Some (s\<lparr>flt := AList.update field (VM [(p, v)]) (flt s), opFields := field # opFields s\<rparr>)
     | Some existing \<Rightarrow>
         if field \<in> set (opFields s) then
           (case existing of
              VM m \<Rightarrow> if map_of m p = None
                       then Some (s\<lparr>flt := AList.update field (VM (AList.update p v m)) (flt s)\<rparr>)
                       else Some clash
            | _ \<Rightarrow> None)
         else Some clash)"

definition between_ops :: "val \<Rightarrow> val \<Rightarrow> doc" where
  "between_ops a b = [(''$gte'', a), (''$lte'', b)]"

definition add_condition :: "condition \<Rightarrow> fbuild \<Rightarrow> fbuild option" where
  "add_condition c s =
    (let f = cfield c; v = cvalue c in
     if cop c = ''='' then setEquality f v s
     else if cop c = ''null'' then setEquality f VNil s
     else if cop c = ''notNull'' then setOp f ''$ne'' VNil s
     else if cop c = ''between'' then
       (case v of VPair a b \<Rightarrow> do { s \<leftarrow> setOp f ''$gte'' a s; setOp f ''$lte'' b s } | _ \<Rightarrow> None)
     else if cop c = ''notBetween'' then
       (case v of VPair a b \<Rightarrow> setOp f ''$not'' (VM (between_ops a b)) s | _ \<Rightarrow> None)
     else if cop c = ''like'' then
       (case v of VStr p \<Rightarrow> setOp f ''$regex'' (VRegex (likeToRegex p) []) s | _ \<Rightarrow> None)
     else if cop c = ''ilike'' then
       (case v of VStr p \<Rightarrow> setOp f ''$regex'' (VRegex (likeToRegex p) ''i'') s | _ \<Rightarrow> None)
     else setOp f (cop c) v s)"

fun add_conditions :: "condition list \<Rightarrow> fbuild \<Rightarrow> fbuild option" where
  "add_conditions [] s = Some s"
| "add_conditions (c # cs) s = do { s \<leftarrow> add_condition c s; add_conditions cs s }"

definition buildConditionFilter :: "condition list \<Rightarrow> doc option" where
  "buildConditionFilter cs = do {
     s \<leftarrow> add_conditions cs \<lparr>flt = [], opFields = [], andClauses = []\<rparr>;
     Some (if andClauses s \<noteq> [] then AList.update ''$and'' (VA (map VM (andClauses s))) (flt s) else flt s) }"

subsection \<open>What the code relies on of MongoDB\<close>

text \<open>
  \<open>mm d\<close> says whether a filter document selects the stored document at hand. The rules: a filter
  is the conjunction of its entries; \<open>$and\<close> and \<open>$or\<close> combine filters; a document of
  operators is the conjunction of its operators (for the operators below, which stand for themselves:
  \<open>$options\<close> for instance does not); and a value that is neither a document of operators nor a
  regular expression means \<open>$eq\<close>.
\<close>

definition plain_ops :: "string list" where
  "plain_ops = [''$eq'', ''$ne'', ''$gt'', ''$gte'', ''$lt'', ''$lte'', ''$in'', ''$nin'', ''$not'', ''$regex'']"

definition is_field :: "string \<Rightarrow> bool" where
  "is_field f \<longleftrightarrow> \<not> HasPrefix f ''$''"

fun literal :: "val \<Rightarrow> bool" where
  "literal (VM kvs) \<longleftrightarrow> list_all (\<lambda>kv. is_field (fst kv)) kvs"
| "literal (VMap kvs) \<longleftrightarrow> list_all (\<lambda>kv. is_field (fst kv)) kvs"
| "literal (VD kvs) \<longleftrightarrow> list_all (\<lambda>kv. is_field (fst kv)) kvs"
| "literal (VRegex _ _) \<longleftrightarrow> False"
| "literal (VPtr _) \<longleftrightarrow> False"
| "literal (VStruct _) \<longleftrightarrow> False"
| "literal (VOther _) \<longleftrightarrow> False"
| "literal _ \<longleftrightarrow> True"

definition filter_laws :: "(doc \<Rightarrow> bool) \<Rightarrow> bool" where
  "filter_laws mm \<longleftrightarrow>
    (\<forall>d. distinct (map fst d) \<longrightarrow> mm d = (\<forall>kv \<in> set d. mm [kv])) \<and>
    (\<forall>ds. ds \<noteq> [] \<longrightarrow> mm [(''$and'', VA (map VM ds))] = (\<forall>d \<in> set ds. mm d)) \<and>
    (\<forall>ds. ds \<noteq> [] \<longrightarrow> mm [(''$or'', VA (map VM ds))] = (\<exists>d \<in> set ds. mm d)) \<and>
    (\<forall>f ops. is_field f \<and> ops \<noteq> [] \<and> distinct (map fst ops) \<and> fst ` set ops \<subseteq> set plain_ops \<longrightarrow>
       mm [(f, VM ops)] = (\<forall>p \<in> set ops. mm [(f, VM [p])])) \<and>
    (\<forall>f v. is_field f \<and> literal v \<longrightarrow> mm [(f, VM [(''$eq'', v)])] = mm [(f, v)])"

text \<open>What one condition asks for: every document of the list has to select.\<close>

fun cond_docs :: "condition \<Rightarrow> doc list" where
  "cond_docs c =
    (let f = cfield c; v = cvalue c in
     if cop c = ''='' then [[(f, v)]]
     else if cop c = ''null'' then [[(f, VNil)]]
     else if cop c = ''notNull'' then [[(f, VM [(''$ne'', VNil)])]]
     else if cop c = ''between'' then
       (case v of VPair a b \<Rightarrow> [[(f, VM [(''$gte'', a)])], [(f, VM [(''$lte'', b)])]] | _ \<Rightarrow> [])
     else if cop c = ''notBetween'' then
       (case v of VPair a b \<Rightarrow> [[(f, VM [(''$not'', VM [(''$gte'', a), (''$lte'', b)])])]] | _ \<Rightarrow> [])
     else if cop c = ''like'' then
       (case v of VStr p \<Rightarrow> [[(f, VM [(''$regex'', VRegex (likeToRegex p) [])])]] | _ \<Rightarrow> [])
     else if cop c = ''ilike'' then
       (case v of VStr p \<Rightarrow> [[(f, VM [(''$regex'', VRegex (likeToRegex p) ''i'')])]] | _ \<Rightarrow> [])
     else [[(f, VM [(cop c, v)])]])"

declare cond_docs.simps [simp del]

definition selects :: "(doc \<Rightarrow> bool) \<Rightarrow> condition \<Rightarrow> bool" where
  "selects mm c \<longleftrightarrow> (\<forall>d \<in> set (cond_docs c). mm d)"

text \<open>\<open>cond_typed\<close>: the value has the type that the operator asserts. \<open>cond_plain\<close>: the field
  is a field, an equality has a literal value and a raw operator is one of the listed ones.\<close>

definition cond_typed :: "condition \<Rightarrow> bool" where
  "cond_typed c \<longleftrightarrow>
    (cop c = ''between'' \<or> cop c = ''notBetween'' \<longrightarrow> (case cvalue c of VPair _ _ \<Rightarrow> True | _ \<Rightarrow> False)) \<and>
    (cop c = ''like'' \<or> cop c = ''ilike'' \<longrightarrow> (case cvalue c of VStr _ \<Rightarrow> True | _ \<Rightarrow> False))"

definition internal_ops :: "string list" where
  "internal_ops = [''='', ''null'', ''notNull'', ''between'', ''notBetween'', ''like'', ''ilike'']"

definition cond_plain :: "condition \<Rightarrow> bool" where
  "cond_plain c \<longleftrightarrow> is_field (cfield c) \<and> (cop c = ''='' \<longrightarrow> literal (cvalue c)) \<and>
    cop c \<in> set (internal_ops @ plain_ops)"

end
