(* ===== verification/Orm_Like.thy ===== *)
theory Orm_Like
  imports Orm_Filter
begin

text \<open>
  \<open>likeToRegex\<close> against a reference: \<open>like_match\<close> is the meaning of a SQL LIKE pattern, and
  \<open>rx_matches\<close> reads the regular expressions that \<open>likeToRegex\<close> can print (escaped characters,
  the dot, the star, both anchors) and matches them. As in a regular expression without flags, the dot does
  not match a line break.
\<close>

subsection \<open>LIKE patterns\<close>

function like_match :: "string \<Rightarrow> string \<Rightarrow> bool" where
  "like_match [] s \<longleftrightarrow> s = []"
| "like_match (c # p) [] \<longleftrightarrow> c = CHR ''%'' \<and> like_match p []"
| "like_match (c # p) (x # s) \<longleftrightarrow>
    (if c = CHR ''%'' then like_match p (x # s) \<or> like_match (c # p) s
     else if c = CHR ''_'' then like_match p s
     else c = x \<and> like_match p s)"
  by pat_completeness auto
termination by (relation "measure (\<lambda>(p, s). length p + length s)") auto

lemma like_percent: "like_match (CHR ''%'' # p) s \<longleftrightarrow> (\<exists>t u. s = t @ u \<and> like_match p u)"
proof (induction s)
  case (Cons x s)
  have "(\<exists>t u. x # s = t @ u \<and> like_match p u) \<longleftrightarrow>
      like_match p (x # s) \<or> (\<exists>t u. s = t @ u \<and> like_match p u)"
    by (metis append_Cons append_Nil list.exhaust list.inject)
  then show ?case using Cons by simp
qed simp

subsection \<open>Regular expressions\<close>

datatype atom = Lit char | Dot

datatype token = One atom | Many atom

fun atom_matches :: "atom \<Rightarrow> char \<Rightarrow> bool" where
  "atom_matches (Lit c) x \<longleftrightarrow> c = x"
| "atom_matches Dot x \<longleftrightarrow> x \<noteq> CHR 0x0A"

fun read_atom :: "string \<Rightarrow> (atom \<times> string) option" where
  "read_atom [] = None"
| "read_atom (c # s) =
    (if c = CHR 0x5C then (case s of [] \<Rightarrow> None | d # s \<Rightarrow> Some (Lit d, s))
     else if c = CHR ''.'' then Some (Dot, s)
     else if c \<in> set metachars then None
     else Some (Lit c, s))"

lemma read_atom_shorter: "read_atom s = Some (a, t) \<Longrightarrow> length t < length s"
  by (cases s) (auto split: if_splits list.splits)

function rx_parse :: "string \<Rightarrow> token list option" where
  "rx_parse s =
    (if s = [] then Some []
     else case read_atom s of
         None \<Rightarrow> None
       | Some (a, t) \<Rightarrow>
           if HasPrefix t ''*'' then map_option ((#) (Many a)) (rx_parse (tl t))
           else map_option ((#) (One a)) (rx_parse t))"
  by auto
termination
  by (relation "measure length") (auto dest!: read_atom_shorter)

declare rx_parse.simps [simp del]

function rx_seq :: "token list \<Rightarrow> string \<Rightarrow> bool" where
  "rx_seq [] s \<longleftrightarrow> s = []"
| "rx_seq (One a # ts) s \<longleftrightarrow> (case s of [] \<Rightarrow> False | x # s \<Rightarrow> atom_matches a x \<and> rx_seq ts s)"
| "rx_seq (Many a # ts) s \<longleftrightarrow>
    rx_seq ts s \<or> (case s of [] \<Rightarrow> False | x # s \<Rightarrow> atom_matches a x \<and> rx_seq (Many a # ts) s)"
  by pat_completeness auto
termination by (relation "measure (\<lambda>(ts, s). length ts + length s)") auto

definition rx_matches :: "string \<Rightarrow> string \<Rightarrow> bool" where
  "rx_matches re s \<longleftrightarrow> HasPrefix re ''^'' \<and> HasSuffix re ''$'' \<and>
    (case rx_parse (butlast (tl re)) of None \<Rightarrow> False | Some ts \<Rightarrow> rx_seq ts s)"

subsection \<open>The translation\<close>

definition like_piece :: "char \<Rightarrow> string" where
  "like_piece c =
    (if c = CHR ''%'' then ''.*'' else if c = CHR ''_'' then ''.''
     else if c \<in> set metachars then [CHR 0x5C, c] else [c])"

definition like_token :: "char \<Rightarrow> token" where
  "like_token c = (if c = CHR ''%'' then Many Dot else if c = CHR ''_'' then One Dot else One (Lit c))"

lemma ReplaceAll_quoted:
  "ReplaceAll (ReplaceAll (QuoteMeta p) (CHR ''%'') ''.*'') (CHR ''_'') ''.'' = concat (map like_piece p)"
  by (induction p) (auto simp: QuoteMeta_def like_piece_def metachars_def)

lemma likeToRegex_pieces: "likeToRegex p = ''^'' @ concat (map like_piece p) @ ''$''"
  by (simp add: likeToRegex_def ReplaceAll_quoted)

lemma pieces_no_star: "\<not> HasPrefix (concat (map like_piece p)) ''*''"
  by (cases p) (auto simp: like_piece_def metachars_def HasPrefix_def)

lemma rx_parse_pieces: "rx_parse (concat (map like_piece p)) = Some (map like_token p)"
proof (induction p)
  case Nil
  then show ?case by (simp add: rx_parse.simps)
next
  case (Cons c p)
  have ns: "\<not> HasPrefix (concat (map like_piece p)) [CHR ''*'']" using pieces_no_star by simp
  consider "c = CHR ''%''" | "c = CHR ''_''" | "c \<noteq> CHR ''%''" "c \<noteq> CHR ''_''" "c \<in> set metachars"
    | "c \<noteq> CHR ''%''" "c \<noteq> CHR ''_''" "c \<notin> set metachars" by blast
  then show ?case
  proof cases
    case 1
    then have "like_piece c = ''.*''" "like_token c = Many Dot" by (simp_all add: like_piece_def like_token_def)
    then show ?thesis using Cons by (subst rx_parse.simps) simp
  next
    case 2
    then have "like_piece c = ''.''" "like_token c = One Dot" by (simp_all add: like_piece_def like_token_def)
    then show ?thesis using Cons ns by (subst rx_parse.simps) simp
  next
    case 3
    then have "like_piece c = [CHR 0x5C, c]" "like_token c = One (Lit c)"
      by (simp_all add: like_piece_def like_token_def)
    then show ?thesis using Cons ns by (subst rx_parse.simps) simp
  next
    case 4
    then have "c \<noteq> CHR 0x5C" "c \<noteq> CHR ''.''" by (auto simp: metachars_def)
    moreover have "like_piece c = [c]" "like_token c = One (Lit c)"
      using 4 by (simp_all add: like_piece_def like_token_def)
    ultimately show ?thesis using Cons ns 4 by (subst rx_parse.simps) simp
  qed
qed

lemma rx_seq_like: "CHR 0x0A \<notin> set s \<Longrightarrow> rx_seq (map like_token p) s \<longleftrightarrow> like_match p s"
  by (induction p s rule: like_match.induct) (auto simp: like_token_def)

theorem likeToRegex_matches:
  "CHR 0x0A \<notin> set s \<Longrightarrow> rx_matches (likeToRegex p) s \<longleftrightarrow> like_match p s"
  by (simp add: rx_matches_def likeToRegex_pieces HasSuffix_def rx_parse_pieces rx_seq_like butlast_append)

end
