(* ===== verification/Orm_Query.thy ===== *)
theory Orm_Query
  imports Orm_Filter
begin

text \<open>
  The query builder (\<open>swifty_orm/query.go\<close>, the builder part of \<open>query_group.go\<close>, and the methods of
  \<open>filter.go\<close> on a query). A method that the code applies to the shared \<open>*Query\<close> and returns is a
  function on the record; \<open>qop\<close> names the methods so that a chain of calls is a list.
\<close>

subsection \<open>Engines and queries\<close>

text \<open>
  Driver handles are known by a number or a name: the client, the session, the database, a collection.
  A context is what it carries for this code, the session if there is one.
\<close>

record Engine =
  eClient :: "nat option"
  eDatabase :: "string option"
  eDatabaseName :: string
  eSession :: "nat option"

record aggSpec =
  aggAlias :: string
  aggOp :: string
  aggField :: string

record Query =
  qCollection :: "string option"
  qEngine :: "Engine option"
  qConditions :: "condition list"
  qOrGroups :: "condition list list"
  qSort :: "(string \<times> int) list"
  qLimit :: int
  qSkip :: int
  qFields :: "string list"
  qGroupFields :: "string list"
  qHavingConds :: "condition list"
  qAggSpecs :: "aggSpec list"
  qErr :: "orm_error option"

definition new_query :: "string option \<Rightarrow> Engine option \<Rightarrow> Query" where
  "new_query col e = \<lparr>qCollection = col, qEngine = e, qConditions = [], qOrGroups = [], qSort = [],
     qLimit = 0, qSkip = 0, qFields = [], qGroupFields = [], qHavingConds = [], qAggSpecs = [],
     qErr = None\<rparr>"

definition eng_Collection :: "Engine option \<Rightarrow> string \<Rightarrow> Query" where
  "eng_Collection e name =
    (let col = (case e of
         Some en \<Rightarrow> if eDatabase en \<noteq> None \<and> TrimSpace name \<noteq> [] then Some name else None
       | None \<Rightarrow> None)
     in new_query col e)"

subsection \<open>Conditions\<close>

definition setErr :: "orm_error \<Rightarrow> Query \<Rightarrow> Query" where
  "setErr e q = (if qErr q = None then q\<lparr>qErr := Some e\<rparr> else q)"

definition add_cond :: "condition \<Rightarrow> Query \<Rightarrow> Query" where
  "add_cond c q = q\<lparr>qConditions := qConditions q @ [c]\<rparr>"

definition add_group :: "condition list \<Rightarrow> Query \<Rightarrow> Query" where
  "add_group g q = q\<lparr>qOrGroups := qOrGroups q @ [g]\<rparr>"

definition q_Where :: "val list \<Rightarrow> Query \<Rightarrow> Query" where
  "q_Where args q = (case parseWhere args of
      Inl e \<Rightarrow> setErr e q
    | Inr cs \<Rightarrow> q\<lparr>qConditions := qConditions q @ cs\<rparr>)"

definition q_WhereNot :: "string \<Rightarrow> val \<Rightarrow> Query \<Rightarrow> Query" where
  "q_WhereNot f v = add_cond (cond f ''$ne'' v)"

definition q_WhereIn :: "string \<Rightarrow> val \<Rightarrow> Query \<Rightarrow> Query" where
  "q_WhereIn f v = add_cond (cond f ''$in'' v)"

definition q_WhereNotIn :: "string \<Rightarrow> val \<Rightarrow> Query \<Rightarrow> Query" where
  "q_WhereNotIn f v = add_cond (cond f ''$nin'' v)"

definition q_WhereNull :: "string \<Rightarrow> Query \<Rightarrow> Query" where
  "q_WhereNull f = add_cond (cond f ''null'' VNil)"

definition q_WhereNotNull :: "string \<Rightarrow> Query \<Rightarrow> Query" where
  "q_WhereNotNull f = add_cond (cond f ''notNull'' VNil)"

definition q_WhereBetween :: "string \<Rightarrow> val \<Rightarrow> val \<Rightarrow> Query \<Rightarrow> Query" where
  "q_WhereBetween f low high = add_cond (cond f ''between'' (VPair low high))"

definition q_WhereNotBetween :: "string \<Rightarrow> val \<Rightarrow> val \<Rightarrow> Query \<Rightarrow> Query" where
  "q_WhereNotBetween f low high = add_cond (cond f ''notBetween'' (VPair low high))"

definition q_WhereLike :: "string \<Rightarrow> string \<Rightarrow> Query \<Rightarrow> Query" where
  "q_WhereLike f pattern = add_cond (cond f ''like'' (VStr pattern))"

definition q_WhereILike :: "string \<Rightarrow> string \<Rightarrow> Query \<Rightarrow> Query" where
  "q_WhereILike f pattern = add_cond (cond f ''ilike'' (VStr pattern))"

definition q_OrWhere :: "val list \<Rightarrow> Query \<Rightarrow> Query" where
  "q_OrWhere args q = (case parseWhere args of
      Inl e \<Rightarrow> setErr e q
    | Inr cs \<Rightarrow> if cs = [] then q else q\<lparr>qOrGroups := qOrGroups q @ [cs]\<rparr>)"

definition q_OrWhereNot :: "string \<Rightarrow> val \<Rightarrow> Query \<Rightarrow> Query" where
  "q_OrWhereNot f v = add_group [cond f ''$ne'' v]"

definition q_OrWhereIn :: "string \<Rightarrow> val \<Rightarrow> Query \<Rightarrow> Query" where
  "q_OrWhereIn f v = add_group [cond f ''$in'' v]"

definition q_OrWhereNotIn :: "string \<Rightarrow> val \<Rightarrow> Query \<Rightarrow> Query" where
  "q_OrWhereNotIn f v = add_group [cond f ''$nin'' v]"

definition q_OrWhereNull :: "string \<Rightarrow> Query \<Rightarrow> Query" where
  "q_OrWhereNull f = add_group [cond f ''null'' VNil]"

definition q_OrWhereNotNull :: "string \<Rightarrow> Query \<Rightarrow> Query" where
  "q_OrWhereNotNull f = add_group [cond f ''notNull'' VNil]"

definition q_OrWhereBetween :: "string \<Rightarrow> val \<Rightarrow> val \<Rightarrow> Query \<Rightarrow> Query" where
  "q_OrWhereBetween f low high = add_group [cond f ''between'' (VPair low high)]"

subsection \<open>Order, limits, projection, copies\<close>

definition q_OrderBy :: "string \<Rightarrow> string list \<Rightarrow> Query \<Rightarrow> Query" where
  "q_OrderBy f direction q =
    (let dir = (case direction of d # _ \<Rightarrow> if EqualFold (TrimSpace d) ''desc'' then - 1 else 1 | [] \<Rightarrow> 1)
     in q\<lparr>qSort := qSort q @ [(f, dir)]\<rparr>)"

definition q_Limit :: "int \<Rightarrow> Query \<Rightarrow> Query" where
  "q_Limit n q = q\<lparr>qLimit := n\<rparr>"

definition q_Offset :: "int \<Rightarrow> Query \<Rightarrow> Query" where
  "q_Offset n q = q\<lparr>qSkip := n\<rparr>"

definition q_Select :: "string list \<Rightarrow> Query \<Rightarrow> Query" where
  "q_Select fs q = q\<lparr>qFields := fs\<rparr>"

definition q_Clone :: "Query option \<Rightarrow> Query option" where
  "q_Clone q = (case q of None \<Rightarrow> None | Some q \<Rightarrow>
     Some \<lparr>qCollection = qCollection q, qEngine = qEngine q, qConditions = qConditions q,
       qOrGroups = map (\<lambda>group. group) (qOrGroups q), qSort = qSort q, qLimit = qLimit q,
       qSkip = qSkip q, qFields = qFields q, qGroupFields = qGroupFields q,
       qHavingConds = qHavingConds q, qAggSpecs = qAggSpecs q, qErr = qErr q\<rparr>)"

subsection \<open>Groups\<close>

definition blank :: "string \<Rightarrow> bool" where
  "blank s \<longleftrightarrow> TrimSpace s = []"

definition q_GroupBy :: "string list \<Rightarrow> Query \<Rightarrow> Query" where
  "q_GroupBy fs q =
    (if list_ex blank fs then setErr GroupFieldEmpty q
     else q\<lparr>qGroupFields := qGroupFields q @ fs\<rparr>)"

definition q_Having :: "val list \<Rightarrow> Query \<Rightarrow> Query" where
  "q_Having args q = (case parseWhere args of
      Inl e \<Rightarrow> setErr e q
    | Inr cs \<Rightarrow> q\<lparr>qHavingConds := qHavingConds q @ cs\<rparr>)"

definition addAggSpec :: "string \<Rightarrow> string \<Rightarrow> string \<Rightarrow> Query \<Rightarrow> Query" where
  "addAggSpec alias p f q =
    (if blank alias then setErr AliasEmpty q
     else if alias = ''_id'' then setErr AliasReserved q
     else if HasPrefix alias ''$'' \<or> CHR ''.'' \<in> set alias then setErr (AliasSyntax alias) q
     else q\<lparr>qAggSpecs := qAggSpecs q @ [\<lparr>aggAlias = alias, aggOp = p, aggField = f\<rparr>]\<rparr>)"

definition addFieldAggSpec :: "string \<Rightarrow> string \<Rightarrow> string \<Rightarrow> Query \<Rightarrow> Query" where
  "addFieldAggSpec alias p f q =
    (if blank f then setErr (AggFieldEmpty (TrimPrefix p ''$'')) q else addAggSpec alias p f q)"

definition q_CountAs :: "string \<Rightarrow> Query \<Rightarrow> Query" where
  "q_CountAs alias = addAggSpec alias ''$sum'' []"

definition q_SumAs :: "string \<Rightarrow> string \<Rightarrow> Query \<Rightarrow> Query" where
  "q_SumAs f alias = addFieldAggSpec alias ''$sum'' f"

definition q_AvgAs :: "string \<Rightarrow> string \<Rightarrow> Query \<Rightarrow> Query" where
  "q_AvgAs f alias = addFieldAggSpec alias ''$avg'' f"

definition q_MinAs :: "string \<Rightarrow> string \<Rightarrow> Query \<Rightarrow> Query" where
  "q_MinAs f alias = addFieldAggSpec alias ''$min'' f"

definition q_MaxAs :: "string \<Rightarrow> string \<Rightarrow> Query \<Rightarrow> Query" where
  "q_MaxAs f alias = addFieldAggSpec alias ''$max'' f"

subsection \<open>The documents of a query\<close>

fun or_clauses :: "condition list list \<Rightarrow> doc list option" where
  "or_clauses [] = Some []"
| "or_clauses (g # gs) =
    (if g = [] then or_clauses gs
     else do { d \<leftarrow> buildConditionFilter g; ds \<leftarrow> or_clauses gs; Some (d # ds) })"

definition buildFilter :: "Query \<Rightarrow> doc option" where
  "buildFilter q = do {
     base \<leftarrow> buildConditionFilter (qConditions q);
     if qOrGroups q = [] then Some base
     else do {
       groups \<leftarrow> or_clauses (qOrGroups q);
       let orClauses = (if qConditions q \<noteq> [] then [base] else []) @ groups in
       Some (case orClauses of
           [] \<Rightarrow> base
         | [d] \<Rightarrow> d
         | _ \<Rightarrow> [(''$or'', VA (map VM orClauses))]) } }"

fun projection :: "string list \<Rightarrow> doc \<Rightarrow> doc" where
  "projection [] proj = proj"
| "projection (f # fs) proj =
    (if HasPrefix f ''-'' then projection fs (AList.update (drop 1 f) (VInt 0) proj)
     else projection fs (AList.update f (VInt 1) proj))"

definition buildProjection :: "Query \<Rightarrow> doc option" where
  "buildProjection q = (if qFields q = [] then None else Some (projection (qFields q) []))"

subsection \<open>Chains of calls\<close>

datatype qop =
    Where "val list" | WhereNot string val | WhereIn string val | WhereNotIn string val
  | WhereNull string | WhereNotNull string | WhereBetween string val val
  | WhereNotBetween string val val | WhereLike string string | WhereILike string string
  | OrWhere "val list" | OrWhereNot string val | OrWhereIn string val | OrWhereNotIn string val
  | OrWhereNull string | OrWhereNotNull string | OrWhereBetween string val val
  | OrderBy string "string list" | Limit int | Offset int | Select "string list"
  | GroupBy "string list" | Having "val list" | CountAs string | SumAs string string
  | AvgAs string string | MinAs string string | MaxAs string string

fun run_qop :: "qop \<Rightarrow> Query \<Rightarrow> Query" where
  "run_qop (Where args) = q_Where args"
| "run_qop (WhereNot f v) = q_WhereNot f v"
| "run_qop (WhereIn f v) = q_WhereIn f v"
| "run_qop (WhereNotIn f v) = q_WhereNotIn f v"
| "run_qop (WhereNull f) = q_WhereNull f"
| "run_qop (WhereNotNull f) = q_WhereNotNull f"
| "run_qop (WhereBetween f a b) = q_WhereBetween f a b"
| "run_qop (WhereNotBetween f a b) = q_WhereNotBetween f a b"
| "run_qop (WhereLike f p) = q_WhereLike f p"
| "run_qop (WhereILike f p) = q_WhereILike f p"
| "run_qop (OrWhere args) = q_OrWhere args"
| "run_qop (OrWhereNot f v) = q_OrWhereNot f v"
| "run_qop (OrWhereIn f v) = q_OrWhereIn f v"
| "run_qop (OrWhereNotIn f v) = q_OrWhereNotIn f v"
| "run_qop (OrWhereNull f) = q_OrWhereNull f"
| "run_qop (OrWhereNotNull f) = q_OrWhereNotNull f"
| "run_qop (OrWhereBetween f a b) = q_OrWhereBetween f a b"
| "run_qop (OrderBy f d) = q_OrderBy f d"
| "run_qop (Limit n) = q_Limit n"
| "run_qop (Offset n) = q_Offset n"
| "run_qop (Select fs) = q_Select fs"
| "run_qop (GroupBy fs) = q_GroupBy fs"
| "run_qop (Having args) = q_Having args"
| "run_qop (CountAs a) = q_CountAs a"
| "run_qop (SumAs f a) = q_SumAs f a"
| "run_qop (AvgAs f a) = q_AvgAs f a"
| "run_qop (MinAs f a) = q_MinAs f a"
| "run_qop (MaxAs f a) = q_MaxAs f a"

definition chain :: "qop list \<Rightarrow> Query \<Rightarrow> Query" where
  "chain ops q = fold run_qop ops q"

end
