(* ===== verification/Orm_Filter_Correct.thy ===== *)
theory Orm_Filter_Correct
  imports Orm_Filter
begin

text \<open>
  The filter document of a list of conditions: building it never panics on conditions that the query
  methods create, and it selects what all the conditions select.
\<close>

subsection \<open>Typed conditions\<close>

lemma cond_typed_simple [simp]:
  "p \<notin> {''between'', ''notBetween'', ''like'', ''ilike''} \<Longrightarrow> cond_typed (cond f p v)"
  "cond_typed (cond f ''between'' (VPair a b))"
  "cond_typed (cond f ''notBetween'' (VPair a b))"
  "cond_typed (cond f ''like'' (VStr q))"
  "cond_typed (cond f ''ilike'' (VStr q))"
  by (auto simp: cond_typed_def)

lemma toBetweenPair_Inr: "toBetweenPair v = Inr w \<Longrightarrow> \<exists>a b. w = VPair a b"
  by (auto simp: toBetweenPair_def split: option.splits list.splits)

lemma normalizeOp_typed:
  assumes "normalizeOp rawOp v = Inr (p, w)"
  shows "cond_typed (cond f p w)"
proof (cases "map_of opAliases (ToLower (TrimSpace rawOp))")
  case None
  then have "HasPrefix rawOp ''$''" "p = rawOp" using assms by (auto simp: normalizeOp_def split: if_splits)
  then have "p \<notin> {''between'', ''notBetween'', ''like'', ''ilike''}" by auto
  then show ?thesis by simp
next
  case (Some q)
  then have n: "normalizeOp rawOp v =
      (if q = ''between'' \<or> q = ''notBetween'' then
          (case toBetweenPair v of Inl e \<Rightarrow> Inl e | Inr pair \<Rightarrow> Inr (q, pair))
        else if q = ''like'' \<or> q = ''ilike'' then
          (case v of VStr _ \<Rightarrow> Inr (q, v) | _ \<Rightarrow> Inl (PatternNotString q))
        else Inr (q, v))"
    by (simp add: normalizeOp_def)
  consider "q = ''between'' \<or> q = ''notBetween''" | "q = ''like'' \<or> q = ''ilike''"
    | "q \<notin> {''between'', ''notBetween'', ''like'', ''ilike''}" by auto
  then show ?thesis
  proof cases
    case 1
    then obtain w' where "toBetweenPair v = Inr w'" "p = q" "w = w'"
      using assms unfolding n by (auto split: sum.splits)
    then show ?thesis using 1 toBetweenPair_Inr [of v w'] by auto
  next
    case 2
    then obtain u where "v = VStr u" "p = q" "w = v"
      using assms unfolding n by (cases v) auto
    then show ?thesis using 2 by auto
  next
    case 3
    then have "p = q" using assms unfolding n by simp
    then show ?thesis using 3 by simp
  qed
qed

lemma key_condition_typed: "cond_typed (key_condition m k)"
  by (simp add: key_condition_def split: option.split)

lemma parseWhereMap_typed: "parseWhereMap arg = Inr cs \<Longrightarrow> c \<in> set cs \<Longrightarrow> cond_typed c"
  by (cases arg) (auto simp: parseWhereMap_def Let_def key_condition_typed)

lemma parseWhere_typed: "parseWhere args = Inr cs \<Longrightarrow> c \<in> set cs \<Longrightarrow> cond_typed c"
  by (induction args rule: parseWhere.induct)
    (auto simp: parseWhereMap_typed normalizeOp_typed split: option.splits if_splits val.splits sum.splits)

subsection \<open>The builder's invariant\<close>

text \<open>\<open>K\<close> holds of the fields and \<open>O\<close> of the operators that were added.\<close>

definition opdoc :: "(string \<Rightarrow> bool) \<Rightarrow> val \<Rightarrow> bool" where
  "opdoc Q x \<longleftrightarrow> (case x of VM m \<Rightarrow> m \<noteq> [] \<and> distinct (map fst m) \<and> (\<forall>kv \<in> set m. Q (fst kv)) | _ \<Rightarrow> False)"

definition finv :: "(string \<Rightarrow> bool) \<Rightarrow> (string \<Rightarrow> bool) \<Rightarrow> fbuild \<Rightarrow> bool" where
  "finv K Q s \<longleftrightarrow> distinct (map fst (flt s)) \<and> (\<forall>kv \<in> set (flt s). K (fst kv)) \<and>
    (\<forall>f \<in> set (opFields s). \<exists>x. map_of (flt s) f = Some x \<and> opdoc Q x)"

lemma ball_keys_update:
  assumes "P k" "\<forall>kv \<in> set al. P (fst kv)"
  shows "\<forall>kv \<in> set (AList.update k v al). P (fst kv)"
  using assms by (induction al) auto

lemma update_not_Nil [simp]: "AList.update k v al \<noteq> []"
  by (cases al) auto

lemma opdoc_one [simp]: "Q p \<Longrightarrow> opdoc Q (VM [(p, v)])"
  by (simp add: opdoc_def)

lemma opdoc_update: "Q p \<Longrightarrow> opdoc Q (VM m) \<Longrightarrow> opdoc Q (VM (AList.update p v m))"
  using ball_keys_update [of Q p m v] by (simp add: opdoc_def)

lemma opdoc_VM: "opdoc Q x \<Longrightarrow> \<exists>m. x = VM m"
  by (auto simp: opdoc_def split: val.splits)

lemma finv_clash: "finv K Q s \<Longrightarrow> finv K Q (s\<lparr>andClauses := a\<rparr>)"
  by (simp add: finv_def del: map_of_eq_Some_iff)

lemma finv_new:
  "finv K Q s \<Longrightarrow> K f \<Longrightarrow> map_of (flt s) f = None \<Longrightarrow> finv K Q (s\<lparr>flt := AList.update f v (flt s)\<rparr>)"
  using ball_keys_update [of K f "flt s" v]
  unfolding finv_def by (auto simp del: map_of_eq_Some_iff map_of_eq_None_iff)

lemma finv_new_op:
  "finv K Q s \<Longrightarrow> K f \<Longrightarrow> Q p \<Longrightarrow> map_of (flt s) f = None \<Longrightarrow>
    finv K Q (s\<lparr>flt := AList.update f (VM [(p, v)]) (flt s), opFields := f # opFields s\<rparr>)"
  using ball_keys_update [of K f "flt s" "VM [(p, v)]"]
  unfolding finv_def by (auto simp del: map_of_eq_Some_iff map_of_eq_None_iff)

lemma finv_opD:
  "finv K Q s \<Longrightarrow> f \<in> set (opFields s) \<Longrightarrow> map_of (flt s) f = Some x \<Longrightarrow> opdoc Q x"
  unfolding finv_def by (auto simp del: map_of_eq_Some_iff)

lemma finv_more_op:
  assumes "finv K Q s" "K f" "Q p" "map_of (flt s) f = Some (VM m)" "f \<in> set (opFields s)"
  shows "finv K Q (s\<lparr>flt := AList.update f (VM (AList.update p v m)) (flt s)\<rparr>)"
  using opdoc_update [OF assms(3) finv_opD [OF assms(1,5,4)], of v] assms(1,2)
    ball_keys_update [of K f "flt s" "VM (AList.update p v m)"]
  unfolding finv_def by (auto simp del: map_of_eq_Some_iff map_of_eq_None_iff)

lemma setEquality_total:
  assumes "finv K Q s" "K f" "Q ''$eq''"
  shows "\<exists>s'. setEquality f v s = Some s' \<and> finv K Q s'"
  using assms finv_opD [OF assms(1), of f] finv_more_op [OF assms]
  by (auto simp: setEquality_def Let_def finv_clash finv_new split: option.splits dest!: opdoc_VM
      simp del: map_of_eq_Some_iff map_of_eq_None_iff)

lemma setOp_total:
  assumes "finv K Q s" "K f" "Q p"
  shows "\<exists>s'. setOp f p v s = Some s' \<and> finv K Q s'"
  using assms finv_opD [OF assms(1), of f] finv_more_op [OF assms]
  by (auto simp: setOp_def Let_def finv_clash finv_new_op split: option.splits dest!: opdoc_VM
      simp del: map_of_eq_Some_iff map_of_eq_None_iff)

text \<open>One condition is one or two calls of the setters.\<close>

datatype setter = SetEq val | SetOp string val

fun run_setter :: "string \<Rightarrow> setter \<Rightarrow> fbuild \<Rightarrow> fbuild option" where
  "run_setter f (SetEq v) s = setEquality f v s"
| "run_setter f (SetOp p v) s = setOp f p v s"

fun run_setters :: "string \<Rightarrow> setter list \<Rightarrow> fbuild \<Rightarrow> fbuild option" where
  "run_setters f [] s = Some s"
| "run_setters f (x # xs) s = do { s \<leftarrow> run_setter f x s; run_setters f xs s }"

fun setter_doc :: "string \<Rightarrow> setter \<Rightarrow> doc" where
  "setter_doc f (SetEq v) = [(f, v)]"
| "setter_doc f (SetOp p v) = [(f, VM [(p, v)])]"

fun setter_op :: "setter \<Rightarrow> string" where
  "setter_op (SetEq v) = ''$eq''"
| "setter_op (SetOp p v) = p"

lemma bind_Some_right: "Option.bind x Some = x"
  by (cases x) simp_all

lemma run_setters_Nil [simp]: "run_setters f [] = Some"
  by (rule ext) simp

lemma run_setters_one: "run_setters f [x] = run_setter f x"
  by (rule ext) (simp add: bind_Some_right)

lemma run_setter_SetOp: "run_setter f (SetOp p v) = setOp f p v"
  by (rule ext) simp

lemma add_condition_setters:
  assumes "cond_typed c"
  shows "\<exists>xs. (\<forall>s. add_condition c s = run_setters (cfield c) xs s) \<and>
    cond_docs c = map (setter_doc (cfield c)) xs \<and>
    (cond_plain c \<longrightarrow> (\<forall>x \<in> set xs. setter_op x \<in> set plain_ops \<and> (\<forall>v. x = SetEq v \<longrightarrow> literal v)))"
proof -
  consider "cop c = ''=''" | "cop c = ''null''" | "cop c = ''notNull''" | "cop c = ''between''"
    | "cop c = ''notBetween''" | "cop c = ''like''" | "cop c = ''ilike''" | "cop c \<notin> set internal_ops"
    by (auto simp: internal_ops_def)
  then show ?thesis
  proof cases
    case 1
    show ?thesis
      by (rule exI [of _ "[SetEq (cvalue c)]"])
        (simp add: 1 add_condition_def cond_docs.simps bind_Some_right cond_plain_def plain_ops_def)
  next
    case 2
    show ?thesis
      by (rule exI [of _ "[SetEq VNil]"])
        (simp add: 2 add_condition_def cond_docs.simps bind_Some_right cond_plain_def plain_ops_def)
  next
    case 3
    show ?thesis
      by (rule exI [of _ "[SetOp ''$ne'' VNil]"])
        (simp add: 3 add_condition_def cond_docs.simps bind_Some_right cond_plain_def plain_ops_def)
  next
    case 4
    then obtain a b where v: "cvalue c = VPair a b"
      using assms by (auto simp: cond_typed_def split: val.splits)
    show ?thesis
      by (rule exI [of _ "[SetOp ''$gte'' a, SetOp ''$lte'' b]"])
        (simp add: 4 v Let_def run_setters_one run_setter_SetOp add_condition_def cond_docs.simps cond_plain_def plain_ops_def)
  next
    case 5
    then obtain a b where v: "cvalue c = VPair a b"
      using assms by (auto simp: cond_typed_def split: val.splits)
    show ?thesis
      by (rule exI [of _ "[SetOp ''$not'' (VM (between_ops a b))]"])
        (simp add: 5 v between_ops_def add_condition_def cond_docs.simps bind_Some_right cond_plain_def plain_ops_def)
  next
    case 6
    then obtain q where v: "cvalue c = VStr q"
      using assms by (auto simp: cond_typed_def split: val.splits)
    show ?thesis
      by (rule exI [of _ "[SetOp ''$regex'' (VRegex (likeToRegex q) [])]"])
        (simp add: 6 v add_condition_def cond_docs.simps bind_Some_right cond_plain_def plain_ops_def)
  next
    case 7
    then obtain q where v: "cvalue c = VStr q"
      using assms by (auto simp: cond_typed_def split: val.splits)
    show ?thesis
      by (rule exI [of _ "[SetOp ''$regex'' (VRegex (likeToRegex q) ''i'')]"])
        (simp add: 7 v add_condition_def cond_docs.simps bind_Some_right cond_plain_def plain_ops_def)
  next
    case 8
    then show ?thesis
      by (intro exI [of _ "[SetOp (cop c) (cvalue c)]"])
        (auto simp: add_condition_def cond_docs.simps bind_Some_right cond_plain_def internal_ops_def)
  qed
qed

lemma run_setters_total:
  assumes "finv K Q s" "K f" "\<forall>x \<in> set xs. Q (setter_op x)"
  shows "\<exists>s'. run_setters f xs s = Some s' \<and> finv K Q s'"
  using assms
proof (induction xs arbitrary: s)
  case (Cons x xs)
  have "\<exists>s'. run_setter f x s = Some s' \<and> finv K Q s'"
    using Cons.prems setEquality_total [of K Q s f] setOp_total [of K Q s f] by (cases x) auto
  then show ?case using Cons by auto
qed simp

lemma add_conditions_total:
  assumes "finv (\<lambda>_. True) (\<lambda>_. True) s" "\<forall>c \<in> set cs. cond_typed c"
  shows "\<exists>s'. add_conditions cs s = Some s'"
  using assms
proof (induction cs arbitrary: s)
  case (Cons c cs)
  have "\<exists>s'. add_condition c s = Some s' \<and> finv (\<lambda>_. True) (\<lambda>_. True) s'"
    using add_condition_setters [of c] run_setters_total [OF Cons.prems(1)] Cons.prems(2) by auto
  then show ?case using Cons by auto
qed simp

lemma finv_start [simp]: "finv K Q \<lparr>flt = [], opFields = [], andClauses = []\<rparr>"
  by (simp add: finv_def)

theorem buildConditionFilter_total:
  "\<forall>c \<in> set cs. cond_typed c \<Longrightarrow> \<exists>d. buildConditionFilter cs = Some d"
  using add_conditions_total [OF finv_start] by (fastforce simp: buildConditionFilter_def)

subsection \<open>What the filter selects\<close>

definition sem :: "(doc \<Rightarrow> bool) \<Rightarrow> fbuild \<Rightarrow> bool" where
  "sem mm s \<longleftrightarrow> (\<forall>kv \<in> set (flt s). mm [kv]) \<and> (\<forall>d \<in> set (andClauses s). mm d)"

abbreviation pinv :: "fbuild \<Rightarrow> bool" where
  "pinv \<equiv> finv is_field (\<lambda>p. p \<in> set plain_ops)"

lemma laws:
  assumes "filter_laws mm"
  shows filter_conj: "distinct (map fst d) \<Longrightarrow> mm d = (\<forall>kv \<in> set d. mm [kv])"
    and filter_and: "ds \<noteq> [] \<Longrightarrow> mm [(''$and'', VA (map VM ds))] = (\<forall>d \<in> set ds. mm d)"
    and filter_or: "ds \<noteq> [] \<Longrightarrow> mm [(''$or'', VA (map VM ds))] = (\<exists>d \<in> set ds. mm d)"
    and filter_ops: "is_field f \<Longrightarrow> opdoc (\<lambda>p. p \<in> set plain_ops) (VM ops) \<Longrightarrow>
       mm [(f, VM ops)] = (\<forall>p \<in> set ops. mm [(f, VM [p])])"
    and filter_eq: "is_field f \<Longrightarrow> literal v \<Longrightarrow> mm [(f, VM [(''$eq'', v)])] = mm [(f, v)]"
proof -
  note L = assms [unfolded filter_laws_def]
  show "distinct (map fst d) \<Longrightarrow> mm d = (\<forall>kv \<in> set d. mm [kv])"
    by (rule L [THEN conjunct1, rule_format])
  show "ds \<noteq> [] \<Longrightarrow> mm [(''$and'', VA (map VM ds))] = (\<forall>d \<in> set ds. mm d)"
    by (rule L [THEN conjunct2, THEN conjunct1, rule_format])
  show "ds \<noteq> [] \<Longrightarrow> mm [(''$or'', VA (map VM ds))] = (\<exists>d \<in> set ds. mm d)"
    by (rule L [THEN conjunct2, THEN conjunct2, THEN conjunct1, rule_format])
  show "is_field f \<Longrightarrow> literal v \<Longrightarrow> mm [(f, VM [(''$eq'', v)])] = mm [(f, v)]"
    by (rule L [THEN conjunct2, THEN conjunct2, THEN conjunct2, THEN conjunct2, rule_format]) simp
  assume "is_field f" "opdoc (\<lambda>p. p \<in> set plain_ops) (VM ops)"
  then have "is_field f \<and> ops \<noteq> [] \<and> distinct (map fst ops) \<and> fst ` set ops \<subseteq> set plain_ops"
    by (auto simp: opdoc_def)
  then show "mm [(f, VM ops)] = (\<forall>p \<in> set ops. mm [(f, VM [p])])"
    by (rule L [THEN conjunct2, THEN conjunct2, THEN conjunct2, THEN conjunct1, rule_format])
qed

lemma filter_more_op:
  assumes "filter_laws mm" "is_field f" "opdoc (\<lambda>p. p \<in> set plain_ops) (VM m)" "p \<in> set plain_ops"
    "map_of m p = None"
  shows "mm [(f, VM (AList.update p v m))] \<longleftrightarrow> mm [(f, VM m)] \<and> mm [(f, VM [(p, v)])]"
proof -
  have "distinct (map fst m)" using assms(3) by (simp add: opdoc_def)
  moreover have "\<forall>kv \<in> set m. fst kv \<noteq> p" using map_of_None_keys [OF assms(5)] by blast
  ultimately show ?thesis
    using filter_ops [OF assms(1,2) assms(3)] filter_ops [OF assms(1,2) opdoc_update [OF assms(4,3), of v]]
    by (auto simp: ball_update)
qed

lemma sem_clash: "sem mm (s\<lparr>andClauses := andClauses s @ [d]\<rparr>) \<longleftrightarrow> sem mm s \<and> mm d"
  by (auto simp: sem_def)

lemma sem_new:
  assumes "finv K Q s" "map_of (flt s) f = None"
  shows "sem mm (s\<lparr>flt := AList.update f v (flt s), opFields := fs\<rparr>) \<longleftrightarrow> sem mm s \<and> mm [(f, v)]"
    "sem mm (s\<lparr>flt := AList.update f v (flt s)\<rparr>) \<longleftrightarrow> sem mm s \<and> mm [(f, v)]"
proof -
  have d: "distinct (map fst (flt s))" using assms(1) by (simp add: finv_def)
  have "(\<forall>kv \<in> set (flt s). fst kv \<noteq> f \<longrightarrow> mm [kv]) \<longleftrightarrow> (\<forall>kv \<in> set (flt s). mm [kv])"
    using map_of_None_keys [OF assms(2)] by blast
  then show "sem mm (s\<lparr>flt := AList.update f v (flt s), opFields := fs\<rparr>) \<longleftrightarrow> sem mm s \<and> mm [(f, v)]"
    "sem mm (s\<lparr>flt := AList.update f v (flt s)\<rparr>) \<longleftrightarrow> sem mm s \<and> mm [(f, v)]"
    by (auto simp: sem_def ball_update [OF d])
qed

lemma sem_more_op:
  assumes "filter_laws mm" "pinv s" "is_field f" "p \<in> set plain_ops" "f \<in> set (opFields s)"
    "map_of (flt s) f = Some (VM m)" "map_of m p = None"
  shows "sem mm (s\<lparr>flt := AList.update f (VM (AList.update p v m)) (flt s)\<rparr>) \<longleftrightarrow>
    sem mm s \<and> mm [(f, VM [(p, v)])]"
proof -
  have d: "distinct (map fst (flt s))" using assms(2) by (simp add: finv_def)
  have "(\<forall>kv \<in> set (flt s). mm [kv]) \<longleftrightarrow> mm [(f, VM m)] \<and> (\<forall>kv \<in> set (flt s). fst kv \<noteq> f \<longrightarrow> mm [kv])"
    by (rule ball_split_key [OF d assms(6)])
  moreover have "sem mm (s\<lparr>flt := AList.update f (VM (AList.update p v m)) (flt s)\<rparr>) \<longleftrightarrow>
      mm [(f, VM (AList.update p v m))] \<and> (\<forall>kv \<in> set (flt s). fst kv \<noteq> f \<longrightarrow> mm [kv]) \<and>
      (\<forall>d \<in> set (andClauses s). mm d)"
    by (simp add: sem_def ball_update [OF d])
  ultimately show ?thesis
    using filter_more_op [OF assms(1,3) finv_opD [OF assms(2,5,6)] assms(4,7), of v]
    unfolding sem_def by blast
qed

lemma setOp_sem:
  assumes "filter_laws mm" "pinv s" "is_field f" "p \<in> set plain_ops" "setOp f p v s = Some s'"
  shows "sem mm s' \<longleftrightarrow> sem mm s \<and> mm [(f, VM [(p, v)])]"
proof (cases "map_of (flt s) f")
  case None
  then show ?thesis using assms(5) sem_new [OF assms(2) None] by (auto simp: setOp_def Let_def)
next
  case (Some x)
  show ?thesis
  proof (cases "f \<in> set (opFields s)")
    case True
    obtain m where m: "x = VM m" using opdoc_VM [OF finv_opD [OF assms(2) True Some]] by blast
    show ?thesis
      using assms(5) sem_more_op [OF assms(1-4) True Some [unfolded m]] sem_clash
      by (cases "map_of m p") (auto simp: setOp_def Let_def Some m True simp del: map_of_eq_Some_iff map_of_eq_None_iff)
  next
    case False
    then show ?thesis using assms(5) sem_clash by (auto simp: setOp_def Let_def Some)
  qed
qed

lemma setEquality_sem:
  assumes "filter_laws mm" "pinv s" "is_field f" "literal v" "setEquality f v s = Some s'"
  shows "sem mm s' \<longleftrightarrow> sem mm s \<and> mm [(f, v)]"
proof (cases "map_of (flt s) f")
  case None
  then show ?thesis using assms(5) sem_new [OF assms(2) None] by (auto simp: setEquality_def Let_def)
next
  case (Some x)
  show ?thesis
  proof (cases "f \<in> set (opFields s)")
    case True
    obtain m where m: "x = VM m" using opdoc_VM [OF finv_opD [OF assms(2) True Some]] by blast
    have eq: "''$eq'' \<in> set plain_ops" by (simp add: plain_ops_def)
    show ?thesis
      using assms(5) sem_more_op [OF assms(1-3) eq True Some [unfolded m]] filter_eq [OF assms(1,3,4)] sem_clash
      by (cases "map_of m ''$eq''")
        (auto simp: setEquality_def Let_def Some m True simp del: map_of_eq_Some_iff map_of_eq_None_iff)
  next
    case False
    then show ?thesis using assms(5) sem_clash by (auto simp: setEquality_def Let_def Some)
  qed
qed

lemma run_setters_sem:
  assumes "filter_laws mm" "pinv s" "is_field f"
    "\<forall>x \<in> set xs. setter_op x \<in> set plain_ops \<and> (\<forall>v. x = SetEq v \<longrightarrow> literal v)"
    "run_setters f xs s = Some s'"
  shows "pinv s' \<and> (sem mm s' \<longleftrightarrow> sem mm s \<and> (\<forall>x \<in> set xs. mm (setter_doc f x)))"
  using assms
proof (induction xs arbitrary: s)
  case (Cons x xs)
  obtain t where t: "run_setter f x s = Some t" "run_setters f xs t = Some s'"
    using Cons.prems(5) by (auto simp: bind_eq_Some_conv)
  have x: "setter_op x \<in> set plain_ops" "\<And>v. x = SetEq v \<Longrightarrow> literal v" using Cons.prems(4) by auto
  have "pinv t"
    using t(1) run_setters_total [OF Cons.prems(2,3), of "[x]"] x by (auto simp: bind_Some_right)
  moreover have "sem mm t \<longleftrightarrow> sem mm s \<and> mm (setter_doc f x)"
    using t(1) x setOp_sem [OF Cons.prems(1-3)] setEquality_sem [OF Cons.prems(1-3)] by (cases x) auto
  ultimately show ?case using Cons.IH [OF Cons.prems(1) _ Cons.prems(3) _ t(2)] Cons.prems(4) by auto
qed simp

lemma add_conditions_sem:
  assumes "filter_laws mm" "pinv s" "\<forall>c \<in> set cs. cond_typed c \<and> cond_plain c" "add_conditions cs s = Some s'"
  shows "pinv s' \<and> (sem mm s' \<longleftrightarrow> sem mm s \<and> (\<forall>c \<in> set cs. selects mm c))"
  using assms
proof (induction cs arbitrary: s)
  case (Cons c cs)
  obtain t where t: "add_condition c s = Some t" "add_conditions cs t = Some s'"
    using Cons.prems(4) by (auto simp: bind_eq_Some_conv)
  have f: "is_field (cfield c)" using Cons.prems(3) by (simp add: cond_plain_def)
  obtain xs where "\<forall>s. add_condition c s = run_setters (cfield c) xs s"
    "cond_docs c = map (setter_doc (cfield c)) xs"
    "\<forall>x \<in> set xs. setter_op x \<in> set plain_ops \<and> (\<forall>v. x = SetEq v \<longrightarrow> literal v)"
    using add_condition_setters [of c] Cons.prems(3) by (meson list.set_intros(1))
  then have "pinv t \<and> (sem mm t \<longleftrightarrow> sem mm s \<and> selects mm c)"
    using run_setters_sem [OF Cons.prems(1,2) f, of xs t] t(1) by (simp add: selects_def)
  then show ?case using Cons.IH [OF Cons.prems(1) _ _ t(2)] Cons.prems(3) by auto
qed simp

theorem buildConditionFilter_selects:
  assumes "filter_laws mm" "\<forall>c \<in> set cs. cond_typed c \<and> cond_plain c"
  shows "\<exists>d. buildConditionFilter cs = Some d \<and> (mm d \<longleftrightarrow> (\<forall>c \<in> set cs. selects mm c))"
proof -
  obtain s where s: "add_conditions cs \<lparr>flt = [], opFields = [], andClauses = []\<rparr> = Some s"
    using add_conditions_total [OF finv_start, of cs] assms(2) by auto
  have p: "pinv s" and e: "sem mm s \<longleftrightarrow> (\<forall>c \<in> set cs. selects mm c)"
    using add_conditions_sem [OF assms(1) finv_start assms(2) s] by (auto simp: sem_def)
  have d: "distinct (map fst (flt s))" using p by (simp add: finv_def)
  have n: "\<forall>kv \<in> set (flt s). fst kv \<noteq> ''$and''"
    using p by (auto simp: finv_def is_field_def)
  show ?thesis
  proof (cases "andClauses s = []")
    case True
    then show ?thesis using s e filter_conj [OF assms(1) d] by (auto simp: buildConditionFilter_def sem_def)
  next
    case False
    have "mm (AList.update ''$and'' (VA (map VM (andClauses s))) (flt s)) \<longleftrightarrow> sem mm s"
      using filter_conj [OF assms(1), of "AList.update ''$and'' (VA (map VM (andClauses s))) (flt s)"]
        filter_and [OF assms(1) False] d n by (auto simp: ball_update sem_def)
    then show ?thesis using s e False by (simp add: buildConditionFilter_def)
  qed
qed

end
