(* ===== verification/Orm_Query_Correct.thy ===== *)
theory Orm_Query_Correct
  imports Orm_Query Orm_Filter_Correct
begin

text \<open>
  What a chain of builder calls leaves in the query: conditions of the right type, groups that are not
  empty, valid aliases, and the first error. The filter document of such a query exists and selects the
  documents that the calls describe.
\<close>

subsection \<open>Errors of the builder\<close>

definition where_error :: "val list \<Rightarrow> orm_error option" where
  "where_error args = (case parseWhere args of Inl e \<Rightarrow> Some e | Inr _ \<Rightarrow> None)"

definition alias_error :: "string \<Rightarrow> orm_error option" where
  "alias_error a =
    (if blank a then Some AliasEmpty
     else if a = ''_id'' then Some AliasReserved
     else if HasPrefix a ''$'' \<or> CHR ''.'' \<in> set a then Some (AliasSyntax a)
     else None)"

definition agg_error :: "string \<Rightarrow> string \<Rightarrow> string \<Rightarrow> orm_error option" where
  "agg_error name f a = (if blank f then Some (AggFieldEmpty name) else alias_error a)"

fun op_error :: "qop \<Rightarrow> orm_error option" where
  "op_error (Where args) = where_error args"
| "op_error (OrWhere args) = where_error args"
| "op_error (Having args) = where_error args"
| "op_error (GroupBy fs) = (if list_ex blank fs then Some GroupFieldEmpty else None)"
| "op_error (CountAs a) = alias_error a"
| "op_error (SumAs f a) = agg_error ''sum'' f a"
| "op_error (AvgAs f a) = agg_error ''avg'' f a"
| "op_error (MinAs f a) = agg_error ''min'' f a"
| "op_error (MaxAs f a) = agg_error ''max'' f a"
| "op_error _ = None"

lemmas query_op_defs = q_Where_def q_WhereNot_def q_WhereIn_def q_WhereNotIn_def q_WhereNull_def
  q_WhereNotNull_def q_WhereBetween_def q_WhereNotBetween_def q_WhereLike_def q_WhereILike_def
  q_OrWhere_def q_OrWhereNot_def q_OrWhereIn_def q_OrWhereNotIn_def q_OrWhereNull_def
  q_OrWhereNotNull_def q_OrWhereBetween_def q_OrderBy_def q_Limit_def q_Offset_def q_Select_def
  q_GroupBy_def q_Having_def q_CountAs_def q_SumAs_def q_AvgAs_def q_MinAs_def q_MaxAs_def
  add_cond_def add_group_def

lemma addAggSpec_eq:
  "addAggSpec a p f q = (case alias_error a of
      Some e \<Rightarrow> setErr e q
    | None \<Rightarrow> q\<lparr>qAggSpecs := qAggSpecs q @ [\<lparr>aggAlias = a, aggOp = p, aggField = f\<rparr>]\<rparr>)"
  by (simp add: addAggSpec_def alias_error_def)

lemma addFieldAggSpec_eq:
  "addFieldAggSpec a p f q = (case agg_error (TrimPrefix p ''$'') f a of
      Some e \<Rightarrow> setErr e q
    | None \<Rightarrow> q\<lparr>qAggSpecs := qAggSpecs q @ [\<lparr>aggAlias = a, aggOp = p, aggField = f\<rparr>]\<rparr>)"
  by (simp add: addFieldAggSpec_def agg_error_def addAggSpec_eq)

lemma TrimPrefix_dollar [simp]:
  "TrimPrefix ''$sum'' ''$'' = ''sum''" "TrimPrefix ''$avg'' ''$'' = ''avg''"
  "TrimPrefix ''$min'' ''$'' = ''min''" "TrimPrefix ''$max'' ''$'' = ''max''"
  by (simp_all add: TrimPrefix_def)

lemma run_qop_error: "op_error p = Some e \<Longrightarrow> run_qop p q = setErr e q"
  by (cases p) (auto simp: query_op_defs where_error_def addAggSpec_eq addFieldAggSpec_eq
      split: sum.splits if_splits)

lemma run_qop_ok: "op_error p = None \<Longrightarrow> qErr (run_qop p q) = qErr q"
  by (cases p) (auto simp: query_op_defs where_error_def addAggSpec_eq addFieldAggSpec_eq Let_def
      split: sum.splits if_splits)

lemma qErr_step: "qErr (run_qop p q) = (case qErr q of Some e \<Rightarrow> Some e | None \<Rightarrow> op_error p)"
proof (cases "op_error p")
  case None
  then show ?thesis by (simp add: run_qop_ok split: option.split)
next
  case (Some e)
  then show ?thesis by (simp add: run_qop_error setErr_def split: option.split)
qed

fun first_error :: "qop list \<Rightarrow> orm_error option" where
  "first_error [] = None"
| "first_error (p # ps) = (case op_error p of Some e \<Rightarrow> Some e | None \<Rightarrow> first_error ps)"

lemma qErr_chain: "qErr (chain ops q) = (case qErr q of Some e \<Rightarrow> Some e | None \<Rightarrow> first_error ops)"
  unfolding chain_def
  by (induction ops arbitrary: q) (auto simp: qErr_step split: option.split)

subsection \<open>The invariant of a query\<close>

definition spec_ok :: "aggSpec \<Rightarrow> bool" where
  "spec_ok s \<longleftrightarrow> alias_error (aggAlias s) = None \<and> (aggField s = [] \<longrightarrow> aggOp s = ''$sum'')"

definition qinv :: "Query \<Rightarrow> bool" where
  "qinv q \<longleftrightarrow>
    (\<forall>c \<in> set (qConditions q). cond_typed c) \<and>
    (\<forall>g \<in> set (qOrGroups q). g \<noteq> [] \<and> (\<forall>c \<in> set g. cond_typed c)) \<and>
    (\<forall>c \<in> set (qHavingConds q). cond_typed c) \<and>
    (\<forall>s \<in> set (qAggSpecs q). spec_ok s) \<and>
    (\<forall>f \<in> set (qGroupFields q). \<not> blank f)"

lemma qinv_setErr [simp]: "qinv (setErr e q) = qinv q"
  by (simp add: qinv_def setErr_def)

lemma qinv_new [simp]: "qinv (new_query col e)"
  by (simp add: qinv_def new_query_def)

lemma where_errorE:
  assumes "where_error args = None"
  obtains cs where "parseWhere args = Inr cs" "\<forall>c \<in> set cs. cond_typed c"
  using assms parseWhere_typed [of args] by (auto simp: where_error_def split: sum.splits)

lemma blank_Nil [simp]: "blank []"
  by (simp add: blank_def TrimSpace_def)

lemma qinv_run_qop:
  assumes "qinv q"
  shows "qinv (run_qop p q)"
proof (cases "op_error p")
  case (Some e)
  then show ?thesis using assms by (simp add: run_qop_error)
next
  case None
  note q = assms [unfolded qinv_def]
  show ?thesis
  proof (cases p)
    case (Where args)
    then obtain cs where "parseWhere args = Inr cs" "\<forall>c \<in> set cs. cond_typed c"
      using None by (auto elim: where_errorE)
    then show ?thesis using Where q by (auto simp: q_Where_def qinv_def)
  next
    case (OrWhere args)
    then obtain cs where "parseWhere args = Inr cs" "\<forall>c \<in> set cs. cond_typed c"
      using None by (auto elim: where_errorE)
    then show ?thesis using OrWhere q by (auto simp: q_OrWhere_def qinv_def)
  next
    case (Having args)
    then obtain cs where "parseWhere args = Inr cs" "\<forall>c \<in> set cs. cond_typed c"
      using None by (auto elim: where_errorE)
    then show ?thesis using Having q by (auto simp: q_Having_def qinv_def)
  next
    case (GroupBy fs)
    then show ?thesis using None q
      by (auto simp: q_GroupBy_def qinv_def list_ex_iff split: if_splits)
  qed (use None q in \<open>auto simp: query_op_defs qinv_def addAggSpec_eq addFieldAggSpec_eq spec_ok_def
      agg_error_def Let_def split: if_splits\<close>)
qed

lemma qinv_chain: "qinv q \<Longrightarrow> qinv (chain ops q)"
  unfolding chain_def by (induction ops arbitrary: q) (auto simp: qinv_run_qop)

lemma chain_handles [simp]:
  "qCollection (chain ops q) = qCollection q" "qEngine (chain ops q) = qEngine q"
proof -
  have "qCollection (run_qop p q) = qCollection q \<and> qEngine (run_qop p q) = qEngine q" for p q
    by (cases p) (auto simp: query_op_defs addAggSpec_def addFieldAggSpec_def setErr_def Let_def
        split: sum.split)
  then show "qCollection (chain ops q) = qCollection q" "qEngine (chain ops q) = qEngine q"
    unfolding chain_def by (induction ops arbitrary: q) auto
qed

subsection \<open>The filter of a query\<close>

lemma or_clauses_total: "\<forall>g \<in> set gs. \<forall>c \<in> set g. cond_typed c \<Longrightarrow> \<exists>ds. or_clauses gs = Some ds"
  by (induction gs) (auto dest!: buildConditionFilter_total)

theorem buildFilter_total: "qinv q \<Longrightarrow> \<exists>d. buildFilter q = Some d"
  using buildConditionFilter_total [of "qConditions q"] or_clauses_total [of "qOrGroups q"]
  by (auto simp: buildFilter_def qinv_def Let_def)

definition conds_select :: "(doc \<Rightarrow> bool) \<Rightarrow> condition list \<Rightarrow> bool" where
  "conds_select mm cs \<longleftrightarrow> (\<forall>c \<in> set cs. selects mm c)"

text \<open>The documents a query describes: with no \<open>OrWhere\<close> all conditions, else one of the branches.\<close>

definition query_selects :: "(doc \<Rightarrow> bool) \<Rightarrow> Query \<Rightarrow> bool" where
  "query_selects mm q \<longleftrightarrow>
    (if qOrGroups q = [] then conds_select mm (qConditions q)
     else (qConditions q \<noteq> [] \<and> conds_select mm (qConditions q)) \<or>
       (\<exists>g \<in> set (qOrGroups q). conds_select mm g))"

definition query_plain :: "Query \<Rightarrow> bool" where
  "query_plain q \<longleftrightarrow> (\<forall>c \<in> set (qConditions q). cond_plain c) \<and>
    (\<forall>g \<in> set (qOrGroups q). \<forall>c \<in> set g. cond_plain c)"

lemma or_clauses_selects:
  assumes "filter_laws mm" "\<forall>g \<in> set gs. g \<noteq> [] \<and> (\<forall>c \<in> set g. cond_typed c \<and> cond_plain c)"
  shows "\<exists>ds. or_clauses gs = Some ds \<and> length ds = length gs \<and>
    ((\<exists>d \<in> set ds. mm d) \<longleftrightarrow> (\<exists>g \<in> set gs. conds_select mm g))"
  using assms(2)
proof (induction gs)
  case (Cons g gs)
  obtain d where "buildConditionFilter g = Some d" "mm d \<longleftrightarrow> conds_select mm g"
    using buildConditionFilter_selects [OF assms(1), of g] Cons.prems by (auto simp: conds_select_def)
  then show ?case using Cons by auto
qed simp

theorem buildFilter_selects:
  assumes "filter_laws mm" "qinv q" "query_plain q"
  shows "\<exists>d. buildFilter q = Some d \<and> (mm d \<longleftrightarrow> query_selects mm q)"
proof -
  obtain base where base: "buildConditionFilter (qConditions q) = Some base"
      "mm base \<longleftrightarrow> conds_select mm (qConditions q)"
    using buildConditionFilter_selects [OF assms(1), of "qConditions q"] assms(2,3)
    by (auto simp: qinv_def query_plain_def conds_select_def)
  obtain ds where ds: "or_clauses (qOrGroups q) = Some ds" "length ds = length (qOrGroups q)"
      "(\<exists>d \<in> set ds. mm d) \<longleftrightarrow> (\<exists>g \<in> set (qOrGroups q). conds_select mm g)"
    using or_clauses_selects [OF assms(1), of "qOrGroups q"] assms(2,3)
    by (auto simp: qinv_def query_plain_def)
  show ?thesis
  proof (cases "qOrGroups q = []")
    case True
    then show ?thesis using base by (simp add: buildFilter_def query_selects_def)
  next
    case False
    define cl where "cl = (if qConditions q \<noteq> [] then [base] else []) @ ds"
    have ne: "cl \<noteq> []" using False ds(2) by (auto simp: cl_def)
    have f: "buildFilter q = Some (case cl of [] \<Rightarrow> base | [d] \<Rightarrow> d | _ \<Rightarrow> [(''$or'', VA (map VM cl))])"
      using False base ds(1) by (auto simp: buildFilter_def cl_def split: list.split)
    have "mm (case cl of [] \<Rightarrow> base | [d] \<Rightarrow> d | _ \<Rightarrow> [(''$or'', VA (map VM cl))]) \<longleftrightarrow> (\<exists>d \<in> set cl. mm d)"
      using filter_or [OF assms(1) ne] ne by (auto split: list.split)
    moreover have "(\<exists>d \<in> set cl. mm d) \<longleftrightarrow> query_selects mm q"
      using False base(2) ds(3) by (auto simp: cl_def query_selects_def)
    ultimately show ?thesis using f by simp
  qed
qed

end
