(* ===== verification/Orm_Group.thy ===== *)
theory Orm_Group
  imports Orm_Query_Correct
begin

text \<open>
  The pipeline of a grouped aggregation (\<open>buildGroupPipeline\<close> of \<open>swifty_orm/query_group.go\<close>): the checks,
  the stages, and what the stages say about every group key and every accumulator.
\<close>

definition groupKeyName :: "string \<Rightarrow> string" where
  "groupKeyName f = ReplaceAll f (CHR ''.'') ''_''"

fun check_keys :: "string list \<Rightarrow> string list \<Rightarrow> orm_error + string list" where
  "check_keys [] keyNames = Inr keyNames"
| "check_keys (f # fs) keyNames =
    (let key = groupKeyName f in
     if key \<in> set keyNames then Inl (DuplicateGroupKey key)
     else check_keys fs (keyNames @ [key]))"

fun check_specs :: "string list \<Rightarrow> aggSpec list \<Rightarrow> string list \<Rightarrow> orm_error + string list" where
  "check_specs keyNames [] resultCols = Inr resultCols"
| "check_specs keyNames (s # ss) resultCols =
    (if aggAlias s \<in> set keyNames then Inl (AliasIsGroupKey (aggAlias s))
     else if aggAlias s \<in> set resultCols then Inl (DuplicateAlias (aggAlias s))
     else check_specs keyNames ss (resultCols @ [aggAlias s]))"

fun check_having :: "string list \<Rightarrow> condition list \<Rightarrow> orm_error option" where
  "check_having cols [] = None"
| "check_having cols (c # cs) =
    (if cfield c \<notin> set cols then Some (HavingUnknown (cfield c)) else check_having cols cs)"

fun check_sort :: "string list \<Rightarrow> (string \<times> int) list \<Rightarrow> orm_error option" where
  "check_sort cols [] = None"
| "check_sort cols (e # es) =
    (if fst e \<notin> set cols then Some (OrderByUnknown (fst e)) else check_sort cols es)"

definition check_group :: "Query \<Rightarrow> orm_error option" where
  "check_group q =
    (if qGroupFields q = [] then Some GroupByRequired
     else if qFields q \<noteq> [] then Some SelectWithGroupBy
     else case check_keys (qGroupFields q) [] of
         Inl e \<Rightarrow> Some e
       | Inr keyNames \<Rightarrow> (case check_specs keyNames (qAggSpecs q) keyNames of
             Inl e \<Rightarrow> Some e
           | Inr resultCols \<Rightarrow> (case check_having resultCols (qHavingConds q) of
                 Some e \<Rightarrow> Some e
               | None \<Rightarrow> check_sort resultCols (qSort q))))"

text \<open>The stages.\<close>

fun group_id :: "string list \<Rightarrow> doc \<Rightarrow> doc" where
  "group_id [] m = m"
| "group_id (f # fs) m = group_id fs (AList.update (groupKeyName f) (VStr (''$'' @ f)) m)"

definition accumulator :: "aggSpec \<Rightarrow> val" where
  "accumulator s =
    (if aggField s = [] then VM [(''$sum'', VInt 1)] else VM [(aggOp s, VStr (''$'' @ aggField s))])"

fun add_accumulators :: "aggSpec list \<Rightarrow> doc \<Rightarrow> doc" where
  "add_accumulators [] m = m"
| "add_accumulators (s # ss) m = add_accumulators ss (AList.update (aggAlias s) (accumulator s) m)"

definition group_doc :: "Query \<Rightarrow> doc" where
  "group_doc q =
    (let i = (case qGroupFields q of
         [f] \<Rightarrow> VStr (''$'' @ f)
       | fs \<Rightarrow> VM (group_id fs []))
     in add_accumulators (qAggSpecs q) (AList.update ''_id'' i []))"

fun project_keys :: "string list \<Rightarrow> doc \<Rightarrow> doc" where
  "project_keys [] m = m"
| "project_keys (f # fs) m =
    (let key = groupKeyName f in project_keys fs (AList.update key (VStr (''$_id.'' @ key)) m))"

fun project_aliases :: "aggSpec list \<Rightarrow> doc \<Rightarrow> doc" where
  "project_aliases [] m = m"
| "project_aliases (s # ss) m = project_aliases ss (AList.update (aggAlias s) (VInt 1) m)"

definition project_doc :: "Query \<Rightarrow> doc" where
  "project_doc q =
    (let p = [(''_id'', VInt 0)];
         p = (case qGroupFields q of
           [f] \<Rightarrow> AList.update (groupKeyName f) (VStr ''$_id'') p
         | fs \<Rightarrow> project_keys fs p)
     in project_aliases (qAggSpecs q) p)"

definition sort_doc :: "(string \<times> int) list \<Rightarrow> val" where
  "sort_doc es = VD (map (\<lambda>(k, d). (k, VInt d)) es)"

definition buildGroupPipeline :: "Query \<Rightarrow> (orm_error + doc list) option" where
  "buildGroupPipeline q = (case check_group q of
      Some e \<Rightarrow> Some (Inl e)
    | None \<Rightarrow> do {
        match \<leftarrow> buildFilter q;
        having \<leftarrow> buildConditionFilter (qHavingConds q);
        Some (Inr (
          (if match \<noteq> [] then [[(''$match'', VM match)]] else []) @
          [[(''$group'', VM (group_doc q))]] @
          [[(''$project'', VM (project_doc q))]] @
          (if having \<noteq> [] then [[(''$match'', VM having)]] else []) @
          (if qSort q \<noteq> [] then [[(''$sort'', sort_doc (qSort q))]] else []) @
          (if qSkip q > 0 then [[(''$skip'', VInt (qSkip q))]] else []) @
          (if qLimit q > 0 then [[(''$limit'', VInt (qLimit q))]] else []))) })"

subsection \<open>The checks\<close>

definition group_cols :: "Query \<Rightarrow> string list" where
  "group_cols q = map groupKeyName (qGroupFields q) @ map aggAlias (qAggSpecs q)"

lemma check_keys_Inr:
  "check_keys fs ks = Inr cols \<longleftrightarrow>
    cols = ks @ map groupKeyName fs \<and> distinct (map groupKeyName fs) \<and> set (map groupKeyName fs) \<inter> set ks = {}"
  by (induction fs arbitrary: ks) (auto simp: Let_def)

lemma check_specs_Inr:
  "set ks \<subseteq> set rs \<Longrightarrow> check_specs ks ss rs = Inr cols \<longleftrightarrow>
    cols = rs @ map aggAlias ss \<and> distinct (map aggAlias ss) \<and> set (map aggAlias ss) \<inter> set rs = {}"
proof (induction ss arbitrary: rs)
  case (Cons s ss)
  have "check_specs ks ss (rs @ [aggAlias s]) = Inr cols \<longleftrightarrow>
      cols = (rs @ [aggAlias s]) @ map aggAlias ss \<and> distinct (map aggAlias ss) \<and>
      set (map aggAlias ss) \<inter> set (rs @ [aggAlias s]) = {}"
    by (rule Cons.IH) (use Cons.prems in auto)
  moreover have "aggAlias s \<in> set ks \<Longrightarrow> aggAlias s \<in> set rs" using Cons.prems by auto
  ultimately show ?case by (simp del: set_map) auto
qed auto

lemma check_having_None: "check_having cols cs = None \<longleftrightarrow> (\<forall>c \<in> set cs. cfield c \<in> set cols)"
  by (induction cs) auto

lemma check_sort_None: "check_sort cols es = None \<longleftrightarrow> (\<forall>e \<in> set es. fst e \<in> set cols)"
  by (induction es) auto

theorem check_group_None:
  "check_group q = None \<longleftrightarrow>
    qGroupFields q \<noteq> [] \<and> qFields q = [] \<and> distinct (group_cols q) \<and>
    (\<forall>c \<in> set (qHavingConds q). cfield c \<in> set (group_cols q)) \<and>
    (\<forall>e \<in> set (qSort q). fst e \<in> set (group_cols q))"
proof (cases "check_keys (qGroupFields q) []")
  case (Inl e)
  then have "\<not> distinct (map groupKeyName (qGroupFields q))"
    using check_keys_Inr [of "qGroupFields q" "[]"] by auto
  then show ?thesis using Inl by (simp add: check_group_def group_cols_def)
next
  case (Inr ks)
  then have ks: "ks = map groupKeyName (qGroupFields q)" "distinct ks"
    by (auto simp: check_keys_Inr)
  show ?thesis
  proof (cases "check_specs ks (qAggSpecs q) ks")
    case (Inl e)
    then have "\<not> distinct (group_cols q)"
      using check_specs_Inr [of ks ks "qAggSpecs q"] ks by (auto simp: group_cols_def)
    then show ?thesis using Inl Inr by (simp add: check_group_def)
  next
    case I: (Inr cols)
    then have "cols = group_cols q" "distinct cols"
      using check_specs_Inr [of ks ks "qAggSpecs q" cols] ks by (auto simp: group_cols_def)
    then have "check_group q = None \<longleftrightarrow> qGroupFields q \<noteq> [] \<and> qFields q = [] \<and>
        check_having (group_cols q) (qHavingConds q) = None \<and> check_sort (group_cols q) (qSort q) = None"
      using I Inr by (simp add: check_group_def split: option.split)
    then show ?thesis using \<open>cols = group_cols q\<close> \<open>distinct cols\<close>
      by (simp add: check_having_None check_sort_None)
  qed
qed

subsection \<open>The flow of columns through the stages\<close>

lemma update_absent: "k \<notin> fst ` set al \<Longrightarrow> AList.update k v al = al @ [(k, v)]"
  by (induction al) auto

lemma group_id_distinct:
  "distinct (map groupKeyName fs) \<Longrightarrow> set (map groupKeyName fs) \<inter> fst ` set m = {} \<Longrightarrow>
    group_id fs m = m @ map (\<lambda>f. (groupKeyName f, VStr (''$'' @ f))) fs"
proof (induction fs arbitrary: m)
  case (Cons f fs)
  then show ?case by (auto simp: update_absent)
qed simp

lemma add_accumulators_distinct:
  "distinct (map aggAlias ss) \<Longrightarrow> set (map aggAlias ss) \<inter> fst ` set m = {} \<Longrightarrow>
    add_accumulators ss m = m @ map (\<lambda>s. (aggAlias s, accumulator s)) ss"
proof (induction ss arbitrary: m)
  case (Cons s ss)
  then show ?case by (auto simp: update_absent)
qed simp

lemma map_of_project_keys:
  "map_of (project_keys fs m) k =
    (if k \<in> groupKeyName ` set fs then Some (VStr (''$_id.'' @ k)) else map_of m k)"
  by (induction fs arbitrary: m) (auto simp: Let_def)

lemma map_of_project_aliases:
  "map_of (project_aliases ss m) k = (if k \<in> aggAlias ` set ss then Some (VInt 1) else map_of m k)"
  by (induction ss arbitrary: m) auto

text \<open>
  Where a result column comes from: the path of the \<open>$project\<close> stage leads into the \<open>_id\<close> that the
  \<open>$group\<close> stage builds, or a column is passed on.
\<close>

definition column_source :: "doc \<Rightarrow> doc \<Rightarrow> string \<Rightarrow> val option" where
  "column_source g p k = (case map_of p k of
      Some (VStr path) \<Rightarrow>
        if path = ''$_id'' then map_of g ''_id''
        else if HasPrefix path ''$_id.'' then
          (case map_of g ''_id'' of Some (VM m) \<Rightarrow> map_of m (TrimPrefix path ''$_id.'') | _ \<Rightarrow> None)
        else None
    | Some (VInt n) \<Rightarrow> if n = 1 then map_of g k else None
    | _ \<Rightarrow> None)"

lemma alias_not_id: "spec_ok s \<Longrightarrow> aggAlias s \<noteq> ''_id''"
  by (auto simp: spec_ok_def alias_error_def split: if_splits)

lemma group_doc_eq:
  assumes "qinv q" "check_group q = None"
  shows "group_doc q =
    (''_id'', case qGroupFields q of [f] \<Rightarrow> VStr (''$'' @ f)
       | fs \<Rightarrow> VM (map (\<lambda>f. (groupKeyName f, VStr (''$'' @ f))) fs)) #
    map (\<lambda>s. (aggAlias s, accumulator s)) (qAggSpecs q)"
proof -
  have d: "distinct (map groupKeyName (qGroupFields q))" "distinct (map aggAlias (qAggSpecs q))"
    using assms(2) unfolding check_group_None group_cols_def by auto
  have "\<forall>s \<in> set (qAggSpecs q). aggAlias s \<noteq> ''_id''"
  proof
    fix s
    assume "s \<in> set (qAggSpecs q)"
    then have "spec_ok s" using assms(1) by (simp add: qinv_def)
    then show "aggAlias s \<noteq> ''_id''" by (rule alias_not_id)
  qed
  then have "''_id'' \<notin> aggAlias ` set (qAggSpecs q)" by (metis imageE)
  then have a: "add_accumulators (qAggSpecs q) [(''_id'', i)] =
      (''_id'', i) # map (\<lambda>s. (aggAlias s, accumulator s)) (qAggSpecs q)" for i
    using add_accumulators_distinct [OF d(2), of "[(''_id'', i)]"] by simp
  have "group_id (qGroupFields q) [] = map (\<lambda>f. (groupKeyName f, VStr (''$'' @ f))) (qGroupFields q)"
    using group_id_distinct [OF d(1), of "[]"] by simp
  then show ?thesis
    by (cases "qGroupFields q" rule: remdups_adj.cases) (simp_all add: group_doc_def Let_def a del: group_id.simps)
qed

lemma group_key_source:
  assumes "qinv q" "check_group q = None" "f \<in> set (qGroupFields q)"
  shows "column_source (group_doc q) (project_doc q) (groupKeyName f) = Some (VStr (''$'' @ f))"
proof -
  have d: "distinct (group_cols q)" using assms(2) check_group_None by blast
  then have na: "groupKeyName f \<notin> aggAlias ` set (qAggSpecs q)"
    using assms(3) by (auto simp: group_cols_def)
  have dk: "distinct (map groupKeyName (qGroupFields q))" using d by (simp add: group_cols_def)
  show ?thesis
  proof (cases "\<exists>f'. qGroupFields q = [f']")
    case True
    then have "qGroupFields q = [f]" using assms(3) by auto
    then show ?thesis
      using na group_doc_eq [OF assms(1,2)]
      by (simp add: column_source_def project_doc_def map_of_project_aliases)
  next
    case False
    then have g: "map_of (group_doc q) ''_id'' =
        Some (VM (map (\<lambda>f. (groupKeyName f, VStr (''$'' @ f))) (qGroupFields q)))"
      using group_doc_eq [OF assms(1,2)] assms(3) by (auto split: list.splits)
    have p: "map_of (project_doc q) (groupKeyName f) = Some (VStr (''$_id.'' @ groupKeyName f))"
      using False na assms(3)
      by (cases "qGroupFields q" rule: remdups_adj.cases)
        (auto simp: project_doc_def Let_def map_of_project_aliases map_of_project_keys)
    have m: "map_of (map (\<lambda>f. (groupKeyName f, VStr (''$'' @ f))) (qGroupFields q)) (groupKeyName f) =
        Some (VStr (''$'' @ f))"
      using dk assms(3) by (intro map_of_is_SomeI) (auto simp: comp_def)
    have t: "TrimPrefix (''$_id.'' @ groupKeyName f) ''$_id.'' = groupKeyName f"
      by (rule TrimPrefix_append)
    have "HasPrefix (''$_id.'' @ groupKeyName f) ''$_id.''" by (rule HasPrefix_append)
    then show ?thesis using g p m t by (simp add: column_source_def)
  qed
qed

lemma alias_source:
  assumes "qinv q" "check_group q = None" "s \<in> set (qAggSpecs q)"
  shows "column_source (group_doc q) (project_doc q) (aggAlias s) = Some (accumulator s)"
proof -
  have d: "distinct (map aggAlias (qAggSpecs q))"
    using assms(2) unfolding check_group_None group_cols_def by auto
  have "spec_ok s" using assms(1,3) by (simp add: qinv_def)
  then have "map_of (group_doc q) (aggAlias s) = Some (accumulator s)"
    using group_doc_eq [OF assms(1,2)] alias_not_id d assms(3)
    by (auto intro!: map_of_is_SomeI simp: comp_def)
  then show ?thesis
    using assms(3) by (simp add: column_source_def project_doc_def Let_def map_of_project_aliases)
qed

lemma project_columns: "dom (map_of (project_doc q)) = insert ''_id'' (set (group_cols q))"
proof -
  have "map_of (project_doc q) k \<noteq> None \<longleftrightarrow> k = ''_id'' \<or> k \<in> set (group_cols q)" for k
    by (cases "qGroupFields q" rule: remdups_adj.cases)
      (auto simp: project_doc_def Let_def map_of_project_aliases map_of_project_keys group_cols_def)
  then show ?thesis by (auto simp: domIff)
qed

end
