(* ===== verification/Orm_Exec.thy ===== *)
theory Orm_Exec
  imports Orm_Group
begin

text \<open>
  Execution (\<open>swifty_orm/query_exec.go\<close>, \<open>query_aggregate.go\<close>, \<open>query_stream.go\<close>, \<open>engine.go\<close>): what is
  checked before the driver is called, which call is made with which context and documents, and what
  becomes of its answer. The driver is a parameter, a record of functions over its own state \<open>'s\<close>; a
  cursor is a number. Decoding into the caller's variable is part of the driver's answer. A method
  returns \<open>None\<close> where the code panics, or does not return.
\<close>

datatype ctx = Ctx (SessionFromContext: "nat option")

record find_opts =
  oSort :: "(string \<times> int) list option"
  oLimit :: "int option"
  oSkip :: "int option"
  oProjection :: "doc option"

record update_result =
  rMatched :: int
  rModified :: int
  rUpserted :: int
  rUpsertedID :: val

record 's driver =
  d_InsertOne :: "ctx \<Rightarrow> string \<Rightarrow> val \<Rightarrow> 's \<Rightarrow> (string + val) \<times> 's"
  d_InsertMany :: "ctx \<Rightarrow> string \<Rightarrow> val list \<Rightarrow> 's \<Rightarrow> (string option \<times> val list option) \<times> 's"
  d_FindOne :: "ctx \<Rightarrow> string \<Rightarrow> doc \<Rightarrow> find_opts \<Rightarrow> 's \<Rightarrow> (string + val) \<times> 's"
  d_Find :: "ctx \<Rightarrow> string \<Rightarrow> doc \<Rightarrow> find_opts \<Rightarrow> 's \<Rightarrow> (string + nat) \<times> 's"
  d_Aggregate :: "ctx \<Rightarrow> string \<Rightarrow> doc list \<Rightarrow> 's \<Rightarrow> (string + nat) \<times> 's"
  d_UpdateMany :: "ctx \<Rightarrow> string \<Rightarrow> doc \<Rightarrow> val \<Rightarrow> bool \<Rightarrow> 's \<Rightarrow> (string + update_result) \<times> 's"
  d_DeleteMany :: "ctx \<Rightarrow> string \<Rightarrow> doc \<Rightarrow> 's \<Rightarrow> (string + int) \<times> 's"
  d_CountDocuments :: "ctx \<Rightarrow> string \<Rightarrow> doc \<Rightarrow> 's \<Rightarrow> (string + int) \<times> 's"
  d_Distinct :: "ctx \<Rightarrow> string \<Rightarrow> string \<Rightarrow> doc \<Rightarrow> 's \<Rightarrow> (string + val list) \<times> 's"
  d_CreateMany :: "ctx \<Rightarrow> string \<Rightarrow> val list \<Rightarrow> 's \<Rightarrow> (string + string list) \<times> 's"
  d_Drop :: "ctx \<Rightarrow> string \<Rightarrow> 's \<Rightarrow> (string + unit) \<times> 's"
  d_FindOneAndUpdate :: "ctx \<Rightarrow> string \<Rightarrow> doc \<Rightarrow> val \<Rightarrow> 's \<Rightarrow> (string + int) \<times> 's"
  c_All :: "ctx \<Rightarrow> nat \<Rightarrow> 's \<Rightarrow> (string + val list) \<times> 's"
  c_Next :: "ctx \<Rightarrow> nat \<Rightarrow> 's \<Rightarrow> bool \<times> 's"
  c_Err :: "nat \<Rightarrow> 's \<Rightarrow> string option"
  c_Current :: "nat \<Rightarrow> 's \<Rightarrow> val"
  c_Close :: "ctx \<Rightarrow> nat \<Rightarrow> 's \<Rightarrow> 's"
  d_StartSession :: "nat \<Rightarrow> 's \<Rightarrow> (string + nat) \<times> 's"
  d_WithTransaction :: "ctx \<Rightarrow> nat \<Rightarrow> (ctx \<Rightarrow> 's \<Rightarrow> orm_error option \<times> 's) \<Rightarrow> 's \<Rightarrow> orm_error option \<times> 's"
  d_EndSession :: "ctx \<Rightarrow> nat \<Rightarrow> 's \<Rightarrow> 's"

type_synonym ('s, 'a) exec = "'s \<Rightarrow> ((orm_error + 'a) \<times> 's) option"

definition reply :: "(string + 'a) \<times> 's \<Rightarrow> ((orm_error + 'a) \<times> 's) option" where
  "reply r = Some (case fst r of Inl e \<Rightarrow> Inl (DriverError e) | Inr x \<Rightarrow> Inr x, snd r)"

subsection \<open>Contexts and checks\<close>

definition sessionContext :: "Engine option \<Rightarrow> ctx \<Rightarrow> ctx" where
  "sessionContext e c = (case e of
      None \<Rightarrow> c
    | Some en \<Rightarrow> (case eSession en of
        None \<Rightarrow> c
      | Some s \<Rightarrow> if SessionFromContext c \<noteq> None then c else Ctx (Some s)))"

definition execCtx :: "Query option \<Rightarrow> ctx \<Rightarrow> ctx" where
  "execCtx q c = (case q of None \<Rightarrow> c | Some q \<Rightarrow> if qEngine q = None then c else sessionContext (qEngine q) c)"

definition preflightBase :: "Query option \<Rightarrow> orm_error option" where
  "preflightBase q = (case q of
      None \<Rightarrow> Some CollectionRequired
    | Some q \<Rightarrow> if qErr q \<noteq> None then qErr q
               else if qCollection q = None then Some CollectionRequired else None)"

definition preflight :: "Query option \<Rightarrow> orm_error option" where
  "preflight q = (case preflightBase q of
      Some e \<Rightarrow> Some e
    | None \<Rightarrow> (case q of
        None \<Rightarrow> None
      | Some q \<Rightarrow> if qGroupFields q \<noteq> [] \<or> qHavingConds q \<noteq> [] \<or> qAggSpecs q \<noteq> []
                 then Some OnlyAggregate else None))"

text \<open>
  The first lines of every method: return the error of the check, else go on with the query and its
  collection, which is then there.
\<close>

definition guarded ::
    "(Query option \<Rightarrow> orm_error option) \<Rightarrow> Query option \<Rightarrow> (Query \<Rightarrow> string \<Rightarrow> ('s, 'a) exec) \<Rightarrow> ('s, 'a) exec" where
  "guarded check q f s = (case check q of
      Some e \<Rightarrow> Some (Inl e, s)
    | None \<Rightarrow> do { q \<leftarrow> q; col \<leftarrow> qCollection q; f q col s })"

subsection \<open>Insert\<close>

definition expandInsertDocs :: "val list \<Rightarrow> val list" where
  "expandInsertDocs documents = (case documents of
      [VD d] \<Rightarrow> documents
    | [v] \<Rightarrow> (case slice_elems v of
        None \<Rightarrow> documents
      | Some (is_bytes, vs) \<Rightarrow> if is_bytes then documents else vs)
    | _ \<Rightarrow> documents)"

definition q_Insert :: "'s driver \<Rightarrow> Query option \<Rightarrow> ctx \<Rightarrow> val list \<Rightarrow>
    's \<Rightarrow> (((orm_error option) \<times> val list \<times> nat) \<times> 's) option" where
  "q_Insert D q c documents s = (case preflight q of
      Some e \<Rightarrow> Some ((Some e, [], 0), s)
    | None \<Rightarrow>
        (let documents = expandInsertDocs documents in
         if documents = [] then Some ((Some NoDocuments, [], 0), s)
         else do {
           col \<leftarrow> Option.bind q qCollection;
           let c = execCtx q c in
           (case documents of
              [d] \<Rightarrow> (case d_InsertOne D c col d s of
                  (Inl e, s) \<Rightarrow> Some ((Some (DriverError e), [], 0), s)
                | (Inr i, s) \<Rightarrow> Some ((None, [i], 1), s))
            | _ \<Rightarrow> (case d_InsertMany D c col documents s of
                  ((Some e, Some ids), s) \<Rightarrow> Some ((Some (DriverError e), ids, length ids), s)
                | ((Some e, None), s) \<Rightarrow> Some ((Some (DriverError e), [], 0), s)
                | ((None, Some ids), s) \<Rightarrow> Some ((None, ids, length ids), s)
                | ((None, None), s) \<Rightarrow> None)) }))"

subsection \<open>Reading\<close>

definition findOptions :: "Query \<Rightarrow> find_opts" where
  "findOptions q = \<lparr>
     oSort = (if qSort q \<noteq> [] then Some (qSort q) else None),
     oLimit = (if qLimit q > 0 then Some (qLimit q) else None),
     oSkip = (if qSkip q > 0 then Some (qSkip q) else None),
     oProjection = buildProjection q\<rparr>"

definition q_First :: "'s driver \<Rightarrow> Query option \<Rightarrow> ctx \<Rightarrow> ('s, val) exec" where
  "q_First D q c = guarded preflight q (\<lambda>q col s. do {
     let opts = \<lparr>oSort = (if qSort q \<noteq> [] then Some (qSort q) else None), oLimit = None,
       oSkip = (if qSkip q > 0 then Some (qSkip q) else None), oProjection = buildProjection q\<rparr> in
     do { f \<leftarrow> buildFilter q; reply (d_FindOne D (execCtx (Some q) c) col f opts s) } })"

definition drain :: "'s driver \<Rightarrow> ctx \<Rightarrow> (string + nat) \<times> 's \<Rightarrow> ((orm_error + val list) \<times> 's) option" where
  "drain D c r = (case r of
      (Inl e, s) \<Rightarrow> Some (Inl (DriverError e), s)
    | (Inr cur, s) \<Rightarrow>
        (let (rows, s) = c_All D c cur s; s = c_Close D c cur s in reply (rows, s)))"

definition q_Find :: "'s driver \<Rightarrow> Query option \<Rightarrow> ctx \<Rightarrow> ('s, val list) exec" where
  "q_Find D q c = guarded preflight q (\<lambda>q col s. do {
     f \<leftarrow> buildFilter q;
     let c = execCtx (Some q) c in drain D c (d_Find D c col f (findOptions q) s) })"

definition q_Count :: "'s driver \<Rightarrow> Query option \<Rightarrow> ctx \<Rightarrow> ('s, int) exec" where
  "q_Count D q c = guarded preflight q (\<lambda>q col s. do {
     f \<leftarrow> buildFilter q; reply (d_CountDocuments D (execCtx (Some q) c) col f s) })"

definition q_Exists :: "'s driver \<Rightarrow> Query option \<Rightarrow> ctx \<Rightarrow> ('s, bool) exec" where
  "q_Exists D q c s = do {
     (r, s) \<leftarrow> q_Count D q c s;
     Some (case r of Inl e \<Rightarrow> Inl e | Inr n \<Rightarrow> Inr (n > 0), s) }"

definition q_Distinct :: "'s driver \<Rightarrow> Query option \<Rightarrow> ctx \<Rightarrow> string \<Rightarrow> ('s, val list) exec" where
  "q_Distinct D q c field = guarded preflight q (\<lambda>q col s. do {
     f \<leftarrow> buildFilter q; reply (d_Distinct D (execCtx (Some q) c) col field f s) })"

definition q_CountDistinct :: "'s driver \<Rightarrow> Query option \<Rightarrow> ctx \<Rightarrow> string \<Rightarrow> ('s, nat) exec" where
  "q_CountDistinct D q c field s = do {
     (r, s) \<leftarrow> q_Distinct D q c field s;
     Some (case r of Inl e \<Rightarrow> Inl e | Inr vs \<Rightarrow> Inr (length vs), s) }"

subsection \<open>Updates\<close>

definition hasOperatorKey :: "doc \<Rightarrow> bool" where
  "hasOperatorKey d \<longleftrightarrow> list_ex (\<lambda>kv. HasPrefix (fst kv) ''$'') d"

fun is_struct :: "val \<Rightarrow> bool" where
  "is_struct (VPtr (Some v)) = is_struct v"
| "is_struct (VStruct _) = True"
| "is_struct (VRegex _ _) = True"
| "is_struct _ = False"

definition normalizeUpdate :: "val \<Rightarrow> val" where
  "normalizeUpdate update = (case update of
      VM d \<Rightarrow> if hasOperatorKey d then update else VM [(''$set'', VM d)]
    | VMap d \<Rightarrow> if hasOperatorKey d then update else VM [(''$set'', VMap d)]
    | VD d \<Rightarrow> if list_ex (\<lambda>e. HasPrefix (fst e) ''$'') d then update else VM [(''$set'', VD d)]
    | _ \<Rightarrow> if is_struct update then VM [(''$set'', update)] else update)"

definition q_Update :: "'s driver \<Rightarrow> Query option \<Rightarrow> ctx \<Rightarrow> val \<Rightarrow> ('s, int) exec" where
  "q_Update D q c update = guarded preflight q (\<lambda>q col s. do {
     f \<leftarrow> buildFilter q;
     (r, s) \<leftarrow> reply (d_UpdateMany D (execCtx (Some q) c) col f (normalizeUpdate update) False s);
     Some (case r of Inl e \<Rightarrow> Inl e | Inr u \<Rightarrow> Inr (rMatched u), s) })"

definition q_Upsert :: "'s driver \<Rightarrow> Query option \<Rightarrow> ctx \<Rightarrow> val \<Rightarrow> ('s, update_result) exec" where
  "q_Upsert D q c update = guarded preflight q (\<lambda>q col s. do {
     f \<leftarrow> buildFilter q;
     reply (d_UpdateMany D (execCtx (Some q) c) col f (normalizeUpdate update) True s) })"

definition amount_of :: "int list \<Rightarrow> int" where
  "amount_of amount = (case amount of [] \<Rightarrow> 1 | n # _ \<Rightarrow> n)"

definition q_Increment :: "'s driver \<Rightarrow> Query option \<Rightarrow> ctx \<Rightarrow> string \<Rightarrow> int list \<Rightarrow> ('s, int) exec" where
  "q_Increment D q c field amount = q_Update D q c (VM [(''$inc'', VM [(field, VInt (amount_of amount))])])"

definition q_Decrement :: "'s driver \<Rightarrow> Query option \<Rightarrow> ctx \<Rightarrow> string \<Rightarrow> int list \<Rightarrow> ('s, int) exec" where
  "q_Decrement D q c field amount =
    q_Update D q c (VM [(''$inc'', VM [(field, VInt (wrap64 (- amount_of amount)))])])"

definition q_Delete :: "'s driver \<Rightarrow> Query option \<Rightarrow> ctx \<Rightarrow> ('s, int) exec" where
  "q_Delete D q c = guarded preflight q (\<lambda>q col s. do {
     f \<leftarrow> buildFilter q; reply (d_DeleteMany D (execCtx (Some q) c) col f s) })"

definition q_EnsureIndexes :: "'s driver \<Rightarrow> Query option \<Rightarrow> ctx \<Rightarrow> val list \<Rightarrow> ('s, string list) exec" where
  "q_EnsureIndexes D q c indexes = guarded preflight q (\<lambda>q col s.
     if indexes = [] then Some (Inr [], s) else reply (d_CreateMany D (execCtx (Some q) c) col indexes s))"

definition q_DropCollection :: "'s driver \<Rightarrow> Query option \<Rightarrow> ctx \<Rightarrow> ('s, unit) exec" where
  "q_DropCollection D q c = guarded preflight q (\<lambda>q col s. reply (d_Drop D (execCtx (Some q) c) col s))"

end
