(* ===== verification/Orm_Engine.thy ===== *)
theory Orm_Engine
  imports Orm_Exec
begin

text \<open>
  The rest of the package: grouped and plain aggregations, cursors and the loops over them
  (\<open>Each\<close>, \<open>Pluck\<close>), the engine with its sequences and transactions, collection names
  (\<open>naming.go\<close>) and log levels (\<open>log.go\<close>).
\<close>

subsection \<open>Aggregations\<close>

definition q_Aggregate :: "'s driver \<Rightarrow> Query option \<Rightarrow> ctx \<Rightarrow> ('s, val list) exec" where
  "q_Aggregate D q c = guarded preflightBase q (\<lambda>q col s. do {
     r \<leftarrow> buildGroupPipeline q;
     (case r of
        Inl e \<Rightarrow> Some (Inl e, s)
      | Inr pipeline \<Rightarrow> (let c = execCtx (Some q) c in drain D c (d_Aggregate D c col pipeline s))) })"

text \<open>The rows are decoded to their \<open>result\<close> field; with no row the result is zero.\<close>

definition q_aggregate :: "'s driver \<Rightarrow> Query option \<Rightarrow> ctx \<Rightarrow> doc \<Rightarrow> ('s, val) exec" where
  "q_aggregate D q c acc = guarded preflight q (\<lambda>q col s. do {
     f \<leftarrow> buildFilter q;
     let c = execCtx (Some q) c;
         pipeline = [[(''$match'', VM f)], [(''$group'', VM [(''_id'', VNil), (''result'', VM acc)])]]
     in do {
       (r, s) \<leftarrow> drain D c (d_Aggregate D c col pipeline s);
       Some (case r of
           Inl e \<Rightarrow> Inl e
         | Inr [] \<Rightarrow> Inr (VInt 0)
         | Inr (row # _) \<Rightarrow> Inr row, s) } })"

definition q_Sum :: "'s driver \<Rightarrow> Query option \<Rightarrow> ctx \<Rightarrow> string \<Rightarrow> ('s, val) exec" where
  "q_Sum D q c field = q_aggregate D q c [(''$sum'', VStr (''$'' @ field))]"

definition q_Avg :: "'s driver \<Rightarrow> Query option \<Rightarrow> ctx \<Rightarrow> string \<Rightarrow> ('s, val) exec" where
  "q_Avg D q c field = q_aggregate D q c [(''$avg'', VStr (''$'' @ field))]"

definition q_Min :: "'s driver \<Rightarrow> Query option \<Rightarrow> ctx \<Rightarrow> string \<Rightarrow> ('s, val) exec" where
  "q_Min D q c field = q_aggregate D q c [(''$min'', VStr (''$'' @ field))]"

definition q_Max :: "'s driver \<Rightarrow> Query option \<Rightarrow> ctx \<Rightarrow> string \<Rightarrow> ('s, val) exec" where
  "q_Max D q c field = q_aggregate D q c [(''$max'', VStr (''$'' @ field))]"

subsection \<open>Cursors\<close>

record Cursor =
  curHandle :: nat
  curEngine :: "Engine option"

definition cur_bind :: "Cursor \<Rightarrow> ctx \<Rightarrow> ctx" where
  "cur_bind cu c = (if curEngine cu = None then c else sessionContext (curEngine cu) c)"

definition cur_Next :: "'s driver \<Rightarrow> Cursor \<Rightarrow> ctx \<Rightarrow> 's \<Rightarrow> bool \<times> 's" where
  "cur_Next D cu c = c_Next D (cur_bind cu c) (curHandle cu)"

definition cur_Close :: "'s driver \<Rightarrow> Cursor \<Rightarrow> ctx \<Rightarrow> 's \<Rightarrow> 's" where
  "cur_Close D cu c = c_Close D (cur_bind cu c) (curHandle cu)"

definition q_Cursor :: "'s driver \<Rightarrow> Query option \<Rightarrow> ctx \<Rightarrow> ('s, Cursor) exec" where
  "q_Cursor D q c = guarded preflight q (\<lambda>q col s. do {
     f \<leftarrow> buildFilter q;
     (r, s) \<leftarrow> reply (d_Find D (execCtx (Some q) c) col f (findOptions q) s);
     Some (case r of Inl e \<Rightarrow> Inl e | Inr cur \<Rightarrow> Inr \<lparr>curHandle = cur, curEngine = qEngine q\<rparr>, s) })"

partial_function (option) each_loop ::
    "'s driver \<Rightarrow> Cursor \<Rightarrow> ctx \<Rightarrow> (Cursor \<Rightarrow> 's \<Rightarrow> orm_error option \<times> 's) \<Rightarrow> 's \<Rightarrow> (orm_error option \<times> 's) option" where
  [code]: "each_loop D cu c fn s =
    (let (more, s) = cur_Next D cu c s in
     if more then
       (let (err, s) = fn cu s in
        if err \<noteq> None then Some (err, s) else each_loop D cu c fn s)
     else Some (map_option DriverError (c_Err D (curHandle cu) s), s))"

definition q_Each ::
    "'s driver \<Rightarrow> Query option \<Rightarrow> ctx \<Rightarrow> (Cursor \<Rightarrow> 's \<Rightarrow> orm_error option \<times> 's) \<Rightarrow> 's \<Rightarrow> (orm_error option \<times> 's) option" where
  "q_Each D q c fn s = do {
     (r, s) \<leftarrow> q_Cursor D q c s;
     (case r of
        Inl e \<Rightarrow> Some (Some e, s)
      | Inr cu \<Rightarrow> do { (err, s) \<leftarrow> each_loop D cu c fn s; Some (err, cur_Close D cu c s) }) }"

text \<open>
  \<open>Pluck\<close>: \<open>look\<close> is \<open>bson.Raw.Lookup\<close> (\<open>None\<close> where the type is zero), \<open>unmarshal\<close> decodes into the
  element type with the zero value \<open>zero\<close>, \<open>out_ok\<close> says that \<open>out\<close> is a pointer to a slice.
\<close>

partial_function (option) pluck_loop ::
    "'s driver \<Rightarrow> ctx \<Rightarrow> nat \<Rightarrow> (val \<Rightarrow> val option) \<Rightarrow> (val \<Rightarrow> string + val) \<Rightarrow> val \<Rightarrow> val list \<Rightarrow>
     's \<Rightarrow> ((orm_error + val list) \<times> 's) option" where
  [code]: "pluck_loop D c cur look unmarshal zero result s =
    (let (more, s) = c_Next D c cur s in
     if more then
       (case look (c_Current D cur s) of
          None \<Rightarrow> pluck_loop D c cur look unmarshal zero (result @ [zero]) s
        | Some raw \<Rightarrow> (case unmarshal raw of
            Inl e \<Rightarrow> Some (Inl (DriverError e), s)
          | Inr v \<Rightarrow> pluck_loop D c cur look unmarshal zero (result @ [v]) s))
     else Some (case c_Err D cur s of None \<Rightarrow> Inr result | Some e \<Rightarrow> Inl (DriverError e), s))"

definition pluck_opts :: "Query \<Rightarrow> string \<Rightarrow> find_opts" where
  "pluck_opts q field =
    (let projection = [(field, VInt 1)];
         projection = (if field \<noteq> ''_id'' then AList.update ''_id'' (VInt 0) projection else projection)
     in (findOptions q)\<lparr>oProjection := Some projection\<rparr>)"

definition q_Pluck ::
    "(string list \<Rightarrow> val \<Rightarrow> val option) \<Rightarrow> (val \<Rightarrow> string + val) \<Rightarrow> val \<Rightarrow> bool \<Rightarrow>
     's driver \<Rightarrow> Query option \<Rightarrow> ctx \<Rightarrow> string \<Rightarrow> ('s, val list) exec" where
  "q_Pluck lookup_raw unmarshal zero out_ok D q c field = guarded preflight q (\<lambda>q col s.
     if blank field then Some (Inl PluckField, s)
     else if \<not> out_ok then Some (Inl PluckOut, s)
     else do {
       f \<leftarrow> buildFilter q;
       let c = execCtx (Some q) c in
       (case d_Find D c col f (pluck_opts q field) s of
          (Inl e, s) \<Rightarrow> Some (Inl (DriverError e), s)
        | (Inr cur, s) \<Rightarrow> do {
            (r, s) \<leftarrow> pluck_loop D c cur (lookup_raw (Split (CHR ''.'') field)) unmarshal zero [] s;
            Some (r, c_Close D c cur s) }) })"

subsection \<open>Engine\<close>

definition NextSequence :: "'s driver \<Rightarrow> Engine option \<Rightarrow> ctx \<Rightarrow> string \<Rightarrow> 's \<Rightarrow> ((orm_error + int) \<times> 's) option" where
  "NextSequence D e c name s = (case e of
      None \<Rightarrow> Some (Inl EngineNotInitialized, s)
    | Some en \<Rightarrow>
        if eDatabase en = None then Some (Inl EngineNotInitialized, s)
        else if blank name then Some (Inl SequenceName, s)
        else reply (d_FindOneAndUpdate D (sessionContext e c) ''counters'' [(''_id'', VStr name)]
          (VM [(''$inc'', VM [(''value'', VInt 1)])]) s))"

definition tx_engine :: "Engine \<Rightarrow> nat \<Rightarrow> Engine" where
  "tx_engine en session = \<lparr>eClient = eClient en, eDatabase = eDatabase en,
     eDatabaseName = eDatabaseName en, eSession = Some session\<rparr>"

definition eng_Transaction ::
    "'s driver \<Rightarrow> Engine option \<Rightarrow> ctx \<Rightarrow> (ctx \<Rightarrow> Engine \<Rightarrow> 's \<Rightarrow> orm_error option \<times> 's) \<Rightarrow> 's \<Rightarrow> orm_error option \<times> 's" where
  "eng_Transaction D e c fn s = (case e of
      None \<Rightarrow> (Some EngineNotInitialized, s)
    | Some en \<Rightarrow> (case eClient en of
        None \<Rightarrow> (Some EngineNotInitialized, s)
      | Some client \<Rightarrow> (case d_StartSession D client s of
          (Inl err, s) \<Rightarrow> (Some (DriverError err), s)
        | (Inr session, s) \<Rightarrow>
            (let (err, s) = d_WithTransaction D c session (\<lambda>sc. fn sc (tx_engine en session)) s
             in (err, d_EndSession D c session s)))))"

text \<open>\<open>NewEngine\<close>: \<open>connect\<close>, \<open>ping\<close> and \<open>disconnect\<close> are the driver's.\<close>

definition NewEngine ::
    "(string \<Rightarrow> 's \<Rightarrow> (string + nat) \<times> 's) \<Rightarrow> (nat \<Rightarrow> 's \<Rightarrow> string option \<times> 's) \<Rightarrow> (nat \<Rightarrow> 's \<Rightarrow> 's) \<Rightarrow>
     string \<Rightarrow> string \<Rightarrow> 's \<Rightarrow> (orm_error + Engine) \<times> 's" where
  "NewEngine connect ping disconnect uri database s =
    (if blank uri then (Inl UriRequired, s)
     else if blank database then (Inl DatabaseRequired, s)
     else case connect uri s of
         (Inl e, s) \<Rightarrow> (Inl (DriverError e), s)
       | (Inr client, s) \<Rightarrow> (case ping client s of
           (Some e, s) \<Rightarrow> (Inl (DriverError e), disconnect client s)
         | (None, s) \<Rightarrow> (Inr \<lparr>eClient = Some client, eDatabase = Some database,
             eDatabaseName = database, eSession = None\<rparr>, s)))"

subsection \<open>Collection names\<close>

datatype gotype = TPointer gotype | TSlice gotype | TArray gotype | TStruct string | TKind nat

fun strip_pointers :: "gotype \<Rightarrow> gotype" where
  "strip_pointers (TPointer t) = strip_pointers t"
| "strip_pointers t = t"

fun snake_rest :: "string \<Rightarrow> string" where
  "snake_rest [] = []"
| "snake_rest (r # rs) = (if is_upper r then [CHR ''_'', r] else [r]) @ snake_rest rs"

definition toSnake :: "string \<Rightarrow> string" where
  "toSnake value = ToLower (case value of [] \<Rightarrow> [] | r # rs \<Rightarrow> r # snake_rest rs)"

definition isVowel :: "char \<Rightarrow> bool" where
  "isVowel c \<longleftrightarrow> c \<in> set ''aeiou''"

definition TrimSuffix :: "string \<Rightarrow> string \<Rightarrow> string" where
  "TrimSuffix s t = (if HasSuffix s t then take (length s - length t) s else s)"

definition pluralize :: "string \<Rightarrow> string" where
  "pluralize name =
    (if name = [] then []
     else if HasSuffix name ''y'' \<and> length name \<ge> 2 \<and> \<not> isVowel (name ! (length name - 2))
       then TrimSuffix name ''y'' @ ''ies''
     else if HasSuffix name ''s'' \<or> HasSuffix name ''x'' \<or> HasSuffix name ''sh'' \<or> HasSuffix name ''ch''
       then name @ ''es''
     else name @ ''s'')"

definition CollectionName :: "gotype option \<Rightarrow> string" where
  "CollectionName t = (case t of
      None \<Rightarrow> []
    | Some typ \<Rightarrow>
        (let typ = strip_pointers typ;
             typ = (case typ of TSlice e \<Rightarrow> strip_pointers e | TArray e \<Rightarrow> strip_pointers e | _ \<Rightarrow> typ)
         in case typ of TStruct name \<Rightarrow> pluralize (toSnake name) | _ \<Rightarrow> []))"

definition eng_Model :: "Engine option \<Rightarrow> gotype option \<Rightarrow> Query" where
  "eng_Model e t = eng_Collection e (CollectionName t)"

subsection \<open>Log levels\<close>

datatype log_target = Stdout | Stderr | Discard

definition SetLevel :: "int \<Rightarrow> log_target \<times> log_target" where
  "SetLevel level =
    (let errorLogger = Stderr; infoLogger = Stdout;
         errorLogger = (if 1 < level then Discard else errorLogger);
         infoLogger = (if 0 < level then Discard else infoLogger)
     in (errorLogger, infoLogger))"

subsection \<open>Every executing method\<close>

datatype 's xop =
    XInsert "val list" | XFirst | XFind | XCount | XExists | XDistinct string | XCountDistinct string
  | XUpdate val | XUpsert val | XIncrement string "int list" | XDecrement string "int list" | XDelete
  | XEnsureIndexes "val list" | XDropCollection | XSum string | XAvg string | XMin string | XMax string
  | XCursor | XEach "Cursor \<Rightarrow> 's \<Rightarrow> orm_error option \<times> 's" | XAggregate

definition err_of :: "((orm_error + 'a) \<times> 's) option \<Rightarrow> (orm_error option \<times> 's) option" where
  "err_of r = map_option (\<lambda>(x, s). (case x of Inl e \<Rightarrow> Some e | Inr _ \<Rightarrow> None, s)) r"

fun run_exec :: "'s driver \<Rightarrow> 's xop \<Rightarrow> Query option \<Rightarrow> ctx \<Rightarrow> 's \<Rightarrow> (orm_error option \<times> 's) option" where
  "run_exec D (XInsert ds) q c s = map_option (\<lambda>((e, _), s). (e, s)) (q_Insert D q c ds s)"
| "run_exec D XFirst q c s = err_of (q_First D q c s)"
| "run_exec D XFind q c s = err_of (q_Find D q c s)"
| "run_exec D XCount q c s = err_of (q_Count D q c s)"
| "run_exec D XExists q c s = err_of (q_Exists D q c s)"
| "run_exec D (XDistinct f) q c s = err_of (q_Distinct D q c f s)"
| "run_exec D (XCountDistinct f) q c s = err_of (q_CountDistinct D q c f s)"
| "run_exec D (XUpdate u) q c s = err_of (q_Update D q c u s)"
| "run_exec D (XUpsert u) q c s = err_of (q_Upsert D q c u s)"
| "run_exec D (XIncrement f n) q c s = err_of (q_Increment D q c f n s)"
| "run_exec D (XDecrement f n) q c s = err_of (q_Decrement D q c f n s)"
| "run_exec D XDelete q c s = err_of (q_Delete D q c s)"
| "run_exec D (XEnsureIndexes is) q c s = err_of (q_EnsureIndexes D q c is s)"
| "run_exec D XDropCollection q c s = err_of (q_DropCollection D q c s)"
| "run_exec D (XSum f) q c s = err_of (q_Sum D q c f s)"
| "run_exec D (XAvg f) q c s = err_of (q_Avg D q c f s)"
| "run_exec D (XMin f) q c s = err_of (q_Min D q c f s)"
| "run_exec D (XMax f) q c s = err_of (q_Max D q c f s)"
| "run_exec D XCursor q c s = err_of (q_Cursor D q c s)"
| "run_exec D (XEach fn) q c s = q_Each D q c fn s"
| "run_exec D XAggregate q c s = err_of (q_Aggregate D q c s)"

lemmas exec_defs = q_First_def q_Find_def q_Count_def q_Exists_def q_Distinct_def q_CountDistinct_def
  q_Update_def q_Upsert_def q_Increment_def q_Decrement_def q_Delete_def q_EnsureIndexes_def
  q_DropCollection_def q_Sum_def q_Avg_def q_Min_def q_Max_def q_aggregate_def q_Cursor_def

lemma guarded_error: "check q = Some e \<Longrightarrow> guarded check q f s = Some (Inl e, s)"
  by (simp add: guarded_def)

lemma run_exec_error:
  assumes "preflight q = Some e" "x \<noteq> XAggregate"
  shows "run_exec D x q c s = Some (Some e, s)"
  using assms(2)
  by (cases x) (simp_all add: exec_defs err_of_def q_Insert_def q_Each_def guarded_error [of preflight, OF assms(1)] assms(1))

lemma run_Aggregate_error:
  "preflightBase q = Some e \<Longrightarrow> run_exec D XAggregate q c s = Some (Some e, s)"
  by (simp add: q_Aggregate_def guarded_error err_of_def)

lemma preflight_base: "preflightBase q = Some e \<Longrightarrow> preflight q = Some e"
  by (simp add: preflight_def)

text \<open>With the checks passed, no method fails before the driver is called.\<close>

lemma guarded_pass:
  "preflight (Some q) = None \<Longrightarrow> \<exists>col. qCollection q = Some col \<and> guarded preflight (Some q) f s = f q col s"
  by (auto simp: guarded_def preflight_def preflightBase_def split: if_splits option.splits)

lemma base_pass:
  "preflightBase (Some q) = None \<Longrightarrow>
    \<exists>col. qCollection q = Some col \<and> guarded preflightBase (Some q) f s = f q col s"
  by (auto simp: guarded_def preflightBase_def split: if_splits)

lemma reply_total [simp]: "\<exists>r s'. reply x = Some (r, s')"
  by (simp add: reply_def)

lemma drain_total [simp]: "\<exists>r s'. drain D c x = Some (r, s')"
  by (cases x) (auto simp: drain_def split: sum.split prod.split)

lemma exec_total_reply:
  assumes "preflight (Some q) = None" "qinv q"
    "\<And>col d. buildFilter q = Some d \<Longrightarrow> \<exists>r s'. f q col s = Some (r, s')"
  shows "\<exists>r s'. guarded preflight (Some q) f s = Some (r, s')"
  using guarded_pass [OF assms(1), of f s] buildFilter_total [OF assms(2)] assms(3) by auto

lemma buildGroupPipeline_total: "qinv q \<Longrightarrow> \<exists>r. buildGroupPipeline q = Some r"
  using buildFilter_total [of q] buildConditionFilter_total [of "qHavingConds q"]
  by (auto simp: buildGroupPipeline_def qinv_def split: option.split)

lemma bind_total:
  assumes "\<exists>r s'. x = Some (r, s')" "\<And>r s'. \<exists>r2 s2. f (r, s') = Some (r2, s2)"
  shows "\<exists>r s'. x \<bind> f = Some (r, s')"
  using assms by auto

subsection \<open>Updates and loops\<close>

text \<open>After \<open>normalizeUpdate\<close> a document or struct is a document of operators.\<close>

fun is_doc :: "val \<Rightarrow> bool" where
  "is_doc (VM _) = True"
| "is_doc (VMap _) = True"
| "is_doc (VD _) = True"
| "is_doc v = is_struct v"

fun operator_doc :: "val \<Rightarrow> bool" where
  "operator_doc (VM d) = hasOperatorKey d"
| "operator_doc (VMap d) = hasOperatorKey d"
| "operator_doc (VD d) = hasOperatorKey d"
| "operator_doc _ = False"

lemma normalizeUpdate_operator:
  "is_doc u \<Longrightarrow> operator_doc (normalizeUpdate u)"
  "operator_doc u \<Longrightarrow> normalizeUpdate u = u"
  "normalizeUpdate (normalizeUpdate u) = normalizeUpdate u"
  by (cases u; simp add: normalizeUpdate_def hasOperatorKey_def)+

lemma each_loop_terminates:
  assumes "\<And>s t. cur_Next D cu c s = (True, t) \<Longrightarrow> m (snd (fn cu t)) < (m s :: nat)"
  shows "\<exists>r. each_loop D cu c fn s = Some r"
proof (induction "m s" arbitrary: s rule: less_induct)
  case less
  obtain more t where n: "cur_Next D cu c s = (more, t)" by (cases "cur_Next D cu c s")
  obtain err u where f: "fn cu t = (err, u)" by (cases "fn cu t")
  show ?case
  proof (cases "more \<and> err = None")
    case True
    then have "m u < m s" using assms [of s t] n f by simp
    then obtain r where "each_loop D cu c fn u = Some r" using less by blast
    then show ?thesis using True n f by (subst each_loop.simps) simp
  next
    case False
    then show ?thesis using n f by (subst each_loop.simps) auto
  qed
qed

subsection \<open>Names\<close>

lemma lower_id [simp]: "\<not> is_upper c \<Longrightarrow> lower_char c = c"
  by (simp add: lower_char_def)

text \<open>A name in camel case becomes its words in lower case, joined by underscores.\<close>

definition camel_word :: "string \<Rightarrow> bool" where
  "camel_word w \<longleftrightarrow> w \<noteq> [] \<and> is_upper (hd w) \<and> list_all (\<lambda>c. \<not> is_upper c) (tl w)"

lemma snake_rest_lower: "list_all (\<lambda>c. \<not> is_upper c) s \<Longrightarrow> snake_rest (s @ t) = s @ snake_rest t"
  by (induction s) auto

lemma lower_char_underscore [simp]: "lower_char (CHR ''_'') = CHR ''_''"
  by (simp add: lower_char_def is_upper_def)

lemma snake_rest_words:
  "list_all camel_word ws \<Longrightarrow>
    ToLower (snake_rest (concat ws)) = concat (map (\<lambda>w. CHR ''_'' # ToLower w) ws)"
proof (induction ws)
  case Nil
  then show ?case by (simp add: ToLower_def)
next
  case (Cons w ws)
  then obtain c r where w: "w = c # r" "is_upper c" "list_all (\<lambda>c. \<not> is_upper c) r"
    by (cases w) (auto simp: camel_word_def)
  have "ToLower (snake_rest (concat ws)) = concat (map (\<lambda>w. CHR ''_'' # ToLower w) ws)"
    using Cons by simp
  then show ?case using w by (simp add: snake_rest_lower ToLower_def)
qed

theorem toSnake_words:
  assumes "list_all camel_word (w # ws)"
  shows "toSnake (concat (w # ws)) = Join (map ToLower (w # ws)) [CHR ''_'']"
proof -
  obtain c r where w: "w = c # r" "is_upper c" "list_all (\<lambda>c. \<not> is_upper c) r"
    using assms by (cases w) (auto simp: camel_word_def)
  have j: "Join (map ToLower (v # vs)) [CHR ''_''] = ToLower v @ concat (map (\<lambda>w. CHR ''_'' # ToLower w) vs)" for v vs
    by (induction vs arbitrary: v) auto
  have "toSnake (concat (w # ws)) = ToLower w @ ToLower (snake_rest (concat ws))"
    using w by (simp add: toSnake_def snake_rest_lower ToLower_def)
  then show ?thesis using snake_rest_words [of ws] assms j [of w ws] by simp
qed

end
