(* ===== verification/Orm_Admin.thy ===== *)
theory Orm_Admin
  imports Orm_Engine
begin

text \<open>
  The rest of \<open>swifty_orm\<close>: the methods of an engine that may be nil, those of a cursor that read it, and the log
  levels of \<open>log.go\<close> as an ordered type. \<open>Disconnect\<close> and \<open>Drop\<close> of the driver are arguments.
\<close>

subsection \<open>Engines and cursors\<close>

definition eng_Client :: "Engine option \<Rightarrow> nat option" where
  "eng_Client e = (case e of None \<Rightarrow> None | Some en \<Rightarrow> eClient en)"

definition eng_Database :: "Engine option \<Rightarrow> string option" where
  "eng_Database e = (case e of None \<Rightarrow> None | Some en \<Rightarrow> eDatabase en)"

definition eng_DatabaseName :: "Engine option \<Rightarrow> string" where
  "eng_DatabaseName e = (case e of None \<Rightarrow> [] | Some en \<Rightarrow> eDatabaseName en)"

definition eng_Close :: "(nat \<Rightarrow> 's \<Rightarrow> string option \<times> 's) \<Rightarrow> Engine option \<Rightarrow> 's \<Rightarrow> string option \<times> 's" where
  "eng_Close disconnect e s = (case e of
      None \<Rightarrow> (None, s)
    | Some en \<Rightarrow> (case eClient en of None \<Rightarrow> (None, s) | Some c \<Rightarrow> disconnect c s))"

definition eng_DropDatabase :: "(string \<Rightarrow> 's \<Rightarrow> string option \<times> 's) \<Rightarrow> Engine option \<Rightarrow> 's \<Rightarrow> string option \<times> 's" where
  "eng_DropDatabase drop_db e s = (case e of
      None \<Rightarrow> (None, s)
    | Some en \<Rightarrow> (case eDatabase en of None \<Rightarrow> (None, s) | Some d \<Rightarrow> drop_db d s))"

definition cur_Current :: "'s driver \<Rightarrow> Cursor \<Rightarrow> 's \<Rightarrow> val" where
  "cur_Current D cu s = c_Current D (curHandle cu) s"

definition cur_Err :: "'s driver \<Rightarrow> Cursor \<Rightarrow> 's \<Rightarrow> string option" where
  "cur_Err D cu s = c_Err D (curHandle cu) s"

definition cur_Decode :: "'s driver \<Rightarrow> (val \<Rightarrow> string + 'a) \<Rightarrow> Cursor \<Rightarrow> 's \<Rightarrow> string + 'a" where
  "cur_Decode D decode cu s = decode (c_Current D (curHandle cu) s)"

text \<open>An engine that was not connected does nothing and fails nowhere but where it is used.\<close>

lemma nil_engine:
  "eng_Client None = None" "eng_Database None = None" "eng_DatabaseName None = []"
  "eng_Close disconnect None s = (None, s)" "eng_DropDatabase drop_db None s = (None, s)"
  by (simp_all add: eng_Client_def eng_Database_def eng_DatabaseName_def eng_Close_def eng_DropDatabase_def)

subsection \<open>Log levels\<close>

datatype log_level = InfoLevel | ErrorLevel | Disabled

fun level_int :: "log_level \<Rightarrow> int" where
  "level_int InfoLevel = 0"
| "level_int ErrorLevel = 1"
| "level_int Disabled = 2"

lemma level_int_inj: "level_int l = level_int m \<longleftrightarrow> l = m"
  by (cases l; cases m) simp_all

instantiation log_level :: linorder
begin

definition less_eq_log_level :: "log_level \<Rightarrow> log_level \<Rightarrow> bool" where
  "l \<le> m \<longleftrightarrow> level_int l \<le> level_int m"

definition less_log_level :: "log_level \<Rightarrow> log_level \<Rightarrow> bool" where
  "l < m \<longleftrightarrow> level_int l < level_int m"

instance
  by standard (auto simp: less_eq_log_level_def less_log_level_def level_int_inj [symmetric])

end

text \<open>A logger writes exactly when its level is at least the one that was set.\<close>

lemma SetLevel_levels:
  "fst (SetLevel (level_int l)) \<noteq> Discard \<longleftrightarrow> l \<le> ErrorLevel"
  "snd (SetLevel (level_int l)) \<noteq> Discard \<longleftrightarrow> l \<le> InfoLevel"
  by (cases l; simp add: SetLevel_def less_eq_log_level_def)+

end
