(* ===== verification/Orm_Properties.thy ===== *)
theory Orm_Properties
  imports Orm_Like Orm_Admin
begin

text \<open>
  The properties of \<open>swifty_orm\<close>, and an evaluator of filter documents over a table of operator
  results, which satisfies \<open>filter_laws\<close>: the rules that the code relies on are consistent.
\<close>

subsection \<open>An evaluator\<close>










subsection \<open>Methods that run return\<close>






subsection \<open>The properties\<close>


definition demo_engine :: Engine where
  "demo_engine = \<lparr>eClient = Some 1, eDatabase = Some ''db'', eDatabaseName = ''db'', eSession = None\<rparr>"





text \<open>C36. The regular expression of a LIKE pattern matches a text without line breaks exactly when the pattern does:
  a percent sign stands for any text, an underscore for one character, and every other character, also one with
  a meaning in regular expressions, for itself.\<close>

theorem like_pattern:
  assumes "CHR 0x0A \<notin> set s"
  shows "rx_matches (likeToRegex p) s \<longleftrightarrow> like_match p s"
  by (rule likeToRegex_matches [OF assms])

theorem like_pattern_witness: "rx_matches (likeToRegex ''a.%_'') ''a.xyz'' \<and> \<not> rx_matches (likeToRegex ''a.%_'') ''abxyz''"
proof -
  have "like_match ''a.%_'' ''a.xyz''" "\<not> like_match ''a.%_'' ''abxyz''" by code_simp+
  then show ?thesis
    using like_pattern [of "''a.xyz''" "''a.%_''"] like_pattern [of "''abxyz''" "''a.%_''"] by simp
qed

text \<open>A grouped aggregation of a chain of builder calls is refused exactly when there is no group key, a
  projection, two columns of one name, or a condition or order on something that is no column. Else its
  \<open>$group\<close> and \<open>$project\<close> stages follow each other, the result has exactly the group keys and aliases as columns,
  and every column comes from its field or accumulator.\<close>

theorem group_pipeline:
  fixes ops e name
  defines "q \<equiv> chain ops (eng_Collection e name)"
  shows "if qGroupFields q \<noteq> [] \<and> qFields q = [] \<and> distinct (group_cols q) \<and>
      (\<forall>c \<in> set (qHavingConds q). cfield c \<in> set (group_cols q)) \<and>
      (\<forall>k \<in> set (qSort q). fst k \<in> set (group_cols q))
    then \<exists>pre post g p. buildGroupPipeline q =
        Some (Inr (pre @ [[(''$group'', VM g)], [(''$project'', VM p)]] @ post)) \<and>
      distinct (map fst g) \<and> dom (map_of p) = insert ''_id'' (set (group_cols q)) \<and>
      (\<forall>f \<in> set (qGroupFields q). column_source g p (groupKeyName f) = Some (VStr (''$'' @ f))) \<and>
      (\<forall>s \<in> set (qAggSpecs q). column_source g p (aggAlias s) = Some (accumulator s))
    else \<exists>err. buildGroupPipeline q = Some (Inl err)"
proof -
  have inv: "qinv q" unfolding q_def by (rule qinv_chain) (simp add: eng_Collection_def)
  show ?thesis
  proof (cases "check_group q")
    case None
    obtain m where m: "buildFilter q = Some m" using buildFilter_total [OF inv] by blast
    obtain h where h: "buildConditionFilter (qHavingConds q) = Some h"
      using buildConditionFilter_total [of "qHavingConds q"] inv by (auto simp: qinv_def)
    have "distinct (map fst (group_doc q))"
      using group_doc_eq [OF inv None] None inv unfolding check_group_None
      by (auto simp: group_cols_def comp_def qinv_def dest!: alias_not_id)
    moreover obtain pre post where "buildGroupPipeline q =
        Some (Inr (pre @ [[(''$group'', VM (group_doc q))], [(''$project'', VM (project_doc q))]] @ post))"
      unfolding buildGroupPipeline_def None option.case m h bind.simps append_Cons append_Nil by blast
    ultimately show ?thesis
      unfolding check_group_None [symmetric] if_P [OF None]
      using project_columns [of q] group_key_source [OF inv None] alias_source [OF inv None]
      by (intro exI [of _ pre] exI [of _ post] exI [of _ "group_doc q"] exI [of _ "project_doc q"] conjI ballI)
  next
    case (Some err)
    then have "check_group q \<noteq> None" "buildGroupPipeline q = Some (Inl err)"
      by (simp_all add: buildGroupPipeline_def)
    then show ?thesis unfolding check_group_None [symmetric] by simp
  qed
qed

definition demo_group :: "qop list" where
  "demo_group = [GroupBy [''addr.city'', ''kind''], CountAs ''n'', SumAs ''age'' ''total'',
     Having [VStr ''n'', VStr ''>'', VInt 1], OrderBy ''addr_city'' []]"

definition demo_group_query :: Query where
  "demo_group_query = chain demo_group (eng_Collection (Some demo_engine) ''users'')"

lemma demo_group_ok:
  "qGroupFields demo_group_query \<noteq> [] \<and> qFields demo_group_query = [] \<and> distinct (group_cols demo_group_query) \<and>
    (\<forall>c \<in> set (qHavingConds demo_group_query). cfield c \<in> set (group_cols demo_group_query)) \<and>
    (\<forall>k \<in> set (qSort demo_group_query). fst k \<in> set (group_cols demo_group_query))"
  by code_simp

theorem group_pipeline_witness:
  "\<exists>pre post g p. buildGroupPipeline demo_group_query =
      Some (Inr (pre @ [[(''$group'', VM g)], [(''$project'', VM p)]] @ post)) \<and>
    column_source g p ''addr_city'' = Some (VStr ''$addr.city'')"
proof -
  have f: "''addr.city'' \<in> set (qGroupFields demo_group_query)" "groupKeyName ''addr.city'' = ''addr_city''" by code_simp+
  show ?thesis
    using group_pipeline [of demo_group "Some demo_engine" "''users''", folded demo_group_query_def,
        unfolded if_P [OF demo_group_ok]] f by fastforce
qed




end
