(* ===== verification/Rpc_Mux.thy ===== *)
theory Rpc_Mux
  imports Rpc_Transport Rpc_Server
begin

text \<open>
  What the multiplexing client of \<open>swifty_rpc/internal/transport/tcp_client.go\<close> does with the messages of
  its connection: the tables of pending calls and of open streams, the read loop that routes every message
  by its number and its stream flag, sending, and the shutdown. Futures and streams are objects that the
  callers keep; the tables hold their numbers. (The interleaving of these operations is the subject of
  \<open>Rpc_Transport\<close>.) At the end the client meets the server: an exchange over the wire.
\<close>

record Mux =
  mseq :: "64 word"
  mclosed :: bool
  mpending :: "64 word set"
  mstreams :: "64 word set"
  mfut :: "64 word \<Rightarrow> Future option"
  mstr :: "64 word \<Rightarrow> ClientStreamConn option"

definition newMux :: Mux where
  "newMux = \<lparr>mseq = 0, mclosed = False, mpending = {}, mstreams = {}, mfut = Map.empty, mstr = Map.empty\<rparr>"

definition mux_complete :: "64 word \<Rightarrow> bytes \<Rightarrow> string option \<Rightarrow> Mux \<Rightarrow> Mux" where
  "mux_complete n res err m =
    m\<lparr>mpending := mpending m - {n}, mfut := (mfut m)(n := map_option (\<lambda>f. Future_Done f res err) (mfut m n))\<rparr>"

definition mux_terminate :: "64 word \<Rightarrow> string \<Rightarrow> Mux \<Rightarrow> Mux" where
  "mux_terminate n err m =
    m\<lparr>mstreams := mstreams m - {n}, mstr := (mstr m)(n := map_option (\<lambda>s. stream_terminate s err) (mstr m n))\<rparr>"

text \<open>
  One turn of \<open>readLoop\<close>. \<open>Push\<close> blocks on a full stream that is still alive, and the read loop with it:
  \<open>None\<close>.
\<close>

definition readLoop_msg :: "Message \<Rightarrow> Mux \<Rightarrow> Mux option" where
  "readLoop_msg msg m =
    (let n = RequestID (header msg); flag = StreamFlag (header msg) in
     if flag = StreamData then
       (if n \<in> mstreams m then
          (case mstr m n of
             None \<Rightarrow> None
           | Some s \<Rightarrow> (case stream_Push s (body msg) False of
               None \<Rightarrow> None
             | Some s \<Rightarrow> Some (m\<lparr>mstr := (mstr m)(n \<mapsto> s)\<rparr>)))
        else Some m)
     else if flag = StreamEnd then
       (if n \<in> mstreams m then Some (mux_terminate n EOF m) else Some m)
     else if flag = StreamError then
       (if n \<in> mstreams m then Some (mux_terminate n (HError (header msg)) m) else Some m)
     else
       (if n \<notin> mpending m then Some m
        else if HError (header msg) \<noteq> [] then Some (mux_complete n [] (Some (HError (header msg))) m)
        else Some (mux_complete n (body msg) None m)))"

fun readLoop :: "Message list \<Rightarrow> Mux \<Rightarrow> Mux option" where
  "readLoop [] m = Some m"
| "readLoop (msg # msgs) m = do { m \<leftarrow> readLoop_msg msg m; readLoop msgs m }"

definition mux_shutdown :: "string \<Rightarrow> Mux \<Rightarrow> Mux" where
  "mux_shutdown err m =
    (if mclosed m then m
     else m\<lparr>mclosed := True, mpending := {}, mstreams := {},
       mfut := (\<lambda>n. if n \<in> mpending m then map_option (\<lambda>f. Future_Done f [] (Some err)) (mfut m n) else mfut m n),
       mstr := (\<lambda>n. if n \<in> mstreams m then map_option (\<lambda>s. stream_terminate s err) (mstr m n) else mstr m n)\<rparr>)"

definition mux_Close :: "Mux \<Rightarrow> Mux" where
  "mux_Close m = mux_shutdown ''connection closed'' m"

text \<open>
  Sending, with the outcome of the write (\<open>None\<close>: written). When the write fails, nobody else holds the
  new future or stream, and it is dropped.
\<close>

definition mux_SendAsync :: "string option \<Rightarrow> Mux \<Rightarrow> Mux \<times> (string + 64 word)" where
  "mux_SendAsync write_err m =
    (if mclosed m then (m, Inl ''connection closed'')
     else
       let n = mseq m + 1;
           m = m\<lparr>mseq := n, mfut := (mfut m)(n \<mapsto> NewFuture), mpending := insert n (mpending m)\<rparr>
       in case write_err of
           None \<Rightarrow> (m, Inr n)
         | Some e \<Rightarrow> (mux_shutdown e (m\<lparr>mpending := mpending m - {n}, mfut := (mfut m)(n := None)\<rparr>), Inl e))"

definition mux_SendStream :: "string option \<Rightarrow> Mux \<Rightarrow> Mux \<times> (string + 64 word)" where
  "mux_SendStream write_err m =
    (if mclosed m then (m, Inl ''connection closed'')
     else
       let n = mseq m + 1;
           m = m\<lparr>mseq := n, mstr := (mstr m)(n \<mapsto> NewClientStreamConn), mstreams := insert n (mstreams m)\<rparr>
       in case write_err of
           None \<Rightarrow> (m, Inr n)
         | Some e \<Rightarrow> (mux_shutdown e (m\<lparr>mstreams := mstreams m - {n}, mstr := (mstr m)(n := None)\<rparr>), Inl e))"

text \<open>
  The timer of an asynchronous call (\<open>InvokeAsync\<close> of both clients), or a call that stops waiting: the
  future is completed from outside; the table of pending calls is not touched.
\<close>

definition DeadlineExceeded :: string where
  "DeadlineExceeded = ''context deadline exceeded''"

definition mux_timeout :: "64 word \<Rightarrow> Mux \<Rightarrow> Mux" where
  "mux_timeout n m = m\<lparr>mfut := (mfut m)(n := map_option (\<lambda>f. Future_Done f [] (Some DeadlineExceeded)) (mfut m n))\<rparr>"

subsection \<open>The tables hold only open calls and streams\<close>

text \<open>
  A stream in its table is open, what is not in the tables has ended (a call that timed out stays in its
  table), and numbers are not used twice as long as
  the counter does not wrap.
\<close>

definition mux_inv :: "Mux \<Rightarrow> bool" where
  "mux_inv m \<longleftrightarrow>
    (\<forall>n \<in> mpending m. mfut m n \<noteq> None) \<and>
    (\<forall>n \<in> mstreams m. \<exists>s. mstr m n = Some s \<and> termErr s = None) \<and>
    (\<forall>n f. mfut m n = Some f \<longrightarrow> n \<notin> mpending m \<longrightarrow> fcomplete f) \<and>
    (\<forall>n s. mstr m n = Some s \<longrightarrow> n \<notin> mstreams m \<longrightarrow> termErr s \<noteq> None) \<and>
    (\<forall>n. mfut m n \<noteq> None \<or> mstr m n \<noteq> None \<longrightarrow> n \<le> mseq m) \<and>
    mpending m \<inter> mstreams m = {} \<and>
    (mclosed m \<longrightarrow> mpending m = {} \<and> mstreams m = {})"

lemma mux_invD:
  assumes "mux_inv m"
  shows mux_pending: "n \<in> mpending m \<Longrightarrow> mfut m n \<noteq> None"
    and mux_stream: "n \<in> mstreams m \<Longrightarrow> \<exists>s. mstr m n = Some s \<and> termErr s = None"
    and mux_fut: "mfut m n = Some f \<Longrightarrow> n \<notin> mpending m \<Longrightarrow> fcomplete f"
    and mux_str: "mstr m n = Some s \<Longrightarrow> n \<notin> mstreams m \<Longrightarrow> termErr s \<noteq> None"
    and mux_disj: "n \<in> mpending m \<Longrightarrow> n \<notin> mstreams m"
    and mux_closed: "mclosed m \<Longrightarrow> mpending m = {} \<and> mstreams m = {}"
    and mux_seq: "mfut m n \<noteq> None \<or> mstr m n \<noteq> None \<Longrightarrow> n \<le> mseq m"
  using assms unfolding mux_inv_def by blast+

lemma unat_next: "(s :: 64 word) \<noteq> - 1 \<Longrightarrow> unat (s + 1) = Suc (unat s)"
  using unatSuc [of s] by (simp add: add.commute add_eq_0_iff)

lemma mux_seq_step: "(s :: 64 word) \<noteq> - 1 \<Longrightarrow> n \<le> s \<Longrightarrow> n \<le> s + 1"
  by (simp add: word_le_nat_alt unat_next)

lemma mux_seq_less: "(s :: 64 word) \<noteq> - 1 \<Longrightarrow> \<not> s + 1 \<le> s"
  by (simp add: word_le_nat_alt unat_next)

lemma mux_seq_fresh:
  assumes "mux_inv m" "mseq m \<noteq> - 1"
  shows "mseq m + 1 \<notin> mpending m" "mseq m + 1 \<notin> mstreams m" "mfut m (mseq m + 1) = None" "mstr m (mseq m + 1) = None"
proof -
  have nle: "\<not> mseq m + 1 \<le> mseq m" by (rule mux_seq_less [OF assms(2)])
  then show s: "mfut m (mseq m + 1) = None" "mstr m (mseq m + 1) = None" using mux_seq [OF assms(1)] by blast+
  show "mseq m + 1 \<notin> mpending m" "mseq m + 1 \<notin> mstreams m"
    using s mux_pending [OF assms(1), of "mseq m + 1"] mux_stream [OF assms(1), of "mseq m + 1"] by auto
qed

lemma done_complete [simp]: "fcomplete (Future_Done f r e)"
  by (simp add: Future_Done_def)

lemma terminate_ended [simp]: "\<exists>y. termErr (stream_terminate s e) = Some y"
  by (cases "termErr s") (simp_all add: stream_terminate_def)

lemma mux_inv_new: "mux_inv newMux"
  by (simp add: mux_inv_def newMux_def)

lemma mux_inv_complete: "mux_inv m \<Longrightarrow> mux_inv (mux_complete n r e m)"
  unfolding mux_inv_def mux_complete_def by (auto split: if_splits)

lemma mux_inv_terminate: "mux_inv m \<Longrightarrow> mux_inv (mux_terminate n e m)"
  unfolding mux_inv_def mux_terminate_def by (auto split: if_splits)

lemma stream_Push_term: "stream_Push s b d = Some s' \<Longrightarrow> termErr s' = termErr s \<and> ctxErr s' = ctxErr s"
  by (auto simp: stream_Push_def split: if_splits)

lemma mux_inv_push:
  assumes "mux_inv m" "mstr m n = Some s" "stream_Push s b False = Some s'"
  shows "mux_inv (m\<lparr>mstr := (mstr m)(n \<mapsto> s')\<rparr>)"
proof -
  have "termErr s' = termErr s" using stream_Push_term [OF assms(3)] by simp
  then show ?thesis using assms(1,2) unfolding mux_inv_def by auto
qed

lemma mux_inv_read:
  assumes "mux_inv m" "readLoop_msg msg m = Some m'"
  shows "mux_inv m'"
  using assms mux_inv_complete [OF assms(1)] mux_inv_terminate [OF assms(1)] mux_inv_push [OF assms(1)]
  by (auto simp: readLoop_msg_def Let_def split: if_splits option.splits)

lemma mux_inv_shutdown: "mux_inv m \<Longrightarrow> mux_inv (mux_shutdown e m)"
  unfolding mux_inv_def mux_shutdown_def by (auto split: if_splits)

lemma mux_inv_Close: "mux_inv m \<Longrightarrow> mux_inv (mux_Close m)"
  by (simp add: mux_Close_def mux_inv_shutdown)

lemma mux_inv_timeout: "mux_inv m \<Longrightarrow> mux_inv (mux_timeout n m)"
  unfolding mux_inv_def mux_timeout_def by (auto split: if_splits)

lemma mux_inv_SendAsync:
  assumes "mux_inv m" "mseq m \<noteq> - 1"
  shows "mux_inv (fst (mux_SendAsync w m))"
proof -
  let ?n = "mseq m + 1"
  note fr = mux_seq_fresh [OF assms] and st = mux_seq_step [OF assms(2)]
  have "mux_inv (m\<lparr>mseq := ?n, mfut := (mfut m)(?n \<mapsto> NewFuture), mpending := insert ?n (mpending m)\<rparr>)" if "\<not> mclosed m"
    using assms(1) that fr st unfolding mux_inv_def by (auto simp: NewFuture_def)
  moreover have "mux_inv (m\<lparr>mseq := ?n, mfut := (mfut m)(?n := None), mpending := mpending m - {?n}\<rparr>)"
    using assms(1) fr st unfolding mux_inv_def by auto
  ultimately show ?thesis
    using assms mux_inv_shutdown fr by (auto simp: mux_SendAsync_def Let_def split: option.split)
qed

lemma mux_inv_SendStream:
  assumes "mux_inv m" "mseq m \<noteq> - 1"
  shows "mux_inv (fst (mux_SendStream w m))"
proof -
  let ?n = "mseq m + 1"
  note fr = mux_seq_fresh [OF assms] and st = mux_seq_step [OF assms(2)]
  have "mux_inv (m\<lparr>mseq := ?n, mstr := (mstr m)(?n \<mapsto> NewClientStreamConn), mstreams := insert ?n (mstreams m)\<rparr>)" if "\<not> mclosed m"
    using assms(1) that fr st unfolding mux_inv_def by (auto simp: NewClientStreamConn_def)
  moreover have "mux_inv (m\<lparr>mseq := ?n, mstr := (mstr m)(?n := None), mstreams := mstreams m - {?n}\<rparr>)"
    using assms(1) fr st unfolding mux_inv_def by auto
  ultimately show ?thesis
    using assms mux_inv_shutdown fr by (auto simp: mux_SendStream_def Let_def split: option.split)
qed

text \<open>After a shutdown every call is complete and every stream has ended.\<close>

lemma shutdown_completes:
  assumes "mux_inv m" "\<not> mclosed m"
  shows "n \<in> mpending m \<Longrightarrow> mfut m n = Some f \<Longrightarrow> \<not> fcomplete f \<Longrightarrow>
      \<exists>f. mfut (mux_shutdown e m) n = Some f \<and> fcomplete f \<and> ferr f = Some e"
    and "n \<in> mstreams m \<Longrightarrow> \<exists>s. mstr (mux_shutdown e m) n = Some s \<and> termErr s = Some e"
proof -
  assume n: "n \<in> mpending m" and "mfut m n = Some f" "\<not> fcomplete f"
  then show "\<exists>f. mfut (mux_shutdown e m) n = Some f \<and> fcomplete f \<and> ferr f = Some e"
    using n assms(2) by (simp add: mux_shutdown_def Future_Done_def)
next
  assume n: "n \<in> mstreams m"
  then obtain s where "mstr m n = Some s" "termErr s = None" using assms(1) by (auto simp: mux_inv_def)
  then show "\<exists>s. mstr (mux_shutdown e m) n = Some s \<and> termErr s = Some e"
    using n assms(2) by (simp add: mux_shutdown_def stream_terminate_def)
qed

subsection \<open>Client and server\<close>

text \<open>Whether the server starts a stream for a request, and with which frames and end.\<close>

definition started_stream :: "(byte \<Rightarrow> bool) \<Rightarrow> service option \<Rightarrow> Message \<Rightarrow> (bytes list \<times> string option) option" where
  "started_stream kc svc msg =
    (if CodecType (header msg) \<noteq> 0 \<and> \<not> kc (CodecType (header msg)) then None
     else case invoke svc (ServiceName (header msg)) (MethodName (header msg)) (body msg) of
       InvStream frames err \<Rightarrow> Some (frames, err) | _ \<Rightarrow> None)"

lemma Process_stream:
  "started_stream kc svc msg = Some (frames, err) \<Longrightarrow>
    Process kc mv svc msg = map (stream_Send (RequestID (header msg))) frames @
      [case err of Some e \<Rightarrow> stream_sendError (RequestID (header msg)) e | None \<Rightarrow> stream_end (RequestID (header msg))]"
  by (auto simp: started_stream_def Process_def Let_def split: if_splits invoked.splits)

lemma Process_single:
  assumes "started_stream kc svc msg = None"
  shows "\<exists>e b. Process kc mv svc msg = [\<lparr>header = reply_header (RequestID (header msg)) StreamNone e, body = b\<rparr>]"
  using assms
  by (auto simp: started_stream_def Process_def Let_def writeError_def split: if_splits invoked.splits sum.splits option.splits)

definition answer_value :: "Message list \<Rightarrow> string + bytes" where
  "answer_value out = (let m = last out in if HError (header m) \<noteq> [] then Inl (HError (header m)) else Inr (body m))"

lemma flags [simp]: "StreamNone \<noteq> StreamData" "StreamNone \<noteq> StreamEnd" "StreamNone \<noteq> StreamError"
  "StreamEnd \<noteq> StreamData" "StreamError \<noteq> StreamData" "StreamError \<noteq> StreamEnd"
  by (simp_all add: StreamNone_def StreamData_def StreamEnd_def StreamError_def)

lemma reply_header_sel [simp]:
  "RequestID (reply_header n f e) = n" "StreamFlag (reply_header n f e) = f" "HError (reply_header n f e) = e"
  by (simp_all add: reply_header_def)

lemma call_answered:
  assumes "n \<in> mpending m" "mfut m n = Some f" "\<not> fcomplete f"
    and "out = [\<lparr>header = reply_header n StreamNone e, body = b\<rparr>]"
  shows "\<exists>m' f'. readLoop out m = Some m' \<and> n \<notin> mpending m' \<and> mfut m' n = Some f' \<and>
    Future_Get f' None = Some (answer_value out)"
  using assms
  by (auto simp: readLoop_msg_def mux_complete_def Future_Get_def Future_Done_def answer_value_def Let_def)

lemma frames_pushed:
  assumes "n \<in> mstreams m" "mstr m n = Some s" "termErr s = None" "ctxErr s = None" "length (ch s) + length frames \<le> 64"
  shows "readLoop (map (stream_Send n) frames @ rest) m = readLoop rest (m\<lparr>mstr := (mstr m)(n \<mapsto> s\<lparr>ch := ch s @ frames\<rparr>)\<rparr>)"
  using assms
proof (induction frames arbitrary: m s)
  case Nil
  then have "(mstr m)(n \<mapsto> s) = mstr m" by auto
  then show ?case by simp
next
  case (Cons b bs)
  have "readLoop_msg (stream_Send n b) m = Some (m\<lparr>mstr := (mstr m)(n \<mapsto> s\<lparr>ch := ch s @ [b]\<rparr>)\<rparr>)"
    using Cons.prems by (simp add: readLoop_msg_def stream_Send_def stream_Push_def)
  moreover have "(mstr m)(n \<mapsto> s\<lparr>ch := ch s @ [b]\<rparr>, n \<mapsto> t) = (mstr m)(n \<mapsto> t)" for t by simp
  ultimately show ?case
    using Cons.IH [of "m\<lparr>mstr := (mstr m)(n \<mapsto> s\<lparr>ch := ch s @ [b]\<rparr>)\<rparr>" "s\<lparr>ch := ch s @ [b]\<rparr>"] Cons.prems
    by (simp del: fun_upd_apply add: fun_upd_same)
qed

lemma stream_answered:
  assumes "n \<in> mstreams m" "mstr m n = Some NewClientStreamConn" "length frames \<le> 64"
    and "out = map (stream_Send n) frames @ [case err of Some e \<Rightarrow> stream_sendError n e | None \<Rightarrow> stream_end n]"
  shows "\<exists>m' s. readLoop out m = Some m' \<and> n \<notin> mstreams m' \<and> mstr m' n = Some s \<and>
    recv_all s (length frames + 1) = Some (map Inr frames @ [Inl (case err of Some e \<Rightarrow> e | None \<Rightarrow> EOF)])"
proof -
  let ?s = "NewClientStreamConn\<lparr>ch := frames\<rparr>"
  let ?m = "m\<lparr>mstr := (mstr m)(n \<mapsto> ?s)\<rparr>"
  let ?e = "case err of Some e \<Rightarrow> e | None \<Rightarrow> EOF"
  have r: "readLoop out m = readLoop [case err of Some e \<Rightarrow> stream_sendError n e | None \<Rightarrow> stream_end n] ?m"
    using frames_pushed [OF assms(1,2)] assms(3,4) by (simp add: NewClientStreamConn_def)
  have "readLoop out m = Some (mux_terminate n ?e ?m)"
    unfolding r using assms(1)
    by (cases err) (simp_all add: readLoop_msg_def stream_end_def stream_sendError_def)
  moreover have "recv_all (stream_terminate ?s ?e) (length frames + 1) = Some (map Inr frames @ [Inl ?e])"
    using recv_all_ok [of "stream_terminate ?s ?e" ?e "length frames" 1]
    by (simp add: stream_terminate_def NewClientStreamConn_def)
  ultimately show ?thesis by (simp add: mux_terminate_def)
qed

text \<open>A message without a stream flag is not looked up among the streams.\<close>

lemma stream_ignores_reply:
  assumes "n \<notin> mpending m" "out = [\<lparr>header = reply_header n StreamNone e, body = b\<rparr>]"
  shows "readLoop out m = Some m"
  using assms by (simp add: readLoop_msg_def)

text \<open>The messages that the read loop takes from the connection, and what it does with them.\<close>

definition client_session :: "codecs \<Rightarrow> nat \<Rightarrow> bytes \<Rightarrow> bytes list \<Rightarrow> Mux \<Rightarrow> Mux option" where
  "client_session C k buf chunks m = do { msgs \<leftarrow> read_all C k buf chunks; readLoop msgs m }"

definition framed :: "codecs \<Rightarrow> (Message \<times> bytes \<times> bytes) list \<Rightarrow> bool" where
  "framed C ms \<longleftrightarrow> list_all (\<lambda>(m, hb, bb). frame_fits hb bb \<and> Decode C (frame hb bb) = Some (Inr m)) ms"

definition wire_bytes :: "(Message \<times> bytes \<times> bytes) list \<Rightarrow> bytes" where
  "wire_bytes ms = concat (map (\<lambda>(m, hb, bb). frame hb bb) ms)"

lemma client_session_framed:
  assumes "framed C ms" "buf @ concat chunks = wire_bytes ms"
  shows "client_session C (length ms) buf chunks m = readLoop (map fst ms) m"
proof -
  have "read_all C (length ms) buf chunks = Some (map fst ms)"
    by (rule read_all_frames) (use assms in \<open>auto simp: framed_def wire_bytes_def list_all_iff\<close>)
  then show ?thesis by (simp add: client_session_def)
qed

text \<open>
  However the network cuts the server's answer into chunks, an open call is completed with it, and an open
  stream delivers the frames of the handler and its end.
\<close>

lemma call_exchange:
  assumes "framed C ms" "map fst ms = Process kc mv svc msg" "buf @ concat chunks = wire_bytes ms"
    and n: "n = RequestID (header msg)" and s: "started_stream kc svc msg = None"
    and "n \<in> mpending m" "mfut m n = Some f" "\<not> fcomplete f"
  shows "\<exists>m' f. client_session C (length ms) buf chunks m = Some m' \<and> mfut m' n = Some f \<and>
    Future_Get f None = Some (answer_value (Process kc mv svc msg))"
proof -
  have r: "client_session C (length ms) buf chunks m = readLoop (Process kc mv svc msg) m"
    using client_session_framed [OF assms(1,3)] assms(2) by simp
  obtain e b where p: "Process kc mv svc msg = [\<lparr>header = reply_header n StreamNone e, body = b\<rparr>]"
    using Process_single [OF s] n by blast
  show ?thesis unfolding r using call_answered [OF assms(6-8) p] by blast
qed

lemma stream_exchange:
  assumes "framed C ms" "map fst ms = Process kc mv svc msg" "buf @ concat chunks = wire_bytes ms"
    and n: "n = RequestID (header msg)" and s: "started_stream kc svc msg = Some (frames, err)"
    and "n \<in> mstreams m" "mstr m n = Some NewClientStreamConn" "length frames \<le> 64"
  shows "\<exists>m' s. client_session C (length ms) buf chunks m = Some m' \<and> mstr m' n = Some s \<and>
    recv_all s (length frames + 1) = Some (map Inr frames @ [Inl (case err of Some e \<Rightarrow> e | None \<Rightarrow> EOF)])"
proof -
  have r: "client_session C (length ms) buf chunks m = readLoop (Process kc mv svc msg) m"
    using client_session_framed [OF assms(1,3)] assms(2) by simp
  show ?thesis unfolding r using stream_answered [OF assms(6-8) Process_stream [OF s, folded n]] by blast
qed

end
