(* ===== verification/Rpc_Conn.thy ===== *)
theory Rpc_Conn
  imports Rpc_Mux
begin

text \<open>
  Connections in use: a store of multiplexed connections, the pool that dials, hands out and closes them
  (\<open>internal/transport/tcp_connection_pool.go\<close>), and a \<open>ClientConn\<close> to a fixed address
  (\<open>pkg/rpc/client.go\<close>) on top of them. Connections are objects that pools and callers share, so they are
  numbers into the store. What happens outside the code during one operation is its argument \<open>netenv\<close>.
\<close>

record Net =
  muxes :: "nat \<Rightarrow> Mux"
  fresh :: nat
  wire :: "(nat \<times> Message) list"

definition newNet :: Net where
  "newNet = \<lparr>muxes = (\<lambda>_. newMux), fresh = 0, wire = []\<rparr>"

text \<open>
  Whether dialling succeeds, whether the context has ended before, what the codec makes of the arguments,
  and with which error the write ends.
\<close>

record netenv =
  ne_dial :: bool
  ne_ctx :: bool
  ne_body :: "bytes option"
  ne_write :: "string option"

definition dead :: "Net \<Rightarrow> nat \<Rightarrow> bool" where
  "dead w c = mclosed (muxes w c)"

definition set_mux :: "nat \<Rightarrow> Mux \<Rightarrow> Net \<Rightarrow> Net" where
  "set_mux c m w = w\<lparr>muxes := (muxes w)(c := m)\<rparr>"

subsection \<open>The pool\<close>

definition acquire :: "netenv \<Rightarrow> Net \<Rightarrow> nat ConnectionPool \<Rightarrow> Net \<times> nat ConnectionPool \<times> (pool_error + nat)" where
  "acquire e w p =
    (case pool_Acquire (dead w) (if ne_dial e then Some (fresh w) else None) (ne_ctx e) p of
       (p, Inl err) \<Rightarrow> (w, p, Inl err)
     | (p, Inr c) \<Rightarrow>
         (if c = fresh w then w\<lparr>muxes := (muxes w)(c := newMux), fresh := c + 1\<rparr> else w, p, Inr c))"

definition pool_Close :: "Net \<Rightarrow> nat ConnectionPool \<Rightarrow> Net \<times> nat ConnectionPool" where
  "pool_Close w p =
    (if pool_closed p then (w, p)
     else (foldl (\<lambda>w c. set_mux c (mux_Close (muxes w c)) w) w (conns p), p\<lparr>pool_closed := True\<rparr>))"

subsection \<open>Calls and streams on a fixed address\<close>

datatype call_error = PoolErr pool_error | EncodeErr | SendErr string | CallErr string | DecodeErr string

definition request :: "byte \<Rightarrow> string \<Rightarrow> string \<Rightarrow> bytes \<Rightarrow> 64 word \<Rightarrow> Message" where
  "request ct service meth b n =
    \<lparr>header = \<lparr>RequestID = n, ServiceName = service, MethodName = meth, HError = [], CodecType = ct,
       Compression = CompressionGzip, StreamFlag = StreamNone\<rparr>, body = b\<rparr>"

text \<open>Encoding the arguments and sending the request on a connection, as a call or as a stream.\<close>

definition send_on :: "(string option \<Rightarrow> Mux \<Rightarrow> Mux \<times> (string + 64 word)) \<Rightarrow> netenv \<Rightarrow> byte \<Rightarrow> string \<Rightarrow> string \<Rightarrow> nat \<Rightarrow> Net
    \<Rightarrow> Net \<times> (call_error + nat \<times> 64 word)" where
  "send_on send e ct service meth c w =
    (case ne_body e of
       None \<Rightarrow> (w, Inl EncodeErr)
     | Some b \<Rightarrow>
         (case send (ne_write e) (muxes w c) of
            (m, Inl err) \<Rightarrow> (set_mux c m w, Inl (SendErr err))
          | (m, Inr n) \<Rightarrow> ((set_mux c m w)\<lparr>wire := wire w @ [(c, request ct service meth b n)]\<rparr>, Inr (c, n))))"

definition sendAsyncStatic :: "netenv \<Rightarrow> byte \<Rightarrow> string \<Rightarrow> string \<Rightarrow> Net \<Rightarrow> nat ConnectionPool
    \<Rightarrow> Net \<times> nat ConnectionPool \<times> (call_error + nat \<times> 64 word)" where
  "sendAsyncStatic e ct service meth w p =
    (case acquire e w p of
       (w, p, Inl err) \<Rightarrow> (w, p, Inl (PoolErr err))
     | (w, p, Inr c) \<Rightarrow> let (w, r) = send_on mux_SendAsync e ct service meth c w in (w, p, r))"

definition newStreamStatic :: "netenv \<Rightarrow> byte \<Rightarrow> string \<Rightarrow> string \<Rightarrow> Net \<Rightarrow> nat ConnectionPool
    \<Rightarrow> Net \<times> nat ConnectionPool \<times> (call_error + nat \<times> 64 word)" where
  "newStreamStatic e ct service meth w p =
    (case acquire e w p of
       (w, p, Inl err) \<Rightarrow> (w, p, Inl (PoolErr err))
     | (w, p, Inr c) \<Rightarrow> let (w, r) = send_on mux_SendStream e ct service meth c w in (w, p, r))"

text \<open>
  Waiting for a future: until it is done or the context ends; when both have happened, \<open>select\<close> may take
  either (\<open>ctx_first\<close>). The result is decoded by \<open>unm\<close>.
\<close>

definition decodeResult :: "(bytes \<Rightarrow> string + 'a) \<Rightarrow> Future \<Rightarrow> call_error + 'a" where
  "decodeResult unm f =
    (case ferr f of
       Some e \<Rightarrow> Inl (CallErr e)
     | None \<Rightarrow> (case unm (fres f) of Inl e \<Rightarrow> Inl (DecodeErr e) | Inr x \<Rightarrow> Inr x))"

definition GetResultWithContext :: "(bytes \<Rightarrow> string + 'a) \<Rightarrow> Future \<Rightarrow> string option \<Rightarrow> bool \<Rightarrow> (call_error + 'a) option" where
  "GetResultWithContext unm f ctx_err ctx_first =
    (case ctx_err of
       Some e \<Rightarrow> if ctx_first \<or> \<not> fcomplete f then Some (Inl (CallErr e)) else Some (decodeResult unm f)
     | None \<Rightarrow> if \<not> fcomplete f then None else Some (decodeResult unm f))"

text \<open>\<open>meanwhile\<close> is what happens to the connections until the call stops waiting.\<close>

definition invokeStatic :: "netenv \<Rightarrow> byte \<Rightarrow> string \<Rightarrow> string \<Rightarrow> (bytes \<Rightarrow> string + 'a) \<Rightarrow> (Net \<Rightarrow> Net) \<Rightarrow> string option \<Rightarrow> bool
    \<Rightarrow> Net \<Rightarrow> nat ConnectionPool \<Rightarrow> (Net \<times> nat ConnectionPool \<times> (call_error + 'a)) option" where
  "invokeStatic e ct service meth unm meanwhile ctx_err ctx_first w p =
    (case sendAsyncStatic e ct service meth w p of
       (w, p, Inl err) \<Rightarrow> Some (w, p, Inl err)
     | (w, p, Inr (c, n)) \<Rightarrow>
         let w = meanwhile w in
         do { f \<leftarrow> mfut (muxes w c) n; r \<leftarrow> GetResultWithContext unm f ctx_err ctx_first; Some (w, p, r) })"

text \<open>
  An asynchronous call returns its future at once; a goroutine waits until it is done or the timer fires
  (\<open>meanwhile\<close> is what happens until then) and in that case completes it itself.
\<close>

definition timer_goroutine :: "(Net \<Rightarrow> Net) \<Rightarrow> nat \<times> 64 word \<Rightarrow> Net \<Rightarrow> Net" where
  "timer_goroutine meanwhile fut w =
    (let (c, n) = fut; w = meanwhile w in
     case mfut (muxes w c) n of
       None \<Rightarrow> w
     | Some f \<Rightarrow> if fcomplete f then w else set_mux c (mux_timeout n (muxes w c)) w)"

definition invokeAsyncStatic :: "netenv \<Rightarrow> byte \<Rightarrow> string \<Rightarrow> string \<Rightarrow> Net \<Rightarrow> nat ConnectionPool
    \<Rightarrow> Net \<times> nat ConnectionPool \<times> (call_error + (nat \<times> 64 word) \<times> ((Net \<Rightarrow> Net) \<Rightarrow> Net \<Rightarrow> Net))" where
  "invokeAsyncStatic e ct service meth w p =
    (case sendAsyncStatic e ct service meth w p of
       (w, p, Inl err) \<Rightarrow> (w, p, Inl err)
     | (w, p, Inr fut) \<Rightarrow> (w, p, Inr (fut, \<lambda>meanwhile. timer_goroutine meanwhile fut)))"

subsection \<open>What can happen to a connection\<close>

datatype net_op = OCall netenv string string | OStream netenv string string | ODeliver nat Message
  | OReadErr nat string | OTimer nat "64 word" | OClose

text \<open>The request counter of the connection is not about to wrap.\<close>

definition seq_free :: "netenv \<Rightarrow> Net \<Rightarrow> nat ConnectionPool \<Rightarrow> bool" where
  "seq_free e w p = (case acquire e w p of (w, p, Inl _) \<Rightarrow> True | (w, p, Inr c) \<Rightarrow> mseq (muxes w c) \<noteq> - 1)"

fun net_step :: "byte \<Rightarrow> Net \<times> nat ConnectionPool \<Rightarrow> net_op \<Rightarrow> (Net \<times> nat ConnectionPool) option" where
  "net_step ct (w, p) (OCall e service meth) =
     (if seq_free e w p then let (w, p, _) = sendAsyncStatic e ct service meth w p in Some (w, p) else None)"
| "net_step ct (w, p) (OStream e service meth) =
     (if seq_free e w p then let (w, p, _) = newStreamStatic e ct service meth w p in Some (w, p) else None)"
| "net_step ct (w, p) (ODeliver c msg) =
     (if c < fresh w then map_option (\<lambda>m. (set_mux c m w, p)) (readLoop_msg msg (muxes w c)) else None)"
| "net_step ct (w, p) (OReadErr c err) =
     (if c < fresh w then Some (set_mux c (mux_shutdown err (muxes w c)) w, p) else None)"
| "net_step ct (w, p) (OTimer c n) =
     (if c < fresh w then Some (set_mux c (mux_timeout n (muxes w c)) w, p) else None)"
| "net_step ct (w, p) OClose = Some (pool_Close w p)"

inductive net_reach :: "byte \<Rightarrow> Net \<times> nat ConnectionPool \<Rightarrow> bool" for ct where
  net_init: "net_reach ct (newNet, NewConnectionPool 1)"
| net_next: "net_reach ct s \<Longrightarrow> net_step ct s l = Some s' \<Longrightarrow> net_reach ct s'"

subsection \<open>The pool owns every live connection\<close>

lemma pool_Acquire_spec:
  assumes "pool_Acquire isdead dial ctx p = (p', r)" "pool_ok p"
  shows "pool_closed p' = pool_closed p \<and> maxActive p' = maxActive p \<and> pool_ok p' \<and>
    (\<forall>c \<in> set (conns p). isdead c \<or> c \<in> set (conns p')) \<and>
    (case r of
       Inl err \<Rightarrow> set (conns p') \<subseteq> set (conns p)
     | Inr c \<Rightarrow> \<not> pool_closed p \<and> c \<in> set (conns p') \<and>
         (c \<in> set (conns p) \<and> \<not> isdead c \<and> set (conns p') \<subseteq> set (conns p) \<or>
          dial = Some c \<and> set (conns p') \<subseteq> insert c (set (conns p))))"
proof (cases "pool_closed p \<or> ctx \<or> length (conns p) < maxActive p")
  case True
  then show ?thesis using assms by (auto simp: pool_Acquire_def pool_ok_def split: if_splits option.splits)
next
  case F: False
  show ?thesis
  proof (cases "conns p = []")
    case True
    then have "acquire_loop isdead (conns p) (next_idx p) 0 (length (conns p)) = Exhausted []"
      by (subst acquire_loop.simps) simp
    then show ?thesis using assms F True by (auto simp: pool_Acquire_def pool_ok_def split: option.splits)
  next
    case ne: False
    note S = acquire_loop_spec [OF ne, of isdead "next_idx p"]
    show ?thesis
    proof (cases "acquire_loop isdead (conns p) (next_idx p) 0 (length (conns p))")
      case (Found c cs nxt)
      then have f: "c \<in> set cs" "\<not> isdead c" "filter (Not \<circ> isdead) cs = filter (Not \<circ> isdead) (conns p)"
        "length cs \<le> length (conns p)" "set cs \<subseteq> set (conns p)" using S by simp_all
      have al: "\<forall>x \<in> set (conns p). isdead x \<or> x \<in> set cs"
      proof (intro ballI disjCI)
        fix x
        assume "x \<in> set (conns p)" "x \<notin> set cs"
        moreover from this have "x \<notin> set (filter (Not \<circ> isdead) (conns p))" unfolding f(3) [symmetric] by simp
        ultimately show "isdead x" by simp
      qed
      with assms F Found f show ?thesis by (auto simp: pool_Acquire_def pool_ok_def)
    next
      case (Exhausted cs)
      then show ?thesis using assms F S by (auto simp: pool_Acquire_def pool_ok_def list_all_iff split: option.splits)
    qed
  qed
qed

definition conn_inv :: "nat set \<Rightarrow> Net \<Rightarrow> nat ConnectionPool \<Rightarrow> bool" where
  "conn_inv own w p \<longleftrightarrow> pool_ok p \<and>
    (\<forall>c < fresh w. mux_inv (muxes w c)) \<and>
    (\<forall>c \<in> set (conns p). c < fresh w) \<and>
    (\<forall>c < fresh w. mclosed (muxes w c) \<or> c \<in> set (conns p) \<or> c \<in> own) \<and>
    (pool_closed p \<longrightarrow> (\<forall>c \<in> set (conns p). mclosed (muxes w c)))"

lemma conn_inv_init: "conn_inv {} newNet (NewConnectionPool n)"
  by (simp add: conn_inv_def newNet_def NewConnectionPool_def pool_ok_def)

lemma set_mux_sel [simp]: "muxes (set_mux c m w) = (muxes w)(c := m)" "fresh (set_mux c m w) = fresh w"
  "wire (set_mux c m w) = wire w"
  by (simp_all add: set_mux_def)

lemma conn_inv_set_mux:
  assumes "conn_inv own w p" "mux_inv m" "mclosed (muxes w c) \<longrightarrow> mclosed m"
  shows "conn_inv own (set_mux c m w) p"
  using assms unfolding conn_inv_def by auto

lemma conn_inv_wire [simp]: "conn_inv own (w\<lparr>wire := x\<rparr>) p = conn_inv own w p"
  by (simp add: conn_inv_def)

text \<open>What \<open>Acquire\<close> hands out is an open connection of the pool.\<close>

lemma acquire_spec:
  assumes I: "conn_inv own w p" and a: "acquire e w p = (w', p', r)"
  shows "conn_inv own w' p'" "wire w' = wire w" "pool_closed p' = pool_closed p" "maxActive p' = maxActive p"
    and "\<And>c. c < fresh w \<Longrightarrow> muxes w' c = muxes w c" "fresh w \<le> fresh w'"
    and "r = Inr c \<Longrightarrow> \<not> pool_closed p \<and> c < fresh w' \<and> \<not> mclosed (muxes w' c)"
proof -
  obtain p1 r1 where p: "pool_Acquire (dead w) (if ne_dial e then Some (fresh w) else None) (ne_ctx e) p = (p1, r1)"
    by fastforce
  have ok: "pool_ok p" and mi: "\<forall>c < fresh w. mux_inv (muxes w c)" and lt: "\<forall>c \<in> set (conns p). c < fresh w"
    and al: "\<forall>c < fresh w. mclosed (muxes w c) \<or> c \<in> set (conns p) \<or> c \<in> own"
    and cl: "pool_closed p \<longrightarrow> (\<forall>c \<in> set (conns p). mclosed (muxes w c))"
    using I unfolding conn_inv_def by auto
  note S = pool_Acquire_spec [OF p ok]
  have r: "r = r1" "p' = p1"
    and w: "w' = (case r1 of Inr c \<Rightarrow> if c = fresh w then w\<lparr>muxes := (muxes w)(c := newMux), fresh := c + 1\<rparr> else w | _ \<Rightarrow> w)"
    using a p by (auto simp: acquire_def split: sum.splits if_splits)
  show "wire w' = wire w" "pool_closed p' = pool_closed p" "maxActive p' = maxActive p"
    "\<And>c. c < fresh w \<Longrightarrow> muxes w' c = muxes w c" "fresh w \<le> fresh w'"
    using w S r by (auto split: sum.splits)
  show "conn_inv own w' p'"
  proof (cases r1)
    case (Inl err)
    then show ?thesis using S w r mi lt al cl unfolding conn_inv_def by (fastforce simp: dead_def)
  next
    case (Inr d)
    show ?thesis
    proof (cases "d = fresh w")
      case True
      then have w': "w' = w\<lparr>muxes := (muxes w)(d := newMux), fresh := d + 1\<rparr>" using w Inr by simp
      have D: "d \<in> set (conns p1)" "set (conns p1) \<subseteq> insert d (set (conns p))" "\<not> pool_closed p"
        "\<forall>c \<in> set (conns p). dead w c \<or> c \<in> set (conns p1)" "pool_ok p1" "pool_closed p1 = pool_closed p"
        using S Inr lt True by auto
      show ?thesis unfolding conn_inv_def w' r
        using D mi lt al mux_inv_new True by (auto simp: dead_def less_Suc_eq)
    next
      case False
      then have "w' = w" using w Inr by simp
      moreover have "d \<in> set (conns p)" "set (conns p1) \<subseteq> set (conns p)" using S Inr False by (auto split: if_splits)
      ultimately show ?thesis using S Inr r mi lt al cl unfolding conn_inv_def by (auto simp: dead_def)
    qed
  qed
  show "r = Inr c \<Longrightarrow> \<not> pool_closed p \<and> c < fresh w' \<and> \<not> mclosed (muxes w' c)"
    using S r w lt by (auto simp: dead_def newMux_def split: if_splits)
qed

lemma send_keeps:
  "mclosed m \<Longrightarrow> mclosed (fst (mux_SendAsync wr m))" "mclosed m \<Longrightarrow> mclosed (fst (mux_SendStream wr m))"
  by (simp_all add: mux_SendAsync_def mux_SendStream_def)

lemma conn_inv_send_on:
  assumes "conn_inv own w p" "send_on send e ct service meth c w = (w', r)" "c < fresh w" "mseq (muxes w c) \<noteq> - 1"
    and "\<And>wr m. mux_inv m \<Longrightarrow> mseq m \<noteq> - 1 \<Longrightarrow> mux_inv (fst (send wr m))"
    and "\<And>wr m. mclosed m \<Longrightarrow> mclosed (fst (send wr m))"
  shows "conn_inv own w' p"
proof (cases "ne_body e")
  case None
  then show ?thesis using assms by (simp add: send_on_def)
next
  case (Some b)
  obtain m r' where m: "send (ne_write e) (muxes w c) = (m, r')" by fastforce
  have "mux_inv (muxes w c)" using assms(1,3) by (auto simp: conn_inv_def)
  then have "conn_inv own (set_mux c m w) p"
    using assms(4) assms(5,6) [of "muxes w c" "ne_write e"] m by (intro conn_inv_set_mux [OF assms(1)]) auto
  moreover have "w' = set_mux c m w \<or> (\<exists>x. w' = (set_mux c m w)\<lparr>wire := x\<rparr>)"
    using assms(2) m Some by (auto simp: send_on_def split: sum.splits)
  ultimately show ?thesis by auto
qed

lemma conn_inv_call:
  assumes I: "conn_inv own w p" and s: "seq_free e w p"
  shows "sendAsyncStatic e ct service meth w p = (w', p', r) \<Longrightarrow> conn_inv own w' p'"
    and "newStreamStatic e ct service meth w p = (w', p', r) \<Longrightarrow> conn_inv own w' p'"
proof -
  obtain w1 p1 a where a: "acquire e w p = (w1, p1, a)" by (metis prod_cases3)
  note A = acquire_spec [OF I a]
  have "conn_inv own w' p1" if "send_on send e ct service meth c w1 = (w', r)" "a = Inr c"
    "send = mux_SendAsync \<or> send = mux_SendStream" for send c
    using A(1,7) that s a mux_inv_SendAsync mux_inv_SendStream send_keeps
    by (intro conn_inv_send_on [of own w1 p1 send e ct service meth c w' r]) (auto simp: seq_free_def)
  then show "sendAsyncStatic e ct service meth w p = (w', p', r) \<Longrightarrow> conn_inv own w' p'"
    "newStreamStatic e ct service meth w p = (w', p', r) \<Longrightarrow> conn_inv own w' p'"
    using a A(1) by (auto simp: sendAsyncStatic_def newStreamStatic_def split: sum.splits prod.splits)
qed

lemma close_fold:
  "muxes (foldl (\<lambda>w c. set_mux c (mux_Close (muxes w c)) w) w cs) c = (if c \<in> set cs then mux_Close (muxes w c) else muxes w c) \<and>
   fresh (foldl (\<lambda>w c. set_mux c (mux_Close (muxes w c)) w) w cs) = fresh w"
proof (induction cs arbitrary: w)
  case (Cons d cs)
  have "mux_Close (mux_Close m) = mux_Close m" for m by (simp add: mux_Close_def mux_shutdown_def)
  then show ?case using Cons.IH [of "set_mux d (mux_Close (muxes w d)) w"] by auto
qed simp

lemma mux_Close_closed [simp]: "mclosed (mux_Close m)" "mclosed (mux_shutdown e m)"
  by (simp_all add: mux_Close_def mux_shutdown_def)

lemma conn_inv_close: "conn_inv own w p \<Longrightarrow> pool_Close w p = (w', p') \<Longrightarrow> conn_inv own w' p' \<and> pool_closed p'"
  by (auto simp: pool_Close_def conn_inv_def pool_ok_def close_fold mux_inv_Close split: if_splits)

lemma readLoop_msg_open: "readLoop_msg msg m = Some m' \<Longrightarrow> mclosed m' = mclosed m"
  by (auto simp: readLoop_msg_def mux_complete_def mux_terminate_def Let_def split: if_splits option.splits)

lemma conn_inv_step:
  assumes I: "conn_inv own w p" and st: "net_step ct (w, p) l = Some (w', p')"
  shows "conn_inv own w' p'"
proof -
  have mi: "mux_inv (muxes w c)" if "c < fresh w" for c using I that by (simp add: conn_inv_def)
  show ?thesis
  proof (cases l)
    case (ODeliver c msg)
    then obtain m where m: "c < fresh w" "readLoop_msg msg (muxes w c) = Some m" "w' = set_mux c m w" "p' = p"
      using st by (auto split: if_splits)
    then show ?thesis
      using conn_inv_set_mux [OF I mux_inv_read [OF mi m(2)]] readLoop_msg_open [OF m(2)] by simp
  next
    case (OCall e service meth)
    then show ?thesis using st conn_inv_call(1) [OF I] by (auto split: if_splits prod.splits)
  next
    case (OStream e service meth)
    then show ?thesis using st conn_inv_call(2) [OF I] by (auto split: if_splits prod.splits)
  next
    case (OReadErr c err)
    then show ?thesis using st conn_inv_set_mux [OF I mux_inv_shutdown [OF mi]] by (auto split: if_splits)
  next
    case (OTimer c n)
    have "mclosed (mux_timeout n (muxes w c)) = mclosed (muxes w c)" by (simp add: mux_timeout_def)
    then show ?thesis using OTimer st conn_inv_set_mux [OF I mux_inv_timeout [OF mi]] by (auto split: if_splits)
  next
    case OClose
    then show ?thesis using st conn_inv_close [OF I] by simp
  qed
qed

lemma conn_inv_reach: "net_reach ct s \<Longrightarrow> conn_inv {} (fst s) (snd s)"
proof (induction rule: net_reach.induct)
  case (net_next s l s')
  then show ?case using conn_inv_step [of "{}" "fst s" "snd s" ct l "fst s'" "snd s'"] by simp
qed (simp add: conn_inv_init)

lemma net_step_max: "net_step ct (w, p) l = Some (w', p') \<Longrightarrow> conn_inv {} w p \<Longrightarrow> maxActive p' = maxActive p"
  by (cases l) (auto simp: sendAsyncStatic_def newStreamStatic_def pool_Close_def
      dest: acquire_spec(4) split: if_splits sum.splits prod.splits)

lemma max_reach: "net_reach ct s \<Longrightarrow> maxActive (snd s) = 1"
proof (induction rule: net_reach.induct)
  case (net_next s l s')
  then show ?case
    using net_step_max [of ct "fst s" "snd s" l "fst s'" "snd s'"] conn_inv_reach [of ct s] by simp
qed (simp add: NewConnectionPool_def)

text \<open>
  A client connection has at most one open connection at a time, and it is in the pool. After \<open>Close\<close> none
  is left, every call has been completed, every stream has ended, and further calls are refused.
\<close>

lemma one_live_connection:
  assumes "net_reach ct (w, p)" "c < fresh w" "d < fresh w" "\<not> mclosed (muxes w c)" "\<not> mclosed (muxes w d)"
  shows "c = d"
proof -
  have I: "conn_inv {} w p" using conn_inv_reach [OF assms(1)] by simp
  then have "c \<in> set (conns p)" "d \<in> set (conns p)" using assms(2-) by (auto simp: conn_inv_def)
  moreover have "length (conns p) \<le> 1" using I max_reach [OF assms(1)] by (simp add: conn_inv_def pool_ok_def)
  ultimately show ?thesis by (cases "conns p") auto
qed

lemma closed_pool:
  assumes I: "conn_inv {} w p" and cl: "pool_closed p" and c: "c < fresh w"
  shows "mclosed (muxes w c)" "mfut (muxes w c) n = Some f \<Longrightarrow> fcomplete f"
    "mstr (muxes w c) n = Some s \<Longrightarrow> termErr s \<noteq> None"
proof -
  show m: "mclosed (muxes w c)" using I cl c by (auto simp: conn_inv_def)
  have i: "mux_inv (muxes w c)" using I c by (simp add: conn_inv_def)
  show "mfut (muxes w c) n = Some f \<Longrightarrow> fcomplete f" "mstr (muxes w c) n = Some s \<Longrightarrow> termErr s \<noteq> None"
    using mux_closed [OF i m] mux_fut [OF i, of n f] mux_str [OF i, of n s] by simp_all
qed

lemma closed_refuses:
  assumes "pool_closed p"
  shows "sendAsyncStatic e ct service meth w p = (w, p, Inl (PoolErr ErrPoolClosed))"
    "newStreamStatic e ct service meth w p = (w, p, Inl (PoolErr ErrPoolClosed))"
  using assms by (simp_all add: sendAsyncStatic_def newStreamStatic_def acquire_def pool_Acquire_def)

lemma get_result:
  "Future_Get f None = Some r \<Longrightarrow> GetResultWithContext unm f None x =
    Some (case r of Inl err \<Rightarrow> Inl (CallErr err) | Inr b \<Rightarrow> (case unm b of Inl err \<Rightarrow> Inl (DecodeErr err) | Inr x \<Rightarrow> Inr x))"
  by (auto simp: Future_Get_def GetResultWithContext_def decodeResult_def split: if_splits option.splits)

text \<open>What a request that was sent leaves behind.\<close>

lemma call_sent:
  assumes "sendAsyncStatic e ct service meth w p = (w', p', Inr (c, n))" "conn_inv {} w p"
  shows "\<exists>b. ne_body e = Some b \<and> wire w' = wire w @ [(c, request ct service meth b n)]"
    "n \<in> mpending (muxes w' c)" "mfut (muxes w' c) n = Some NewFuture"
proof -
  obtain w1 p1 where a: "acquire e w p = (w1, p1, Inr c)" and s: "send_on mux_SendAsync e ct service meth c w1 = (w', Inr (c, n))"
    using assms(1) by (auto simp: sendAsyncStatic_def send_on_def split: prod.splits sum.splits option.splits)
  show "\<exists>b. ne_body e = Some b \<and> wire w' = wire w @ [(c, request ct service meth b n)]"
    using s acquire_spec(2) [OF assms(2) a] by (auto simp: send_on_def split: option.splits prod.splits sum.splits)
  show "n \<in> mpending (muxes w' c)" "mfut (muxes w' c) n = Some NewFuture"
    using s by (auto simp: send_on_def mux_SendAsync_def Let_def split: option.splits prod.splits sum.splits if_splits)
qed

lemma stream_sent:
  assumes "newStreamStatic e ct service meth w p = (w', p', Inr (c, n))" "conn_inv {} w p"
  shows "\<exists>b. ne_body e = Some b \<and> wire w' = wire w @ [(c, request ct service meth b n)]"
    "n \<in> mstreams (muxes w' c)" "mstr (muxes w' c) n = Some NewClientStreamConn"
proof -
  obtain w1 p1 where a: "acquire e w p = (w1, p1, Inr c)" and s: "send_on mux_SendStream e ct service meth c w1 = (w', Inr (c, n))"
    using assms(1) by (auto simp: newStreamStatic_def send_on_def split: prod.splits sum.splits option.splits)
  show "\<exists>b. ne_body e = Some b \<and> wire w' = wire w @ [(c, request ct service meth b n)]"
    using s acquire_spec(2) [OF assms(2) a] by (auto simp: send_on_def split: option.splits prod.splits sum.splits)
  show "n \<in> mstreams (muxes w' c)" "mstr (muxes w' c) n = Some NewClientStreamConn"
    using s by (auto simp: send_on_def mux_SendStream_def Let_def split: option.splits prod.splits sum.splits if_splits)
qed

text \<open>
  A full stream that nobody receives from stops the read loop: whatever follows on the connection, the
  answers of other calls too, stays unread.
\<close>

lemma full_stream_blocks:
  assumes "n \<in> mstreams m" "mstr m n = Some s" "termErr s = None" "ctxErr s = None" "length (ch s) \<le> 64" "length (ch s) + length frames > 64"
  shows "readLoop (map (stream_Send n) frames @ msgs) m = None"
  using assms
proof (induction frames arbitrary: m s)
  case (Cons b bs)
  show ?case
  proof (cases "length (ch s) < 64")
    case True
    let ?s = "s\<lparr>ch := ch s @ [b]\<rparr>"
    have "readLoop_msg (stream_Send n b) m = Some (m\<lparr>mstr := (mstr m)(n \<mapsto> ?s)\<rparr>)"
      using Cons.prems True by (simp add: readLoop_msg_def stream_Send_def stream_Push_def)
    then show ?thesis using Cons.IH [of "m\<lparr>mstr := (mstr m)(n \<mapsto> ?s)\<rparr>" ?s] Cons.prems True by simp
  next
    case False
    then have "readLoop_msg (stream_Send n b) m = None"
      using Cons.prems by (simp add: readLoop_msg_def stream_Send_def stream_Push_def)
    then show ?thesis by simp
  qed
qed simp

text \<open>With its timer, an asynchronous call is always completed, unless its future is gone from the connection.\<close>

lemma timer_completes:
  "mfut (muxes (meanwhile w) c) n \<noteq> None \<Longrightarrow>
    \<exists>f. mfut (muxes (timer_goroutine meanwhile (c, n) w) c) n = Some f \<and> fcomplete f"
  by (auto simp: timer_goroutine_def mux_timeout_def Let_def)

text \<open>
  A synchronous call that times out gives up its future, but its entry stays in the table of pending calls
  until an answer comes or the connection is closed.
\<close>

lemma timeout_stays_pending:
  assumes "sendAsyncStatic e ct service meth w p = (w', p', Inr (c, n))" "conn_inv {} w p"
  shows "invokeStatic e ct service meth unm id (Some DeadlineExceeded) x w p = Some (w', p', Inl (CallErr DeadlineExceeded))"
    and "n \<in> mpending (muxes w' c)"
  using call_sent(2,3) [OF assms] assms(1) by (auto simp: invokeStatic_def GetResultWithContext_def NewFuture_def)

end
