(* ===== verification/Rpc_Balance.thy ===== *)
theory Rpc_Balance
  imports Rpc_Weighted
begin

text \<open>
  The interface \<open>LoadBalancer\<close> (\<open>internal/load_balance/balancer.go\<close>) as a locale: what a client relies on
  when it calls \<open>Select\<close>. The three balancers of the package provide it; \<open>ok\<close> says for which lists of
  instances. \<open>WeightedRR\<close> only serves lists as long as its weights.
\<close>

locale balancer =
  fixes select :: "'lb \<Rightarrow> inst list \<Rightarrow> 'lb \<times> inst"
    and ok :: "'lb \<Rightarrow> inst list \<Rightarrow> bool"
  assumes select_mem: "ok lb xs \<Longrightarrow> xs \<noteq> [] \<Longrightarrow> snd (select lb xs) \<in> set xs"
    and select_ok: "ok lb ys \<Longrightarrow> ok (fst (select lb xs)) ys"
    and select_empty: "select lb [] = (lb, [])"

text \<open>Successive selections from lists that may change in between.\<close>

fun choices :: "('lb \<Rightarrow> inst list \<Rightarrow> 'lb \<times> inst) \<Rightarrow> 'lb \<Rightarrow> inst list list \<Rightarrow> inst list" where
  "choices select lb [] = []"
| "choices select lb (xs # xss) = (let (lb, x) = select lb xs in x # choices select lb xss)"

context balancer
begin

lemma choices_mem:
  "\<forall>xs \<in> set xss. ok lb xs \<and> xs \<noteq> [] \<Longrightarrow> list_all2 (\<lambda>x xs. x \<in> set xs) (choices select lb xss) xss"
proof (induction xss arbitrary: lb)
  case (Cons xs xss)
  obtain lb' x where s: "select lb xs = (lb', x)" by fastforce
  have "ok lb' ys" if "ys \<in> set xss" for ys using select_ok [of lb ys xs] Cons.prems that s by simp
  then show ?case using Cons s select_mem [of lb xs] by simp
qed simp

end

subsection \<open>Round robin and random\<close>

lemma rr_balancer: "length xs < 2 ^ 64 \<Longrightarrow> xs \<noteq> [] \<Longrightarrow> snd (rr_Select lb xs) \<in> set xs"
  by (simp add: rr_Select_nth)

interpretation rr: balancer rr_Select "\<lambda>_ xs. length xs < 2 ^ 64"
  by unfold_locales (erule (1) rr_balancer, simp_all add: rr_Select_def)

text \<open>The random source is a state with a successor function; \<open>Intn\<close> stays below its argument.\<close>

definition rnd_Select :: "('r \<Rightarrow> nat) \<Rightarrow> ('r \<Rightarrow> 'r) \<Rightarrow> 'r \<Rightarrow> inst list \<Rightarrow> 'r \<times> inst" where
  "rnd_Select draw nxt r xs = (if length xs = 0 then (r, []) else (nxt r, random_Select (\<lambda>n. draw r mod n) xs))"

interpretation rnd: balancer "rnd_Select draw nxt" "\<lambda>_ _. True" for draw nxt
  by unfold_locales (auto simp: rnd_Select_def random_Select_def)

subsection \<open>Weighted round robin\<close>

definition wrr_ok :: "WeightedRR \<Rightarrow> inst list \<Rightarrow> bool" where
  "wrr_ok w xs \<longleftrightarrow> length (weights w) = length xs \<and> length (currentWeight w) = length (weights w) \<and> totalWeight w > 0"

lemma wrr_loop_ok: "length (fst (wrr_loop ws is cs mx)) = length cs"
  by (induction ws "is" cs mx rule: wrr_loop.induct) (simp_all add: Let_def)

lemma wrr_Select_frame:
  "weights (fst (wrr_Select w xs)) = weights w \<and> totalWeight (fst (wrr_Select w xs)) = totalWeight w \<and>
    length (currentWeight (fst (wrr_Select w xs))) = length (currentWeight w)"
  using wrr_loop_ok [of "weights w" "[0..<length xs]" "currentWeight w" None]
  by (auto simp: wrr_Select_def split: prod.splits option.splits)

lemma wrr_Select_mem:
  assumes "wrr_ok w xs" "xs \<noteq> []"
  shows "snd (wrr_Select w xs) \<in> set xs"
proof -
  obtain m cur where "wrr_loop (weights w) [0..<length xs] (currentWeight w) None = (cur, Some m)" "m < length xs"
    using wrr_loop_max [of "currentWeight w" "length xs" "weights w"] assms by (auto simp: wrr_ok_def)
  then show ?thesis using assms by (simp add: wrr_Select_def wrr_ok_def)
qed

interpretation wrr: balancer wrr_Select wrr_ok
proof unfold_locales
  fix w xs ys
  show "wrr_ok w xs \<Longrightarrow> xs \<noteq> [] \<Longrightarrow> snd (wrr_Select w xs) \<in> set xs" by (rule wrr_Select_mem)
  show "wrr_ok w ys \<Longrightarrow> wrr_ok (fst (wrr_Select w xs)) ys" using wrr_Select_frame [of w xs] by (simp add: wrr_ok_def)
  show "wrr_Select w [] = (w, [])" by (simp add: wrr_Select_def)
qed

text \<open>
  Outside of its contract: with more or fewer instances than weights it returns the empty instance. And the
  weights belong to positions, not to instances, while the registry lists its instances in the order of a
  map: in an unlucky order all selections go to an instance of weight 0 in the user's order.
\<close>

lemma wrr_Select_mismatch: "length xs \<noteq> length (weights w) \<Longrightarrow> wrr_Select w xs = (w, [])"
  by (simp add: wrr_Select_def)

lemma wrr_positions:
  assumes "a \<noteq> b"
  shows "choices wrr_Select (NewWeightedRR [1, 0]) (replicate n [a, b]) = replicate n a"
    "choices wrr_Select (NewWeightedRR [1, 0]) (replicate n [b, a]) = replicate n b"
proof -
  have s: "wrr_Select (NewWeightedRR [1, 0]) [x, y] = (NewWeightedRR [1, 0], x)" for x y
    by (simp add: wrr_Select_def NewWeightedRR_def)
  show "choices wrr_Select (NewWeightedRR [1, 0]) (replicate n [a, b]) = replicate n a"
    "choices wrr_Select (NewWeightedRR [1, 0]) (replicate n [b, a]) = replicate n b"
    by (induction n) (simp_all add: s)
qed

end
