(* ===== verification/Rpc_Dial.thy ===== *)
theory Rpc_Dial
  imports Rpc_Conn Rpc_Client Rpc_Balance
begin

text \<open>
  The client with a registry (\<open>internal/client\<close>) on real connections: one pool for each address, the
  balancer, options, and \<open>Dial\<close> of \<open>pkg/rpc/client.go\<close>, which chooses between a fixed address and the
  registry. \<open>Rpc_Client.invokeAsync\<close>, where the network is an argument, is its abstraction.
\<close>

record 'lb Client =
  core :: RpcClient
  clb :: 'lb
  ctimeout :: int
  ccodec :: byte
  cpools :: "string \<Rightarrow> nat ConnectionPool option"

definition CodecJSON :: byte where "CodecJSON = 1"

text \<open>Options. \<open>known\<close> are the codecs that are registered; \<open>None\<close> is nil.\<close>

type_synonym 'lb ClientOption = "'lb Client \<Rightarrow> string + 'lb Client"

definition WithClientCodec :: "(byte \<Rightarrow> bool) \<Rightarrow> byte \<Rightarrow> 'lb ClientOption" where
  "WithClientCodec known t c = (if \<not> known t then Inl ''codec: type not registered'' else Inr (c\<lparr>ccodec := t\<rparr>))"

definition WithClientTimeout :: "int \<Rightarrow> 'lb ClientOption" where
  "WithClientTimeout d c = (if d \<le> 0 then Inl ''client timeout must be positive'' else Inr (c\<lparr>ctimeout := d\<rparr>))"

definition WithClientLoadBalancer :: "'lb option \<Rightarrow> 'lb ClientOption" where
  "WithClientLoadBalancer lb c =
    (case lb of None \<Rightarrow> Inl ''client load balancer must not be nil'' | Some lb \<Rightarrow> Inr (c\<lparr>clb := lb\<rparr>))"

fun apply_options :: "'lb ClientOption list \<Rightarrow> 'lb ClientOption" where
  "apply_options [] c = Inr c"
| "apply_options (opt # opts) c = (case opt c of Inl e \<Rightarrow> Inl e | Inr c \<Rightarrow> apply_options opts c)"

text \<open>\<open>rr0\<close> is the new round robin balancer that a client starts with.\<close>

definition NewClient :: "(byte \<Rightarrow> bool) \<Rightarrow> 'lb \<Rightarrow> 'lb ClientOption list \<Rightarrow> string + 'lb Client" where
  "NewClient known rr0 opts =
    (if \<not> known CodecJSON then Inl ''codec: type not registered''
     else apply_options opts
       \<lparr>core = \<lparr>limiter = NewTokenBucket 10000, breakers = Map.empty\<rparr>, clb = rr0, ctimeout = 5 * 10 ^ 9,
        ccodec = CodecJSON, cpools = Map.empty\<rparr>)"

text \<open>\<open>Close\<close> visits every pool once, in some order.\<close>

fun close_pools :: "string list \<Rightarrow> Net \<Rightarrow> 'lb Client \<Rightarrow> Net \<times> 'lb Client" where
  "close_pools [] w c = (w, c)"
| "close_pools (a # addrs) w c = (case cpools c a of
      None \<Rightarrow> close_pools addrs w c
    | Some p \<Rightarrow> let (w, p) = pool_Close w p in close_pools addrs w (c\<lparr>cpools := (cpools c)(a \<mapsto> p)\<rparr>))"

subsection \<open>Calls\<close>

definition getPool :: "'lb Client \<Rightarrow> string \<Rightarrow> nat ConnectionPool" where
  "getPool c addr = (case cpools c addr of Some p \<Rightarrow> p | None \<Rightarrow> NewConnectionPool 1)"

text \<open>\<open>instances\<close> is what the registry answers; without a registry it is \<open>None\<close>.\<close>

definition client_getAddr :: "('lb \<Rightarrow> inst list \<Rightarrow> 'lb \<times> inst) \<Rightarrow> (string + inst list) option \<Rightarrow> 'lb Client
    \<Rightarrow> 'lb Client \<times> (string + string)" where
  "client_getAddr select instances c =
    (case instances of
       None \<Rightarrow> (c, Inl ''registry not configured'')
     | Some (Inl err) \<Rightarrow> (c, Inl err)
     | Some (Inr instances) \<Rightarrow>
         if length instances = 0 then (c, Inl ''no instance available'')
         else let (lb, ins) = select (clb c) instances; c = c\<lparr>clb := lb\<rparr> in
           if ins = [] then (c, Inl ''load balancer returned empty address'') else (c, Inr ins))"

definition update_core :: "(RpcClient \<Rightarrow> RpcClient) \<Rightarrow> 'lb Client \<Rightarrow> 'lb Client" where
  "update_core f c = c\<lparr>core := f (core c)\<rparr>"

text \<open>What calls and streams have in common: limiter, address and breaker first; the address and the breaker.\<close>

definition client_admit :: "('lb \<Rightarrow> inst list \<Rightarrow> 'lb \<times> inst) \<Rightarrow> (string + inst list) option \<Rightarrow> int \<Rightarrow> string \<Rightarrow> 'lb Client
    \<Rightarrow> 'lb Client \<times> (invoke_result + string \<times> CircuitBreaker)" where
  "client_admit select instances now service c =
    (let (tb, ok) = bucket_Allow (limiter (core c)); c = update_core (\<lambda>k. k\<lparr>limiter := tb\<rparr>) c in
     if \<not> ok then (c, Inl RateLimited)
     else case client_getAddr select instances c of
       (c, Inl err) \<Rightarrow> (c, Inl (AddrFailed err))
     | (c, Inr addr) \<Rightarrow>
         let key = breaker_key service addr;
             (k, br) = getBreaker (core c) key now;
             (br, allowed) = breaker_Allow br now;
             c = c\<lparr>core := set_breaker k key br\<rparr>
         in if \<not> allowed then (c, Inl BreakerOpen) else (c, Inr (addr, br)))"

text \<open>Then a connection, encoding and sending. On success, the key of the breaker, the connection and the number.\<close>

definition client_send :: "(string option \<Rightarrow> Mux \<Rightarrow> Mux \<times> (string + 64 word)) \<Rightarrow> ('lb \<Rightarrow> inst list \<Rightarrow> 'lb \<times> inst)
    \<Rightarrow> (string + inst list) option \<Rightarrow> int \<Rightarrow> netenv \<Rightarrow> string \<Rightarrow> string \<Rightarrow> Net \<Rightarrow> 'lb Client
    \<Rightarrow> Net \<times> 'lb Client \<times> (invoke_result + string \<times> nat \<times> 64 word)" where
  "client_send send select instances now e service meth w c =
    (case client_admit select instances now service c of
       (c, Inl err) \<Rightarrow> (w, c, Inl err)
     | (c, Inr (addr, br)) \<Rightarrow>
         let key = breaker_key service addr;
             failed = update_core (\<lambda>k. set_breaker k key (RecordFailure br now))
         in (case acquire e w (getPool c addr) of
              (w, p, Inl _) \<Rightarrow> (w, failed (c\<lparr>cpools := (cpools c)(addr \<mapsto> p)\<rparr>), Inl AcquireFailed)
            | (w, p, Inr conn) \<Rightarrow>
                let c = c\<lparr>cpools := (cpools c)(addr \<mapsto> p)\<rparr> in
                (case send_on send e (ccodec c) service meth conn w of
                   (w, Inl EncodeErr) \<Rightarrow> (w, c, Inl MarshalErr)
                 | (w, Inl _) \<Rightarrow> (w, failed c, Inl SendFailed)
                 | (w, Inr (conn, n)) \<Rightarrow> (w, c, Inr (key, conn, n)))))"

text \<open>The future of a call gets the callback that reports to the breaker.\<close>

definition watch_future :: "nat \<Rightarrow> 64 word \<Rightarrow> Net \<Rightarrow> Net" where
  "watch_future conn n w =
    (let m = muxes w conn in set_mux conn (m\<lparr>mfut := (mfut m)(n := map_option Future_OnComplete (mfut m n))\<rparr>) w)"

definition client_invokeAsync where
  "client_invokeAsync select instances now e service meth w c =
    (case client_send mux_SendAsync select instances now e service meth w c of
       (w, c, Inr (key, conn, n)) \<Rightarrow> (watch_future conn n w, c, Inr (key, conn, n))
     | r \<Rightarrow> r)"

definition client_InvokeStream where
  "client_InvokeStream select instances now e service meth w c =
    client_send mux_SendStream select instances now e service meth w c"

text \<open>
  \<open>Invoke\<close>: send, wait, and on a timeout or cancellation complete the future, so that the breaker hears of
  the failure. The second component is the error that the call leaves in the future.
\<close>

definition client_Invoke :: "('lb \<Rightarrow> inst list \<Rightarrow> 'lb \<times> inst) \<Rightarrow> (string + inst list) option \<Rightarrow> int \<Rightarrow> netenv \<Rightarrow> string \<Rightarrow> string
    \<Rightarrow> (bytes \<Rightarrow> string + 'a) \<Rightarrow> (Net \<Rightarrow> Net) \<Rightarrow> string option \<Rightarrow> bool \<Rightarrow> Net \<Rightarrow> 'lb Client
    \<Rightarrow> (Net \<times> 'lb Client \<times> (invoke_result + call_error + 'a)) option" where
  "client_Invoke select instances now e service meth unm meanwhile ctx_err ctx_first w c =
    (case client_invokeAsync select instances now e service meth w c of
       (w, c, Inl err) \<Rightarrow> Some (w, c, Inl err)
     | (w, c, Inr (key, conn, n)) \<Rightarrow>
         let w = meanwhile w in
         do { f \<leftarrow> mfut (muxes w conn) n;
              r \<leftarrow> GetResultWithContext unm f ctx_err ctx_first;
              case (r, ctx_err) of
                (Inl err, Some ce) \<Rightarrow>
                  let m = muxes w conn in
                  Some (set_mux conn (m\<lparr>mfut := (mfut m)(n \<mapsto> Future_Done f [] (Some ce))\<rparr>) w, c, Inr r)
              | _ \<Rightarrow> Some (w, c, Inr r) })"

subsection \<open>Dial\<close>

record ('lb) dialOptions =
  otimeout :: int
  ocodec :: byte
  oregistry :: bool
  olb :: "'lb option"

definition WithTimeout :: "int \<Rightarrow> 'lb dialOptions \<Rightarrow> 'lb dialOptions" where
  "WithTimeout d opts = opts\<lparr>otimeout := d\<rparr>"

definition WithDialCodec :: "byte \<Rightarrow> 'lb dialOptions \<Rightarrow> 'lb dialOptions" where
  "WithDialCodec t opts = opts\<lparr>ocodec := t\<rparr>"

definition WithRegistry :: "bool \<Rightarrow> 'lb dialOptions \<Rightarrow> 'lb dialOptions" where
  "WithRegistry non_nil opts = opts\<lparr>oregistry := non_nil\<rparr>"

definition WithLoadBalancer :: "'lb option \<Rightarrow> 'lb dialOptions \<Rightarrow> 'lb dialOptions" where
  "WithLoadBalancer lb opts = opts\<lparr>olb := lb\<rparr>"

datatype 'lb ClientConn = StaticConn "nat ConnectionPool" byte int | RegistryConn "'lb Client" byte int

definition Dial :: "(byte \<Rightarrow> bool) \<Rightarrow> 'lb \<Rightarrow> ('lb dialOptions \<Rightarrow> 'lb dialOptions) list \<Rightarrow> string + 'lb ClientConn" where
  "Dial known rr0 opts =
    (let opts = foldl (\<lambda>x f. f x) \<lparr>otimeout = 5 * 10 ^ 9, ocodec = CodecJSON, oregistry = False, olb = None\<rparr> opts in
     if \<not> known (ocodec opts) then Inl ''codec: type not registered''
     else if oregistry opts then
       (case NewClient known rr0 ([WithClientTimeout (otimeout opts), WithClientCodec known (ocodec opts)] @
            (case olb opts of None \<Rightarrow> [] | Some lb \<Rightarrow> [WithClientLoadBalancer (Some lb)])) of
          Inl e \<Rightarrow> Inl e
        | Inr c \<Rightarrow> Inr (RegistryConn c (ocodec opts) (otimeout opts)))
     else Inr (StaticConn (NewConnectionPool 1) (ocodec opts) (otimeout opts)))"

text \<open>The operations of a \<open>ClientConn\<close> choose by its mode.\<close>

definition cc_Invoke where
  "cc_Invoke select instances now e service meth unm meanwhile ctx_err ctx_first w cc =
    (case cc of
       RegistryConn c ct d \<Rightarrow>
         map_option (\<lambda>(w, c, r). (w, RegistryConn c ct d, case r of Inr (Inr x) \<Rightarrow> Some x | _ \<Rightarrow> None))
           (client_Invoke select instances now e service meth unm meanwhile ctx_err ctx_first w c)
     | StaticConn p ct d \<Rightarrow>
         map_option (\<lambda>(w, p, r). (w, StaticConn p ct d, case r of Inr x \<Rightarrow> Some x | _ \<Rightarrow> None))
           (invokeStatic e ct service meth unm meanwhile ctx_err ctx_first w p))"

text \<open>\<open>InvokeAsync\<close> of the client with a registry starts the same timer.\<close>

definition client_InvokeAsync where
  "client_InvokeAsync select instances now e service meth w c =
    (case client_invokeAsync select instances now e service meth w c of
       (w, c, Inl err) \<Rightarrow> (w, c, Inl err)
     | (w, c, Inr (key, fut)) \<Rightarrow> (w, c, Inr (key, fut, \<lambda>meanwhile. timer_goroutine meanwhile fut)))"

definition cc_InvokeAsync where
  "cc_InvokeAsync select instances now e service meth w cc =
    (case cc of
       RegistryConn c ct d \<Rightarrow>
         (case client_InvokeAsync select instances now e service meth w c of
            (w, c, Inl err) \<Rightarrow> (w, RegistryConn c ct d, None) | (w, c, Inr (key, fut, timer)) \<Rightarrow> (w, RegistryConn c ct d, Some (fut, timer)))
     | StaticConn p ct d \<Rightarrow>
         (case invokeAsyncStatic e ct service meth w p of
            (w, p, Inl err) \<Rightarrow> (w, StaticConn p ct d, None) | (w, p, Inr fut) \<Rightarrow> (w, StaticConn p ct d, Some fut)))"

definition cc_NewStream where
  "cc_NewStream select instances now e service meth w cc =
    (case cc of
       RegistryConn c ct d \<Rightarrow>
         (case client_InvokeStream select instances now e service meth w c of
            (w, c, Inl err) \<Rightarrow> (w, RegistryConn c ct d, None) | (w, c, Inr (key, conn, n)) \<Rightarrow> (w, RegistryConn c ct d, Some (conn, n)))
     | StaticConn p ct d \<Rightarrow>
         (case newStreamStatic e ct service meth w p of
            (w, p, Inl err) \<Rightarrow> (w, StaticConn p ct d, None) | (w, p, Inr str) \<Rightarrow> (w, StaticConn p ct d, Some str)))"

definition cc_Close where
  "cc_Close addrs w cc =
    (case cc of
       RegistryConn c ct d \<Rightarrow> let (w, c) = close_pools addrs w c in (w, RegistryConn c ct d)
     | StaticConn p ct d \<Rightarrow> let (w, p) = pool_Close w p in (w, StaticConn p ct d))"


subsection \<open>What the connections of a client look like\<close>

definition others :: "'lb Client \<Rightarrow> string \<Rightarrow> nat set" where
  "others c a = {x. \<exists>b p. b \<noteq> a \<and> cpools c b = Some p \<and> x \<in> set (conns p)}"

definition client_inv :: "Net \<Rightarrow> 'lb Client \<Rightarrow> bool" where
  "client_inv w c \<longleftrightarrow> (\<forall>a. conn_inv (others c a) w (getPool c a))"

lemma client_inv_cong: "cpools c' = cpools c \<Longrightarrow> client_inv w c' = client_inv w c"
  by (simp add: client_inv_def others_def getPool_def)

lemma client_inv_new: "NewClient known rr0 opts = Inr c \<Longrightarrow> cpools c = Map.empty \<Longrightarrow> client_inv newNet c"
  by (simp add: client_inv_def getPool_def conn_inv_def newNet_def NewConnectionPool_def pool_ok_def)

text \<open>Changing one pool keeps the others.\<close>

lemma client_inv_upd:
  assumes I: "client_inv w c" and p: "conn_inv (others c a) w' p'" and le: "fresh w \<le> fresh w'"
    and mono: "\<forall>x < fresh w. mclosed (muxes w x) \<longrightarrow> mclosed (muxes w' x)"
  shows "client_inv w' (c\<lparr>cpools := (cpools c)(a \<mapsto> p')\<rparr>)"
  unfolding client_inv_def
proof
  fix b
  let ?c = "c\<lparr>cpools := (cpools c)(a \<mapsto> p')\<rparr>"
  show "conn_inv (others ?c b) w' (getPool ?c b)"
  proof (cases "b = a")
    case True
    have "others ?c a = others c a" "getPool ?c a = p'" by (auto simp: others_def getPool_def)
    then show ?thesis using p True by simp
  next
    case False
    then have g: "getPool ?c b = getPool c b" by (simp add: getPool_def)
    have q: "conn_inv (others c b) w (getPool c b)" using I by (simp add: client_inv_def)
    have sub: "x \<in> set (conns (getPool c b)) \<or> x \<in> others ?c b" if h: "x \<in> set (conns p') \<or> x \<in> others c a" for x
    proof (cases "x \<in> set (conns p')")
      case True
      then show ?thesis using False unfolding others_def by (auto intro: exI [of _ a])
    next
      case nx: False
      then obtain d q' where d: "d \<noteq> a" "cpools c d = Some q'" "x \<in> set (conns q')" using h unfolding others_def by blast
      then have d': "cpools ?c d = Some q'" by simp
      show ?thesis
      proof (cases "d = b")
        case True
        then show ?thesis using d by (simp add: getPool_def)
      next
        case False
        then show ?thesis using d' d(3) unfolding others_def by blast
      qed
    qed
    show ?thesis unfolding g conn_inv_def
    proof (intro conjI allI impI ballI)
      show "pool_ok (getPool c b)" using q by (simp add: conn_inv_def)
      show "x < fresh w'" if "x \<in> set (conns (getPool c b))" for x
        using q le that by (auto simp: conn_inv_def intro: order.strict_trans2)
      show "mux_inv (muxes w' x)" if "x < fresh w'" for x using p that by (simp add: conn_inv_def)
      show "mclosed (muxes w' x) \<or> x \<in> set (conns (getPool c b)) \<or> x \<in> others ?c b" if "x < fresh w'" for x
        using p that sub [of x] by (auto simp: conn_inv_def)
      show "mclosed (muxes w' x)" if "pool_closed (getPool c b)" "x \<in> set (conns (getPool c b))" for x
        using q mono that by (simp add: conn_inv_def)
    qed
  qed
qed

text \<open>Every operation touches the network in the same way.\<close>

lemma client_admit_frame:
  "cpools (fst (client_admit select instances now service c)) = cpools c \<and>
   ccodec (fst (client_admit select instances now service c)) = ccodec c"
  by (auto simp: client_admit_def client_getAddr_def update_core_def Let_def split: option.split sum.split prod.split)

lemma client_send_net:
  assumes "client_send send select instances now e service meth w c = (w', c', r)"
  shows "(w' = w \<and> cpools c' = cpools c \<and> (\<exists>err. r = Inl err)) \<or>
    (\<exists>addr w1 p1 r1. acquire e w (getPool c addr) = (w1, p1, r1) \<and> cpools c' = (cpools c)(addr \<mapsto> p1) \<and>
      (w' = w1 \<and> (\<exists>err. r = Inl err) \<or>
       (\<exists>conn r2. r1 = Inr conn \<and> send_on send e (ccodec c) service meth conn w1 = (w', r2) \<and>
         (\<forall>key d n. r = Inr (key, d, n) \<longrightarrow> r2 = Inr (d, n)))))"
proof -
  obtain c1 ra where g: "client_admit select instances now service c = (c1, ra)" by fastforce
  have c1: "cpools c1 = cpools c" "ccodec c1 = ccodec c" using client_admit_frame [of select instances now service c] g by auto
  show ?thesis
  proof (cases ra)
    case (Inl err)
    then show ?thesis using assms g c1 by (auto simp: client_send_def)
  next
    case (Inr ab)
    then obtain addr br where a: "ra = Inr (addr, br)" by (cases ab) simp
    obtain w1 p1 r1 where q: "acquire e w (getPool c addr) = (w1, p1, r1)" by (metis prod_cases3)
    have gp: "getPool c1 addr = getPool c addr" using c1 by (simp add: getPool_def)
    show ?thesis
    proof (cases r1)
      case (Inl err)
      then have "w' = w1 \<and> cpools c' = (cpools c)(addr \<mapsto> p1) \<and> (\<exists>err. r = Inl err)"
        using assms g a q gp c1 by (auto simp: client_send_def Let_def update_core_def)
      then show ?thesis using q by blast
    next
      case conn: (Inr conn)
      obtain w2 r2 where s: "send_on send e (ccodec c) service meth conn w1 = (w2, r2)" by fastforce
      have "w' = w2 \<and> cpools c' = (cpools c)(addr \<mapsto> p1) \<and> (\<forall>key d n. r = Inr (key, d, n) \<longrightarrow> r2 = Inr (d, n))"
        using assms g a q gp c1 conn s
        by (cases r2) (auto simp: client_send_def Let_def update_core_def split: call_error.splits)
      then show ?thesis using q [unfolded conn] s by blast
    qed
  qed
qed

definition is_send :: "(string option \<Rightarrow> Mux \<Rightarrow> Mux \<times> (string + 64 word)) \<Rightarrow> bool" where
  "is_send send \<longleftrightarrow> send = mux_SendAsync \<or> send = mux_SendStream"

lemma send_on_frame:
  assumes "send_on send e ct service meth c w = (w', r)" "is_send send"
  shows "fresh w' = fresh w" "mclosed (muxes w x) \<Longrightarrow> mclosed (muxes w' x)"
  using assms send_keeps [of "muxes w c" "ne_write e"]
  by (auto simp: send_on_def is_send_def split: option.splits prod.splits sum.splits if_splits)

lemma client_inv_send:
  assumes I: "client_inv w c" and s: "client_send send select instances now e service meth w c = (w', c', r)"
    and f: "\<forall>a. seq_free e w (getPool c a)" and iss: "is_send send"
  shows "client_inv w' c'"
proof -
  have J: "conn_inv (others c a) w (getPool c a)" for a using I by (simp add: client_inv_def)
  have cc: "client_inv w'' (c\<lparr>cpools := (cpools c)(addr \<mapsto> p1)\<rparr>) \<Longrightarrow> cpools c' = (cpools c)(addr \<mapsto> p1) \<Longrightarrow> client_inv w'' c'" for addr p1 w''
    using client_inv_cong [of c' "c\<lparr>cpools := (cpools c)(addr \<mapsto> p1)\<rparr>"] by simp
  from client_send_net [OF s] consider
      (none) "w' = w" "cpools c' = cpools c"
    | (acq) addr p1 r1 where "acquire e w (getPool c addr) = (w', p1, r1)" "cpools c' = (cpools c)(addr \<mapsto> p1)"
    | (snd) addr w1 p1 conn r2 where "acquire e w (getPool c addr) = (w1, p1, Inr conn)" "cpools c' = (cpools c)(addr \<mapsto> p1)"
        "send_on send e (ccodec c) service meth conn w1 = (w', r2)"
    by blast
  then show ?thesis
  proof cases
    case none
    then show ?thesis using I client_inv_cong by metis
  next
    case acq
    note A = acquire_spec [OF J acq(1)]
    show ?thesis by (rule cc [OF client_inv_upd [OF I A(1) A(6)] acq(2)]) (simp add: A(5))
  next
    case snd
    note A = acquire_spec [OF J snd(1)]
    note F = send_on_frame [OF snd(3) iss]
    have m: "mseq (muxes w1 conn) \<noteq> - 1" using f [rule_format, of addr] snd(1) by (simp add: seq_free_def)
    have "conn_inv (others c addr) w' p1"
      using iss A(7) m mux_inv_SendAsync mux_inv_SendStream send_keeps
      by (intro conn_inv_send_on [OF A(1) snd(3)]) (auto simp: is_send_def)
    from client_inv_upd [OF I this] show ?thesis using F A by (intro cc [OF _ snd(2)]) auto
  qed
qed

lemma client_inv_close: "client_inv w c \<Longrightarrow> close_pools addrs w c = (w', c') \<Longrightarrow> client_inv w' c'"
proof (induction addrs arbitrary: w c)
  case (Cons a addrs)
  show ?case
  proof (cases "cpools c a")
    case None
    then show ?thesis using Cons by simp
  next
    case (Some p)
    obtain w1 p1 where q: "pool_Close w p = (w1, p1)" by fastforce
    have J: "conn_inv (others c a) w p" using Cons.prems(1) Some unfolding client_inv_def by (metis getPool_def option.simps(5))
    have "fresh w1 = fresh w" "mclosed (muxes w x) \<Longrightarrow> mclosed (muxes w1 x)" for x
      using q by (auto simp: pool_Close_def close_fold split: if_splits)
    then have "client_inv w1 (c\<lparr>cpools := (cpools c)(a \<mapsto> p1)\<rparr>)"
      using client_inv_upd [OF Cons.prems(1)] conn_inv_close [OF J q] by auto
    then show ?thesis using Cons.IH Cons.prems(2) Some q by simp
  qed
qed simp


subsection \<open>The calls refine the abstract ones\<close>

text \<open>What the abstract call sees of the balancer, the network and the codec.\<close>

definition call_view :: "('lb \<Rightarrow> inst list \<Rightarrow> 'lb \<times> inst) \<Rightarrow> (string + inst list) option \<Rightarrow> int \<Rightarrow> netenv \<Rightarrow> Net \<Rightarrow> 'lb Client \<Rightarrow> call_env" where
  "call_view select instances now e w c =
    \<lparr>discovered = instances, lb_choice = (\<lambda>xs. snd (select (clb c) xs)),
     acquire_ok = (case client_getAddr select instances c of
        (_, Inl _) \<Rightarrow> False | (_, Inr addr) \<Rightarrow> \<not> isl (snd (snd (acquire e w (getPool c addr))))),
     marshal_ok = (ne_body e \<noteq> None), send_ok = (ne_write e = None), cnow = now\<rparr>"

lemma getAddr_view:
  "discovered env = instances \<Longrightarrow> lb_choice env = (\<lambda>xs. snd (select (clb c) xs)) \<Longrightarrow>
    getAddr env = snd (client_getAddr select instances c)"
  by (auto simp: getAddr_def client_getAddr_def Let_def split: option.split sum.split prod.split)

lemma client_getAddr_core:
  "snd (client_getAddr select instances (update_core f c)) = snd (client_getAddr select instances c)"
  "core (fst (client_getAddr select instances c)) = core c"
  by (auto simp: client_getAddr_def update_core_def Let_def split: option.split sum.split prod.split)

lemma admit_refines:
  assumes "client_admit select instances now service c = (c1, ra)"
    and "discovered env = instances" "lb_choice env = (\<lambda>xs. snd (select (clb c) xs))" "cnow env = now"
  shows "case ra of
      Inl err \<Rightarrow> invokeAsync (core c) env service = (core c1, err)
    | Inr (addr, br) \<Rightarrow> snd (client_getAddr select instances c) = Inr addr \<and>
        invokeAsync (core c) env service =
          (let key = breaker_key service addr; k = core c1 in
           if \<not> acquire_ok env then (set_breaker k key (RecordFailure br now), AcquireFailed)
           else if \<not> marshal_ok env then (k, MarshalErr)
           else if \<not> send_ok env then (set_breaker k key (RecordFailure br now), SendFailed)
           else (k, Sent key))"
proof -
  obtain tb ok where tb: "bucket_Allow (limiter (core c)) = (tb, ok)" by fastforce
  let ?c = "update_core (\<lambda>k. k\<lparr>limiter := tb\<rparr>) c"
  obtain c2 rg where g: "client_getAddr select instances ?c = (c2, rg)" by fastforce
  have "snd (client_getAddr select instances c) = rg"
    using client_getAddr_core(1) [of select instances "\<lambda>k. k\<lparr>limiter := tb\<rparr>" c] g by simp
  then have G: "getAddr env = rg" by (simp add: getAddr_view [where select = select and c = c] assms(2,3))
  have K: "core c2 = (core c)\<lparr>limiter := tb\<rparr>"
    using client_getAddr_core(2) [of select instances ?c] g by (simp add: update_core_def)
  show ?thesis
  proof (cases "\<not> ok")
    case True
    then show ?thesis using assms(1) tb by (auto simp: client_admit_def invokeAsync_def update_core_def)
  next
    case ok: False
    show ?thesis
    proof (cases rg)
      case (Inl err)
      then show ?thesis using assms(1) tb g G K ok by (auto simp: client_admit_def invokeAsync_def Let_def)
    next
      case (Inr addr)
      obtain k br where k: "getBreaker (core c2) (breaker_key service addr) now = (k, br)" by fastforce
      obtain br1 al where al: "breaker_Allow br now = (br1, al)" by fastforce
      have "snd (client_getAddr select instances c) = Inr addr"
        using client_getAddr_core(1) [of select instances "\<lambda>k. k\<lparr>limiter := tb\<rparr>" c] g Inr by simp
      then show ?thesis using assms(1,4) tb g G K ok Inr k al
        by (cases al) (auto simp: client_admit_def invokeAsync_def Let_def)
    qed
  qed
qed

lemma send_on_live:
  assumes "\<not> mclosed (muxes w conn)" "is_send send"
  shows "case ne_body e of
      None \<Rightarrow> send_on send e ct service meth conn w = (w, Inl EncodeErr)
    | Some b \<Rightarrow> (case ne_write e of
        Some err \<Rightarrow> snd (send_on send e ct service meth conn w) = Inl (SendErr err)
      | None \<Rightarrow> \<exists>n. snd (send_on send e ct service meth conn w) = Inr (conn, n))"
  using assms by (auto simp: send_on_def is_send_def mux_SendAsync_def mux_SendStream_def Let_def split: option.split)

lemma client_send_refines:
  assumes I: "client_inv w c" and iss: "is_send send"
    and s: "client_send send select instances now e service meth w c = (w', c', r)"
  shows "invokeAsync (core c) (call_view select instances now e w c) service =
    (core c', case r of Inl err \<Rightarrow> err | Inr (key, _, _) \<Rightarrow> Sent key)"
proof -
  let ?env = "call_view select instances now e w c"
  obtain c1 ra where g: "client_admit select instances now service c = (c1, ra)" by fastforce
  have c1: "cpools c1 = cpools c" "ccodec c1 = ccodec c" using client_admit_frame [of select instances now service c] g by auto
  have V: "discovered ?env = instances" "lb_choice ?env = (\<lambda>xs. snd (select (clb c) xs))" "cnow ?env = now"
    "marshal_ok ?env = (ne_body e \<noteq> None)" "send_ok ?env = (ne_write e = None)"
    by (simp_all add: call_view_def)
  note R = admit_refines [OF g V(1-3)]
  show ?thesis
  proof (cases ra)
    case (Inl err)
    then show ?thesis using R s g by (auto simp: client_send_def)
  next
    case (Inr ab)
    then obtain addr br where a: "ra = Inr (addr, br)" by (cases ab) simp
    obtain w1 p1 r1 where q: "acquire e w (getPool c addr) = (w1, p1, r1)" by (metis prod_cases3)
    have gp: "getPool c1 addr = getPool c addr" using c1 by (simp add: getPool_def)
    have ad: "snd (client_getAddr select instances c) = Inr addr" using R a by simp
    have ok: "acquire_ok ?env = (\<not> isl r1)"
      using ad q by (auto simp: call_view_def split: prod.split sum.split)
    note R = R [unfolded a sum.case prod.case, THEN conjunct2, unfolded ok V(4,5)]
    show ?thesis
    proof (cases r1)
      case (Inl err)
      then show ?thesis using R s g a q gp by (auto simp: client_send_def update_core_def Let_def)
    next
      case conn: (Inr conn)
      have I': "conn_inv (others c addr) w (getPool c addr)" using I by (simp add: client_inv_def)
      have live: "\<not> mclosed (muxes w1 conn)" using acquire_spec(7) [OF I' q conn] by simp
      obtain w2 r2 where t: "send_on send e (ccodec c) service meth conn w1 = (w2, r2)" by fastforce
      have T: "case ne_body e of None \<Rightarrow> r2 = Inl EncodeErr
        | Some b \<Rightarrow> (case ne_write e of Some err \<Rightarrow> r2 = Inl (SendErr err) | None \<Rightarrow> \<exists>n. r2 = Inr (conn, n))"
        using send_on_live [OF live iss, of e "ccodec c" service meth] t by (auto split: option.splits)
      have "(core c', r) =
        (case r2 of
           Inl EncodeErr \<Rightarrow> (core c1, Inl MarshalErr)
         | Inl _ \<Rightarrow> (set_breaker (core c1) (breaker_key service addr) (RecordFailure br now), Inl SendFailed)
         | Inr (d, n) \<Rightarrow> (core c1, Inr (breaker_key service addr, d, n)))"
        using s g a q gp conn t c1
        by (auto simp: client_send_def update_core_def Let_def split: sum.splits prod.splits call_error.splits)
      then show ?thesis using R T conn
        by (cases "ne_body e"; cases "ne_write e") (auto simp: Let_def)
    qed
  qed
qed

subsection \<open>Closing a client\<close>

lemma close_pools_closed:
  assumes "close_pools addrs w c = (w', c')"
  shows "\<forall>a. cpools c' a = None \<longleftrightarrow> cpools c a = None"
    "\<forall>a p. cpools c' a = Some p \<longrightarrow> a \<in> set addrs \<or> (\<exists>q. cpools c a = Some q \<and> pool_closed q) \<longrightarrow> pool_closed p"
    "core c' = core c" "clb c' = clb c" "ccodec c' = ccodec c"
  using assms
proof (induction addrs arbitrary: w c)
  case (Cons a addrs)
  {
    case 1
    then show ?case using Cons.IH(1) by (fastforce split: option.splits prod.splits if_splits)
  next
    case 2
    have pc: "pool_closed (snd (pool_Close w p))" for w p by (simp add: pool_Close_def)
    show ?case
    proof (cases "cpools c a")
      case None
      then have "cpools c' a = None" using 2 Cons.IH(1) [of w c] by simp
      then show ?thesis using None 2 Cons.IH(2) [of w c] by auto
    next
      case (Some p)
      obtain w1 p1 where q: "pool_Close w p = (w1, p1)" by fastforce
      have "pool_closed p1" using pc [of w p] q by simp
      then show ?thesis using 2 Cons.IH(2) [of w1 "c\<lparr>cpools := (cpools c)(a \<mapsto> p1)\<rparr>"] Some q by auto
    qed
  next
    case 3
    then show ?case using Cons.IH(3) by (fastforce split: option.splits prod.splits)
  next
    case 4
    then show ?case using Cons.IH(4) by (fastforce split: option.splits prod.splits)
  next
    case 5
    then show ?case using Cons.IH(5) by (fastforce split: option.splits prod.splits)
  }
qed auto

lemma client_closed:
  assumes I: "client_inv w c" and cl: "\<forall>a p. cpools c a = Some p \<longrightarrow> pool_closed p" and x: "x < fresh w"
  shows "mclosed (muxes w x)" "mfut (muxes w x) n = Some f \<Longrightarrow> fcomplete f"
    "mstr (muxes w x) n = Some s \<Longrightarrow> termErr s \<noteq> None"
proof -
  have "mux_inv (muxes w x) \<and> mclosed (muxes w x)"
  proof (cases "\<exists>a p. cpools c a = Some p \<and> x \<in> set (conns p)")
    case True
    then obtain a p where a: "cpools c a = Some p" "x \<in> set (conns p)" by blast
    then have "conn_inv (others c a) w p" using I unfolding client_inv_def by (metis getPool_def option.simps(5))
    then show ?thesis using a cl x by (auto simp: conn_inv_def)
  next
    case False
    have "conn_inv (others c []) w (getPool c [])" using I by (simp add: client_inv_def)
    then have i: "mux_inv (muxes w x)" "mclosed (muxes w x) \<or> x \<in> set (conns (getPool c [])) \<or> x \<in> others c []"
      using x by (simp_all add: conn_inv_def)
    moreover have "x \<notin> set (conns (getPool c []))" using False by (cases "cpools c []") (auto simp: getPool_def NewConnectionPool_def)
    moreover have "x \<notin> others c []" using False unfolding others_def by blast
    ultimately show ?thesis by blast
  qed
  then have i: "mux_inv (muxes w x)" and m: "mclosed (muxes w x)" by simp_all
  show "mclosed (muxes w x)" by (rule m)
  show "mfut (muxes w x) n = Some f \<Longrightarrow> fcomplete f" "mstr (muxes w x) n = Some s \<Longrightarrow> termErr s \<noteq> None"
    using mux_closed [OF i m] mux_fut [OF i, of n f] mux_str [OF i, of n s] by simp_all
qed

end
