(* ===== verification/Rpc_Write.thy ===== *)
theory Rpc_Write
  imports Rpc_Mux
begin

text \<open>
  Writing to a connection (\<open>TCPConnection.Write\<close> of \<open>internal/transport/tcp_connection.go\<close>): the loop over partial
  writes, and any number of goroutines that write at the same time under \<open>writeMu\<close>. What each write of the
  network does, how many bytes it takes and whether it fails, is an argument.
\<close>

text \<open>The bytes that reach the wire, and the result: \<open>None\<close> while the loop still runs, then the error of the network.\<close>

fun write_loop :: "bytes \<Rightarrow> (nat \<times> string option) list \<Rightarrow> bytes \<times> string option option" where
  "write_loop [] rs = ([], Some None)"
| "write_loop (b # bs) [] = ([], None)"
| "write_loop (b # bs) ((n, Some err) # rs) = (take n (b # bs), Some (Some err))"
| "write_loop (b # bs) ((n, None) # rs) =
    (case write_loop (drop n (b # bs)) rs of (out, res) \<Rightarrow> (take n (b # bs) @ out, res))"

definition conn_Write :: "codecs \<Rightarrow> Message \<Rightarrow> (nat \<times> string option) list \<Rightarrow> (bytes \<times> (wire_error + string option option)) option" where
  "conn_Write C msg rs = (case Encode C (Some (header msg)) (body msg) of
      None \<Rightarrow> None
    | Some (Inl err) \<Rightarrow> Some ([], Inl err)
    | Some (Inr data) \<Rightarrow> (case write_loop data rs of (out, res) \<Rightarrow> Some (out, Inr res)))"

lemma write_loop_prefix:
  "write_loop data rs = (out, res) \<Longrightarrow> (\<exists>rest. data = out @ rest) \<and> (res = Some None \<longrightarrow> out = data)"
proof (induction data rs arbitrary: out res rule: write_loop.induct)
  case (4 b bs n rs)
  obtain o1 r1 where w: "write_loop (drop n (b # bs)) rs = (o1, r1)" by fastforce
  from 4(1) [OF w] obtain rest where rest: "drop n (b # bs) = o1 @ rest" "r1 = Some None \<Longrightarrow> o1 = drop n (b # bs)" by blast
  have "b # bs = take n (b # bs) @ o1 @ rest" using rest(1) by (metis append_take_drop_id)
  moreover have "out = take n (b # bs) @ o1" "res = r1" using 4(2) w by simp_all
  ultimately show ?case using rest(2) by auto
next
  case (3 b bs n err rs)
  then show ?case by (metis append_take_drop_id fst_conv option.distinct(1) option.inject snd_conv write_loop.simps(3))
qed auto

text \<open>
  Writers of one connection: who holds the lock, with the frame and what is left of it. \<open>written\<close> and \<open>failed\<close> are
  kept for the statements.
\<close>

record conn_writers =
  holder :: "(nat \<times> bytes \<times> bytes) option"
  on_wire :: bytes
  written :: "bytes list"
  failed_write :: bool

definition no_writers :: conn_writers where
  "no_writers = \<lparr>holder = None, on_wire = [], written = [], failed_write = False\<rparr>"

datatype write_label = WLock nat bytes | WPut nat nat "string option"

fun write_step :: "conn_writers \<Rightarrow> write_label \<Rightarrow> conn_writers option" where
  "write_step s (WLock t data) =
    (if holder s \<noteq> None then None
     else if data = [] then Some (s\<lparr>written := written s @ [data]\<rparr>)
     else Some (s\<lparr>holder := Some (t, data, data)\<rparr>))"
| "write_step s (WPut t n err) = (case holder s of
      None \<Rightarrow> None
    | Some (t', data, rest) \<Rightarrow>
        if t' \<noteq> t then None
        else let s = s\<lparr>on_wire := on_wire s @ take n rest\<rparr> in
          (case err of
            Some _ \<Rightarrow> Some (s\<lparr>holder := None, failed_write := True\<rparr>)
          | None \<Rightarrow>
              if drop n rest = [] then Some (s\<lparr>holder := None, written := written s @ [data]\<rparr>)
              else Some (s\<lparr>holder := Some (t, data, drop n rest)\<rparr>)))"

inductive writers_reach :: "conn_writers \<Rightarrow> bool" where
  wr_init: "writers_reach no_writers"
| wr_next: "writers_reach s \<Longrightarrow> write_step s l = Some s' \<Longrightarrow> writers_reach s'"

definition writers_inv :: "conn_writers \<Rightarrow> bool" where
  "writers_inv s \<longleftrightarrow> failed_write s \<or>
    (case holder s of
      None \<Rightarrow> on_wire s = concat (written s)
    | Some (t, data, rest) \<Rightarrow> \<exists>out. data = out @ rest \<and> on_wire s = concat (written s) @ out)"

lemma writers_inv_step: "writers_inv s \<Longrightarrow> write_step s l = Some s' \<Longrightarrow> writers_inv s'"
proof (cases l)
  case (WLock t data)
  assume "writers_inv s" "write_step s l = Some s'"
  moreover from this have "holder s = None" using WLock by (cases "holder s") (auto split: if_splits)
  ultimately show ?thesis using WLock by (auto simp: writers_inv_def split: if_splits)
next
  case (WPut t n err)
  assume I: "writers_inv s" and st: "write_step s l = Some s'"
  obtain data rest where h: "holder s = Some (t, data, rest)"
    using st WPut by (auto split: option.splits prod.splits if_splits)
  show ?thesis
  proof (cases "err = None \<and> \<not> failed_write s")
    case True
    then obtain out where out: "data = out @ rest" "on_wire s = concat (written s) @ out"
      using I h by (auto simp: writers_inv_def)
    have "rest = take n rest @ drop n rest" by simp
    then show ?thesis using st WPut h out True
      by (cases "drop n rest = []") (auto simp: writers_inv_def Let_def)
  next
    case False
    then show ?thesis using st WPut h by (auto simp: writers_inv_def Let_def split: option.splits if_splits)
  qed
qed

lemma writers_reach_inv: "writers_reach s \<Longrightarrow> writers_inv s"
proof (induction rule: writers_reach.induct)
  case wr_init
  show ?case by (simp add: writers_inv_def no_writers_def)
qed (rule writers_inv_step)

text \<open>A goroutine alone does on the wire what its loop does.\<close>

fun put_all :: "nat \<Rightarrow> (nat \<times> string option) list \<Rightarrow> conn_writers \<Rightarrow> conn_writers" where
  "put_all t [] s = s"
| "put_all t ((n, err) # rs) s = (case write_step s (WPut t n err) of None \<Rightarrow> s | Some s' \<Rightarrow> put_all t rs s')"

lemma put_all_loop:
  "holder s = Some (t, data, rest) \<Longrightarrow> rest \<noteq> [] \<Longrightarrow> write_loop rest rs = (out, res) \<Longrightarrow>
    on_wire (put_all t rs s) = on_wire s @ out \<and> (holder (put_all t rs s) = None \<longleftrightarrow> res \<noteq> None)"
proof (induction rs arbitrary: s rest out res)
  case Nil
  then show ?case by (cases rest) auto
next
  case (Cons r rs)
  obtain n err where r: "r = (n, err)" by (cases r)
  obtain b bs where bs: "rest = b # bs" using Cons.prems(2) by (cases rest) auto
  show ?case
  proof (cases err)
    case (Some e)
    have "put_all t rs (s\<lparr>on_wire := on_wire s @ take n rest, holder := None, failed_write := True\<rparr>) =
      s\<lparr>on_wire := on_wire s @ take n rest, holder := None, failed_write := True\<rparr>" by (cases rs) auto
    then show ?thesis using Cons.prems r Some bs by (auto simp: Let_def)
  next
    case None
    obtain o1 r1 where w: "write_loop (drop n rest) rs = (o1, r1)" by fastforce
    have o: "out = take n rest @ o1" "res = r1" using Cons.prems(3) r None bs w by simp_all
    show ?thesis
    proof (cases "drop n rest = []")
      case True
      let ?s = "s\<lparr>on_wire := on_wire s @ take n rest, holder := None, written := written s @ [data]\<rparr>"
      have "put_all t rs ?s = ?s" by (cases rs) auto
      then show ?thesis using Cons.prems(1) r None True w o by (auto simp: Let_def)
    next
      case False
      let ?s = "s\<lparr>on_wire := on_wire s @ take n rest, holder := Some (t, data, drop n rest)\<rparr>"
      have "on_wire (put_all t rs ?s) = on_wire ?s @ o1 \<and> (holder (put_all t rs ?s) = None \<longleftrightarrow> r1 \<noteq> None)"
        by (rule Cons.IH [OF _ False w]) simp
      then show ?thesis using Cons.prems(1) r None False o by (simp add: Let_def)
    qed
  qed
qed

text \<open>Frames at the front of a stream are read whole, whatever follows.\<close>

lemma read_all_front:
  "framed C ms \<Longrightarrow> buf @ concat cs = wire_bytes ms @ rest \<Longrightarrow> read_all C (length ms) buf cs = Some (map fst ms)"
proof (induction ms arbitrary: buf cs)
  case (Cons x ms)
  obtain m hb bb where x: "x = (m, hb, bb)" by (cases x)
  have f: "frame_fits hb bb" "Decode C (frame hb bb) = Some (Inr m)" "framed C ms" using Cons.prems(1) x by (auto simp: framed_def)
  have "buf @ concat cs = frame hb bb @ (wire_bytes ms @ rest)" using Cons.prems(2) x by (simp add: wire_bytes_def)
  from conn_Read_frame [OF f(1,2) this] obtain buf' cs' where "conn_Read C buf cs = Some (buf', cs', Inr m)"
    "buf' @ concat cs' = wire_bytes ms @ rest"
    by blast
  then show ?case using Cons.IH [OF f(3)] x by simp
qed simp

lemma concurrent_writes_rule:
  assumes "writers_reach s" "\<not> failed_write s" "written s = map (\<lambda>(m, hb, bb). frame hb bb) ms" "framed C ms"
    and "buf @ concat cs = on_wire s"
  shows "read_all C (length ms) buf cs = Some (map fst ms)"
proof -
  have "\<exists>rest. on_wire s = wire_bytes ms @ rest"
    using writers_reach_inv [OF assms(1)] assms(2,3) by (auto simp: writers_inv_def wire_bytes_def split: option.splits)
  then show ?thesis using read_all_front [OF assms(4)] assms(5) by metis
qed

end
