(* ===== verification/Rpc_Future.thy ===== *)
theory Rpc_Future
  imports Prelude
begin

text \<open>
  Futures under concurrency (\<open>internal/transport/future.go\<close>): any number of goroutines in \<open>Done\<close>, \<open>OnComplete\<close> and
  \<open>Wait\<close> or \<open>WaitWithContext\<close> of one future, as steps between the acquisitions of its lock. The function that a call
  of \<open>OnComplete\<close> registers is named by that call. What a wait returns after the channel is closed is what
  \<open>GetResult\<close> and its variants decode (\<open>Rpc_Transport\<close>).
\<close>

datatype doer = DIdle | DLost | DWon "nat option" | DCalled | DReturned

datatype registrar = RIdle | RSet | RLate | RCalled | RNone

datatype 'r waiter = WWaiting | WChosen | WGot "'r \<times> string option" | WCancelled

record 'r shared_future =
  f_res :: 'r
  f_err :: "string option"
  f_complete :: bool
  f_on :: "nat option"
  f_closed :: bool
  f_panic :: bool
  f_calls :: "(nat \<times> string option) list"
  doers :: "nat \<Rightarrow> doer"
  regs :: "nat \<Rightarrow> registrar"
  waits :: "nat \<Rightarrow> 'r waiter"

definition new_shared :: "'r \<Rightarrow> 'r shared_future" where
  "new_shared nil = \<lparr>f_res = nil, f_err = None, f_complete = False, f_on = None, f_closed = False, f_panic = False,
     f_calls = [], doers = (\<lambda>_. DIdle), regs = (\<lambda>_. RIdle), waits = (\<lambda>_. WWaiting)\<rparr>"

text \<open>\<open>FRegister r True\<close> is \<open>OnComplete(nil)\<close>. A wait with a context takes either ready case of its select.\<close>

datatype 'r fut_label =
  FDone nat 'r "string option" | FCallback nat | FClose nat
| FRegister nat bool | FLateCall nat | FWake nat | FRead nat | FCancel nat

fun fut_step :: "'r shared_future \<Rightarrow> 'r fut_label \<Rightarrow> 'r shared_future option" where
  "fut_step s (FDone d res err) =
    (if doers s d \<noteq> DIdle then None
     else if f_complete s then Some (s\<lparr>doers := (doers s)(d := DLost)\<rparr>)
     else Some (s\<lparr>f_res := res, f_err := err, f_complete := True, doers := (doers s)(d := DWon (f_on s))\<rparr>))"
| "fut_step s (FCallback d) = (case doers s d of
      DWon cb \<Rightarrow> Some (s\<lparr>f_calls := f_calls s @ (case cb of None \<Rightarrow> [] | Some r \<Rightarrow> [(r, f_err s)]),
        doers := (doers s)(d := DCalled)\<rparr>)
    | _ \<Rightarrow> None)"
| "fut_step s (FClose d) =
    (if doers s d \<noteq> DCalled then None
     else if f_closed s then Some (s\<lparr>f_panic := True\<rparr>)
     else Some (s\<lparr>f_closed := True, doers := (doers s)(d := DReturned)\<rparr>))"
| "fut_step s (FRegister r isnil) =
    (if regs s r \<noteq> RIdle then None
     else if \<not> f_complete s
       then Some (s\<lparr>f_on := (if isnil then None else Some r), regs := (regs s)(r := if isnil then RNone else RSet)\<rparr>)
     else Some (s\<lparr>regs := (regs s)(r := if isnil then RNone else RLate)\<rparr>))"
| "fut_step s (FLateCall r) =
    (if regs s r \<noteq> RLate then None
     else Some (s\<lparr>f_calls := f_calls s @ [(r, f_err s)], regs := (regs s)(r := RCalled)\<rparr>))"
| "fut_step s (FWake w) =
    (if waits s w = WWaiting \<and> f_closed s then Some (s\<lparr>waits := (waits s)(w := WChosen)\<rparr>) else None)"
| "fut_step s (FRead w) =
    (if waits s w = WChosen then Some (s\<lparr>waits := (waits s)(w := WGot (f_res s, f_err s))\<rparr>) else None)"
| "fut_step s (FCancel w) =
    (if waits s w = WWaiting then Some (s\<lparr>waits := (waits s)(w := WCancelled)\<rparr>) else None)"

definition fut_IsDone :: "'r shared_future \<Rightarrow> bool" where
  "fut_IsDone s = f_closed s"

fun fut_run :: "'r shared_future \<Rightarrow> 'r fut_label list \<Rightarrow> 'r shared_future option" where
  "fut_run s [] = Some s"
| "fut_run s (l # ls) = (case fut_step s l of None \<Rightarrow> None | Some s' \<Rightarrow> fut_run s' ls)"

subsection \<open>Invariant\<close>

text \<open>Before the first \<open>Done\<close> nothing has happened; afterwards one goroutine, the winner, runs the callback and closes.\<close>

fun waiter_ok :: "bool \<Rightarrow> 'r \<times> string option \<Rightarrow> 'r waiter \<Rightarrow> bool" where
  "waiter_ok closed y (WGot x) \<longleftrightarrow> closed \<and> x = y"
| "waiter_ok closed y WChosen \<longleftrightarrow> closed"
| "waiter_ok closed y WWaiting \<longleftrightarrow> True"
| "waiter_ok closed y WCancelled \<longleftrightarrow> True"

lemma waiter_ok_close: "waiter_ok closed y w \<Longrightarrow> waiter_ok True y w"
  by (cases w) auto

definition fut_open :: "'r shared_future \<Rightarrow> bool" where
  "fut_open s \<longleftrightarrow> \<not> f_complete s \<and> \<not> f_closed s \<and> f_calls s = [] \<and> (\<forall>d. doers s d = DIdle) \<and>
    (\<forall>r. regs s r \<noteq> RLate \<and> regs s r \<noteq> RCalled) \<and> (\<forall>w y. waiter_ok False y (waits s w)) \<and>
    (\<forall>r. f_on s = Some r \<longrightarrow> regs s r = RSet)"

definition callback_run :: "'r shared_future \<Rightarrow> nat \<Rightarrow> bool" where
  "callback_run s d \<longleftrightarrow> doers s d = DCalled \<or> doers s d = DReturned"

definition fut_won :: "nat \<Rightarrow> 'r shared_future \<Rightarrow> bool" where
  "fut_won d s \<longleftrightarrow> f_complete s \<and> (doers s d = DWon (f_on s) \<or> callback_run s d) \<and>
    (\<forall>d'. d' \<noteq> d \<longrightarrow> doers s d' = DIdle \<or> doers s d' = DLost) \<and>
    (doers s d = DReturned \<longleftrightarrow> f_closed s) \<and> (\<forall>r. f_on s = Some r \<longrightarrow> regs s r = RSet) \<and>
    distinct (map fst (f_calls s)) \<and> (\<forall>(r, e) \<in> set (f_calls s). e = f_err s) \<and>
    fst ` set (f_calls s) = {r. regs s r = RCalled \<or> f_on s = Some r \<and> callback_run s d} \<and>
    (\<forall>w. waiter_ok (f_closed s) (f_res s, f_err s) (waits s w))"

definition fut_inv :: "'r shared_future \<Rightarrow> bool" where
  "fut_inv s \<longleftrightarrow> \<not> f_panic s \<and> (fut_open s \<or> (\<exists>d. fut_won d s))"

lemma fut_open_step: "fut_open s \<Longrightarrow> \<not> f_panic s \<Longrightarrow> fut_step s l = Some s' \<Longrightarrow> fut_inv s'"
proof (cases l)
  case (FDone d res err)
  assume o: "fut_open s" and p: "\<not> f_panic s" and st: "fut_step s l = Some s'"
  have "fut_won d s'" using o st FDone by (auto simp: fut_won_def fut_open_def callback_run_def split: if_splits)
  moreover have "\<not> f_panic s'" using p st FDone by (auto split: if_splits)
  ultimately show ?thesis by (auto simp: fut_inv_def)
next
  case (FRegister r isnil)
  assume o: "fut_open s" "\<not> f_panic s" "fut_step s l = Some s'"
  then show ?thesis using FRegister by (auto simp: fut_inv_def fut_open_def split: if_splits)
next
  case (FCancel w)
  assume o: "fut_open s" "\<not> f_panic s" "fut_step s l = Some s'"
  then show ?thesis using FCancel by (auto simp: fut_inv_def fut_open_def split: if_splits)
next
  case (FRead w)
  assume "fut_open s" "\<not> f_panic s" "fut_step s l = Some s'"
  then have "waits s w = WChosen" "waiter_ok False (f_res s, f_err s) (waits s w)"
    using FRead by (simp_all add: fut_open_def split: if_splits)
  then show ?thesis by simp
qed (auto simp: fut_open_def split: if_splits)

lemma fst_CollectD: "fst ` A = {r. Q r} \<Longrightarrow> (a, b) \<in> A \<Longrightarrow> Q a"
  by (metis fst_conv image_eqI mem_Collect_eq)

lemma fut_won_lost: "fut_won d s \<Longrightarrow> d' \<noteq> d \<Longrightarrow> fut_won d (s\<lparr>doers := (doers s)(d' := DLost)\<rparr>)"
  unfolding fut_won_def callback_run_def by (elim conjE, intro conjI) simp_all

lemma fut_won_close:
  assumes "fut_won d s" "doers s d = DCalled"
  shows "fut_won d (s\<lparr>f_closed := True, doers := (doers s)(d := DReturned)\<rparr>)"
proof -
  have "\<forall>w. waiter_ok True (f_res s, f_err s) (waits s w)" using assms(1) waiter_ok_close unfolding fut_won_def by metis
  then show ?thesis using assms unfolding fut_won_def callback_run_def by (elim conjE, intro conjI) simp_all
qed

lemma callback_run_frame [simp]:
  "callback_run (s\<lparr>regs := g\<rparr>) d = callback_run s d"
  "callback_run (s\<lparr>f_calls := cs\<rparr>) d = callback_run s d"
  "callback_run (s\<lparr>waits := ws\<rparr>) d = callback_run s d"
  by (simp_all add: callback_run_def)

lemma fut_won_regs:
  assumes "fut_won d s" "\<forall>r. g r = RCalled \<longleftrightarrow> regs s r = RCalled" "\<forall>r. f_on s = Some r \<longrightarrow> g r = RSet"
  shows "fut_won d (s\<lparr>regs := g\<rparr>)"
  using assms unfolding fut_won_def by simp

lemma fut_won_waits:
  assumes "fut_won d s" "waiter_ok (f_closed s) (f_res s, f_err s) wt"
  shows "fut_won d (s\<lparr>waits := (waits s)(w := wt)\<rparr>)"
  using assms unfolding fut_won_def by simp

lemma fut_won_late:
  assumes "fut_won d s" "regs s r = RLate"
  shows "fut_won d (s\<lparr>f_calls := f_calls s @ [(r, f_err s)], regs := (regs s)(r := RCalled)\<rparr>)"
proof -
  have on: "f_on s \<noteq> Some r" using assms unfolding fut_won_def by (metis registrar.distinct(9))
  have c: "fst ` set (f_calls s) = {r. regs s r = RCalled \<or> f_on s = Some r \<and> callback_run s d}"
    using assms(1) by (simp add: fut_won_def)
  have "r \<notin> fst ` set (f_calls s)" unfolding c using assms(2) on by simp
  moreover have "insert r (fst ` set (f_calls s)) = {r'. ((regs s)(r := RCalled)) r' = RCalled \<or> f_on s = Some r' \<and> callback_run s d}"
    unfolding c by auto
  moreover have "\<forall>r'. f_on s = Some r' \<longrightarrow> ((regs s)(r := RCalled)) r' = RSet" using assms(1) on by (simp add: fut_won_def)
  ultimately show ?thesis using assms(1) on unfolding fut_won_def by (simp del: fun_upd_apply)
qed

lemma fut_won_reg:
  assumes "fut_won d s" "regs s r = RIdle" "x = RNone \<or> x = RLate"
  shows "fut_won d (s\<lparr>regs := (regs s)(r := x)\<rparr>)"
proof (rule fut_won_regs [OF assms(1)])
  show "\<forall>r'. ((regs s)(r := x)) r' = RCalled \<longleftrightarrow> regs s r' = RCalled" using assms(2,3) by auto
  have "f_on s \<noteq> Some r" using assms(1,2) unfolding fut_won_def by (metis registrar.distinct(1))
  then show "\<forall>r'. f_on s = Some r' \<longrightarrow> ((regs s)(r := x)) r' = RSet" using assms(1) by (auto simp: fut_won_def)
qed

lemma fut_won_step: "fut_won d s \<Longrightarrow> \<not> f_panic s \<Longrightarrow> fut_step s l = Some s' \<Longrightarrow> fut_won d s' \<and> \<not> f_panic s'"
proof (cases l)
  case (FDone d' res err)
  assume w: "fut_won d s" and p: "\<not> f_panic s" "fut_step s l = Some s'"
  have i: "doers s d' = DIdle" using p(2) FDone by (simp split: if_splits)
  then have "d' \<noteq> d" using w by (auto simp: fut_won_def callback_run_def)
  moreover have "s' = s\<lparr>doers := (doers s)(d' := DLost)\<rparr>" using p(2) FDone i w by (simp add: fut_won_def)
  ultimately show ?thesis using fut_won_lost [OF w] p(1) by simp
next
  case (FCallback d')
  assume w: "fut_won d s" and p: "\<not> f_panic s" "fut_step s l = Some s'"
  obtain cb where cb: "doers s d' = DWon cb" using p(2) FCallback by (auto split: doer.splits)
  then have "d' = d" using w unfolding fut_won_def by (metis doer.distinct(3,9))
  then have d: "d' = d" "doers s d = DWon (f_on s)" "\<not> callback_run s d"
    using cb w by (auto simp: fut_won_def callback_run_def)
  then have "r \<notin> fst ` set (f_calls s)" if "f_on s = Some r" for r
    using w that by (auto simp: fut_won_def)
  moreover have "fst ` set (f_calls s) = {r. regs s r = RCalled}" using w d by (simp add: fut_won_def)
  note fst_CollectD [OF this]
  ultimately show ?thesis using w p d FCallback
    by (cases "f_on s") (auto simp: fut_won_def callback_run_def)
next
  case (FClose d')
  assume w: "fut_won d s" and p: "\<not> f_panic s" "fut_step s l = Some s'"
  have c: "doers s d' = DCalled" using p(2) FClose by (auto split: if_splits)
  then have "d' = d" using w unfolding fut_won_def by (metis doer.distinct(5,11))
  then have "d' = d" "doers s d = DCalled" using c by simp_all
  moreover have "\<not> f_closed s" using calculation w by (simp add: fut_won_def)
  ultimately show ?thesis using fut_won_close [OF w] p FClose by auto
next
  case (FRegister r isnil)
  assume w: "fut_won d s" and p: "\<not> f_panic s" "fut_step s l = Some s'"
  have "regs s r = RIdle" "s' = s\<lparr>regs := (regs s)(r := if isnil then RNone else RLate)\<rparr>"
    using w p(2) FRegister by (simp_all add: fut_won_def split: if_splits)
  then show ?thesis using fut_won_reg [OF w] p(1) by simp
next
  case (FLateCall r)
  assume w: "fut_won d s" and p: "\<not> f_panic s" "fut_step s l = Some s'"
  have "regs s r = RLate" using p(2) FLateCall by (simp split: if_splits)
  then show ?thesis using fut_won_late [OF w] p FLateCall by auto
next
  case (FWake w)
  assume w: "fut_won d s" and p: "\<not> f_panic s" "fut_step s l = Some s'"
  then show ?thesis using FWake fut_won_waits [OF w, of WChosen w] by (auto split: if_splits)
next
  case (FRead w)
  assume w: "fut_won d s" and p: "\<not> f_panic s" "fut_step s l = Some s'"
  then have c: "waits s w = WChosen" using FRead by (simp split: if_splits)
  have "waiter_ok (f_closed s) (f_res s, f_err s) (waits s w)" using w by (simp add: fut_won_def)
  then show ?thesis using p c FRead fut_won_waits [OF w, of "WGot (f_res s, f_err s)" w] by auto
next
  case (FCancel w)
  assume w: "fut_won d s" and p: "\<not> f_panic s" "fut_step s l = Some s'"
  then show ?thesis using FCancel fut_won_waits [OF w, of WCancelled w] by (auto split: if_splits)
qed

lemma fut_inv_step: "fut_inv s \<Longrightarrow> fut_step s l = Some s' \<Longrightarrow> fut_inv s'"
  using fut_open_step fut_won_step unfolding fut_inv_def by metis

lemma fut_inv_run: "fut_inv s \<Longrightarrow> fut_run s ls = Some s' \<Longrightarrow> fut_inv s'"
  by (induction ls arbitrary: s) (auto split: option.splits dest: fut_inv_step)

lemma fut_inv_new: "fut_inv (new_shared nil)"
  by (simp add: fut_inv_def fut_open_def new_shared_def)

text \<open>Once the future is complete, the winner needs two steps and a waiter two more.\<close>

lemma waiter_returns:
  assumes "fut_inv s" "f_complete s" "waits s w = WWaiting"
  shows "\<exists>ls s'. length ls \<le> 4 \<and> fut_run s ls = Some s' \<and> waits s' w = WGot (f_res s, f_err s)"
proof -
  obtain d where d: "fut_won d s" using assms(1,2) by (auto simp: fut_inv_def fut_open_def)
  consider "doers s d = DWon (f_on s)" | "doers s d = DCalled" | "doers s d = DReturned"
    using d by (auto simp: fut_won_def callback_run_def)
  then show ?thesis
  proof cases
    case 1
    then have "\<not> f_closed s" using d by (simp add: fut_won_def)
    then show ?thesis using 1 assms(3)
      by (intro exI [of _ "[FCallback d, FClose d, FWake w, FRead w]"]) simp
  next
    case 2
    then have "\<not> f_closed s" using d by (simp add: fut_won_def)
    then show ?thesis using 2 assms(3) by (intro exI [of _ "[FClose d, FWake w, FRead w]"]) simp
  next
    case 3
    then have "f_closed s" using d by (simp add: fut_won_def)
    then show ?thesis using assms(3) by (intro exI [of _ "[FWake w, FRead w]"]) simp
  qed
qed

lemma future_rule:
  assumes "fut_run (new_shared nil) ls = Some s"
  shows "\<not> f_panic s \<and> (waits s w = WGot x \<longrightarrow> x = (f_res s, f_err s)) \<and>
    distinct (map fst (f_calls s)) \<and> (\<forall>(r, e) \<in> set (f_calls s). e = f_err s) \<and>
    (f_closed s \<and> f_on s = Some r \<longrightarrow> (r, f_err s) \<in> set (f_calls s)) \<and>
    (f_complete s \<and> waits s w = WWaiting \<longrightarrow>
      (\<exists>ls s'. length ls \<le> 4 \<and> fut_run s ls = Some s' \<and> waits s' w = WGot (f_res s, f_err s)))"
proof -
  have I: "fut_inv s" by (rule fut_inv_run [OF fut_inv_new assms])
  have S: "(waits s w = WGot x \<longrightarrow> x = (f_res s, f_err s)) \<and> distinct (map fst (f_calls s)) \<and>
    (\<forall>(r, e) \<in> set (f_calls s). e = f_err s) \<and> (f_closed s \<and> f_on s = Some r \<longrightarrow> (r, f_err s) \<in> set (f_calls s))"
  proof (cases "fut_open s")
    case True
    then have "waiter_ok False (f_res s, f_err s) (waits s w)" by (simp add: fut_open_def)
    then have "waits s w \<noteq> WGot x" by auto
    then show ?thesis using True by (simp add: fut_open_def)
  next
    case False
    then obtain d where d: "fut_won d s" using I by (auto simp: fut_inv_def)
    have "(r, f_err s) \<in> set (f_calls s)" if c: "f_closed s" "f_on s = Some r"
    proof -
      have "r \<in> fst ` set (f_calls s)" using d c by (simp add: fut_won_def callback_run_def)
      then obtain e where "(r, e) \<in> set (f_calls s)" by auto
      then show ?thesis using d by (auto simp: fut_won_def)
    qed
    moreover have "waits s w = WGot x \<longrightarrow> x = (f_res s, f_err s)" using d unfolding fut_won_def by (metis waiter_ok.simps(1))
    ultimately show ?thesis using d by (simp add: fut_won_def)
  qed
  then show ?thesis using I waiter_returns [OF I] by (simp add: fut_inv_def)
qed

end
