(* ===== verification/Conn_Properties.thy ===== *)
theory Conn_Properties
  imports Rpc_Dial Rpc_Write Rpc_Future Rpc_Properties
begin

text \<open>The properties of the connections of a \<open>swifty_rpc\<close> client.\<close>

text \<open>C11. Whatever happens to a client connection (calls, streams, answers, read errors, timers, \<open>Close\<close>), it has at
  most one open connection at a time; once it is closed no connection is left open, every call has been
  completed and every stream has ended, and further calls are refused.\<close>

theorem conn_close_releases:
  assumes "net_reach ct (w, p)"
  shows "(\<forall>c d. c < fresh w \<longrightarrow> d < fresh w \<longrightarrow> \<not> mclosed (muxes w c) \<longrightarrow> \<not> mclosed (muxes w d) \<longrightarrow> c = d) \<and>
    (pool_closed p \<longrightarrow>
      (\<forall>c < fresh w. mclosed (muxes w c) \<and> (\<forall>n f. mfut (muxes w c) n = Some f \<longrightarrow> fcomplete f) \<and>
        (\<forall>n s. mstr (muxes w c) n = Some s \<longrightarrow> termErr s \<noteq> None)) \<and>
      (\<forall>e service meth. sendAsyncStatic e ct service meth w p = (w, p, Inl (PoolErr ErrPoolClosed))))"
proof -
  have I: "conn_inv {} w p" using conn_inv_reach [OF assms] by simp
  show ?thesis using one_live_connection [OF assms] closed_pool [OF I] closed_refuses(1) by blast
qed

definition one_call :: "Net \<times> nat ConnectionPool" where
  "one_call = (let e = \<lparr>ne_dial = True, ne_ctx = False, ne_body = Some [7], ne_write = None\<rparr>;
     (w, p, _) = sendAsyncStatic e 1 ''S'' ''M'' newNet (NewConnectionPool 1) in pool_Close w p)"

lemma one_call_reach: "net_reach 1 one_call"
proof -
  let ?e = "\<lparr>ne_dial = True, ne_ctx = False, ne_body = Some [7], ne_write = None\<rparr>"
  have f: "seq_free ?e newNet (NewConnectionPool 1)"
    by (simp add: seq_free_def acquire_def pool_Acquire_def NewConnectionPool_def newNet_def newMux_def)
  obtain w p r where s: "sendAsyncStatic ?e 1 ''S'' ''M'' newNet (NewConnectionPool 1) = (w, p, r)" by (metis prod_cases3)
  have "net_reach 1 (w, p)"
    by (rule net_next [OF net_init, of _ "OCall ?e ''S'' ''M''"]) (simp del: One_nat_def add: f s)
  then have "net_reach 1 (pool_Close w p)" by (rule net_next [of _ _ OClose]) simp
  then show ?thesis using s by (simp add: one_call_def)
qed

theorem conn_close_releases_witness:
  "\<exists>f. mfut (muxes (fst one_call) 0) 1 = Some f \<and> fcomplete f"
proof -
  have r: "net_reach 1 (fst one_call, snd one_call)" using one_call_reach by simp
  have "pool_closed (snd one_call)" "0 < fresh (fst one_call)" "mfut (muxes (fst one_call) 0) 1 \<noteq> None"
    by (simp_all add: one_call_def sendAsyncStatic_def acquire_def pool_Acquire_def NewConnectionPool_def newNet_def
        newMux_def send_on_def mux_SendAsync_def pool_Close_def mux_Close_def mux_shutdown_def NewFuture_def Let_def)
  then show ?thesis using conn_close_releases [OF r] by auto
qed


definition rr_client :: "64 word Client" where
  "rr_client = \<lparr>core = \<lparr>limiter = NewTokenBucket 10000, breakers = Map.empty\<rparr>, clb = 0, ctimeout = 5 * 10 ^ 9,
     ccodec = CodecJSON, cpools = Map.empty\<rparr>"

lemma rr_client_new: "NewClient (\<lambda>t. t = CodecJSON) 0 [] = Inr rr_client"
  by (simp add: NewClient_def rr_client_def)


text \<open>\<open>Close\<close> of a client with a registry closes every connection and ends every call and stream.\<close>

theorem client_close_releases:
  assumes "client_inv w c" "close_pools addrs w c = (w', c')" "\<forall>a. cpools c a \<noteq> None \<longrightarrow> a \<in> set addrs" "x < fresh w'"
  shows "mclosed (muxes w' x) \<and> (\<forall>n f. mfut (muxes w' x) n = Some f \<longrightarrow> fcomplete f) \<and>
    (\<forall>n s. mstr (muxes w' x) n = Some s \<longrightarrow> termErr s \<noteq> None)"
proof -
  note C = close_pools_closed [OF assms(2)]
  have "\<forall>a p. cpools c' a = Some p \<longrightarrow> pool_closed p" using C(1,2) assms(3) by (metis not_None_eq)
  then show ?thesis using client_closed [OF client_inv_close [OF assms(1,2)] _ assms(4)] by blast
qed

theorem client_close_releases_witness:
  "mclosed (muxes (fst (close_pools [''a:1''] (fst (acquire \<lparr>ne_dial = True, ne_ctx = False, ne_body = None, ne_write = None\<rparr>
      newNet (NewConnectionPool 1))) (rr_client\<lparr>cpools := [''a:1'' \<mapsto> NewConnectionPool 1\<lparr>conns := [0]\<rparr>]\<rparr>))) 0)"
proof -
  let ?w = "newNet\<lparr>fresh := 1\<rparr>" and ?p = "NewConnectionPool 1\<lparr>conns := [0]\<rparr>"
  let ?c = "rr_client\<lparr>cpools := [''a:1'' \<mapsto> ?p]\<rparr>"
  have w: "fst (acquire \<lparr>ne_dial = True, ne_ctx = False, ne_body = None, ne_write = None\<rparr> newNet (NewConnectionPool 1)) = ?w"
    by (simp add: acquire_def pool_Acquire_def NewConnectionPool_def newNet_def fun_eq_iff)
  have "client_inv newNet rr_client" by (rule client_inv_new [OF rr_client_new]) (simp add: rr_client_def)
  then have i: "client_inv ?w ?c"
    by (auto simp: client_inv_def conn_inv_def others_def getPool_def newNet_def mux_inv_new NewConnectionPool_def pool_ok_def
        rr_client_def)
  obtain w' c' where q: "close_pools [''a:1''] ?w ?c = (w', c')" by fastforce
  have "0 < fresh w'" using q by (auto simp: close_fold pool_Close_def NewConnectionPool_def split: prod.splits)
  then show ?thesis using client_close_releases [OF i q] w q by (simp add: rr_client_def)
qed





text \<open>C17. A future that any number of goroutines complete, watch and wait for is completed once: its channel is closed
  at most once, all who wait get the result and the error of the first completion, every callback runs at most
  once and with that error, the one that was registered in time has run before the channel closes, and once the
  future is complete a waiter returns after at most four steps of the goroutine that completed it and its own.\<close>

theorem future_completed_once:
  assumes "fut_run (new_shared nil) ls = Some s"
  shows "\<not> f_panic s \<and> (waits s w = WGot x \<longrightarrow> x = (f_res s, f_err s)) \<and>
    distinct (map fst (f_calls s)) \<and> (\<forall>(r, e) \<in> set (f_calls s). e = f_err s) \<and>
    (f_closed s \<and> f_on s = Some r \<longrightarrow> (r, f_err s) \<in> set (f_calls s)) \<and>
    (f_complete s \<and> waits s w = WWaiting \<longrightarrow>
      (\<exists>ls s'. length ls \<le> 4 \<and> fut_run s ls = Some s' \<and> waits s' w = WGot (f_res s, f_err s)))"
  by (rule future_rule [OF assms])

theorem future_completed_once_witness:
  "\<exists>s. fut_run (new_shared []) [FRegister 1 False, FDone 7 [42] None, FDone 8 [] (Some ''late''), FRegister 2 False, FCallback 7,
      FLateCall 2] = Some s \<and> f_calls s = [(1, None), (2, None)] \<and>
    (\<exists>ls s'. length ls \<le> 4 \<and> fut_run s ls = Some s' \<and> waits s' 5 = WGot ([42 :: byte], None))"
proof -
  obtain s where s: "fut_run (new_shared []) [FRegister 1 False, FDone 7 [42 :: byte] None, FDone 8 [] (Some ''late''),
      FRegister 2 False, FCallback 7, FLateCall 2] = Some s" "f_calls s = [(1, None), (2, None)]" "f_complete s"
    "waits s 5 = WWaiting" "f_res s = [42]" "f_err s = None"
    by (simp add: new_shared_def)
  then show ?thesis using future_completed_once [OF s(1), of 5] by auto
qed

end
