(* ===== verification/Rpc_Lifecycle.thy ===== *)
theory Rpc_Lifecycle
  imports Prelude
begin

text \<open>
  The life of a server (\<open>swifty_rpc/internal/server/server.go\<close>): \<open>Serve\<close> with its accept loop, one
  goroutine for each connection, \<open>beginShutdown\<close>, \<open>Stop\<close> and \<open>GracefulStop\<close>, all concurrent. The steps are
  the accesses to the shared state: the mutex, the channel \<open>closing\<close>, the wait groups, the listener and
  the connections. A call of \<open>Serve\<close> is numbered by its listener, a connection by its own number.
\<close>

datatype acceptor = AIdle | ARegistered | AChecked | AAccepting | AConn nat | ATracked nat | ADone

datatype handler = HNone | HReading | HBusy | HClosed | HDone

datatype stopper = TIdle | TClosing | TListener | TWaitServe | TWaitHandlers | TDone

record Srv =
  listener :: "nat option"
  lis_open :: "nat \<Rightarrow> bool"
  closing :: bool
  once_done :: bool
  acceptors :: "nat \<Rightarrow> acceptor"
  serveWg :: nat
  tracked :: "nat set"
  conn_open :: "nat \<Rightarrow> bool"
  deadline :: "nat \<Rightarrow> bool"
  handlers :: "nat \<Rightarrow> handler"
  connWg :: nat
  next_conn :: nat
  stoppers :: "nat \<Rightarrow> stopper"
  limiter_stopped :: bool

definition NewServer :: Srv where
  "NewServer = \<lparr>listener = None, lis_open = (\<lambda>_. False), closing = False, once_done = False,
     acceptors = (\<lambda>_. AIdle), serveWg = 0, tracked = {}, conn_open = (\<lambda>_. False), deadline = (\<lambda>_. False),
     handlers = (\<lambda>_. HNone), connWg = 0, next_conn = 0, stoppers = (\<lambda>_. TIdle),
     limiter_stopped = False\<rparr>"

datatype srv_label =
    SRegister nat | SCheck nat | SAdd nat | SAccept nat | SAcceptErr nat | STrack nat | SSpawn nat
  | HRequest nat | HAnswer nat | HReadErr nat | HDelete nat
  | TBegin nat | TClose nat | TCloseLis nat | TOnce nat | TSweepStop nat | TSweepGraceful nat | TJoin nat

text \<open>\<open>Serve\<close>. An error of \<open>Accept\<close> ends the loop only when the server is closing.\<close>

fun serve_step :: "Srv \<Rightarrow> srv_label \<Rightarrow> Srv option" where
  "serve_step s (SRegister i) =
     (if acceptors s i = AIdle
      then Some (s\<lparr>listener := Some i, lis_open := (lis_open s)(i := True), acceptors := (acceptors s)(i := ARegistered)\<rparr>)
      else None)"
| "serve_step s (SCheck i) =
     (if acceptors s i = ARegistered
      then Some (if closing s then s\<lparr>lis_open := (lis_open s)(i := False), acceptors := (acceptors s)(i := ADone)\<rparr>
                 else s\<lparr>acceptors := (acceptors s)(i := AChecked)\<rparr>)
      else None)"
| "serve_step s (SAdd i) =
     (if acceptors s i = AChecked
      then Some (s\<lparr>serveWg := serveWg s + 1, acceptors := (acceptors s)(i := AAccepting)\<rparr>) else None)"
| "serve_step s (SAccept i) =
     (if acceptors s i = AAccepting \<and> lis_open s i
      then let c = next_conn s in
        Some (s\<lparr>next_conn := c + 1, conn_open := (conn_open s)(c := True), acceptors := (acceptors s)(i := AConn c)\<rparr>)
      else None)"
| "serve_step s (SAcceptErr i) =
     (if acceptors s i = AAccepting
      then Some (if closing s then s\<lparr>serveWg := serveWg s - 1, acceptors := (acceptors s)(i := ADone)\<rparr> else s)
      else None)"
| "serve_step s (STrack i) = (case acceptors s i of
      AConn c \<Rightarrow> Some (s\<lparr>tracked := insert c (tracked s), acceptors := (acceptors s)(i := ATracked c)\<rparr>)
    | _ \<Rightarrow> None)"
| "serve_step s (SSpawn i) = (case acceptors s i of
      ATracked c \<Rightarrow> Some (s\<lparr>connWg := connWg s + 1, handlers := (handlers s)(c := HReading),
        acceptors := (acceptors s)(i := AAccepting)\<rparr>)
    | _ \<Rightarrow> None)"
| "serve_step s _ = None"

text \<open>
  The goroutine of a connection: requests are read one after the other, also from the buffer, so a request
  may come after the connection was closed or its deadline set. A read fails when the peer goes
  away, which it may at any time, so the label is always enabled while it reads; then \<open>Handle\<close> closes
  the connection and the goroutine removes it.
\<close>

fun conn_step :: "Srv \<Rightarrow> srv_label \<Rightarrow> Srv option" where
  "conn_step s (HRequest c) =
     (if handlers s c = HReading then Some (s\<lparr>handlers := (handlers s)(c := HBusy)\<rparr>) else None)"
| "conn_step s (HAnswer c) =
     (if handlers s c = HBusy then Some (s\<lparr>handlers := (handlers s)(c := HReading)\<rparr>) else None)"
| "conn_step s (HReadErr c) =
     (if handlers s c = HReading
      then Some (s\<lparr>handlers := (handlers s)(c := HClosed), conn_open := (conn_open s)(c := False)\<rparr>) else None)"
| "conn_step s (HDelete c) =
     (if handlers s c = HClosed
      then Some (s\<lparr>handlers := (handlers s)(c := HDone), tracked := tracked s - {c}, connWg := connWg s - 1\<rparr>) else None)"
| "conn_step s _ = None"

text \<open>
  \<open>beginShutdown\<close> (the first caller runs it, later ones wait for it), then \<open>Stop\<close> or \<open>GracefulStop\<close>.
\<close>

definition begun :: "Srv \<Rightarrow> bool" where
  "begun s \<longleftrightarrow> closing s"

fun stop_step :: "Srv \<Rightarrow> srv_label \<Rightarrow> Srv option" where
  "stop_step s (TBegin t) =
     (if stoppers s t = TIdle then Some (s\<lparr>stoppers := (stoppers s)(t := TClosing)\<rparr>) else None)"
| "stop_step s (TClose t) =
     (if stoppers s t = TClosing \<and> \<not> begun s
      then Some (s\<lparr>closing := True, stoppers := (stoppers s)(t := TListener)\<rparr>) else None)"
| "stop_step s (TCloseLis t) =
     (if stoppers s t = TListener
      then Some (s\<lparr>lis_open := (case listener s of None \<Rightarrow> lis_open s | Some i \<Rightarrow> (lis_open s)(i := False)),
        once_done := True, stoppers := (stoppers s)(t := TWaitServe)\<rparr>) else None)"
| "stop_step s (TOnce t) =
     (if stoppers s t = TClosing \<and> once_done s then Some (s\<lparr>stoppers := (stoppers s)(t := TWaitServe)\<rparr>) else None)"
| "stop_step s (TSweepStop t) =
     (if stoppers s t = TWaitServe \<and> serveWg s = 0
      then Some (s\<lparr>conn_open := (\<lambda>c. if c \<in> tracked s then False else conn_open s c), stoppers := (stoppers s)(t := TDone),
        limiter_stopped := True\<rparr>)
      else None)"
| "stop_step s (TSweepGraceful t) =
     (if stoppers s t = TWaitServe \<and> serveWg s = 0
      then Some (s\<lparr>deadline := (\<lambda>c. if c \<in> tracked s then True else deadline s c), stoppers := (stoppers s)(t := TWaitHandlers)\<rparr>)
      else None)"
| "stop_step s (TJoin t) =
     (if stoppers s t = TWaitHandlers \<and> connWg s = 0
      then Some (s\<lparr>stoppers := (stoppers s)(t := TDone), limiter_stopped := True\<rparr>) else None)"
| "stop_step s _ = None"

definition srv_step :: "Srv \<Rightarrow> srv_label \<Rightarrow> Srv option" where
  "srv_step s l = (case serve_step s l of Some s' \<Rightarrow> Some s' | None \<Rightarrow>
     (case conn_step s l of Some s' \<Rightarrow> Some s' | None \<Rightarrow> stop_step s l))"

fun srv_run :: "Srv \<Rightarrow> srv_label list \<Rightarrow> Srv option" where
  "srv_run s [] = Some s"
| "srv_run s (l # ls) = (case srv_step s l of None \<Rightarrow> None | Some s' \<Rightarrow> srv_run s' ls)"

text \<open>The server with calls of \<open>Serve\<close> on the listeners of a set.\<close>

fun allowed :: "nat set \<Rightarrow> srv_label \<Rightarrow> bool" where
  "allowed L (SRegister i) = (i \<in> L)"
| "allowed L _ = True"

inductive srv_reach :: "nat set \<Rightarrow> Srv \<Rightarrow> bool" for L where
  srv_init: "srv_reach L NewServer"
| srv_next: "srv_reach L s \<Longrightarrow> allowed L l \<Longrightarrow> srv_step s l = Some s' \<Longrightarrow> srv_reach L s'"

lemma srv_reach_run: "srv_reach L s \<Longrightarrow> list_all (allowed L) ls \<Longrightarrow> srv_run s ls = Some s' \<Longrightarrow> srv_reach L s'"
  by (induction ls arbitrary: s) (auto split: option.splits intro: srv_next)


subsection \<open>One listener\<close>

definition live_handlers :: "Srv \<Rightarrow> nat set" where
  "live_handlers s = {c. handlers s c = HReading \<or> handlers s c = HBusy \<or> handlers s c = HClosed}"

fun serving :: "acceptor \<Rightarrow> bool" where
  "serving AAccepting = True" | "serving (AConn c) = True" | "serving (ATracked c) = True" | "serving _ = False"

fun holding :: "acceptor \<Rightarrow> bool" where
  "holding (AConn c) = True" | "holding (ATracked c) = True" | "holding _ = False"

text \<open>How far a shutdown is: begun, listener closed, accept loop over.\<close>

fun phase :: "stopper \<Rightarrow> nat" where
  "phase TIdle = 0" | "phase TClosing = 0" | "phase TListener = 1" | "phase TWaitServe = 2"
| "phase TWaitHandlers = 3" | "phase TDone = 3"

lemma phase_done: "t = TDone \<Longrightarrow> 2 \<le> phase t"
  by simp

text \<open>The accept loop and the shutdown.\<close>

definition acc_inv :: "nat \<Rightarrow> Srv \<Rightarrow> bool" where
  "acc_inv i s \<longleftrightarrow> (\<forall>j. j \<noteq> i \<longrightarrow> acceptors s j = AIdle) \<and>
    serveWg s = (if serving (acceptors s i) then 1 else 0) \<and> (acceptors s i \<noteq> AIdle \<longrightarrow> listener s = Some i)"

definition stop_inv :: "Srv \<Rightarrow> bool" where
  "stop_inv s \<longleftrightarrow> (once_done s \<longrightarrow> closing s) \<and> (\<forall>t. 1 \<le> phase (stoppers s t) \<longrightarrow> closing s) \<and>
    (\<forall>t. 2 \<le> phase (stoppers s t) \<longrightarrow> once_done s)"

definition lis_inv :: "nat \<Rightarrow> Srv \<Rightarrow> bool" where
  "lis_inv i s \<longleftrightarrow>
    (once_done s \<and> acceptors s i \<noteq> AIdle \<and> acceptors s i \<noteq> ARegistered \<longrightarrow> \<not> lis_open s i) \<and>
    (\<forall>t. 3 \<le> phase (stoppers s t) \<longrightarrow> \<not> holding (acceptors s i))"

text \<open>The connections.\<close>

definition cn_inv :: "nat \<Rightarrow> Srv \<Rightarrow> bool" where
  "cn_inv i s \<longleftrightarrow>
    (\<forall>c \<ge> next_conn s. \<not> conn_open s c \<and> handlers s c = HNone \<and> c \<notin> tracked s) \<and>
    (\<forall>c. acceptors s i = AConn c \<longrightarrow> c < next_conn s \<and> handlers s c = HNone \<and> c \<notin> tracked s) \<and>
    (\<forall>c. acceptors s i = ATracked c \<longrightarrow> c < next_conn s \<and> handlers s c = HNone \<and> c \<in> tracked s) \<and>
    (\<forall>c. conn_open s c \<longrightarrow> c \<in> tracked s \<or> acceptors s i = AConn c) \<and>
    (\<forall>c \<in> tracked s. c \<in> live_handlers s \<or> acceptors s i = ATracked c)"

definition wg_inv :: "Srv \<Rightarrow> bool" where
  "wg_inv s \<longleftrightarrow> connWg s = card (live_handlers s) \<and> finite (live_handlers s)"

definition stopped_inv :: "Srv \<Rightarrow> bool" where
  "stopped_inv s \<longleftrightarrow> (\<forall>t. stoppers s t = TDone \<longrightarrow> (\<forall>c. \<not> conn_open s c))"

lemma step_cases:
  "srv_step s l = Some s' \<Longrightarrow> serve_step s l = Some s' \<or> conn_step s l = Some s' \<or> stop_step s l = Some s'"
  by (auto simp: srv_step_def split: option.splits)

lemma acc_inv_step: "acc_inv i s \<Longrightarrow> allowed {i} l \<Longrightarrow> srv_step s l = Some s' \<Longrightarrow> acc_inv i s'"
proof -
  assume I: "acc_inv i s" and al: "allowed {i} l" and st: "srv_step s l = Some s'"
  have ot: "acceptors s j \<noteq> AIdle \<Longrightarrow> j = i" for j using I unfolding acc_inv_def by blast
  have wg: "serveWg s = (if serving (acceptors s i) then 1 else 0)" and oi: "\<forall>j. j \<noteq> i \<longrightarrow> acceptors s j = AIdle"
    and ls: "acceptors s i \<noteq> AIdle \<longrightarrow> listener s = Some i"
    using I unfolding acc_inv_def by blast+
  have same: "acc_inv i s'" if "acceptors s' = acceptors s" "serveWg s' = serveWg s" "listener s' = listener s"
    using that I by (simp add: acc_inv_def)
  have own: "acc_inv i s'" if "acceptors s' = (acceptors s)(i := a)" "a \<noteq> AIdle" "serveWg s' = (if serving a then 1 else 0)"
    "listener s' = Some i" for a
    using that oi by (simp add: acc_inv_def)
  show "acc_inv i s'"
  proof (cases l)
    case (SRegister j)
    then show ?thesis using al st wg by (intro own [of ARegistered]) (auto simp: srv_step_def split: if_splits)
  next
    case (SCheck j)
    then show ?thesis using ot [of j] st wg ls
      by (intro own [of "if closing s then ADone else AChecked"]) (auto simp: srv_step_def split: if_splits)
  next
    case (SAdd j)
    then show ?thesis using ot [of j] st wg ls by (intro own [of AAccepting]) (auto simp: srv_step_def split: if_splits)
  next
    case (SAccept j)
    then show ?thesis using ot [of j] st wg ls
      by (intro own [of "AConn (next_conn s)"]) (auto simp: srv_step_def Let_def split: if_splits)
  next
    case (SAcceptErr j)
    then have j: "j = i" "acceptors s i = AAccepting" using ot [of j] st by (auto simp: srv_step_def split: if_splits)
    show ?thesis
    proof (cases "closing s")
      case True
      then show ?thesis using SAcceptErr j st wg ls by (intro own [of ADone]) (auto simp: srv_step_def)
    next
      case False
      then show ?thesis using SAcceptErr j st by (intro same) (auto simp: srv_step_def)
    qed
  next
    case (STrack j)
    then obtain c where "acceptors s j = AConn c" using st by (auto simp: srv_step_def split: acceptor.splits)
    then show ?thesis using STrack ot [of j] st wg ls by (intro own [of "ATracked c"]) (auto simp: srv_step_def)
  next
    case (SSpawn j)
    then show ?thesis using ot [of j] st wg ls
      by (intro own [of AAccepting]) (auto simp: srv_step_def split: acceptor.splits)
  qed (rule same; use st in \<open>auto simp: srv_step_def begun_def split: if_splits option.splits\<close>)+
qed

lemma stop_listener: "stop_inv s \<Longrightarrow> stoppers s t = TListener \<Longrightarrow> closing s"
  unfolding stop_inv_def by (metis order_refl phase.simps(3))

lemma stop_inv_step: "stop_inv s \<Longrightarrow> srv_step s l = Some s' \<Longrightarrow> stop_inv s'"
proof (cases l)
  case (TCloseLis t)
  assume "stop_inv s" "srv_step s l = Some s'"
  moreover from this have "closing s" using TCloseLis stop_listener [of s t] by (auto simp: srv_step_def split: if_splits)
  ultimately show ?thesis using TCloseLis by (auto simp: srv_step_def stop_inv_def split: if_splits option.splits)
qed (auto simp: srv_step_def stop_inv_def Let_def begun_def split: if_splits acceptor.splits option.splits)

lemma lis_inv_step:
  assumes "acc_inv i s" "stop_inv s" "lis_inv i s" "allowed {i} l" "srv_step s l = Some s'"
  shows "lis_inv i s'"
proof -
  have cl: "closing s \<and> once_done s" if "3 \<le> phase (stoppers s t)" for t
  proof -
    have "1 \<le> phase (stoppers s t)" "2 \<le> phase (stoppers s t)" using that by simp_all
    then show ?thesis using assms(2) unfolding stop_inv_def by blast
  qed
  have oc: "once_done s \<Longrightarrow> closing s" using assms(2) unfolding stop_inv_def by blast
  have ls: "acceptors s i \<noteq> AIdle \<Longrightarrow> listener s = Some i" using assms(1) unfolding acc_inv_def by blast
  have wg: "serveWg s = 0 \<Longrightarrow> \<not> holding (acceptors s i)" using assms(1) unfolding acc_inv_def by (cases "acceptors s i") auto
  have ot: "acceptors s j \<noteq> AIdle \<Longrightarrow> j = i" for j using assms(1) unfolding acc_inv_def by blast
  show ?thesis
  proof (cases l)
    case (SAccept j)
    then have j: "j = i" "acceptors s i = AAccepting" "lis_open s i" using assms(5) ot [of j] by (auto simp: srv_step_def split: if_splits)
    then have "\<not> once_done s" using assms(3) unfolding lis_inv_def by auto
    then have "\<not> 3 \<le> phase (stoppers s t)" for t using cl by blast
    then show ?thesis using SAccept j assms(5) \<open>\<not> once_done s\<close> by (auto simp: srv_step_def lis_inv_def Let_def)
  next
    case (SCheck j)
    then show ?thesis using assms(3,5) oc ot [of j] by (auto simp: srv_step_def lis_inv_def split: if_splits)
  next
    case (TSweepStop t)
    then show ?thesis using assms(3,5) wg by (auto simp: srv_step_def lis_inv_def split: if_splits)
  next
    case (TSweepGraceful t)
    then show ?thesis using assms(3,5) wg by (auto simp: srv_step_def lis_inv_def split: if_splits)
  next
    case (TCloseLis t)
    then show ?thesis using assms(3,5) ls by (auto simp: srv_step_def lis_inv_def split: if_splits option.splits)
  next
    case (STrack j)
    then show ?thesis using assms(3,5) ot [of j] by (auto simp: srv_step_def lis_inv_def split: acceptor.splits)
  next
    case (SSpawn j)
    then show ?thesis using assms(3,5) ot [of j] by (auto simp: srv_step_def lis_inv_def split: acceptor.splits)
  next
    case (TJoin t)
    then have "3 \<le> phase (stoppers s t)" using assms(5) by (auto simp: srv_step_def split: if_splits)
    then show ?thesis using TJoin assms(3,5) by (auto simp: srv_step_def lis_inv_def split: if_splits)
  qed (use assms(3,4,5) in \<open>auto simp: srv_step_def lis_inv_def begun_def split: if_splits\<close>)
qed

lemma live_upd:
  "live_handlers (s\<lparr>handlers := (handlers s)(c := h)\<rparr>) =
    (if h = HReading \<or> h = HBusy \<or> h = HClosed then insert c (live_handlers s) else live_handlers s - {c})"
  by (auto simp: live_handlers_def)

lemma live_cong: "handlers s = handlers s' \<Longrightarrow> live_handlers s = live_handlers s'"
  by (simp add: live_handlers_def)

lemma wg_inv_step:
  assumes "cn_inv i s" "wg_inv s" "acc_inv i s" "srv_step s l = Some s'"
  shows "wg_inv s'"
proof -
  have ot: "acceptors s j \<noteq> AIdle \<Longrightarrow> j = i" for j using assms(3) unfolding acc_inv_def by blast
  have keep: "wg_inv s'" if "handlers s' = handlers s" "connWg s' = connWg s"
    using that assms(2) live_cong [of s' s] by (simp add: wg_inv_def)
  have up: "wg_inv s'" if "handlers s' = (handlers s)(c := h)" "c \<in> live_handlers s" "connWg s' = connWg s"
    "h = HReading \<or> h = HBusy \<or> h = HClosed" for c h
    using that assms(2) live_upd [of s c h] live_cong [of s' "s\<lparr>handlers := (handlers s)(c := h)\<rparr>"]
    by (simp add: wg_inv_def insert_absorb)
  show ?thesis
  proof (cases l)
    case (SSpawn j)
    then obtain c where c: "acceptors s j = ATracked c" "handlers s' = (handlers s)(c := HReading)" "connWg s' = connWg s + 1"
      using assms(4) by (auto simp: srv_step_def split: acceptor.splits)
    then have "handlers s c = HNone" using ot [of j] assms(1) unfolding cn_inv_def by auto
    then have "c \<notin> live_handlers s" by (simp add: live_handlers_def)
    then show ?thesis using c assms(2) live_upd [of s c HReading] live_cong [of s' "s\<lparr>handlers := (handlers s)(c := HReading)\<rparr>"]
      by (simp add: wg_inv_def)
  next
    case (HDelete c)
    then have c: "handlers s c = HClosed" "handlers s' = (handlers s)(c := HDone)" "connWg s' = connWg s - 1"
      using assms(4) by (auto simp: srv_step_def split: if_splits)
    then have "c \<in> live_handlers s" by (simp add: live_handlers_def)
    then show ?thesis using c assms(2) live_upd [of s c HDone] live_cong [of s' "s\<lparr>handlers := (handlers s)(c := HDone)\<rparr>"]
      by (simp add: wg_inv_def)
  next
    case (HRequest c)
    then show ?thesis using assms(4) by (intro up [of c HBusy]) (auto simp: srv_step_def live_handlers_def split: if_splits)
  next
    case (HAnswer c)
    then show ?thesis using assms(4) by (intro up [of c HReading]) (auto simp: srv_step_def live_handlers_def split: if_splits)
  next
    case (HReadErr c)
    then show ?thesis using assms(4) by (intro up [of c HClosed]) (auto simp: srv_step_def live_handlers_def split: if_splits)
  qed (rule keep; use assms(4) in \<open>auto simp: srv_step_def Let_def begun_def split: if_splits acceptor.splits option.splits\<close>)+
qed

lemma cn_invD:
  assumes "cn_inv i s"
  shows "next_conn s \<le> c \<Longrightarrow> \<not> conn_open s c \<and> handlers s c = HNone \<and> c \<notin> tracked s"
    and "acceptors s i = AConn c \<Longrightarrow> c < next_conn s \<and> handlers s c = HNone \<and> c \<notin> tracked s"
    and "acceptors s i = ATracked c \<Longrightarrow> c < next_conn s \<and> handlers s c = HNone \<and> c \<in> tracked s"
    and "conn_open s c \<Longrightarrow> c \<in> tracked s \<or> acceptors s i = AConn c"
    and "c \<in> tracked s \<Longrightarrow> c \<in> live_handlers s \<or> acceptors s i = ATracked c"
  using assms unfolding cn_inv_def by blast+

lemma cn_invI:
  assumes "\<And>d. next_conn s \<le> d \<Longrightarrow> \<not> conn_open s d \<and> handlers s d = HNone \<and> d \<notin> tracked s"
    and "\<And>d. acceptors s i = AConn d \<Longrightarrow> d < next_conn s \<and> handlers s d = HNone \<and> d \<notin> tracked s"
    and "\<And>d. acceptors s i = ATracked d \<Longrightarrow> d < next_conn s \<and> handlers s d = HNone \<and> d \<in> tracked s"
    and "\<And>d. conn_open s d \<Longrightarrow> d \<in> tracked s \<or> acceptors s i = AConn d"
    and "\<And>d. d \<in> tracked s \<Longrightarrow> d \<in> live_handlers s \<or> acceptors s i = ATracked d"
  shows "cn_inv i s"
  unfolding cn_inv_def using assms by blast

text \<open>A step of a handler changes one connection that it owns.\<close>

lemma cn_inv_handler:
  assumes I: "cn_inv i s" and c: "c \<in> live_handlers s"
    and s': "acceptors s' = acceptors s" "next_conn s' = next_conn s" "handlers s' = (handlers s)(c := h)"
    and live: "tracked s' = tracked s \<and> (h = HReading \<or> h = HBusy \<or> h = HClosed) \<or> tracked s' = tracked s - {c} \<and> \<not> conn_open s c"
    and op: "\<And>d. conn_open s' d \<Longrightarrow> conn_open s d"
  shows "cn_inv i s'"
proof -
  have lv: "live_handlers s' = (if h = HReading \<or> h = HBusy \<or> h = HClosed then insert c (live_handlers s) else live_handlers s - {c})"
    using live_upd [of s c h] live_cong [of s' "s\<lparr>handlers := (handlers s)(c := h)\<rparr>"] s' by simp
  have hn: "handlers s c \<noteq> HNone" using c by (auto simp: live_handlers_def)
  note D = cn_invD [OF I]
  have "c < next_conn s" using D(1) [of c] hn by (meson not_le)
  show ?thesis unfolding cn_inv_def s'(1,2)
  proof (intro conjI allI impI ballI)
    fix d
    show "next_conn s \<le> d \<Longrightarrow> \<not> conn_open s' d" "next_conn s \<le> d \<Longrightarrow> handlers s' d = HNone" "next_conn s \<le> d \<Longrightarrow> d \<notin> tracked s'"
      using D(1) [of d] op [of d] s'(3) live \<open>c < next_conn s\<close> by auto
    show "acceptors s i = AConn d \<Longrightarrow> d < next_conn s" "acceptors s i = AConn d \<Longrightarrow> handlers s' d = HNone"
      "acceptors s i = AConn d \<Longrightarrow> d \<notin> tracked s'"
      using D(2) [of d] s'(3) live hn by auto
    show "acceptors s i = ATracked d \<Longrightarrow> d < next_conn s" "acceptors s i = ATracked d \<Longrightarrow> handlers s' d = HNone"
      "acceptors s i = ATracked d \<Longrightarrow> d \<in> tracked s'"
      using D(3) [of d] s'(3) live hn by auto
    show "conn_open s' d \<Longrightarrow> d \<in> tracked s' \<or> acceptors s i = AConn d"
      using D(4) [of d] op [of d] live by auto
    show "d \<in> tracked s' \<Longrightarrow> d \<in> live_handlers s' \<or> acceptors s i = ATracked d"
      using D(5) [of d] live lv by auto
  qed
qed

lemma cn_inv_same:
  assumes "cn_inv i s" "acceptors s' i = acceptors s i \<or> (\<forall>c. acceptors s i \<noteq> AConn c \<and> acceptors s i \<noteq> ATracked c \<and>
      acceptors s' i \<noteq> AConn c \<and> acceptors s' i \<noteq> ATracked c)"
    and "next_conn s' = next_conn s" "handlers s' = handlers s" "tracked s' = tracked s"
    and "\<And>d. conn_open s' d \<Longrightarrow> conn_open s d"
  shows "cn_inv i s'"
  using assms(2)
proof
  assume "acceptors s' i = acceptors s i"
  then show ?thesis using assms(1,3-6) live_cong [OF assms(4)] unfolding cn_inv_def by auto
next
  assume "\<forall>c. acceptors s i \<noteq> AConn c \<and> acceptors s i \<noteq> ATracked c \<and> acceptors s' i \<noteq> AConn c \<and> acceptors s' i \<noteq> ATracked c"
  then show ?thesis using assms(1,3-6) live_cong [OF assms(4)] unfolding cn_inv_def by auto
qed

lemma cn_inv_step:
  assumes I: "cn_inv i s" and A: "acc_inv i s" "allowed {i} l" and st: "srv_step s l = Some s'"
    and closed: "\<And>c. handlers s c = HClosed \<Longrightarrow> \<not> conn_open s c"
  shows "cn_inv i s'"
proof -
  have ot: "acceptors s j \<noteq> AIdle \<Longrightarrow> j = i" for j using A(1) unfolding acc_inv_def by blast
  note D = cn_invD [OF I]
  show ?thesis
  proof (cases l)
    case (SAccept j)
    then have j: "j = i" "acceptors s i = AAccepting" using st ot [of j] by (auto simp: srv_step_def split: if_splits)
    then have "s' = s\<lparr>next_conn := next_conn s + 1, conn_open := (conn_open s)(next_conn s := True),
        acceptors := (acceptors s)(i := AConn (next_conn s))\<rparr>"
      using st SAccept by (auto simp: srv_step_def Let_def split: if_splits)
    then have f: "next_conn s' = Suc (next_conn s)" "conn_open s' = (conn_open s)(next_conn s := True)" "handlers s' = handlers s"
      "tracked s' = tracked s" "acceptors s' i = AConn (next_conn s)" "live_handlers s' = live_handlers s"
      by (simp_all add: live_handlers_def)
    show ?thesis unfolding cn_inv_def f(1,3,4,5,6)
    proof (intro conjI allI impI ballI)
      fix d
      show "Suc (next_conn s) \<le> d \<Longrightarrow> \<not> conn_open s' d" "Suc (next_conn s) \<le> d \<Longrightarrow> handlers s d = HNone"
        "Suc (next_conn s) \<le> d \<Longrightarrow> d \<notin> tracked s"
        using D(1) [of d] f(2) by auto
      show "AConn (next_conn s) = AConn d \<Longrightarrow> d < Suc (next_conn s)" "AConn (next_conn s) = AConn d \<Longrightarrow> handlers s d = HNone"
        "AConn (next_conn s) = AConn d \<Longrightarrow> d \<notin> tracked s"
        using D(1) [of d] by auto
      show "conn_open s' d \<Longrightarrow> d \<in> tracked s \<or> AConn (next_conn s) = AConn d"
        using D(4) [of d] f(2) j(2) by (auto split: if_splits)
      show "d \<in> tracked s \<Longrightarrow> d \<in> live_handlers s \<or> AConn (next_conn s) = ATracked d"
        using D(5) [of d] j(2) by auto
    qed auto
  next
    case (STrack j)
    then obtain c where cj: "acceptors s j = AConn c" using st by (cases "acceptors s j") (auto simp: srv_step_def)
    then have "j = i" using ot [of j] by simp
    then have c: "acceptors s i = AConn c" "s' = s\<lparr>tracked := insert c (tracked s), acceptors := (acceptors s)(i := ATracked c)\<rparr>"
      using cj st STrack by (simp_all add: srv_step_def)
    show ?thesis
    proof (rule cn_invI)
      fix d
      show "next_conn s' \<le> d \<Longrightarrow> \<not> conn_open s' d \<and> handlers s' d = HNone \<and> d \<notin> tracked s'"
        "conn_open s' d \<Longrightarrow> d \<in> tracked s' \<or> acceptors s' i = AConn d"
        using D(1) [of d] D(4) [of d] D(2) [OF c(1)] c by auto
      show "d \<in> tracked s' \<Longrightarrow> d \<in> live_handlers s' \<or> acceptors s' i = ATracked d"
        using D(5) [of d] c by (auto simp: live_handlers_def)
      show "acceptors s' i = AConn d \<Longrightarrow> d < next_conn s' \<and> handlers s' d = HNone \<and> d \<notin> tracked s'"
        "acceptors s' i = ATracked d \<Longrightarrow> d < next_conn s' \<and> handlers s' d = HNone \<and> d \<in> tracked s'"
        using D(2) [OF c(1)] c by auto
    qed
  next
    case (SSpawn j)
    then obtain c where cj: "acceptors s j = ATracked c" using st by (cases "acceptors s j") (auto simp: srv_step_def)
    then have "j = i" using ot [of j] by simp
    then have c: "acceptors s i = ATracked c" "s' = s\<lparr>connWg := connWg s + 1, handlers := (handlers s)(c := HReading), acceptors := (acceptors s)(i := AAccepting)\<rparr>"
      using cj st SSpawn by (simp_all add: srv_step_def)
    show ?thesis
    proof (rule cn_invI)
      fix d
      show "next_conn s' \<le> d \<Longrightarrow> \<not> conn_open s' d \<and> handlers s' d = HNone \<and> d \<notin> tracked s'"
        "conn_open s' d \<Longrightarrow> d \<in> tracked s' \<or> acceptors s' i = AConn d"
        using D(1) [of d] D(4) [of d] D(3) [OF c(1)] c by auto
      show "d \<in> tracked s' \<Longrightarrow> d \<in> live_handlers s' \<or> acceptors s' i = ATracked d"
        using D(5) [of d] c by (auto simp: live_handlers_def)
      show "acceptors s' i = AConn d \<Longrightarrow> d < next_conn s' \<and> handlers s' d = HNone \<and> d \<notin> tracked s'"
        "acceptors s' i = ATracked d \<Longrightarrow> d < next_conn s' \<and> handlers s' d = HNone \<and> d \<in> tracked s'"
        using c by auto
    qed
  next
    case (HRequest c)
    then show ?thesis using st by (intro cn_inv_handler [OF I, of c _ HBusy]) (auto simp: srv_step_def live_handlers_def split: if_splits)
  next
    case (HAnswer c)
    then show ?thesis using st by (intro cn_inv_handler [OF I, of c _ HReading]) (auto simp: srv_step_def live_handlers_def split: if_splits)
  next
    case (HReadErr c)
    then show ?thesis using st by (intro cn_inv_handler [OF I, of c _ HClosed]) (auto simp: srv_step_def live_handlers_def split: if_splits)
  next
    case (HDelete c)
    then show ?thesis using st closed [of c]
      by (intro cn_inv_handler [OF I, of c _ HDone]) (auto simp: srv_step_def live_handlers_def split: if_splits)
  next
    case (SRegister j)
    then show ?thesis using st A(2) by (intro cn_inv_same [OF I]) (auto simp: srv_step_def split: if_splits)
  next
    case (SCheck j)
    then show ?thesis using st ot [of j] by (intro cn_inv_same [OF I]) (auto simp: srv_step_def split: if_splits)
  next
    case (SAdd j)
    then show ?thesis using st ot [of j] by (intro cn_inv_same [OF I]) (auto simp: srv_step_def split: if_splits)
  next
    case (SAcceptErr j)
    then show ?thesis using st ot [of j] by (intro cn_inv_same [OF I]) (auto simp: srv_step_def split: if_splits)
  qed (rule cn_inv_same [OF I]; use st in \<open>auto simp: srv_step_def begun_def split: if_splits option.splits\<close>)+
qed

text \<open>A connection whose handler is through is closed.\<close>

definition closed_inv :: "Srv \<Rightarrow> bool" where
  "closed_inv s \<longleftrightarrow> (\<forall>c. handlers s c = HClosed \<or> handlers s c = HDone \<longrightarrow> \<not> conn_open s c)"

lemma closed_inv_step:
  assumes "closed_inv s" "cn_inv i s" "acc_inv i s" "srv_step s l = Some s'"
  shows "closed_inv s'"
proof (cases l)
  case (SAccept j)
  have "handlers s (next_conn s) = HNone" using cn_invD(1) [OF assms(2), of "next_conn s"] by simp
  then show ?thesis using assms(1,4) SAccept by (auto simp: srv_step_def closed_inv_def Let_def split: if_splits)
qed (use assms(1,4) in \<open>auto simp: srv_step_def closed_inv_def begun_def split: if_splits acceptor.splits option.splits\<close>)


text \<open>When a shutdown is over, no connection is open: \<open>Stop\<close> closed those tracked, \<open>GracefulStop\<close> waited for them.\<close>

lemma stopped_inv_step:
  assumes I: "acc_inv i s" "stop_inv s" "lis_inv i s" "cn_inv i s" "wg_inv s" "closed_inv s" "stopped_inv s"
    and st: "srv_step s l = Some s'" and al: "allowed {i} l"
  shows "stopped_inv s'"
proof -
  have ot: "acceptors s j \<noteq> AIdle \<Longrightarrow> j = i" for j using I(1) unfolding acc_inv_def by blast
  have keep: "stopped_inv s'" if "\<And>t. stoppers s' t = TDone \<Longrightarrow> stoppers s t = TDone" "\<And>c. conn_open s' c \<Longrightarrow> conn_open s c"
    using that I(7) unfolding stopped_inv_def by blast
  have nh: "\<not> holding (acceptors s i)" if "3 \<le> phase (stoppers s t)" for t using I(3) that unfolding lis_inv_def by blast
  show ?thesis
  proof (cases l)
    case (SAccept j)
    then have j: "acceptors s i = AAccepting" "lis_open s i" using st ot [of j] by (auto simp: srv_step_def split: if_splits)
    then have "\<not> once_done s" using I(3) unfolding lis_inv_def by auto
    then have "stoppers s t \<noteq> TDone" for t using I(2) phase_done unfolding stop_inv_def by metis
    moreover have "stoppers s' = stoppers s" using st SAccept by (auto simp: srv_step_def Let_def split: if_splits)
    ultimately show ?thesis by (simp add: stopped_inv_def)
  next
    case (TSweepStop t)
    then have e: "serveWg s = 0" "conn_open s' = (\<lambda>c. if c \<in> tracked s then False else conn_open s c)"
      using st by (auto simp: srv_step_def split: if_splits)
    have "acceptors s i \<noteq> AConn c" for c using I(1) e(1) unfolding acc_inv_def by auto
    then have "\<not> conn_open s' c" for c using cn_invD(4) [OF I(4), of c] e(2) by auto
    then show ?thesis by (simp add: stopped_inv_def)
  next
    case (TJoin t)
    then have e: "connWg s = 0" "stoppers s t = TWaitHandlers" "conn_open s' = conn_open s"
      using st by (auto simp: srv_step_def split: if_splits)
    have h: "\<not> holding (acceptors s i)" using nh [of t] e(2) by simp
    have "live_handlers s = {}" using I(5) e(1) by (auto simp: wg_inv_def)
    then have "\<not> conn_open s c" for c
      using cn_invD(4,5) [OF I(4), of c] h by (cases "acceptors s i") auto
    then show ?thesis using e(3) by (simp add: stopped_inv_def)
  qed (rule keep; use st in \<open>auto simp: srv_step_def Let_def begun_def split: if_splits acceptor.splits option.splits\<close>)+
qed

definition srv_ok :: "nat \<Rightarrow> Srv \<Rightarrow> bool" where
  "srv_ok i s \<longleftrightarrow> acc_inv i s \<and> stop_inv s \<and> lis_inv i s \<and> cn_inv i s \<and> wg_inv s \<and> closed_inv s \<and> stopped_inv s"

lemma srv_ok_reach: "srv_reach {i} s \<Longrightarrow> srv_ok i s"
proof (induction rule: srv_reach.induct)
  case srv_init
  show ?case
    by (simp add: srv_ok_def acc_inv_def stop_inv_def lis_inv_def cn_inv_def wg_inv_def closed_inv_def stopped_inv_def
        NewServer_def live_handlers_def)
next
  case (srv_next s l s')
  then have I: "acc_inv i s" "stop_inv s" "lis_inv i s" "cn_inv i s" "wg_inv s" "closed_inv s" "stopped_inv s"
    by (simp_all add: srv_ok_def)
  note st = srv_next(3) and al = srv_next(2)
  have hc: "\<And>c. handlers s c = HClosed \<Longrightarrow> \<not> conn_open s c" using I(6) unfolding closed_inv_def by blast
  show ?case unfolding srv_ok_def
    using acc_inv_step [OF I(1) al st] stop_inv_step [OF I(2) st] lis_inv_step [OF I(1,2,3) al st]
      cn_inv_step [OF I(4,1) al st hc] wg_inv_step [OF I(4,5,1) st] closed_inv_step [OF I(6,4,1) st]
      stopped_inv_step [OF I st al] by blast
qed

lemma stop_step_done: "srv_step s l = Some s' \<Longrightarrow> stoppers s t = TDone \<Longrightarrow> stoppers s' t = TDone"
  by (cases l) (auto simp: srv_step_def Let_def begun_def split: if_splits acceptor.splits option.splits)

lemma stop_run_done: "srv_run s ls = Some s' \<Longrightarrow> stoppers s t = TDone \<Longrightarrow> stoppers s' t = TDone"
  by (induction ls arbitrary: s) (auto split: option.splits dest: stop_step_done)

lemma stopped_no_accept: "srv_ok i s \<Longrightarrow> stoppers s t = TDone \<Longrightarrow> srv_step s (SAccept j) = None"
proof -
  assume ok: "srv_ok i s" and t: "stoppers s t = TDone"
  have "2 \<le> phase (stoppers s t)" using t by simp
  then have "once_done s" using ok unfolding srv_ok_def stop_inv_def by blast
  then have "acceptors s i = AAccepting \<Longrightarrow> \<not> lis_open s i" using ok unfolding srv_ok_def lis_inv_def by auto
  moreover have "acceptors s j = AAccepting \<Longrightarrow> j = i" using ok unfolding srv_ok_def acc_inv_def by force
  ultimately show ?thesis by (auto simp: srv_step_def)
qed

lemma limiter_step:
  "srv_step s l = Some s' \<Longrightarrow> (\<And>t. stoppers s t = TDone \<Longrightarrow> limiter_stopped s) \<Longrightarrow> stoppers s' t = TDone \<Longrightarrow> limiter_stopped s'"
  by (cases l) (auto simp: srv_step_def Let_def begun_def split: if_splits acceptor.splits option.splits)

lemma stopped_limiter: "srv_reach L s \<Longrightarrow> stoppers s t = TDone \<Longrightarrow> limiter_stopped s"
proof (induction arbitrary: t rule: srv_reach.induct)
  case (srv_next s l s')
  then show ?case using limiter_step [of s l s' t] by blast
qed (simp add: NewServer_def)

subsection \<open>A shutdown does not wait for the accept loop in vain\<close>

text \<open>The number of own steps that the accept loop still makes when its listener is closed.\<close>

fun remaining :: "acceptor \<Rightarrow> nat" where
  "remaining AAccepting = 1" | "remaining (ATracked c) = 2" | "remaining (AConn c) = 3" | "remaining _ = 0"

fun own_step :: "srv_label \<Rightarrow> bool" where
  "own_step (SAcceptErr i) = True" | "own_step (STrack i) = True" | "own_step (SSpawn i) = True" | "own_step _ = False"

lemma accept_loop_ends:
  assumes ok: "srv_ok i s" and w: "stoppers s t = TWaitServe" and g: "serveWg s \<noteq> 0"
  shows "\<exists>l s'. own_step l \<and> srv_step s l = Some s' \<and> remaining (acceptors s' i) < remaining (acceptors s i)"
    and "srv_step s l = Some s' \<Longrightarrow> allowed {i} l \<Longrightarrow> remaining (acceptors s' i) \<le> remaining (acceptors s i)"
proof -
  have "1 \<le> phase (stoppers s t)" "2 \<le> phase (stoppers s t)" using w by simp_all
  then have once: "once_done s" "closing s" using ok unfolding srv_ok_def stop_inv_def by blast+
  have sv: "serving (acceptors s i)" and ot: "\<And>j. acceptors s j \<noteq> AIdle \<Longrightarrow> j = i"
    using ok g unfolding srv_ok_def acc_inv_def by (auto split: if_splits)
  have lo: "\<not> lis_open s i" using ok once sv unfolding srv_ok_def lis_inv_def by auto
  show "\<exists>l s'. own_step l \<and> srv_step s l = Some s' \<and> remaining (acceptors s' i) < remaining (acceptors s i)"
  proof (cases "acceptors s i")
    case AAccepting
    then show ?thesis using once by (intro exI [of _ "SAcceptErr i"]) (auto simp: srv_step_def)
  next
    case (AConn c)
    then show ?thesis by (intro exI [of _ "STrack i"]) (auto simp: srv_step_def)
  next
    case (ATracked c)
    then show ?thesis by (intro exI [of _ "SSpawn i"]) (auto simp: srv_step_def)
  qed (use sv in auto)
  assume st: "srv_step s l = Some s'" "allowed {i} l"
  show "remaining (acceptors s' i) \<le> remaining (acceptors s i)"
  proof (cases l)
    case (SAccept j)
    then show ?thesis using st lo ot [of j] by (auto simp: srv_step_def split: if_splits)
  next
    case (SRegister j)
    then show ?thesis using st sv by (auto simp: srv_step_def split: if_splits)
  next
    case (SAdd j)
    then show ?thesis using st sv ot [of j] by (auto simp: srv_step_def split: if_splits)
  qed (use st in \<open>auto simp: srv_step_def begun_def split: if_splits acceptor.splits option.splits\<close>)
qed

lemma own_step_stop: "own_step l \<Longrightarrow> srv_step s l = Some s' \<Longrightarrow> stoppers s' = stoppers s"
  by (cases l) (auto simp: srv_step_def split: if_splits acceptor.splits)

lemma own_step_allowed: "own_step l \<Longrightarrow> allowed L l"
  by (cases l) auto

lemma accept_loop_run:
  "srv_reach {i} s \<Longrightarrow> stoppers s t = TWaitServe \<Longrightarrow>
    \<exists>ls s'. length ls \<le> remaining (acceptors s i) \<and> list_all own_step ls \<and> srv_run s ls = Some s' \<and>
      stoppers s' t = TWaitServe \<and> serveWg s' = 0"
proof (induction "remaining (acceptors s i)" arbitrary: s rule: less_induct)
  case less
  show ?case
  proof (cases "serveWg s = 0")
    case True
    then show ?thesis using less.prems(2) by (intro exI [of _ "[]"]) simp
  next
    case False
    obtain l s1 where l: "own_step l" "srv_step s l = Some s1" "remaining (acceptors s1 i) < remaining (acceptors s i)"
      using accept_loop_ends(1) [OF srv_ok_reach [OF less.prems(1)] less.prems(2) False] by blast
    have r: "srv_reach {i} s1" using srv_next [OF less.prems(1) own_step_allowed [OF l(1)] l(2)] .
    have w: "stoppers s1 t = TWaitServe" using own_step_stop [OF l(1,2)] less.prems(2) by simp
    obtain ls s' where "length ls \<le> remaining (acceptors s1 i)" "list_all own_step ls" "srv_run s1 ls = Some s'"
      "stoppers s' t = TWaitServe" "serveWg s' = 0"
      using less.hyps [OF l(3) r w] by blast
    then show ?thesis using l by (intro exI [of _ "l # ls"] exI [of _ s']) simp
  qed
qed

subsection \<open>Two listeners\<close>

text \<open>
  The server keeps one listener. With two calls of \<open>Serve\<close> the shutdown closes the later one only: the first
  accept loop is not told, its listener stays open, and \<open>Stop\<close> waits for it. Accepting goes on, since only
  an error of \<open>Accept\<close> makes the loop look at \<open>closing\<close>.
\<close>

definition two_listeners :: "srv_label list" where
  "two_listeners = [SRegister 0, SCheck 0, SAdd 0, SRegister 1, SCheck 1, SAdd 1, TBegin 0, TClose 0, TCloseLis 0, SAcceptErr 1]"

lemma two_listeners_run:
  "\<exists>s. srv_run NewServer two_listeners = Some s \<and> stoppers s 0 = TWaitServe \<and> serveWg s = 1 \<and> lis_open s 0 \<and>
    acceptors s 0 = AAccepting \<and> srv_step s (TSweepStop 0) = None \<and>
    (\<exists>s'. srv_run s [SAccept 0, STrack 0, SSpawn 0] = Some s' \<and> conn_open s' 0 \<and> stoppers s' 0 = TWaitServe)"
  by (simp add: two_listeners_def srv_step_def NewServer_def begun_def Let_def)

end
