(* ===== verification/Etcd_Client.thy ===== *)
theory Etcd_Client
  imports Prelude
begin

text \<open>
  The calls that the registration code makes on its client of etcd, on a world of type \<open>'w\<close>, and what is used of
  them. etcd is not part of the repository; both \<open>swifty_cache\<close> and \<open>swifty_rpc\<close> take it as an argument.
\<close>

record 'w Etcd =
  eNew :: "'w \<Rightarrow> 'w \<times> string option"
  eGrant :: "int \<Rightarrow> 'w \<Rightarrow> 'w \<times> (string + int)"
  ePut :: "string \<Rightarrow> string \<Rightarrow> int \<Rightarrow> 'w \<Rightarrow> 'w \<times> string option"
  eKeepAlive :: "int \<Rightarrow> 'w \<Rightarrow> 'w \<times> string option"
  eRevoke :: "int \<Rightarrow> 'w \<Rightarrow> 'w"
  eClose :: "'w \<Rightarrow> 'w"

text \<open>
  What is used of etcd: a \<open>Put\<close> that succeeds leaves the key under the given lease, and keeping a lease alive
  changes no key. \<open>held\<close> gives the lease of each key.
\<close>

definition etcd_ok :: "'w Etcd \<Rightarrow> ('w \<Rightarrow> string \<Rightarrow> int option) \<Rightarrow> bool" where
  "etcd_ok E held \<longleftrightarrow>
    (\<forall>key v lease w w'. ePut E key v lease w = (w', None) \<longrightarrow> held w' key = Some lease) \<and>
    (\<forall>lease w. held (fst (eKeepAlive E lease w)) = held w)"

end
