(* ===== verification/Rpc_Registry.thy ===== *)
theory Rpc_Registry
  imports Rpc_Client Etcd_Client
begin

text \<open>
  The etcd side of the service registry of \<open>swifty_rpc\<close> (\<open>internal/registry/registry.go\<close>): \<open>Register\<close>, the loop that
  watches a service, and \<open>Close\<close>; what the cache of \<open>Rpc_Client\<close> then answers, compared with what was registered.
\<close>

definition instance_key :: "Registry \<Rightarrow> string \<Rightarrow> string \<Rightarrow> string" where
  "instance_key r service addr = rprefix r @ service @ ''/'' @ addr"

definition Register :: "'w Etcd \<Rightarrow> Registry \<Rightarrow> string \<Rightarrow> string \<Rightarrow> int \<Rightarrow> 'w \<Rightarrow> 'w \<times> string option" where
  "Register E r service addr ttl w = (case eGrant E ttl w of
      (w, Inl err) \<Rightarrow> (w, Some err)
    | (w, Inr lease) \<Rightarrow> (case ePut E (instance_key r service addr) addr lease w of
        (w, Some err) \<Rightarrow> (w, Some err)
      | (w, None) \<Rightarrow> eKeepAlive E lease w))"

text \<open>
  A round of \<open>watch\<close>: whether the context is done before it, the responses until the channel is closed, and whether
  the context is done after it.
\<close>

record watch_turn =
  wt_done :: bool
  wt_resps :: "watch_event list list"
  wt_done_after :: bool

fun reg_watch :: "string \<Rightarrow> watch_turn list \<Rightarrow> Registry \<Rightarrow> Registry \<times> bool" where
  "reg_watch service [] r = (r, False)"
| "reg_watch service (t # ts) r =
    (if wt_done t then (r, True)
     else let r = foldl (foldl (\<lambda>r. watch_event_step r service)) r (wt_resps t) in
       if wt_done_after t then (r, True) else reg_watch service ts r)"

text \<open>\<open>Close\<close> cancels the context and closes the client, if there are any.\<close>

definition registry_Close :: "bool \<Rightarrow> ('w \<Rightarrow> 'w \<times> string option) option \<Rightarrow> 'w \<Rightarrow> 'w \<times> bool \<times> string option" where
  "registry_Close has_cancel closeCli w = (case closeCli of
      None \<Rightarrow> (w, has_cancel, None)
    | Some cl \<Rightarrow> (case cl w of (w, err) \<Rightarrow> (w, has_cancel, err)))"

subsection \<open>What is registered is discovered\<close>

text \<open>Registrations and expiries of instances of any service, and the events that etcd makes of them.\<close>

datatype reg_change = Registered string string | Expired string string

fun change_event :: "Registry \<Rightarrow> reg_change \<Rightarrow> watch_event" where
  "change_event r (Registered svc addr) = WatchPut (instance_key r svc addr) addr"
| "change_event r (Expired svc addr) = WatchDelete (instance_key r svc addr)"

fun event_key :: "watch_event \<Rightarrow> string" where
  "event_key (WatchPut key val) = key"
| "event_key (WatchDelete key) = key"

fun change_service :: "reg_change \<Rightarrow> string" where
  "change_service (Registered svc addr) = svc"
| "change_service (Expired svc addr) = svc"

fun live_after :: "string \<Rightarrow> string set \<Rightarrow> reg_change list \<Rightarrow> string set" where
  "live_after service S [] = S"
| "live_after service S (Registered svc addr # cs) = live_after service (if svc = service then insert addr S else S) cs"
| "live_after service S (Expired svc addr # cs) = live_after service (if svc = service then S - {addr} else S) cs"

definition service_events :: "Registry \<Rightarrow> string \<Rightarrow> reg_change list \<Rightarrow> watch_event list" where
  "service_events r service cs =
    filter (\<lambda>ev. HasPrefix (event_key ev) (rprefix r @ service @ ''/'')) (map (change_event r) cs)"

lemma takeWhile_until: "c \<notin> set xs \<Longrightarrow> takeWhile (\<lambda>x. x \<noteq> c) (xs @ c # ys) = xs"
  by (induction xs) auto

lemma prefix_service:
  assumes "CHR ''/'' \<notin> set svc" "CHR ''/'' \<notin> set service" "HasPrefix (svc @ ''/'' @ addr) (service @ ''/'')"
  shows "svc = service"
proof -
  have "takeWhile (\<lambda>c. c \<noteq> CHR ''/'') (svc @ ''/'' @ addr) = svc"
    "takeWhile (\<lambda>c. c \<noteq> CHR ''/'') (service @ ''/'' @ rest) = service" for rest
    using assms(1,2) takeWhile_until by simp_all
  moreover have "\<exists>rest. svc @ ''/'' @ addr = service @ ''/'' @ rest"
    using assms(3) append_take_drop_id [of "length (service @ ''/'')" "svc @ ''/'' @ addr"] unfolding HasPrefix_def by (metis append_assoc)
  ultimately show ?thesis by metis
qed

lemma key_prefix: "HasPrefix (instance_key r svc addr) (rprefix r @ service @ ''/'') \<longleftrightarrow> HasPrefix (svc @ ''/'' @ addr) (service @ ''/'')"
  by (simp add: instance_key_def HasPrefix_def)

lemma own_prefix: "HasPrefix (service @ ''/'' @ addr) (service @ ''/'')"
  by (simp add: HasPrefix_def)

lemma trim_key: "TrimPrefix (instance_key r service addr) (rprefix r @ service @ ''/'') = addr"
  by (simp add: instance_key_def TrimPrefix_def HasPrefix_def)

lemma known_live:
  assumes "CHR ''/'' \<notin> set service"
  shows "\<forall>c \<in> set cs. CHR ''/'' \<notin> set (change_service c) \<Longrightarrow>
    known_after (rprefix r @ service @ ''/'') S (service_events r service cs) = live_after service S cs"
proof (induction cs arbitrary: S)
  case (Cons c cs)
  have pre: "HasPrefix (instance_key r svc addr) (rprefix r @ service @ ''/'') \<longleftrightarrow> svc = service"
    if "CHR ''/'' \<notin> set svc" for svc addr
    using prefix_service [OF that assms] own_prefix unfolding key_prefix by blast
  have tl: "\<forall>c \<in> set cs. CHR ''/'' \<notin> set (change_service c)" using Cons.prems by simp
  show ?case
  proof (cases c)
    case (Registered svc addr)
    then show ?thesis using Cons.IH [OF tl] Cons.prems pre [of svc addr] by (auto simp: service_events_def)
  next
    case (Expired svc addr)
    then show ?thesis using Cons.IH [OF tl] Cons.prems pre [of svc addr] trim_key by (auto simp: service_events_def)
  qed
qed (simp add: service_events_def)

lemma reg_watch_events:
  "\<forall>t \<in> set ts. \<not> wt_done t \<and> \<not> wt_done_after t \<Longrightarrow>
    reg_watch service ts r = (foldl (\<lambda>r. watch_event_step r service) r (concat (concat (map wt_resps ts))), False)"
proof (induction ts arbitrary: r)
  case (Cons t ts)
  have "foldl (foldl (\<lambda>r. watch_event_step r service)) r rs = foldl (\<lambda>r. watch_event_step r service) r (concat rs)" for r rs
    by (induction rs arbitrary: r) simp_all
  then show ?case using Cons by (simp add: Let_def)
qed simp

text \<open>
  An instance of a service whose name continues that of another with a slash: it is discovered under the shorter
  name too, and when it leaves it stays there, since a put is read from the value and a delete from the key.
\<close>

lemma nested_service_stays:
  assumes "services r ''a'' = Some m"
  shows "\<exists>m'. services (foldl (\<lambda>r. watch_event_step r ''a'') r (service_events r ''a'' [Registered ''a/b'' ''h:1'', Expired ''a/b'' ''h:1''])) ''a'' = Some m' \<and>
    ''h:1'' \<in> fst ` set m'"
proof -
  have p: "HasPrefix (instance_key r ''a/b'' ''h:1'') (rprefix r @ ''a'' @ ''/'')" unfolding key_prefix by (simp add: HasPrefix_def)
  have t: "TrimPrefix (instance_key r ''a/b'' ''h:1'') (rprefix r @ ''a'' @ ''/'') = ''b/h:1''"
    by (simp add: instance_key_def TrimPrefix_def HasPrefix_def)
  have "known_after (rprefix r @ ''a'' @ ''/'') S (service_events r ''a'' [Registered ''a/b'' ''h:1'', Expired ''a/b'' ''h:1'']) =
      insert ''h:1'' S - {''b/h:1''}" for S
    using p t by (simp add: service_events_def)
  then show ?thesis using watch_steps [OF assms, of "service_events r ''a'' [Registered ''a/b'' ''h:1'', Expired ''a/b'' ''h:1'']"] by auto
qed

text \<open>A broken watch is restarted without a revision: what happened in between is not in any response.\<close>

lemma register_held:
  assumes "etcd_ok E held" "Register E r service addr ttl w = (w', None)"
  shows "\<exists>lease. held w' (instance_key r service addr) = Some lease"
proof -
  obtain w1 lease where g: "eGrant E ttl w = (w1, Inr lease)"
    using assms(2) by (auto simp: Register_def split: prod.splits sum.splits option.splits)
  obtain w2 where p: "ePut E (instance_key r service addr) addr lease w1 = (w2, None)" and k: "eKeepAlive E lease w2 = (w', None)"
    using assms(2) g by (auto simp: Register_def split: prod.splits option.splits)
  have "held w2 (instance_key r service addr) = Some lease" using assms(1) p unfolding etcd_ok_def by blast
  moreover have "held w' = held w2" using assms(1) k unfolding etcd_ok_def by (metis fst_conv)
  ultimately show ?thesis by auto
qed

lemma register_discover_rule:
  assumes I: "registry_inv r" and new: "services r service = None" and ord: "\<And>xs. set (ord xs) = set xs"
    and kvs: "kvs = map (\<lambda>a. (instance_key r service a, a)) as"
    and ns: "CHR ''/'' \<notin> set service" "\<forall>c \<in> set cs. CHR ''/'' \<notin> set (change_service c)"
    and w: "\<forall>t \<in> set ts. \<not> wt_done t \<and> \<not> wt_done_after t" "concat (concat (map wt_resps ts)) = service_events r service cs"
    and d: "Discover ord kvs' (fst (reg_watch service ts (fst (Discover ord (Some kvs) r service)))) service = (r', Inr ys)"
  shows "set ys = live_after service (set as) cs"
proof -
  have v: "snd ` set kvs = set as" unfolding kvs by force
  have "set ys = known_after (rprefix r @ service @ ''/'') (snd ` set kvs) (service_events r service cs)"
    using Discover_after_events(2) [OF I new ord, of kvs' kvs "service_events r service cs" ys] d
    unfolding reg_watch_events [OF w(1)] w(2) by simp
  then show ?thesis using known_live [OF ns, of r] v by simp
qed

end
