(* ===== verification/Rpc_Codec.thy ===== *)
theory Rpc_Codec
  imports Rpc_Server
begin

text \<open>
  The registries of \<open>internal/codec\<close> (\<open>codec.go\<close>, \<open>json.go\<close>, \<open>protobuf.go\<close>, \<open>compress.go\<close>) and the construction of
  handlers and servers with a codec (\<open>internal/server\<close>: \<open>options.go\<close>, \<open>NewHandler\<close>, \<open>NewServer\<close>; \<open>pkg/rpc/server.go\<close>).
  A codec is the pair of its methods; encoding/json, protobuf and compress/gzip are parameters. A factory that is nil
  is \<open>None\<close>; the two factories of the code never return a nil codec.
\<close>

record 'v codec =
  Marshal :: "'v \<Rightarrow> string + bytes"
  Unmarshal :: "bytes \<Rightarrow> 'v \<Rightarrow> string + 'v"

type_synonym 'v factories = "byte \<Rightarrow> 'v codec option"

datatype codec_panic = FactoryNil | AlreadyRegistered byte

definition codec_Register :: "byte \<Rightarrow> 'v codec option \<Rightarrow> 'v factories \<Rightarrow> codec_panic + 'v factories" where
  "codec_Register t f tab = (case f of
      None \<Rightarrow> Inl FactoryNil
    | Some c \<Rightarrow> if tab t \<noteq> None then Inl (AlreadyRegistered t) else Inr (tab(t \<mapsto> c)))"

definition codec_New :: "'v factories \<Rightarrow> byte \<Rightarrow> byte + 'v codec" where
  "codec_New tab t = (case tab t of None \<Rightarrow> Inl t | Some c \<Rightarrow> Inr c)"

definition jSONCodec :: "('v \<Rightarrow> string + bytes) \<Rightarrow> (bytes \<Rightarrow> 'v \<Rightarrow> string + 'v) \<Rightarrow> 'v codec" where
  "jSONCodec json_Marshal json_Unmarshal = \<lparr>Marshal = json_Marshal, Unmarshal = json_Unmarshal\<rparr>"

definition not_proto :: string where
  "not_proto = ''proto codec: not proto.Message''"

definition protoCodec :: "('v \<Rightarrow> bool) \<Rightarrow> ('v \<Rightarrow> string + bytes) \<Rightarrow> (bytes \<Rightarrow> 'v \<Rightarrow> string + 'v) \<Rightarrow> 'v codec" where
  "protoCodec is_message proto_Marshal proto_Unmarshal =
    \<lparr>Marshal = (\<lambda>v. if \<not> is_message v then Inl not_proto else proto_Marshal v),
     Unmarshal = (\<lambda>data v. if \<not> is_message v then Inl not_proto else proto_Unmarshal data v)\<rparr>"

definition PROTO :: byte where
  "PROTO = 2"

text \<open>The two init functions, in the order of their files.\<close>

definition init_codecs :: "'v codec \<Rightarrow> 'v codec \<Rightarrow> codec_panic + 'v factories" where
  "init_codecs json proto = (case codec_Register JSON (Some json) Map.empty of
      Inl p \<Rightarrow> Inl p
    | Inr tab \<Rightarrow> codec_Register PROTO (Some proto) tab)"

lemma init_codecs_tab: "init_codecs json proto = Inr [JSON \<mapsto> json, PROTO \<mapsto> proto]"
  by (simp add: init_codecs_def codec_Register_def JSON_def PROTO_def)

text \<open>A registration that succeeds is never lost or replaced.\<close>

lemma codec_Register_keeps:
  "codec_Register t f tab = Inr tab' \<Longrightarrow> tab \<subseteq>\<^sub>m tab' \<and> codec_New tab' t = Inr (the f) \<and> f \<noteq> None"
  by (auto simp: codec_Register_def codec_New_def map_le_def split: option.splits if_splits)

subsection \<open>Compressors\<close>

text \<open>What compress/gzip does: \<open>Write\<close> may fail, \<open>Close\<close> gives what is in the buffer then; a reader, then its content.\<close>

record gzip =
  gz_Write :: "bytes \<Rightarrow> bool"
  gz_Close :: "bytes \<Rightarrow> bytes option"
  gz_NewReader :: "bytes \<Rightarrow> bool"
  gz_ReadAll :: "bytes \<Rightarrow> bytes option"

definition Gzip_compress :: "gzip \<Rightarrow> bytes \<Rightarrow> bytes option" where
  "Gzip_compress G data = (if \<not> gz_Write G data then None else case gz_Close G data of None \<Rightarrow> None | Some b \<Rightarrow> Some b)"

definition Gzip_decompress :: "gzip \<Rightarrow> bytes \<Rightarrow> bytes option" where
  "Gzip_decompress G data = (if \<not> gz_NewReader G data then None else gz_ReadAll G data)"

type_synonym compressors = "byte \<Rightarrow> ((bytes \<Rightarrow> bytes option) \<times> (bytes \<Rightarrow> bytes option)) option"

definition RegisterCompressor ::
    "byte \<Rightarrow> ((bytes \<Rightarrow> bytes option) \<times> (bytes \<Rightarrow> bytes option)) option \<Rightarrow> compressors \<Rightarrow> compressors" where
  "RegisterCompressor t c tab = tab(t := c)"

definition GetCompressor :: "compressors \<Rightarrow> byte \<Rightarrow> ((bytes \<Rightarrow> bytes option) \<times> (bytes \<Rightarrow> bytes option)) option" where
  "GetCompressor tab t = tab t"

definition init_compressors :: "gzip \<Rightarrow> compressors" where
  "init_compressors G = RegisterCompressor CompressionGzip (Some (Gzip_compress G, Gzip_decompress G)) Map.empty"

text \<open>What \<open>Rpc_Message\<close> uses of the registries.\<close>

definition codecs_of :: "Header codec \<Rightarrow> Header \<Rightarrow> compressors \<Rightarrow> codecs" where
  "codecs_of json blank comps =
    \<lparr>marshal = (\<lambda>t. if t = JSON then Some (\<lambda>h. case Marshal json h of Inl e \<Rightarrow> None | Inr b \<Rightarrow> Some b) else None),
     unmarshal = (\<lambda>t. if t = JSON then Some (\<lambda>b. case Unmarshal json b blank of Inl e \<Rightarrow> None | Inr h \<Rightarrow> Some h) else None),
     compressor = (\<lambda>t. map_option fst (GetCompressor comps t)),
     decompressor = (\<lambda>t. map_option snd (GetCompressor comps t))\<rparr>"

lemma gzip_roundtrip:
  assumes "\<forall>b. gz_Close G data = Some b \<longrightarrow> gz_NewReader G b \<and> gz_ReadAll G b = Some data"
    and "Compress (codecs_of json blank (init_compressors G)) data t = Inr b"
  shows "t = CompressionGzip \<and> Decompress (codecs_of json blank (init_compressors G)) b t = Inr data"
  using assms by (auto simp: Compress_def Decompress_def codecs_of_def init_compressors_def RegisterCompressor_def
      GetCompressor_def Gzip_compress_def Gzip_decompress_def split: option.splits if_splits)

subsection \<open>Handlers and servers\<close>

datatype new_error = TypeNotRegistered byte | CodecNil

record 'v Handler =
  h_codec :: "'v codec option"

type_synonym 'v handle_option = "'v Handler \<Rightarrow> new_error + 'v Handler"

definition WithHandlerCodec :: "'v factories \<Rightarrow> byte \<Rightarrow> 'v handle_option" where
  "WithHandlerCodec tab t c = (case codec_New tab t of
      Inl t \<Rightarrow> Inl (TypeNotRegistered t)
    | Inr cc \<Rightarrow> Inr (c\<lparr>h_codec := Some cc\<rparr>))"

text \<open>The loop over options, for handlers and for servers: the first error ends it.\<close>

fun apply_options :: "('a \<Rightarrow> 'e + 'a) list \<Rightarrow> 'a \<Rightarrow> 'e + 'a" where
  "apply_options [] x = Inr x"
| "apply_options (opt # opts) x = (case opt x of Inl e \<Rightarrow> Inl e | Inr x' \<Rightarrow> apply_options opts x')"

definition NewHandler :: "'v handle_option list \<Rightarrow> new_error + 'v Handler" where
  "NewHandler opts = (case apply_options opts \<lparr>h_codec = None\<rparr> of
      Inl e \<Rightarrow> Inl e
    | Inr h \<Rightarrow> if h_codec h = None then Inl CodecNil else Inr h)"

text \<open>A registered service: how its methods decode arguments depends on the codec of the request.\<close>

record 'v server =
  s_services :: "string \<Rightarrow> ('v codec \<Rightarrow> service) option"
  s_limiter :: TokenBucket
  s_handler :: "'v Handler"

type_synonym 'v server_option = "'v server \<Rightarrow> new_error + 'v server"

definition WithServerCodec :: "'v factories \<Rightarrow> byte \<Rightarrow> 'v server_option" where
  "WithServerCodec tab t s = (case NewHandler [WithHandlerCodec tab t] of
      Inl e \<Rightarrow> Inl e
    | Inr handler \<Rightarrow> Inr (s\<lparr>s_handler := handler\<rparr>))"

text \<open>The connections and the channel of a new server are in \<open>Rpc_Lifecycle\<close>.\<close>

definition NewServer_with :: "'v factories \<Rightarrow> 'v server_option list \<Rightarrow> new_error + 'v server" where
  "NewServer_with tab opts = (case NewHandler [WithHandlerCodec tab JSON] of
      Inl e \<Rightarrow> Inl e
    | Inr h \<Rightarrow> apply_options opts \<lparr>s_services = Map.empty, s_limiter = NewTokenBucket 10000, s_handler = h\<rparr>)"

definition server_Register :: "string \<Rightarrow> ('v codec \<Rightarrow> service) option \<Rightarrow> 'v server \<Rightarrow> 'v server" where
  "server_Register name svc s = s\<lparr>s_services := (s_services s)(name := svc)\<rparr>"

text \<open>\<open>pkg/rpc\<close>: options collect inner options, and a failure panics (\<open>Inl\<close>).\<close>

definition WithCodec :: "'v factories \<Rightarrow> byte \<Rightarrow> 'v server_option list \<Rightarrow> 'v server_option list" where
  "WithCodec tab t inner = inner @ [WithServerCodec tab t]"

definition rpc_NewServer :: "'v factories \<Rightarrow> ('v server_option list \<Rightarrow> 'v server_option list) list \<Rightarrow> new_error + 'v server" where
  "rpc_NewServer tab opts = NewServer_with tab (foldl (\<lambda>inner opt. opt inner) [] opts)"

text \<open>The codec of a request: the one that the client announces, otherwise that of the server.\<close>

definition reqCodec :: "'v factories \<Rightarrow> 'v Handler \<Rightarrow> Header \<Rightarrow> byte + 'v codec option" where
  "reqCodec tab h hdr =
    (if CodecType hdr \<noteq> 0 then map_sum id Some (codec_New tab (CodecType hdr)) else Inr (h_codec h))"

definition server_Process :: "bytes factories \<Rightarrow> bytes server \<Rightarrow> Message \<Rightarrow> Message list" where
  "server_Process tab s msg = (case reqCodec tab (s_handler s) (header msg) of
      Inl t \<Rightarrow> [writeError (RequestID (header msg)) ''codec: type not registered'']
    | Inr c \<Rightarrow> Process (\<lambda>t. tab t \<noteq> None) (Marshal (the c))
        (map_option (\<lambda>sv. sv (the c)) (s_services s (ServiceName (header msg)))) msg)"

subsection \<open>Which codec a server uses\<close>

lemma foldl_WithCodec: "foldl (\<lambda>inner opt. opt inner) inner (map (WithCodec tab) ts) = inner @ map (WithServerCodec tab) ts"
  by (induction ts arbitrary: inner) (simp_all add: WithCodec_def)

lemma WithServerCodec_eq: "WithServerCodec tab t s = (case tab t of
    None \<Rightarrow> Inl (TypeNotRegistered t) | Some c \<Rightarrow> Inr (s\<lparr>s_handler := \<lparr>h_codec = Some c\<rparr>\<rparr>))"
  by (simp add: WithServerCodec_def NewHandler_def WithHandlerCodec_def codec_New_def split: option.split)

lemma apply_WithServerCodec:
  "apply_options (map (WithServerCodec tab) ts) s =
    (case filter (\<lambda>t. tab t = None) ts of
      t # _ \<Rightarrow> Inl (TypeNotRegistered t)
    | [] \<Rightarrow> Inr (if ts = [] then s else s\<lparr>s_handler := \<lparr>h_codec = tab (last ts)\<rparr>\<rparr>))"
  by (induction ts arbitrary: s) (auto simp: WithServerCodec_eq split: option.split list.split)

lemma rpc_NewServer_eq:
  "rpc_NewServer tab (map (WithCodec tab) ts) = (case filter (\<lambda>t. tab t = None) (JSON # ts) of
      t # _ \<Rightarrow> Inl (TypeNotRegistered t)
    | [] \<Rightarrow> Inr \<lparr>s_services = Map.empty, s_limiter = NewTokenBucket 10000, s_handler = \<lparr>h_codec = tab (last (JSON # ts))\<rparr>\<rparr>)"
  by (auto simp: rpc_NewServer_def foldl_WithCodec NewServer_with_def NewHandler_def WithHandlerCodec_def codec_New_def
      apply_WithServerCodec split: option.split list.split)

text \<open>The codec that answers a request: the announced type, or the last option, or JSON.\<close>

definition answer_type :: "byte list \<Rightarrow> Header \<Rightarrow> byte" where
  "answer_type ts hdr = (if CodecType hdr = 0 then last (JSON # ts) else CodecType hdr)"

lemma Process_known: "CodecType (header msg) = 0 \<or> kc (CodecType (header msg)) \<Longrightarrow> Process kc mv svc msg = Process (\<lambda>_. True) mv svc msg"
  by (auto simp: Process_def Let_def)

lemma server_codec_rule:
  "case rpc_NewServer tab (map (WithCodec tab) ts) of
    Inl e \<Rightarrow> (\<exists>t \<in> set (JSON # ts). tab t = None \<and> e = TypeNotRegistered t)
  | Inr s \<Rightarrow> (\<forall>t \<in> set (JSON # ts). tab t \<noteq> None) \<and>
      (ServiceName (header msg) = name \<longrightarrow>
        server_Process tab (server_Register name svc s) msg = (case tab (answer_type ts (header msg)) of
          None \<Rightarrow> [writeError (RequestID (header msg)) ''codec: type not registered'']
        | Some c \<Rightarrow> Process (\<lambda>_. True) (Marshal c) (map_option (\<lambda>sv. sv c) svc) msg))"
proof (cases "filter (\<lambda>t. tab t = None) (JSON # ts)")
  case (Cons t us)
  then have "t \<in> set (filter (\<lambda>t. tab t = None) (JSON # ts))" by simp
  then have "t \<in> set (JSON # ts)" "tab t = None" unfolding set_filter by blast+
  then show ?thesis unfolding rpc_NewServer_eq Cons by auto
next
  case Nil
  then have all: "\<forall>t \<in> set (JSON # ts). tab t \<noteq> None" by (metis (mono_tags, lifting) empty_filter_conv)
  have "last (JSON # ts) \<in> set (JSON # ts)" by (rule last_in_set) simp
  then obtain d where d: "tab (last (JSON # ts)) = Some d" using all by blast
  have r: "rpc_NewServer tab (map (WithCodec tab) ts) =
      Inr \<lparr>s_services = Map.empty, s_limiter = NewTokenBucket 10000, s_handler = \<lparr>h_codec = Some d\<rparr>\<rparr>"
    using Nil d by (simp add: rpc_NewServer_eq del: filter.simps last.simps)
  show ?thesis
  proof (cases "CodecType (header msg) = 0")
    case True
    then show ?thesis unfolding r using all d Process_known [of msg "\<lambda>t. tab t \<noteq> None"]
      by (simp add: server_Process_def reqCodec_def answer_type_def server_Register_def del: last.simps)
  next
    case False
    then show ?thesis unfolding r using all Process_known [of msg "\<lambda>t. tab t \<noteq> None"]
      by (cases "tab (CodecType (header msg))")
        (simp_all add: server_Process_def reqCodec_def answer_type_def server_Register_def codec_New_def)
  qed
qed

end
