(* ===== verification/Server_Properties.thy ===== *)
theory Server_Properties
  imports Rpc_Lifecycle Rpc_Registry Rpc_Codec
begin

text \<open>The properties of the life of a \<open>swifty_rpc\<close> server and of its registration.\<close>

text \<open>C13. Whatever the accept loop, the handlers and other shutdowns do meanwhile: when \<open>Stop\<close> or \<open>GracefulStop\<close> has
  returned on a server that serves one listener, no connection is open, none is accepted afterwards, none
  becomes open again and the rate limiter is stopped.\<close>

theorem stop_closes_all:
  assumes "srv_reach {i} s" "stoppers s t = TDone" "list_all (allowed {i}) ls" "srv_run s ls = Some s'"
  shows "(\<forall>c. \<not> conn_open s' c) \<and> (\<forall>j. srv_step s' (SAccept j) = None) \<and> limiter_stopped s'"
proof -
  have r: "srv_ok i s'" using srv_ok_reach [OF srv_reach_run [OF assms(1,3,4)]] .
  have d: "stoppers s' t = TDone" using stop_run_done [OF assms(4,2)] .
  then show ?thesis using stopped_no_accept [OF r d] stopped_limiter [OF srv_reach_run [OF assms(1,3,4)] d] r
    by (auto simp: srv_ok_def stopped_inv_def)
qed

definition served_then_stopped :: "srv_label list" where
  "served_then_stopped = [SRegister 0, SCheck 0, SAdd 0, SAccept 0, STrack 0, SSpawn 0, HRequest 0, SAccept 0, TBegin 0,
     TClose 0, TCloseLis 0, STrack 0, SSpawn 0, SAcceptErr 0, TSweepStop 0]"

theorem stop_closes_all_witness:
  "\<exists>s. srv_run NewServer served_then_stopped = Some s \<and> next_conn s = 2 \<and>
    (\<exists>s'. srv_run s [HAnswer 0, HReadErr 0, HDelete 0] = Some s' \<and> (\<forall>c. \<not> conn_open s' c))"
proof -
  obtain s s' where s: "srv_run NewServer served_then_stopped = Some s" "next_conn s = 2" "stoppers s 0 = TDone"
    and s': "srv_run s [HAnswer 0, HReadErr 0, HDelete 0] = Some s'"
    by (simp add: served_then_stopped_def srv_step_def NewServer_def begun_def Let_def)
  have "srv_reach {0} s" by (rule srv_reach_run [OF srv_init _ s(1)]) (simp add: served_then_stopped_def)
  from stop_closes_all [OF this s(3) _ s'] have "\<forall>c. \<not> conn_open s' c" by simp
  then show ?thesis using s s' by blast
qed






text \<open>C18. The options of a server decide its codec: \<open>NewServer\<close> fails (and the public one panics) exactly when the codec of
  some option, or JSON, is not registered; otherwise a request is decoded and answered with the codec that its
  header announces, or that of the last option, or JSON, and a request that announces an unknown codec gets one
  error answer.\<close>

theorem server_codec:
  "case rpc_NewServer tab (map (WithCodec tab) ts) of
    Inl e \<Rightarrow> (\<exists>t \<in> set (JSON # ts). tab t = None \<and> e = TypeNotRegistered t)
  | Inr s \<Rightarrow> (\<forall>t \<in> set (JSON # ts). tab t \<noteq> None) \<and>
      (ServiceName (header msg) = name \<longrightarrow>
        server_Process tab (server_Register name svc s) msg = (case tab (answer_type ts (header msg)) of
          None \<Rightarrow> [writeError (RequestID (header msg)) ''codec: type not registered'']
        | Some c \<Rightarrow> Process (\<lambda>_. True) (Marshal c) (map_option (\<lambda>sv. sv c) svc) msg))"
  by (rule server_codec_rule)

definition answering :: "bytes codec \<Rightarrow> service" where
  "answering c = [''M'' \<mapsto> \<lparr>numIn = 2, numOut = 2, in0_context = True, in0_ptr = False, in1_ptr = True, in1_stream = False,
     out0_ptr = True, out0_error = False, out1_error = True,
     rpc_unary = (\<lambda>b. map_sum id RValue (Unmarshal c b [])), rpc_stream = (\<lambda>_. Inr ([], RNil))\<rparr>]"

text \<open>A server with the protobuf codec: a value that is no message is an error answer; JSON can be announced.\<close>

theorem server_codec_witness:
  "\<exists>tab s. init_codecs (jSONCodec Inr (\<lambda>b v. Inr (b @ [1]))) (protoCodec (\<lambda>v. v = []) Inr (\<lambda>b v. Inr b)) = Inr tab \<and>
    rpc_NewServer tab [WithCodec tab PROTO] = Inr s \<and>
    server_Process tab (server_Register ''S'' (Some answering) s) \<lparr>header = reply_header 7 0 []\<lparr>ServiceName := ''S'', MethodName := ''M''\<rparr>, body = [5]\<rparr> =
      [writeError 7 not_proto] \<and>
    server_Process tab (server_Register ''S'' (Some answering) s) \<lparr>header = reply_header 8 0 []\<lparr>ServiceName := ''S'', MethodName := ''M'', CodecType := JSON\<rparr>, body = [5]\<rparr> =
      [\<lparr>header = reply_header 8 StreamNone [], body = [5, 1]\<rparr>]"
proof -
  let ?tab = "[JSON \<mapsto> jSONCodec Inr (\<lambda>b v. Inr (b @ [1])), PROTO \<mapsto> protoCodec (\<lambda>v. v = []) Inr (\<lambda>b v. Inr b)]"
  let ?h = "\<lambda>n. reply_header n 0 []\<lparr>ServiceName := ''S'', MethodName := ''M''\<rparr>"
  obtain s where s: "rpc_NewServer ?tab [WithCodec ?tab PROTO] = Inr s"
    using rpc_NewServer_eq [of ?tab "[PROTO]"] by (simp add: JSON_def PROTO_def)
  note R = server_codec [where tab = ?tab and ts = "[PROTO]", unfolded list.map s sum.case, THEN conjunct2, rule_format]
  note defs = answer_type_def JSON_def PROTO_def jSONCodec_def protoCodec_def answering_def Process_def invoke_def Let_def
    safeCall_error_def writeError_def reply_header_def
  have "server_Process ?tab (server_Register ''S'' (Some answering) s) \<lparr>header = ?h 7, body = [5]\<rparr> = [writeError 7 not_proto]"
    using R [where msg = "\<lparr>header = ?h 7, body = [5]\<rparr>" and name = "''S''" and svc = "Some answering"] by (simp add: defs)
  moreover have "server_Process ?tab (server_Register ''S'' (Some answering) s) \<lparr>header = ?h 8\<lparr>CodecType := JSON\<rparr>, body = [5]\<rparr> =
      [\<lparr>header = reply_header 8 StreamNone [], body = [5, 1]\<rparr>]"
    using R [where msg = "\<lparr>header = ?h 8\<lparr>CodecType := JSON\<rparr>, body = [5]\<rparr>" and name = "''S''" and svc = "Some answering"] by (simp add: defs)
  ultimately show ?thesis using s init_codecs_tab by blast
qed

end
