(* ===== verification/Cache_Cluster.thy ===== *)
theory Cache_Cluster
  imports Cache_Group_Correct Peers
begin

text \<open>
  Several nodes of \<open>swifty_cache\<close> together: the peer client (\<open>client.go\<close>) calls the gRPC handlers of
  another node (\<open>server.go\<close>), which call its groups. gRPC itself is represented by \<open>up\<close>, whether a node can be
  reached, and by \<open>txt\<close>, the text of an error of a call (\<open>None\<close>: of the transport).
\<close>

subsection \<open>The peer client\<close>

definition Client_Get :: "(string \<Rightarrow> string \<Rightarrow> string + bytes) \<Rightarrow> string \<Rightarrow> string \<Rightarrow> string + bytes" where
  "Client_Get rpc grp key = (case rpc grp key of
      Inl err \<Rightarrow> Inl (''failed to get value from swifty_cache: '' @ err)
    | Inr b \<Rightarrow> Inr b)"

definition Client_Delete :: "(string \<Rightarrow> string \<Rightarrow> string + bool) \<Rightarrow> string \<Rightarrow> string \<Rightarrow> bool \<times> string option" where
  "Client_Delete rpc grp key = (case rpc grp key of
      Inl err \<Rightarrow> (False, Some (''failed to delete value from swifty_cache: '' @ err))
    | Inr b \<Rightarrow> (b, None))"

definition Client_Set :: "(string \<Rightarrow> string \<Rightarrow> bytes \<Rightarrow> string + bytes) \<Rightarrow> string \<Rightarrow> string \<Rightarrow> bytes \<Rightarrow> string option" where
  "Client_Set rpc grp key v = (case rpc grp key v of
      Inl err \<Rightarrow> Some (''failed to set value to swifty_cache: '' @ err)
    | Inr _ \<Rightarrow> None)"

subsection \<open>The cluster\<close>

record 'st cnode =
  nreg :: "'st Registry"
  npick :: ClientPicker

record 'st cluster =
  cnodes :: "string \<Rightarrow> 'st cnode"
  up :: "string \<Rightarrow> bool"
  syncs :: "sync list"

definition set_reg :: "string \<Rightarrow> 'st Registry \<Rightarrow> 'st cluster \<Rightarrow> 'st cluster" where
  "set_reg B r C = C\<lparr>cnodes := (cnodes C)(B := (cnodes C B)\<lparr>nreg := r\<rparr>)\<rparr>"

definition set_obj :: "'st Registry \<Rightarrow> nat \<Rightarrow> 'st Group \<Rightarrow> 'st Registry" where
  "set_obj r p g = r\<lparr>objs := (objs r)[p := g]\<rparr>"

definition rpc_get :: "'st Store \<Rightarrow> (server_error option \<Rightarrow> string) \<Rightarrow> env \<Rightarrow> 'st cluster \<Rightarrow> string \<Rightarrow> string \<Rightarrow> string \<Rightarrow> string + bytes" where
  "rpc_get M txt ev C B grp key =
    (if \<not> up C B then Inl (txt None)
     else case Server_Get M ev (nreg (cnodes C B)) grp key of
       None \<Rightarrow> Inl (txt None)
     | Some (_, Inl err) \<Rightarrow> Inl (txt (Some err))
     | Some (_, Inr v) \<Rightarrow> Inr v)"

definition serve_get :: "'st Store \<Rightarrow> env \<Rightarrow> string \<Rightarrow> string \<Rightarrow> string \<Rightarrow> 'st cluster \<Rightarrow> 'st cluster" where
  "serve_get M ev B grp key C =
    (if \<not> up C B then C
     else case Server_Get M ev (nreg (cnodes C B)) grp key of
       None \<Rightarrow> C
     | Some (r, _) \<Rightarrow> set_reg B r C)"

text \<open>
  A \<open>Get\<close> by a client of node \<open>A\<close>. The group asks the picker of the node and, through \<open>Client_Get\<close>, the peer it
  names; that a peer was asked shows in the counters of the group.
\<close>

definition picked :: "(string \<Rightarrow> 32 word) \<Rightarrow> 'st cluster \<Rightarrow> string \<Rightarrow> picker" where
  "picked hf C A key = snd (PickPeer hf (npick (cnodes C A)) key)"

definition use_picker :: "(string \<Rightarrow> 32 word) \<Rightarrow> string \<Rightarrow> string \<Rightarrow> 'st cluster \<Rightarrow> 'st cluster" where
  "use_picker hf A key C =
    C\<lparr>cnodes := (cnodes C)(A := (cnodes C A)\<lparr>npick := fst (PickPeer hf (npick (cnodes C A)) key)\<rparr>)\<rparr>"

definition node_env :: "'st Store \<Rightarrow> (server_error option \<Rightarrow> string) \<Rightarrow> (string \<Rightarrow> env) \<Rightarrow> 'st cluster \<Rightarrow> string \<Rightarrow> env" where
  "node_env M txt evs C A = (evs A)\<lparr>isPeerRequest := False, peer_get := (\<lambda>B. Client_Get (rpc_get M txt (evs B) C B))\<rparr>"

definition asked_peer :: "'st Group \<Rightarrow> 'st Group \<Rightarrow> bool" where
  "asked_peer g g' \<longleftrightarrow> peerHits (stats g') + peerMisses (stats g') \<noteq> peerHits (stats g) + peerMisses (stats g)"

definition cluster_get :: "'st Store \<Rightarrow> (string \<Rightarrow> 32 word) \<Rightarrow> (server_error option \<Rightarrow> string) \<Rightarrow> (string \<Rightarrow> env)
    \<Rightarrow> string \<Rightarrow> string \<Rightarrow> string \<Rightarrow> 'st cluster \<Rightarrow> ('st cluster \<times> (server_error + bytes)) option" where
  "cluster_get M hf txt evs A grp key C = (case GetGroup (nreg (cnodes C A)) grp of
      None \<Rightarrow> Some (C, Inl GroupNotFound)
    | Some p \<Rightarrow> do {
        let r = nreg (cnodes C A);
        let g = (objs r ! p)\<lparr>gpeers := Some (picked hf C A)\<rparr>;
        (g', res) \<leftarrow> Group_Get M (node_env M txt evs C A) g key;
        let peer = picked hf C A key;
        let C = set_reg A (set_obj r p g') C;
        let C = (if loadsDeduped (stats g') \<noteq> loadsDeduped (stats g) then use_picker hf A key C else C);
        let C = (case peer of
            (Some B, True, False) \<Rightarrow> if asked_peer g g' then serve_get M (evs B) B grp key C else C
          | _ \<Rightarrow> C);
        Some (C, map_sum GroupError id res)
      })"

text \<open>A \<open>Set\<close> or a \<open>Delete\<close> by a client of node \<open>A\<close>; the message to the owner is under way afterwards.\<close>

definition cluster_set :: "'st Store \<Rightarrow> (string \<Rightarrow> 32 word) \<Rightarrow> env \<Rightarrow> string \<Rightarrow> string \<Rightarrow> string \<Rightarrow> bytes
    \<Rightarrow> 'st cluster \<Rightarrow> ('st cluster \<times> server_error option) option" where
  "cluster_set M hf ev A grp key v C = (case GetGroup (nreg (cnodes C A)) grp of
      None \<Rightarrow> Some (C, Some GroupNotFound)
    | Some p \<Rightarrow> do {
        let r = nreg (cnodes C A);
        (g', err, msgs) \<leftarrow> Group_Set M (ev\<lparr>isPeerRequest := False\<rparr>) ((objs r ! p)\<lparr>gpeers := Some (picked hf C A)\<rparr>) key v;
        let C = (set_reg A (set_obj r p g') C)\<lparr>syncs := syncs C @ msgs\<rparr>;
        Some (if err = None then use_picker hf A key C else C, map_option GroupError err)
      })"

definition cluster_delete :: "'st Store \<Rightarrow> (string \<Rightarrow> 32 word) \<Rightarrow> env \<Rightarrow> string \<Rightarrow> string \<Rightarrow> string
    \<Rightarrow> 'st cluster \<Rightarrow> ('st cluster \<times> server_error option) option" where
  "cluster_delete M hf ev A grp key C = (case GetGroup (nreg (cnodes C A)) grp of
      None \<Rightarrow> Some (C, Some GroupNotFound)
    | Some p \<Rightarrow> do {
        let r = nreg (cnodes C A);
        (g', err, msgs) \<leftarrow> Group_Delete M (ev\<lparr>isPeerRequest := False\<rparr>) ((objs r ! p)\<lparr>gpeers := Some (picked hf C A)\<rparr>) key;
        let C = (set_reg A (set_obj r p g') C)\<lparr>syncs := syncs C @ msgs\<rparr>;
        Some (if err = None then use_picker hf A key C else C, map_option GroupError err)
      })"

text \<open>A message arrives, in any order, at a node that is up.\<close>

definition deliver :: "'st Store \<Rightarrow> env \<Rightarrow> sync \<Rightarrow> 'st cluster \<Rightarrow> 'st cluster option" where
  "deliver M ev msg C = (case msg of (B, grp, key, op) \<Rightarrow>
    (if \<not> up C B then Some C
     else case op of
       SyncSet v \<Rightarrow> do { (r, _, msgs) \<leftarrow> Server_Set M ev (nreg (cnodes C B)) grp key v; Some ((set_reg B r C)\<lparr>syncs := syncs C @ msgs\<rparr>) }
     | SyncDelete \<Rightarrow> do { (r, _, _, msgs) \<leftarrow> Server_Delete M ev (nreg (cnodes C B)) grp key; Some ((set_reg B r C)\<lparr>syncs := syncs C @ msgs\<rparr>) }))"

datatype cluster_op =
    NGet "string \<Rightarrow> env" string string string
  | NSet env string string string bytes
  | NDelete env string string string
  | NDeliver env nat
  | NLose nat
  | NUp string bool
  | NPeers string ClientPicker

definition remove_nth :: "nat \<Rightarrow> 'a list \<Rightarrow> 'a list" where
  "remove_nth i xs = take i xs @ drop (i + 1) xs"

fun cluster_step :: "'st Store \<Rightarrow> (string \<Rightarrow> 32 word) \<Rightarrow> (server_error option \<Rightarrow> string) \<Rightarrow> cluster_op
    \<Rightarrow> 'st cluster \<Rightarrow> ('st cluster \<times> bytes option) option" where
  "cluster_step M hf txt (NGet evs A grp key) C = do {
     (C', res) \<leftarrow> cluster_get M hf txt evs A grp key C;
     Some (C', case res of Inr v \<Rightarrow> Some v | Inl _ \<Rightarrow> None) }"
| "cluster_step M hf txt (NSet ev A grp key v) C = do { (C', _) \<leftarrow> cluster_set M hf ev A grp key v C; Some (C', None) }"
| "cluster_step M hf txt (NDelete ev A grp key) C = do { (C', _) \<leftarrow> cluster_delete M hf ev A grp key C; Some (C', None) }"
| "cluster_step M hf txt (NDeliver ev i) C =
     (if i < length (syncs C)
      then do { C' \<leftarrow> deliver M ev (syncs C ! i) (C\<lparr>syncs := remove_nth i (syncs C)\<rparr>); Some (C', None) } else None)"
| "cluster_step M hf txt (NLose i) C = Some (C\<lparr>syncs := remove_nth i (syncs C)\<rparr>, None)"
| "cluster_step M hf txt (NUp B b) C = Some (C\<lparr>up := (up C)(B := b)\<rparr>, None)"
| "cluster_step M hf txt (NPeers A p) C = Some (C\<lparr>cnodes := (cnodes C)(A := (cnodes C A)\<lparr>npick := p\<rparr>)\<rparr>, None)"

text \<open>A sequence of operations, with what the reads answered.\<close>

fun cluster_run :: "'st Store \<Rightarrow> (string \<Rightarrow> 32 word) \<Rightarrow> (server_error option \<Rightarrow> string) \<Rightarrow> cluster_op list
    \<Rightarrow> 'st cluster \<Rightarrow> ('st cluster \<times> (cluster_op \<times> bytes option) list) option" where
  "cluster_run M hf txt [] C = Some (C, [])"
| "cluster_run M hf txt (op # ops) C = do {
     (C, res) \<leftarrow> cluster_step M hf txt op C;
     (C, answers) \<leftarrow> cluster_run M hf txt ops C;
     Some (C, (op, res) # answers) }"

end
