(* ===== verification/Cache_Cluster_Correct.thy ===== *)
theory Cache_Cluster_Correct
  imports Cache_Cluster
begin

text \<open>
  Whatever clients, messages and changes of the membership do, every node only ever holds and answers values that a
  loader returned or a client set for the group and key (\<open>Q\<close>); and a read of a key that another node owns is
  answered by that node.
\<close>

definition same_group :: "'st Group \<Rightarrow> 'st Group \<Rightarrow> bool" where
  "same_group g g' \<longleftrightarrow> gname g' = gname g \<and> gclosed g' = gclosed g \<and> expiration g' = expiration g"

definition group_good :: "('st \<Rightarrow> bool) \<Rightarrow> (StoreOptions \<Rightarrow> bool) \<Rightarrow> ('st \<Rightarrow> ideal) \<Rightarrow> (string \<Rightarrow> string \<Rightarrow> bytes \<Rightarrow> bool) \<Rightarrow> 'st Group \<Rightarrow> bool" where
  "group_good okst good view Q g \<longleftrightarrow> group_wf okst good g \<and>
    (\<forall>k v e. group_contents view g k = Some (Some v, e) \<longrightarrow> Q (gname g) k v)"

definition reg_good :: "('st \<Rightarrow> bool) \<Rightarrow> (StoreOptions \<Rightarrow> bool) \<Rightarrow> ('st \<Rightarrow> ideal) \<Rightarrow> (string \<Rightarrow> string \<Rightarrow> bytes \<Rightarrow> bool) \<Rightarrow> 'st Registry \<Rightarrow> bool" where
  "reg_good okst good view Q r \<longleftrightarrow> reg_inv r \<and> (\<forall>g \<in> set (objs r). group_good okst good view Q g)"

definition exps :: "'st Registry \<Rightarrow> int list" where
  "exps r = map expiration (objs r)"

definition reg_times :: "env \<Rightarrow> int list \<Rightarrow> bool" where
  "reg_times ev es \<longleftrightarrow> (\<forall>e \<in> set es. op_time_ok (clock ev, OpAddExp (wall_later ev) [] [] (wall ev + e)))"

definition syncs_good :: "(string \<Rightarrow> string \<Rightarrow> bytes \<Rightarrow> bool) \<Rightarrow> sync list \<Rightarrow> bool" where
  "syncs_good Q ms \<longleftrightarrow> (\<forall>B n k v. (B, n, k, SyncSet v) \<in> set ms \<longrightarrow> Q n k v)"

definition cluster_good :: "('st \<Rightarrow> bool) \<Rightarrow> (StoreOptions \<Rightarrow> bool) \<Rightarrow> ('st \<Rightarrow> ideal) \<Rightarrow> (string \<Rightarrow> string \<Rightarrow> bytes \<Rightarrow> bool) \<Rightarrow> 'st cluster \<Rightarrow> bool" where
  "cluster_good okst good view Q C \<longleftrightarrow> (\<forall>A. reg_good okst good view Q (nreg (cnodes C A))) \<and> syncs_good Q (syncs C)"

lemma same_group_trans: "same_group g g1 \<Longrightarrow> same_group g1 g2 \<Longrightarrow> same_group g g2"
  by (simp add: same_group_def)

lemma same_group_upd:
  "same_group (g\<lparr>gpeers := ps\<rparr>) g' = same_group g g'" "same_group (g\<lparr>stats := s\<rparr>) g' = same_group g g'"
  "same_group (g\<lparr>mainCache := c\<rparr>) g' = same_group g g'" "same_group g (g'\<lparr>stats := s\<rparr>) = same_group g g'"
  "same_group g (g'\<lparr>mainCache := c\<rparr>) = same_group g g'" "same_group g g"
  by (simp_all add: same_group_def)

lemma getter_frame: "from_getter ev g key = (g', r) \<Longrightarrow> same_group g g'"
  by (auto simp: from_getter_def same_group_upd split: outcome.splits)

lemma loadData_frame: "loadData ev g key = (g', r) \<Longrightarrow> same_group g g'"
  by (auto simp: loadData_def same_group_upd split: option.splits if_splits prod.splits sum.splits bool.splits
      dest!: getter_frame)

lemma value_frame: "cache_value M ev g key v = Some g' \<Longrightarrow> same_group g g'"
  by (auto simp: cache_value_def same_group_upd split: if_splits Option.bind_splits)

lemma load_fn_frame: "load_fn M ev g key = Some (g', r) \<Longrightarrow> same_group g g'"
  by (auto simp: load_fn_def same_group_upd Let_def split: Option.bind_splits option.splits prod.splits outcome.splits
      dest!: loadData_frame dest: value_frame same_group_trans)

lemma load_frame: "load M ev g key = Some (g', res) \<Longrightarrow> same_group g g'"
  by (auto simp: load_def same_group_upd Let_def split: Option.bind_splits sum.splits dest!: load_fn_frame)

lemma get_frame: "Group_Get M ev g key = Some (g', res) \<Longrightarrow> same_group g g'"
  by (auto simp: Group_Get_def Let_def same_group_def dest!: load_frame split: if_splits Option.bind_splits option.splits)

lemma set_frame: "Group_Set M ev g key v = Some (g', res) \<Longrightarrow> same_group g g'"
  by (auto simp: Group_Set_def cache_value_def Let_def same_group_def split: if_splits Option.bind_splits option.splits)

lemma delete_frame: "Group_Delete M ev g key = Some (g', res) \<Longrightarrow> same_group g g'"
  by (auto simp: Group_Delete_def Let_def same_group_def split: if_splits Option.bind_splits option.splits)

lemma set_obj_inv:
  assumes "reg_inv r" "groups r n = Some p" "same_group (objs r ! p) g'"
  shows "reg_inv (set_obj r p g')" "exps (set_obj r p g') = exps r" "gname g' = n"
proof -
  have p: "p < length (objs r)" "gname (objs r ! p) = n" using reg_entry [OF assms(1,2)] by simp_all
  have nth: "gname ((objs r)[p := g'] ! q) = gname (objs r ! q)" "gclosed ((objs r)[p := g'] ! q) = gclosed (objs r ! q)" for q
    using assms(3) p(1) by (cases "q = p"; simp add: same_group_def)+
  show "reg_inv (set_obj r p g')" using assms(1) by (simp add: reg_inv_def set_obj_def nth)
  have "expiration g' = map expiration (objs r) ! p" using assms(3) p(1) by (simp add: same_group_def)
  then show "exps (set_obj r p g') = exps r" by (simp add: exps_def set_obj_def map_update)
  show "gname g' = n" using assms(3) p by (simp add: same_group_def)
qed

lemma set_obj_good:
  assumes "reg_good okst good view Q r" "groups r n = Some p" "same_group (objs r ! p) g'" "group_good okst good view Q g'"
  shows "reg_good okst good view Q (set_obj r p g')" "exps (set_obj r p g') = exps r"
proof -
  have I: "reg_inv r" using assms(1) by (simp add: reg_good_def)
  note S = set_obj_inv [OF I assms(2,3)]
  have "set (objs (set_obj r p g')) \<subseteq> insert g' (set (objs r))" by (simp add: set_obj_def set_update_subset_insert)
  then show "reg_good okst good view Q (set_obj r p g')" using assms(1,4) S(1) unfolding reg_good_def by blast
  show "exps (set_obj r p g') = exps r" by (rule S(2))
qed

lemma reg_good_entry:
  "reg_good okst good view Q r \<Longrightarrow> groups r n = Some p \<Longrightarrow>
    group_good okst good view Q (objs r ! p) \<and> gname (objs r ! p) = n \<and> expiration (objs r ! p) \<in> set (exps r)"
  using reg_entry [of r n p] by (auto simp: reg_good_def exps_def)

lemma reg_times_env: "reg_times ev es \<Longrightarrow> expiration g \<in> set es \<Longrightarrow> env_ok ev g"
  by (simp add: reg_times_def env_ok_def)

lemma reg_times_upd [simp]: "reg_times (ev\<lparr>isPeerRequest := b\<rparr>) es = reg_times ev es"
  "reg_times (ev\<lparr>isPeerRequest := b, peer_get := f\<rparr>) es = reg_times ev es"
  by (simp_all add: reg_times_def)

lemma unexpired_holds: "unexpired ev m k = Some v \<Longrightarrow> \<exists>e. m k = Some (Some v, e)"
  by (auto simp: unexpired_def split: option.splits if_splits)

context kv_store
begin

abbreviation ggood :: "(string \<Rightarrow> string \<Rightarrow> bytes \<Rightarrow> bool) \<Rightarrow> 'st Group \<Rightarrow> bool" where
  "ggood \<equiv> group_good inv good view"

abbreviation rgood :: "(string \<Rightarrow> string \<Rightarrow> bytes \<Rightarrow> bool) \<Rightarrow> 'st Registry \<Rightarrow> bool" where
  "rgood \<equiv> reg_good inv good view"

lemma get_good:
  assumes g: "ggood Q g" and e: "env_ok ev g" and f: "\<And>v. fetch ev g key = Ret v \<Longrightarrow> Q (gname g) key v"
  shows "\<exists>g'. Group_Get M ev g key = Some (g', get_result (gcontents g) ev g key) \<and> ggood Q g' \<and> same_group g g' \<and>
    (\<forall>v. get_result (gcontents g) ev g key = Inr v \<longrightarrow> Q (gname g) key v)"
proof -
  have W: "gwf g" and H: "\<And>k v e. gcontents g k = Some (Some v, e) \<Longrightarrow> Q (gname g) k v"
    using g unfolding group_good_def by blast+
  obtain g' where g': "Group_Get M ev g key = Some (g', get_result (gcontents g) ev g key)" "gwf g'"
    "\<And>k r. gcontents g' k = Some r \<Longrightarrow> gcontents g k = Some r \<or> (k = key \<and> (\<exists>v. fetch ev g key = Ret v \<and> r = (Some v, value_expiry ev g)))"
    using group_get_ok [OF W e, of key] by blast
  have fr: "same_group g g'" using get_frame [OF g'(1)] .
  have "ggood Q g'" unfolding group_good_def
  proof (intro conjI allI impI)
    fix k v e
    assume "gcontents g' k = Some (Some v, e)"
    from g'(3) [OF this] show "Q (gname g') k v" using H f fr by (auto simp: same_group_def)
  qed (rule g'(2))
  moreover have "Q (gname g) key v" if "get_result (gcontents g) ev g key = Inr v" for v
    using that H f unexpired_holds [of ev "gcontents g" key]
    by (auto simp: get_result_def split: if_splits option.splits) (cases "fetch ev g key"; auto)+
  ultimately show ?thesis using g'(1) fr by blast
qed

lemma fetch_forwarded: "isPeerRequest ev \<Longrightarrow> fetch ev g key = getter ev key"
  by (simp add: fetch_def split: option.split)

lemma server_get_good:
  assumes r: "rgood Q r" and t: "reg_times ev (exps r)" and f: "\<And>v. getter ev key = Ret v \<Longrightarrow> Q grp key v"
  shows "\<exists>r' res. Server_Get M ev r grp key = Some (r', res) \<and> rgood Q r' \<and> exps r' = exps r \<and>
    (\<forall>v. res = Inr v \<longrightarrow> Q grp key v)"
proof (cases "groups r grp")
  case None
  then show ?thesis using r by (simp add: Server_Get_def GetGroup_def)
next
  case (Some p)
  note E = reg_good_entry [OF r Some]
  let ?g = "(objs r ! p)\<lparr>stats := (stats (objs r ! p))\<lparr>serverRequests := serverRequests (stats (objs r ! p)) + 1\<rparr>\<rparr>"
  have g: "ggood Q ?g" "env_ok (ev\<lparr>isPeerRequest := True\<rparr>) ?g" "gname ?g = grp"
    using E reg_times_env [of "ev\<lparr>isPeerRequest := True\<rparr>" "exps r" ?g] t by (auto simp: group_good_def)
  obtain g' where g': "Group_Get M (ev\<lparr>isPeerRequest := True\<rparr>) ?g key = Some (g', get_result (gcontents ?g) (ev\<lparr>isPeerRequest := True\<rparr>) ?g key)"
    "ggood Q g'" "same_group ?g g'" "\<forall>v. get_result (gcontents ?g) (ev\<lparr>isPeerRequest := True\<rparr>) ?g key = Inr v \<longrightarrow> Q grp key v"
    using get_good [OF g(1,2), of key] f g(3) fetch_forwarded [of "ev\<lparr>isPeerRequest := True\<rparr>" ?g key] by auto
  have "same_group (objs r ! p) g'" using g'(3) by (simp only: same_group_upd)
  note S = set_obj_good [OF r Some this g'(2)]
  have "Server_Get M ev r grp key = Some (set_obj r p g', case get_result (gcontents ?g) (ev\<lparr>isPeerRequest := True\<rparr>) ?g key of
      Inl e \<Rightarrow> Inl (GroupError e) | Inr v \<Rightarrow> Inr v)"
    using Some g'(1) by (simp add: Server_Get_def GetGroup_def Let_def set_obj_def)
  then show ?thesis using S g'(4) by (auto split: sum.splits)
qed

lemma set_good:
  assumes g: "ggood Q g" and e: "env_ok ev g" and v: "Q (gname g) key v"
  shows "\<exists>g' err msgs. Group_Set M ev g key v = Some (g', err, msgs) \<and> ggood Q g' \<and> same_group g g' \<and>
    msgs = (if err = None then sync_unless_forwarded ev g key (SyncSet v) else [])"
proof -
  have W: "gwf g" and H: "\<And>k v e. gcontents g k = Some (Some v, e) \<Longrightarrow> Q (gname g) k v"
    using g unfolding group_good_def by blast+
  obtain g' err msgs where g': "Group_Set M ev g key v = Some (g', err, msgs)" "gwf g'"
    "msgs = (if err = None then sync_unless_forwarded ev g key (SyncSet v) else [])"
    "\<And>k r. gcontents g' k = Some r \<Longrightarrow> gcontents g k = Some r \<or> (k = key \<and> r = (Some v, value_expiry ev g))"
    using group_set_ok [OF W e, of key v] by blast
  have fr: "same_group g g'" using set_frame [OF g'(1)] .
  have "ggood Q g'" unfolding group_good_def
  proof (intro conjI allI impI)
    fix k u e
    assume "gcontents g' k = Some (Some u, e)"
    from g'(4) [OF this] show "Q (gname g') k u" using H v fr by (auto simp: same_group_def)
  qed (rule g'(2))
  then show ?thesis using g'(1,3) fr by blast
qed

lemma delete_good:
  assumes g: "ggood Q g"
  shows "\<exists>g' err msgs. Group_Delete M ev g key = Some (g', err, msgs) \<and> ggood Q g' \<and> same_group g g' \<and>
    msgs = (if err = None then sync_unless_forwarded ev g key SyncDelete else [])"
proof -
  have W: "gwf g" and H: "\<And>k v e. gcontents g k = Some (Some v, e) \<Longrightarrow> Q (gname g) k v"
    using g unfolding group_good_def by blast+
  obtain g' err msgs where g': "Group_Delete M ev g key = Some (g', err, msgs)" "gwf g'"
    "msgs = (if err = None then sync_unless_forwarded ev g key SyncDelete else [])"
    "gcontents g' = (if err = None then (gcontents g)(key := None) else gcontents g)"
    using group_delete_ok [OF W, of ev key] by blast
  have fr: "same_group g g'" using delete_frame [OF g'(1)] .
  have "ggood Q g'" using g'(2,4) H fr by (auto simp: group_good_def same_group_def split: if_splits)
  then show ?thesis using g'(1,3) fr by blast
qed

lemma server_set_good:
  assumes r: "rgood Q r" and t: "reg_times ev (exps r)" and v: "Q grp key v"
  shows "\<exists>r' res. Server_Set M ev r grp key v = Some (r', res, []) \<and> rgood Q r' \<and> exps r' = exps r"
proof (cases "groups r grp")
  case None
  then show ?thesis using r by (simp add: Server_Set_def GetGroup_def)
next
  case (Some p)
  note E = reg_good_entry [OF r Some]
  let ?ev = "if isPeerRequest ev then ev else ev\<lparr>isPeerRequest := True\<rparr>"
  have g: "ggood Q (objs r ! p)" "env_ok ?ev (objs r ! p)" "Q (gname (objs r ! p)) key v" "isPeerRequest ?ev"
    using E reg_times_env [of ?ev "exps r" "objs r ! p"] t v by auto
  obtain g' err msgs where g': "Group_Set M ?ev (objs r ! p) key v = Some (g', err, msgs)" "ggood Q g'" "same_group (objs r ! p) g'"
    "msgs = (if err = None then sync_unless_forwarded ?ev (objs r ! p) key (SyncSet v) else [])"
    using set_good [OF g(1,2,3)] by blast
  have "msgs = []" using g'(4) g(4) by (simp add: sync_unless_forwarded_def)
  then have "Server_Set M ev r grp key v = Some (set_obj r p g', case err of Some e \<Rightarrow> Inl (GroupError e) | None \<Rightarrow> Inr v, [])"
    using Some g'(1) by (simp add: Server_Set_def GetGroup_def Let_def set_obj_def)
  then show ?thesis using set_obj_good [OF r Some g'(3,2)] by blast
qed

lemma server_delete_good:
  assumes r: "rgood Q r"
  shows "\<exists>r' b err. Server_Delete M ev r grp key = Some (r', b, err, []) \<and> rgood Q r' \<and> exps r' = exps r"
proof (cases "groups r grp")
  case None
  then show ?thesis using r by (auto simp: Server_Delete_def GetGroup_def)
next
  case (Some p)
  note E = reg_good_entry [OF r Some]
  let ?ev = "ev\<lparr>isPeerRequest := True\<rparr>"
  obtain g' err msgs where g': "Group_Delete M ?ev (objs r ! p) key = Some (g', err, msgs)" "ggood Q g'" "same_group (objs r ! p) g'"
    "msgs = (if err = None then sync_unless_forwarded ?ev (objs r ! p) key SyncDelete else [])"
    using delete_good [of Q "objs r ! p" ?ev key] E by blast
  have "msgs = []" using g'(4) by (simp add: sync_unless_forwarded_def)
  then have "Server_Delete M ev r grp key = Some (set_obj r p g', err = None, map_option GroupError err, [])"
    using Some g'(1) by (simp add: Server_Delete_def GetGroup_def Let_def set_obj_def)
  then show ?thesis using set_obj_good [OF r Some g'(3,2)] by blast
qed

end

subsection \<open>Steps of the cluster\<close>

definition cexps :: "'st cluster \<Rightarrow> string \<Rightarrow> int list" where
  "cexps C A = exps (nreg (cnodes C A))"

text \<open>What the surroundings promise for an operation: loaders and clients give values of \<open>Q\<close>, clocks do not overflow.\<close>

fun op_ok :: "(string \<Rightarrow> string \<Rightarrow> bytes \<Rightarrow> bool) \<Rightarrow> (string \<Rightarrow> int list) \<Rightarrow> cluster_op \<Rightarrow> bool" where
  "op_ok Q es (NGet evs A grp key) \<longleftrightarrow>
     (\<forall>B. reg_times (evs B) (es B)) \<and> (\<forall>B v. getter (evs B) key = Ret v \<longrightarrow> Q grp key v)"
| "op_ok Q es (NSet ev A grp key v) \<longleftrightarrow> reg_times ev (es A) \<and> Q grp key v"
| "op_ok Q es (NDeliver ev i) \<longleftrightarrow> (\<forall>B. reg_times ev (es B))"
| "op_ok Q es _ \<longleftrightarrow> True"

lemma nreg_upd [simp]:
  "nreg (cnodes (set_reg B r C) A) = (if A = B then r else nreg (cnodes C A))" "up (set_reg B r C) = up C"
  "syncs (set_reg B r C) = syncs C"
  "nreg (cnodes (use_picker hf B key C) A) = nreg (cnodes C A)" "up (use_picker hf B key C) = up C"
  "syncs (use_picker hf B key C) = syncs C"
  by (simp_all add: set_reg_def use_picker_def)

lemma cluster_good_upd:
  "cluster_good okst good view Q C \<Longrightarrow> reg_good okst good view Q r \<Longrightarrow> cluster_good okst good view Q (set_reg A r C)"
  "cluster_good okst good view Q (use_picker hf A key C) = cluster_good okst good view Q C"
  "cluster_good okst good view Q (C\<lparr>syncs := ms\<rparr>) \<longleftrightarrow> (\<forall>A. reg_good okst good view Q (nreg (cnodes C A))) \<and> syncs_good Q ms"
  "exps r = cexps C A \<Longrightarrow> cexps (set_reg A r C) = cexps C" "cexps (use_picker hf A key C) = cexps C"
  "cexps (C\<lparr>syncs := ms\<rparr>) = cexps C"
  by (auto simp: cluster_good_def cexps_def fun_eq_iff)

lemma cluster_goodD: "cluster_good okst good view Q C \<Longrightarrow> reg_good okst good view Q (nreg (cnodes C A))"
  "cluster_good okst good view Q C \<Longrightarrow> syncs_good Q (syncs C)"
  by (simp_all add: cluster_good_def)

lemma syncs_good_append [simp]: "syncs_good Q (xs @ ys) \<longleftrightarrow> syncs_good Q xs \<and> syncs_good Q ys"
  by (auto simp: syncs_good_def)

lemma syncs_good_nil [simp]: "syncs_good Q []"
  by (simp add: syncs_good_def)

lemma sync_good: "Q (gname g) key v \<Longrightarrow> syncs_good Q (sync_unless_forwarded ev g key (SyncSet v))"
  "syncs_good Q (sync_unless_forwarded ev g key SyncDelete)"
  by (auto simp: sync_unless_forwarded_def syncToPeers_def syncs_good_def split: option.splits prod.splits bool.splits)

lemma syncs_good_removed: "syncs_good Q ms \<Longrightarrow> syncs_good Q (remove_nth i ms)"
  by (auto simp: syncs_good_def remove_nth_def dest: in_set_takeD in_set_dropD)

context kv_store
begin

abbreviation cgood :: "(string \<Rightarrow> string \<Rightarrow> bytes \<Rightarrow> bool) \<Rightarrow> 'st cluster \<Rightarrow> bool" where
  "cgood \<equiv> cluster_good inv good view"

lemma rpc_good:
  assumes C: "cgood Q C" and t: "reg_times ev (cexps C B)" and f: "\<And>v. getter ev key = Ret v \<Longrightarrow> Q grp key v"
    and r: "Client_Get (rpc_get M txt ev C B) grp key = Inr v"
  shows "Q grp key v"
proof -
  obtain r' res where "Server_Get M ev (nreg (cnodes C B)) grp key = Some (r', res)" "\<forall>v. res = Inr v \<longrightarrow> Q grp key v"
    using server_get_good [OF cluster_goodD(1) [OF C], of ev B key grp] t f unfolding cexps_def by blast
  then show ?thesis using r by (auto simp: Client_Get_def rpc_get_def split: if_splits sum.splits)
qed

lemma serve_good:
  assumes C: "cgood Q C" and t: "reg_times ev (cexps C B)" and f: "\<And>v. getter ev key = Ret v \<Longrightarrow> Q grp key v"
  shows "cgood Q (serve_get M ev B grp key C)" "cexps (serve_get M ev B grp key C) = cexps C"
proof -
  obtain r' res where s: "Server_Get M ev (nreg (cnodes C B)) grp key = Some (r', res)" "rgood Q r'" "exps r' = exps (nreg (cnodes C B))"
    using server_get_good [OF cluster_goodD(1) [OF C], of ev B key grp] t f unfolding cexps_def by blast
  then have "serve_get M ev B grp key C = (if up C B then set_reg B r' C else C)" by (simp add: serve_get_def)
  then show "cgood Q (serve_get M ev B grp key C)" "cexps (serve_get M ev B grp key C) = cexps C"
    using cluster_good_upd(1) [OF C s(2)] cluster_good_upd(4) [of r' C B] s(3) C by (simp_all add: cexps_def)
qed

lemma cluster_get_good:
  assumes C: "cgood Q C" and ok: "op_ok Q (cexps C) (NGet evs A grp key)"
  shows "\<exists>C' res. cluster_get M hf txt evs A grp key C = Some (C', res) \<and> cgood Q C' \<and> cexps C' = cexps C \<and>
    (\<forall>v. res = Inr v \<longrightarrow> Q grp key v)"
proof (cases "groups (nreg (cnodes C A)) grp")
  case None
  then show ?thesis using C by (simp add: cluster_get_def GetGroup_def)
next
  case (Some p)
  let ?r = "nreg (cnodes C A)" and ?ev = "node_env M txt evs C A"
  let ?g = "(objs ?r ! p)\<lparr>gpeers := Some (picked hf C A)\<rparr>"
  have t: "reg_times (evs B) (cexps C B)" and f: "getter (evs B) key = Ret v \<Longrightarrow> Q grp key v" for B v using ok by auto
  note R = cluster_goodD(1) [OF C, of A]
  note E = reg_good_entry [OF R Some]
  have g: "ggood Q ?g" "gname ?g = grp" using E by (auto simp: group_good_def group_wf_def group_contents_def)
  have e: "env_ok ?ev ?g" using E t [of A] reg_times_env [of ?ev "exps ?r" ?g] by (simp add: node_env_def cexps_def)
  have "Q grp key v" if "fetch ?ev ?g key = Ret v" for v
    using that f rpc_good [OF C t f] E by (auto simp: fetch_def node_env_def split: prod.splits option.splits bool.splits sum.splits)
  then obtain g' where g': "Group_Get M ?ev ?g key = Some (g', get_result (gcontents ?g) ?ev ?g key)" "ggood Q g'" "same_group ?g g'"
    "\<forall>v. get_result (gcontents ?g) ?ev ?g key = Inr v \<longrightarrow> Q grp key v"
    using get_good [OF g(1) e, of key] g(2) by auto
  have "same_group (objs ?r ! p) g'" using g'(3) by (simp only: same_group_upd)
  note S = set_obj_good [OF R Some this g'(2)]
  let ?C1 = "set_reg A (set_obj ?r p g') C"
  define C2 where "C2 = (if loadsDeduped (stats g') \<noteq> loadsDeduped (stats ?g) then use_picker hf A key ?C1 else ?C1)"
  define C3 where "C3 = (case picked hf C A key of (Some B, True, False) \<Rightarrow> if asked_peer ?g g' then serve_get M (evs B) B grp key C2 else C2
    | _ \<Rightarrow> C2)"
  have C1: "cgood Q ?C1" "cexps ?C1 = cexps C" using cluster_good_upd(1) [OF C S(1)] cluster_good_upd(4) [of "set_obj ?r p g'" C A] S(2)
    by (simp_all add: cexps_def)
  then have C2: "cgood Q C2" "cexps C2 = cexps C" by (simp_all add: cluster_good_upd C2_def)
  have "cgood Q (serve_get M (evs B) B grp key C2)" "cexps (serve_get M (evs B) B grp key C2) = cexps C" for B
    using serve_good [OF C2(1), of "evs B" B key grp] t [of B] f C2(2) by simp_all
  then have C3: "cgood Q C3 \<and> cexps C3 = cexps C"
    using C2 unfolding C3_def by (simp split: prod.split option.split bool.split)
  have "cluster_get M hf txt evs A grp key C = Some (C3, map_sum GroupError id (get_result (gcontents ?g) ?ev ?g key))"
    unfolding cluster_get_def GetGroup_def Let_def C3_def C2_def
    by (simp only: Some g'(1) option.case Option.bind.simps prod.case)
  then show ?thesis using C3 g'(4) by (auto simp: map_sum_def split: sum.splits)
qed

lemma updated_good:
  assumes C: "cgood Q C" and p: "groups (nreg (cnodes C A)) grp = Some p" and s: "same_group (objs (nreg (cnodes C A)) ! p) g'"
    and g: "ggood Q g'" and m: "syncs_good Q ms"
  shows "cgood Q ((set_reg A (set_obj (nreg (cnodes C A)) p g') C)\<lparr>syncs := syncs C @ ms\<rparr>)"
    "cexps ((set_reg A (set_obj (nreg (cnodes C A)) p g') C)\<lparr>syncs := syncs C @ ms\<rparr>) = cexps C"
proof -
  note S = set_obj_good [OF cluster_goodD(1) [OF C] p s g]
  show "cgood Q ((set_reg A (set_obj (nreg (cnodes C A)) p g') C)\<lparr>syncs := syncs C @ ms\<rparr>)"
    using cluster_goodD [OF C] m S(1) unfolding cluster_good_upd by simp
  show "cexps ((set_reg A (set_obj (nreg (cnodes C A)) p g') C)\<lparr>syncs := syncs C @ ms\<rparr>) = cexps C"
    using S(2) cluster_good_upd(4) [of "set_obj (nreg (cnodes C A)) p g'" C A] by (simp add: cluster_good_upd(6) cexps_def)
qed

lemma cluster_set_good:
  assumes C: "cgood Q C" and ok: "op_ok Q (cexps C) (NSet ev A grp key v)"
  shows "\<exists>C' err. cluster_set M hf ev A grp key v C = Some (C', err) \<and> cgood Q C' \<and> cexps C' = cexps C"
proof (cases "groups (nreg (cnodes C A)) grp")
  case None
  then show ?thesis using C by (simp add: cluster_set_def GetGroup_def)
next
  case (Some p)
  let ?r = "nreg (cnodes C A)" and ?ev = "ev\<lparr>isPeerRequest := False\<rparr>"
  let ?g = "(objs ?r ! p)\<lparr>gpeers := Some (picked hf C A)\<rparr>"
  note E = reg_good_entry [OF cluster_goodD(1) [OF C, of A] Some]
  have g: "ggood Q ?g" "Q (gname ?g) key v" using E ok by (auto simp: group_good_def group_wf_def group_contents_def)
  have e: "env_ok ?ev ?g" using E ok reg_times_env [of ?ev "exps ?r" ?g] by (simp add: cexps_def)
  obtain g' err msgs where g': "Group_Set M ?ev ?g key v = Some (g', err, msgs)" "ggood Q g'" "same_group ?g g'"
    "msgs = (if err = None then sync_unless_forwarded ?ev ?g key (SyncSet v) else [])"
    using set_good [OF g(1) e g(2)] by blast
  have sg: "same_group (objs ?r ! p) g'" using g'(3) by (simp only: same_group_upd)
  have m: "syncs_good Q msgs" unfolding g'(4) using sync_good(1) [of Q ?g key v ?ev] g(2) by simp
  note U = updated_good [OF C Some sg g'(2) m]
  show ?thesis unfolding cluster_set_def GetGroup_def Let_def
    by (simp only: Some g'(1) option.case Option.bind.simps prod.case) (simp add: U cluster_good_upd(2,5))
qed

lemma cluster_delete_good:
  assumes C: "cgood Q C"
  shows "\<exists>C' err. cluster_delete M hf ev A grp key C = Some (C', err) \<and> cgood Q C' \<and> cexps C' = cexps C"
proof (cases "groups (nreg (cnodes C A)) grp")
  case None
  then show ?thesis using C by (simp add: cluster_delete_def GetGroup_def)
next
  case (Some p)
  let ?r = "nreg (cnodes C A)" and ?ev = "ev\<lparr>isPeerRequest := False\<rparr>"
  let ?g = "(objs ?r ! p)\<lparr>gpeers := Some (picked hf C A)\<rparr>"
  note E = reg_good_entry [OF cluster_goodD(1) [OF C, of A] Some]
  have g: "ggood Q ?g" using E by (auto simp: group_good_def group_wf_def group_contents_def)
  obtain g' err msgs where g': "Group_Delete M ?ev ?g key = Some (g', err, msgs)" "ggood Q g'" "same_group ?g g'"
    "msgs = (if err = None then sync_unless_forwarded ?ev ?g key SyncDelete else [])"
    using delete_good [OF g] by blast
  have sg: "same_group (objs ?r ! p) g'" using g'(3) by (simp only: same_group_upd)
  have m: "syncs_good Q msgs" unfolding g'(4) using sync_good(2) [of Q ?ev ?g key] by simp
  note U = updated_good [OF C Some sg g'(2) m]
  show ?thesis unfolding cluster_delete_def GetGroup_def Let_def
    by (simp only: Some g'(1) option.case Option.bind.simps prod.case) (simp add: U cluster_good_upd(2,5))
qed

lemma deliver_good:
  assumes C: "cgood Q C" and t: "\<And>B. reg_times ev (cexps C B)" and m: "syncs_good Q [msg]"
  shows "\<exists>C'. deliver M ev msg C = Some C' \<and> cgood Q C' \<and> cexps C' = cexps C"
proof -
  obtain B grp key op where msg: "msg = (B, grp, key, op)" by (cases msg) auto
  have fin: "cgood Q ((set_reg B r C)\<lparr>syncs := syncs C\<rparr>) \<and> cexps ((set_reg B r C)\<lparr>syncs := syncs C\<rparr>) = cexps C"
    if "rgood Q r" "exps r = exps (nreg (cnodes C B))" for r
    using cluster_goodD [OF C] that cluster_good_upd(4) [of r C B]
    unfolding cluster_good_upd(3,6) by (simp add: cexps_def)
  show ?thesis
  proof (cases "up C B")
    case True
    show ?thesis
    proof (cases op)
      case (SyncSet v)
      have "Q grp key v" using m msg SyncSet by (auto simp: syncs_good_def)
      from server_set_good [OF cluster_goodD(1) [OF C] _ this, of ev B] t
      obtain r' res where "Server_Set M ev (nreg (cnodes C B)) grp key v = Some (r', res, [])" "rgood Q r'" "exps r' = exps (nreg (cnodes C B))"
        unfolding cexps_def by blast
      then show ?thesis using True SyncSet fin [of r'] by (simp add: deliver_def msg)
    next
      case SyncDelete
      obtain r' b err where "Server_Delete M ev (nreg (cnodes C B)) grp key = Some (r', b, err, [])" "rgood Q r'" "exps r' = exps (nreg (cnodes C B))"
        using server_delete_good [OF cluster_goodD(1) [OF C]] by blast
      then show ?thesis using True SyncDelete fin [of r'] by (simp add: deliver_def msg)
    qed
  qed (use C msg in \<open>simp add: deliver_def\<close>)
qed

lemma cluster_step_good:
  assumes C: "cgood Q C" and ok: "op_ok Q (cexps C) op" and i: "\<forall>ev i. op = NDeliver ev i \<longrightarrow> i < length (syncs C)"
  shows "\<exists>C' res. cluster_step M hf txt op C = Some (C', res) \<and> cgood Q C' \<and> cexps C' = cexps C \<and>
    (\<forall>evs A grp key v. op = NGet evs A grp key \<longrightarrow> res = Some v \<longrightarrow> Q grp key v)"
proof (cases op)
  case (NGet evs A grp key)
  then obtain C' res where "cluster_get M hf txt evs A grp key C = Some (C', res)" "cgood Q C'" "cexps C' = cexps C"
    "\<forall>v. res = Inr v \<longrightarrow> Q grp key v"
    using cluster_get_good [OF C, of evs A grp key hf "txt"] ok by blast
  then show ?thesis using NGet by (auto split: sum.splits)
next
  case (NSet ev A grp key v)
  then obtain C' err where "cluster_set M hf ev A grp key v C = Some (C', err)" "cgood Q C'" "cexps C' = cexps C"
    using cluster_set_good [OF C, of ev A grp key v hf] ok by blast
  then show ?thesis using NSet by simp
next
  case (NDelete ev A grp key)
  obtain C' err where "cluster_delete M hf ev A grp key C = Some (C', err)" "cgood Q C'" "cexps C' = cexps C"
    using cluster_delete_good [OF C] by blast
  then show ?thesis using NDelete by simp
next
  case (NDeliver ev j)
  then have j: "j < length (syncs C)" using i by simp
  let ?C = "C\<lparr>syncs := remove_nth j (syncs C)\<rparr>"
  have g: "cgood Q ?C" using cluster_goodD [OF C] syncs_good_removed unfolding cluster_good_upd(3) by blast
  have "syncs C ! j \<in> set (syncs C)" using j by simp
  then have m: "syncs_good Q [syncs C ! j]"
    using cluster_goodD(2) [OF C] unfolding syncs_good_def by (metis empty_iff empty_set set_ConsD)
  have "reg_times ev (cexps ?C B)" for B using ok NDeliver by (simp add: cluster_good_upd(6))
  from deliver_good [OF g this m] obtain C' where "deliver M ev (syncs C ! j) ?C = Some C'" "cgood Q C'" "cexps C' = cexps ?C" by blast
  then show ?thesis using NDeliver j by (simp add: cluster_good_upd(6))
next
  case (NLose j)
  have "cgood Q (C\<lparr>syncs := remove_nth j (syncs C)\<rparr>)"
    using cluster_goodD [OF C] syncs_good_removed unfolding cluster_good_upd(3) by blast
  then show ?thesis using NLose by (simp add: cluster_good_upd(6))
next
  case (NUp B b)
  then show ?thesis using C by (simp add: cluster_good_def cexps_def fun_eq_iff)
next
  case (NPeers A q)
  then show ?thesis using C by (auto simp: cluster_good_def cexps_def fun_eq_iff)
qed

lemma deliver_index: "cluster_step M hf txt (NDeliver ev i) C = Some r \<Longrightarrow> i < length (syncs C)"
  by (simp split: if_splits)

lemma cluster_run_good:
  "cgood Q C \<Longrightarrow> \<forall>op \<in> set ops. op_ok Q (cexps C) op \<Longrightarrow> cluster_run M hf txt ops C = Some (C', answers) \<Longrightarrow>
    cgood Q C' \<and> (\<forall>evs A grp key v. (NGet evs A grp key, Some v) \<in> set answers \<longrightarrow> Q grp key v)"
proof (induction ops arbitrary: C answers)
  case (Cons op ops)
  obtain C1 res rest where s: "cluster_step M hf txt op C = Some (C1, res)" "cluster_run M hf txt ops C1 = Some (C', rest)"
    "answers = (op, res) # rest"
    using Cons.prems(3) by (auto split: Option.bind_splits)
  have ok: "op_ok Q (cexps C) op" using Cons.prems(2) by simp
  have ix: "\<forall>ev i. op = NDeliver ev i \<longrightarrow> i < length (syncs C)" using deliver_index s(1) by blast
  obtain C2 res2 where g: "cluster_step M hf txt op C = Some (C2, res2)" "cgood Q C2" "cexps C2 = cexps C"
    "\<forall>evs A grp key v. op = NGet evs A grp key \<longrightarrow> res2 = Some v \<longrightarrow> Q grp key v"
    using cluster_step_good [OF Cons.prems(1) ok ix] by blast
  have eqs: "C2 = C1" "res2 = res" using g(1) s(1) by simp_all
  show ?case using Cons.IH [of C1 rest] Cons.prems(2) g s(2,3) unfolding eqs by auto
qed simp

subsection \<open>Reads go to the owner\<close>

lemma server_get_result:
  assumes r: "rgood Q r" and t: "reg_times ev (exps r)" and p: "groups r grp = Some p"
  shows "\<exists>r'. Server_Get M ev r grp key =
    Some (r', map_sum GroupError id (get_result (gcontents (objs r ! p)) (ev\<lparr>isPeerRequest := True\<rparr>) (objs r ! p) key))"
proof -
  note E = reg_good_entry [OF r p]
  let ?g = "(objs r ! p)\<lparr>stats := (stats (objs r ! p))\<lparr>serverRequests := serverRequests (stats (objs r ! p)) + 1\<rparr>\<rparr>"
  have g: "gwf ?g" "env_ok (ev\<lparr>isPeerRequest := True\<rparr>) ?g"
    using E reg_times_env [of "ev\<lparr>isPeerRequest := True\<rparr>" "exps r" ?g] t by (auto simp: group_good_def)
  obtain g' where "Group_Get M (ev\<lparr>isPeerRequest := True\<rparr>) ?g key = Some (g', get_result (gcontents ?g) (ev\<lparr>isPeerRequest := True\<rparr>) ?g key)"
    using group_get_ok [OF g, of key] by blast
  moreover have "get_result (gcontents ?g) (ev\<lparr>isPeerRequest := True\<rparr>) ?g key =
      get_result (gcontents (objs r ! p)) (ev\<lparr>isPeerRequest := True\<rparr>) (objs r ! p) key"
    by (simp add: get_result_def split: option.split)
  ultimately show ?thesis using p by (auto simp: Server_Get_def GetGroup_def Let_def map_sum_def split: sum.splits)
qed

lemma cluster_get_owner:
  assumes C: "cgood Q C" and t: "\<And>B. reg_times (evs B) (cexps C B)"
    and p: "groups (nreg (cnodes C A)) grp = Some p" and q: "groups (nreg (cnodes C B)) grp = Some q" and u: "up C B"
    and miss: "unexpired (evs A) (gcontents (objs (nreg (cnodes C A)) ! p)) key = None" and k: "key \<noteq> []"
    and I: "picker_inv (npick (cnodes C A))" and o: "owner hf (consHash (npick (cnodes C A))) key = B" "B \<noteq> selfAddr (npick (cnodes C A))"
  shows "\<exists>C'. cluster_get M hf txt evs A grp key C = Some (C',
    case get_result (gcontents (objs (nreg (cnodes C B)) ! q)) ((evs B)\<lparr>isPeerRequest := True\<rparr>) (objs (nreg (cnodes C B)) ! q) key of
      Inr v \<Rightarrow> Inr v
    | Inl _ \<Rightarrow> map_sum GroupError id (sf_Do (getter (evs A) key)))"
proof -
  let ?r = "nreg (cnodes C A)" and ?ev = "node_env M txt evs C A" and ?gB = "objs (nreg (cnodes C B)) ! q"
  let ?g = "(objs ?r ! p)\<lparr>gpeers := Some (picked hf C A)\<rparr>"
  let ?b = "get_result (gcontents ?gB) ((evs B)\<lparr>isPeerRequest := True\<rparr>) ?gB key"
  note R = cluster_goodD(1) [OF C, of A]
  note E = reg_good_entry [OF R p]
  have W: "gwf ?g" using E by (auto simp: group_good_def group_wf_def)
  have e: "env_ok ?ev ?g" using E t [of A] reg_times_env [of ?ev "exps ?r" ?g] by (simp add: node_env_def cexps_def)
  have nm: "gname ?g = grp" "\<not> gclosed ?g" using E R reg_entry [of ?r grp p] p by (auto simp: reg_good_def)
  have pk: "picked hf C A key = (Some B, True, False)"
    using PickPeer_ok [OF I k, of hf] o by (auto simp: picked_def)
  obtain r' where "Server_Get M (evs B) (nreg (cnodes C B)) grp key = Some (r', map_sum GroupError id ?b)"
    using server_get_result [OF cluster_goodD(1) [OF C] _ q, of "evs B" key] t unfolding cexps_def by blast
  then have "fetch ?ev ?g key = (case ?b of Inr v \<Rightarrow> Ret v | Inl _ \<Rightarrow> getter (evs A) key)"
    using pk nm(1) u by (cases ?b) (auto simp: fetch_def node_env_def Client_Get_def rpc_get_def)
  moreover have "unexpired ?ev (gcontents ?g) key = None"
    using miss by (auto simp: unexpired_def node_env_def group_contents_def split: option.splits prod.splits if_splits)
  ultimately have "get_result (gcontents ?g) ?ev ?g key = (case ?b of Inr v \<Rightarrow> Inr v | Inl _ \<Rightarrow> sf_Do (getter (evs A) key))"
    using nm(2) k by (cases ?b) (simp_all add: get_result_def)
  then obtain g' where "Group_Get M ?ev ?g key = Some (g', case ?b of Inr v \<Rightarrow> Inr v | Inl _ \<Rightarrow> sf_Do (getter (evs A) key))"
    using group_get_ok [OF W e, of key] by metis
  then show ?thesis using p unfolding cluster_get_def GetGroup_def Let_def
    by (simp only: option.case Option.bind.simps prod.case) (auto split: sum.splits)
qed

end

end
