(* ===== verification/Node_Properties.thy ===== *)
theory Node_Properties
  imports Cache_Properties Cluster_Properties Cache_Cluster_Correct
begin

text \<open>The properties of several \<open>swifty_cache\<close> nodes together.\<close>

text \<open>C29. In a cluster of nodes that read through each other, whatever the order of reads, writes, deletions, delayed,
  reordered or lost messages, changes of the membership and failures: every value that a read answers was
  returned by a loader for that group and key or set by a client for it, and nodes hold no other value.\<close>

theorem cluster_provenance:
  assumes "cluster_good (store_inv bv_len) good_options store_view Q C"
    and "\<forall>op \<in> set ops. op_ok Q (cexps C) op" "cluster_run lru_methods hf txt ops C = Some (C', answers)"
  shows "cluster_good (store_inv bv_len) good_options store_view Q C' \<and>
    (\<forall>evs A grp key v. (NGet evs A grp key, Some v) \<in> set answers \<longrightarrow> Q grp key v)"
  using assms by (rule lru.cluster_run_good)

definition node_picker :: "string \<Rightarrow> string \<Rightarrow> ClientPicker" where
  "node_picker self peer = picker_set demo_hash 1 (\<lambda>_. True) (NewClientPicker demo_hash 1 self ''s'') peer"

definition demo_registry :: "bytes lruStore Registry" where
  "demo_registry = \<lparr>groups = [''g'' \<mapsto> 0], objs = [NewGroup ''g'' small_options 100 None]\<rparr>"

definition demo_cluster :: "bytes lruStore cluster" where
  "demo_cluster = \<lparr>cnodes = (\<lambda>A. \<lparr>nreg = demo_registry,
       npick = (if A = ''a'' then node_picker ''a'' ''b'' else node_picker ''b'' ''a'')\<rparr>),
     up = (\<lambda>_. True), syncs = []\<rparr>"

definition demo_envs :: "string \<Rightarrow> env" where
  "demo_envs A = \<lparr>getter = (\<lambda>k. Ret [if A = ''b'' then 2 else 1]), peer_get = (\<lambda>p g k. Inl ''''), clock = 10, wall = 10,
     wall_later = 11, isPeerRequest = False, took = 5\<rparr>"

lemma demo_cluster_good: "cluster_good (store_inv bv_len) good_options store_view Q demo_cluster"
  by (simp add: cluster_good_def reg_good_def reg_inv_def demo_cluster_def demo_registry_def group_good_def group_wf_def NewGroup_def
      NewCache_def cache_wf_def good_options_def small_options_def group_contents_def cache_contents_def)

lemma demo_times: "reg_times (demo_envs A) (cexps demo_cluster B)"
  by (simp add: reg_times_def cexps_def exps_def demo_cluster_def demo_registry_def NewGroup_def demo_envs_def time_Until_def maxInt64_def)

lemma demo_pick:
  "picker_inv (npick (cnodes demo_cluster ''a''))" "owner demo_hash (consHash (npick (cnodes demo_cluster ''a''))) ''bkey'' = ''b''"
  "selfAddr (npick (cnodes demo_cluster ''a'')) = ''a''"
proof -
  let ?p = "NewClientPicker demo_hash 1 ''a'' ''s''"
  have I: "picker_inv ?p" by (rule picker_new) auto
  have f: "selfAddr ?p = ''a''" "members ?p = {}" by (simp_all add: NewClientPicker_def members_def)
  note S = picker_set_inv [OF I, of "''b''" demo_hash 1 "\<lambda>_. True"]
  show p: "picker_inv (npick (cnodes demo_cluster ''a''))" "selfAddr (npick (cnodes demo_cluster ''a'')) = ''a''"
    using S f by (simp_all add: demo_cluster_def node_picker_def)
  let ?m = "consHash (npick (cnodes demo_cluster ''a''))"
  have m: "keys ?m = [97, 98]" "ringMap ?m 98 = Some ''b''"
    by (simp_all add: demo_cluster_def node_picker_def picker_set_def NewClientPicker_def ring_Add_def NewConsistentHash_def
        addNodeLocked_def demo_position)
  have "{k \<in> {97, 98 :: int}. 98 \<le> k} = {98}" by auto
  then have "successor {97, 98} 98 = 98" by (simp add: successor_def)
  moreover have "uint (demo_hash ''bkey'') = 98" by (simp add: demo_hash_def)
  moreover have "ring_inv ?m" using p(1) by (simp add: picker_inv_def)
  ultimately show "owner demo_hash ?m ''bkey'' = ''b''"
    using ring_Get_owner(1) [of ?m "''bkey''" demo_hash] m by simp
qed

text \<open>C30. A read at one node of a key that another node owns and that is not cached locally is answered by the owner,
  from the owner's cache or by the owner's loader; only when the owner cannot answer is the local loader
  asked.\<close>

theorem cluster_get_from_owner:
  assumes "cluster_good (store_inv bv_len) good_options store_view Q C" "\<And>B. reg_times (evs B) (cexps C B)"
    and "groups (nreg (cnodes C A)) grp = Some p" "groups (nreg (cnodes C B)) grp = Some q" "up C B"
    and "unexpired (evs A) (group_contents store_view (objs (nreg (cnodes C A)) ! p)) key = None" "key \<noteq> []"
    and "picker_inv (npick (cnodes C A))" "owner hf (consHash (npick (cnodes C A))) key = B" "B \<noteq> selfAddr (npick (cnodes C A))"
  shows "\<exists>C'. cluster_get lru_methods hf txt evs A grp key C = Some (C',
    case get_result (group_contents store_view (objs (nreg (cnodes C B)) ! q)) ((evs B)\<lparr>isPeerRequest := True\<rparr>)
        (objs (nreg (cnodes C B)) ! q) key of
      Inr v \<Rightarrow> Inr v
    | Inl _ \<Rightarrow> map_sum GroupError id (sf_Do (getter (evs A) key)))"
  using assms by (rule lru.cluster_get_owner)

lemma demo_fields:
  "groups (nreg (cnodes demo_cluster A)) ''g'' = Some 0" "up demo_cluster A"
  "unexpired ev (group_contents store_view (objs (nreg (cnodes demo_cluster A)) ! 0)) key = None"
  "get_result (group_contents store_view (objs (nreg (cnodes demo_cluster A)) ! 0)) ((demo_envs A)\<lparr>isPeerRequest := True\<rparr>)
      (objs (nreg (cnodes demo_cluster A)) ! 0) ''bkey'' = Inr [if A = ''b'' then 2 else 1]"
  by (simp_all add: demo_cluster_def demo_registry_def unexpired_def group_contents_def cache_contents_def NewGroup_def NewCache_def
      get_result_def fetch_def demo_envs_def)

theorem cluster_get_from_owner_witness:
  "\<exists>C'. cluster_get lru_methods demo_hash (\<lambda>_. ''error'') demo_envs ''a'' ''g'' ''bkey'' demo_cluster = Some (C', Inr [2])"
  using cluster_get_from_owner [where A = "''a''" and B = "''b''" and evs = demo_envs, OF demo_cluster_good demo_times demo_fields(1) demo_fields(1,2,3) _ demo_pick(1,2)]
    demo_pick(3) demo_fields(4) [of "''b''"]
  by auto

theorem cluster_provenance_witness:
  "\<exists>C' v. cluster_run lru_methods demo_hash (\<lambda>_. ''error'') [NGet demo_envs ''a'' ''g'' ''bkey''] demo_cluster =
      Some (C', [(NGet demo_envs ''a'' ''g'' ''bkey'', Some v)]) \<and> v \<in> {[1], [2]}"
proof -
  let ?Q = "\<lambda>grp key v. v \<in> {[1], [2 :: 8 word]}" and ?op = "NGet demo_envs ''a'' ''g'' ''bkey''"
  obtain C' where "cluster_get lru_methods demo_hash (\<lambda>_. ''error'') demo_envs ''a'' ''g'' ''bkey'' demo_cluster = Some (C', Inr [2])"
    using lru.cluster_get_owner [where A = "''a''" and B = "''b''" and evs = demo_envs, OF demo_cluster_good demo_times demo_fields(1) demo_fields(1,2,3) _ demo_pick(1,2)]
      demo_pick(3) demo_fields(4) [of "''b''"] by auto
  then have r: "cluster_run lru_methods demo_hash (\<lambda>_. ''error'') [?op] demo_cluster = Some (C', [(?op, Some [2])])" by simp
  have ok: "\<forall>op \<in> set [?op]. op_ok ?Q (cexps demo_cluster) op" using demo_times by (auto simp: demo_envs_def)
  have "?Q ''g'' ''bkey'' [2]" using cluster_provenance [OF demo_cluster_good ok r] by auto
  then show ?thesis using r by blast
qed

end
