(* ===== verification/Cache_Discovery.thy ===== *)
theory Cache_Discovery
  imports Peers Etcd_Client
begin

text \<open>
  How a cache node finds the others: registration under a lease (\<open>swifty_cache/register.go\<close>), and the goroutine
  that keeps the picker in step with etcd (\<open>watchServiceChanges\<close> and \<open>watchOnce\<close> of \<open>peers.go\<close>). etcd is a
  parameter: a record of the calls that are made on it, or, for the watch, its answers.
\<close>

subsection \<open>Registration\<close>

text \<open>An address of the machine: whether it is an \<open>IPNet\<close>, whether loopback, the text of an IPv4 address.\<close>

record iface =
  isIPNet :: bool
  isLoopback :: bool
  to4 :: "string option"

fun first_ipv4 :: "iface list \<Rightarrow> string + string" where
  "first_ipv4 [] = Inl ''no valid local IP found''"
| "first_ipv4 (a # as) =
    (if isIPNet a \<and> \<not> isLoopback a then (case to4 a of Some ip \<Rightarrow> Inr ip | None \<Rightarrow> first_ipv4 as) else first_ipv4 as)"

definition getLocalIP :: "string + iface list \<Rightarrow> string + string" where
  "getLocalIP addrs = (case addrs of Inl err \<Rightarrow> Inl err | Inr as \<Rightarrow> first_ipv4 as)"

definition reg_key :: "string \<Rightarrow> string \<Rightarrow> string" where
  "reg_key svc addr = ''/services/'' @ svc @ ''/'' @ addr"

definition registerLease :: "'w Etcd \<Rightarrow> string \<Rightarrow> string \<Rightarrow> 'w \<Rightarrow> 'w \<times> (string + int)" where
  "registerLease E svc addr w = (case eGrant E 10 w of
      (w, Inl err) \<Rightarrow> (w, Inl (''failed to create lease: '' @ err))
    | (w, Inr lease) \<Rightarrow> (case ePut E (reg_key svc addr) addr lease w of
        (w, Some err) \<Rightarrow> (w, Inl (''failed to put key-value to etcd: '' @ err))
      | (w, None) \<Rightarrow> (case eKeepAlive E lease w of
          (w, Some err) \<Rightarrow> (w, Inl (''failed to keep lease alive: '' @ err))
        | (w, None) \<Rightarrow> (w, Inr lease))))"

definition second :: int where
  "second = 1000000000"

text \<open>
  The loop of \<open>reRegister\<close>. Each element of the list is one \<open>select\<close>: whether \<open>stopCh\<close> was chosen; at the end of
  the list the function still waits. The result has the durations that were waited for.
\<close>

fun reRegister_loop :: "'w Etcd \<Rightarrow> string \<Rightarrow> string \<Rightarrow> int \<Rightarrow> bool list \<Rightarrow> 'w \<Rightarrow> 'w \<times> int list \<times> (string + int) option" where
  "reRegister_loop E svc addr backoff [] w = (w, [], None)"
| "reRegister_loop E svc addr backoff (stop # stops) w =
    (if stop then (w, [], Some (Inl ''registration stopped''))
     else case registerLease E svc addr w of
       (w, Inr lease) \<Rightarrow> (w, [backoff], Some (Inr lease))
     | (w, Inl _) \<Rightarrow>
         (let backoff' = (if backoff < 30 * second then backoff * 2 else backoff);
            (w, waits, res) = reRegister_loop E svc addr backoff' stops w
          in (w, backoff # waits, res)))"

definition reRegister :: "'w Etcd \<Rightarrow> string \<Rightarrow> string \<Rightarrow> bool list \<Rightarrow> 'w \<Rightarrow> 'w \<times> int list \<times> (string + int) option" where
  "reRegister E svc addr = reRegister_loop E svc addr second"

text \<open>The goroutine that holds the lease: what its \<open>select\<close> chooses, and where it is at the end of the list.\<close>

datatype reg_event = StopRequested | LeaseKept | KeepAliveClosed "bool list"

datatype reg_state = Holding int | ReRegistering | Ended

fun hold_lease :: "'w Etcd \<Rightarrow> string \<Rightarrow> string \<Rightarrow> int \<Rightarrow> reg_event list \<Rightarrow> 'w \<Rightarrow> 'w \<times> reg_state" where
  "hold_lease E svc addr lease [] w = (w, Holding lease)"
| "hold_lease E svc addr lease (StopRequested # evs) w = (eClose E (eRevoke E lease w), Ended)"
| "hold_lease E svc addr lease (LeaseKept # evs) w = hold_lease E svc addr lease evs w"
| "hold_lease E svc addr lease (KeepAliveClosed stops # evs) w =
    (case reRegister E svc addr stops w of
      (w, _, None) \<Rightarrow> (w, ReRegistering)
    | (w, _, Some (Inl _)) \<Rightarrow> (eClose E w, Ended)
    | (w, _, Some (Inr lease)) \<Rightarrow> hold_lease E svc addr lease evs w)"

text \<open>The result is an error, or the address and the lease of the goroutine that was started.\<close>

definition registerWithConfig :: "'w Etcd \<Rightarrow> string + iface list \<Rightarrow> string \<Rightarrow> string \<Rightarrow> 'w \<Rightarrow> 'w \<times> (string + string \<times> int)" where
  "registerWithConfig E addrs svc addr w =
    (if addr = [] then (w, Inl ''empty address'')
     else case eNew E w of
       (w, Some err) \<Rightarrow> (w, Inl (''failed to create etcd client: '' @ err))
     | (w, None) \<Rightarrow>
         (case (if hd addr = CHR '':'' then map_sum (\<lambda>err. ''failed to get local IP: '' @ err) (\<lambda>ip. ip @ addr) (getLocalIP addrs)
                else Inr addr) of
           Inl err \<Rightarrow> (eClose E w, Inl err)
         | Inr addr \<Rightarrow> (case registerLease E svc addr w of
             (w, Inl err) \<Rightarrow> (eClose E w, Inl err)
           | (w, Inr lease) \<Rightarrow> (w, Inr (addr, lease)))))"

text \<open>The waits double from one second to 32 and stay there.\<close>

lemma reRegister_waits:
  "reRegister_loop E svc addr (min (2 ^ j) 32 * second) stops w = (w', waits, res) \<Longrightarrow>
    (\<forall>i < length waits. waits ! i = min (2 ^ (j + i)) 32 * second) \<and>
    length waits \<le> length stops \<and> (res = None \<longrightarrow> length waits = length stops)"
proof (induction stops arbitrary: j w waits w' res)
  case (Cons stop stops)
  have dbl: "(if min (2 ^ j) 32 * second < 30 * second then min (2 ^ j) 32 * second * 2 else min (2 ^ j) 32 * second) =
    min (2 ^ (Suc j)) 32 * second"
  proof (cases "j < 5")
    case True
    then have "j = 0 \<or> j = 1 \<or> j = 2 \<or> j = 3 \<or> j = 4" by auto
    then show ?thesis by (auto simp: second_def)
  next
    case False
    then have "(2::int) ^ 5 \<le> 2 ^ j" by (intro power_increasing) auto
    then show ?thesis by (simp add: second_def)
  qed
  show ?case
  proof (cases "stop \<or> (\<exists>w1 lease. registerLease E svc addr w = (w1, Inr lease))")
    case True
    then show ?thesis using Cons.prems by (auto split: if_splits)
  next
    case False
    then obtain w1 err where r: "registerLease E svc addr w = (w1, Inl err)" "\<not> stop" by (metis surj_pair sumE)
    obtain w2 ws res2 where n: "reRegister_loop E svc addr (min (2 ^ Suc j) 32 * second) stops w1 = (w2, ws, res2)"
      by (metis prod_cases3)
    have e: "waits = min (2 ^ j) 32 * second # ws" "res = res2" "w' = w2"
      using Cons.prems r n unfolding reRegister_loop.simps dbl by (simp_all add: Let_def)
    show ?thesis using Cons.IH [OF n] unfolding e by (auto simp: nth_Cons split: nat.split)
  qed
qed simp

lemma reRegister_stops: "True \<in> set stops \<Longrightarrow> reRegister_loop E svc addr b stops w = (w', waits, res) \<Longrightarrow> res \<noteq> None"
  by (induction stops arbitrary: b w waits) (auto simp: Let_def split: if_splits prod.splits sum.splits)

lemma hold_lease_append:
  "hold_lease E svc addr lease (evs @ evs') w =
    (case hold_lease E svc addr lease evs w of (w', Holding l) \<Rightarrow> hold_lease E svc addr l evs' w' | r \<Rightarrow> r)"
proof (induction E svc addr lease evs w rule: hold_lease.induct)
  case (4 E svc addr lease stops evs w)
  obtain w1 ws res where r: "reRegister E svc addr stops w = (w1, ws, res)" by (metis prod_cases3)
  show ?case
  proof (cases res)
    case (Some out)
    then show ?thesis using r 4 by (cases out) auto
  qed (simp add: r)
qed simp_all

lemma registerLease_held:
  assumes "etcd_ok E held" "registerLease E svc addr w = (w', Inr lease)"
  shows "held w' (reg_key svc addr) = Some lease"
proof -
  obtain w1 where g: "eGrant E 10 w = (w1, Inr lease)"
    using assms(2) by (auto simp: registerLease_def split: prod.splits sum.splits option.splits)
  obtain w2 where p: "ePut E (reg_key svc addr) addr lease w1 = (w2, None)" and k: "eKeepAlive E lease w2 = (w', None)"
    using assms(2) g by (auto simp: registerLease_def split: prod.splits option.splits)
  have "held w2 (reg_key svc addr) = Some lease" using assms(1) p unfolding etcd_ok_def by blast
  moreover have "held w' = held w2" using assms(1) k unfolding etcd_ok_def by (metis fst_conv)
  ultimately show ?thesis by simp
qed

lemma reRegister_held:
  assumes "etcd_ok E held"
  shows "reRegister_loop E svc addr b stops w = (w', waits, Some (Inr lease)) \<Longrightarrow> held w' (reg_key svc addr) = Some lease"
  by (induction stops arbitrary: b w waits)
    (auto simp: Let_def split: if_splits prod.splits sum.splits dest: registerLease_held [OF assms])

lemma hold_lease_held:
  assumes "etcd_ok E held"
  shows "hold_lease E svc addr lease evs w = (w', Holding l) \<Longrightarrow> held w (reg_key svc addr) = Some lease \<Longrightarrow>
    held w' (reg_key svc addr) = Some l"
proof (induction evs arbitrary: lease w)
  case (Cons ev evs)
  show ?case
  proof (cases ev)
    case (KeepAliveClosed stops)
    obtain w1 ws res where r: "reRegister E svc addr stops w = (w1, ws, res)" by (metis prod_cases3)
    obtain l2 where l2: "res = Some (Inr l2)" "hold_lease E svc addr l2 evs w1 = (w', Holding l)"
      using Cons.prems(1) KeepAliveClosed r by (cases res) (auto split: sum.splits)
    have "held w1 (reg_key svc addr) = Some l2"
      using reRegister_held [OF assms] r l2(1) unfolding reRegister_def by blast
    then show ?thesis using Cons.IH [OF l2(2)] by simp
  qed (use Cons in auto)
qed simp

lemma reg_key_read: "addrFromEventKey p (reg_key (svcName p) addr) = addr"
  by (simp add: addrFromEventKey_def reg_key_def servicePrefix_def TrimPrefix_def HasPrefix_def)

subsection \<open>Watching\<close>

text \<open>What a \<open>select\<close> of \<open>watchOnce\<close> gets: the context is done, the channel is closed or the watch cancelled, an
  error, or events. The result says whether the picker is closing; \<open>None\<close> is that it still waits.\<close>

datatype watch_resp = WDone | WBroken | WErr | WEvents "(event_type \<times> string) list"

fun watchOnce :: "(string \<Rightarrow> 32 word) \<Rightarrow> nat \<Rightarrow> (string \<Rightarrow> bool) \<Rightarrow> watch_resp list \<Rightarrow> ClientPicker \<Rightarrow> ClientPicker \<times> bool option" where
  "watchOnce hf r dial [] p = (p, None)"
| "watchOnce hf r dial (WDone # rs) p = (p, Some True)"
| "watchOnce hf r dial (WBroken # rs) p = (p, Some False)"
| "watchOnce hf r dial (WErr # rs) p = (p, Some False)"
| "watchOnce hf r dial (WEvents evs # rs) p = watchOnce hf r dial rs (fst (handleWatchEvents hf r dial evs p []))"

definition watchRev :: "int \<Rightarrow> int option" where
  "watchRev fromRev = (if fromRev > 0 then Some (fromRev + 1) else None)"

text \<open>
  A round of \<open>watchServiceChanges\<close>: what \<open>Get\<close> answers (keys and revision), what the watch from a revision
  delivers, and whether the \<open>select\<close> after it finds the context done.
\<close>

record round =
  rd_get :: "string + (string list \<times> int)"
  rd_watch :: "int option \<Rightarrow> watch_resp list"
  rd_done :: bool

definition resync :: "(string \<Rightarrow> 32 word) \<Rightarrow> nat \<Rightarrow> (string \<Rightarrow> bool) \<Rightarrow> (string list \<Rightarrow> string list)
    \<Rightarrow> string + (string list \<times> int) \<Rightarrow> ClientPicker \<Rightarrow> ClientPicker \<times> int" where
  "resync hf r dial ord resp p = (case resp of
      Inl _ \<Rightarrow> (p, 0)
    | Inr (kvs, revn) \<Rightarrow> (fst (fetchAllServices hf r dial ord kvs p), revn))"

definition watch_round :: "(string \<Rightarrow> 32 word) \<Rightarrow> nat \<Rightarrow> (string \<Rightarrow> bool) \<Rightarrow> (string list \<Rightarrow> string list)
    \<Rightarrow> round \<Rightarrow> ClientPicker \<Rightarrow> ClientPicker \<times> bool option" where
  "watch_round hf r dial ord rd p =
    (let (p, revn) = resync hf r dial ord (rd_get rd) p in watchOnce hf r dial (rd_watch rd (watchRev revn)) p)"

text \<open>The flag says that the goroutine has returned.\<close>

fun watchServiceChanges :: "(string \<Rightarrow> 32 word) \<Rightarrow> nat \<Rightarrow> (string \<Rightarrow> bool) \<Rightarrow> (string list \<Rightarrow> string list)
    \<Rightarrow> round list \<Rightarrow> ClientPicker \<Rightarrow> ClientPicker \<times> bool" where
  "watchServiceChanges hf r dial ord [] p = (p, False)"
| "watchServiceChanges hf r dial ord (rd # rds) p =
    (case watch_round hf r dial ord rd p of
      (p, Some True) \<Rightarrow> (p, True)
    | (p, None) \<Rightarrow> (p, False)
    | (p, Some False) \<Rightarrow> if rd_done rd then (p, True) else watchServiceChanges hf r dial ord rds p)"

text \<open>
  \<open>NewClientPicker\<close> with its first fetch: the options set the service name, an address that is only a port gets the
  local IP.
\<close>

definition start_picker :: "(string \<Rightarrow> 32 word) \<Rightarrow> nat \<Rightarrow> (string \<Rightarrow> bool) \<Rightarrow> (string list \<Rightarrow> string list)
    \<Rightarrow> string + iface list \<Rightarrow> string option \<Rightarrow> string + (string list \<times> int) \<Rightarrow> string \<Rightarrow> string list \<Rightarrow> string + ClientPicker" where
  "start_picker hf r dial ord addrs etcd_err resp addr names =
    (case (if HasPrefix addr '':'' then map_sum (\<lambda>err. ''failed to resolve self address: '' @ err) (\<lambda>ip. ip @ addr) (getLocalIP addrs)
           else Inr addr) of
      Inl err \<Rightarrow> Inl err
    | Inr addr \<Rightarrow> (case etcd_err of
        Some err \<Rightarrow> Inl (''failed to create etcd client: '' @ err)
      | None \<Rightarrow>
          (let p = NewClientPicker hf r addr (last (''swifty_cache'' # names)) in
           case resp of
             Inl err \<Rightarrow> Inl (''failed to get all services: '' @ err)
           | Inr (kvs, _) \<Rightarrow> Inr (fst (fetchAllServices hf r dial ord kvs p)))))"

text \<open>\<open>Close\<close>: the errors of the clients, in the order of the range statement, then that of the etcd client.\<close>

definition picker_Close :: "(string list \<Rightarrow> string list) \<Rightarrow> (string \<Rightarrow> string option) \<Rightarrow> string option \<Rightarrow> ClientPicker \<Rightarrow> string list" where
  "picker_Close ord closeErr etcdErr p =
    List.map_filter (\<lambda>addr. map_option (\<lambda>err. ''failed to close client '' @ addr @ '': '' @ err) (closeErr addr))
      (ord (map fst (clients p))) @
    (case etcdErr of None \<Rightarrow> [] | Some err \<Rightarrow> [''failed to close etcd client: '' @ err])"

subsection \<open>The picker and the history of the registry\<close>

text \<open>
  The history of etcd: the events of every revision after the first. \<open>present\<close> are the keys after some events, and
  \<open>registered\<close> the addresses of the peers among them.
\<close>

fun present :: "(event_type \<times> string) list \<Rightarrow> string set \<Rightarrow> string set" where
  "present [] S = S"
| "present ((EventTypePut, key) # evs) S = present evs (insert key S)"
| "present ((EventTypeDelete, key) # evs) S = present evs (S - {key})"

definition keys_at :: "(event_type \<times> string) list list \<Rightarrow> nat \<Rightarrow> string set" where
  "keys_at H m = present (concat (take m H)) {}"

definition registered :: "ClientPicker \<Rightarrow> string set \<Rightarrow> string set" where
  "registered p K = {a. a \<noteq> [] \<and> a \<noteq> selfAddr p \<and> servicePrefix p @ a \<in> K}"

fun delivered :: "watch_resp list \<Rightarrow> (event_type \<times> string) list" where
  "delivered (WEvents evs # rs) = evs @ delivered rs"
| "delivered _ = []"

text \<open>
  What is used of etcd: \<open>Get\<close> with a prefix answers with the keys of one revision, and a watch from a revision
  delivers the events of the prefix from there on without gaps, whole revisions at a time.
\<close>

definition etcd_round_ok :: "string \<Rightarrow> (event_type \<times> string) list list \<Rightarrow> round \<Rightarrow> bool" where
  "etcd_round_ok pre H rd \<longleftrightarrow>
    (\<forall>kvs revn. rd_get rd = Inr (kvs, revn) \<longrightarrow> 1 \<le> revn \<and> nat revn - 1 \<le> length H \<and>
      set kvs = {k \<in> keys_at H (nat revn - 1). HasPrefix k pre}) \<and>
    (\<forall>s > 1. \<exists>n. delivered (rd_watch rd (Some s)) =
      filter (\<lambda>(ty, key). HasPrefix key pre) (concat (take n (drop (nat s - 2) H))))"

lemma present_append: "present (xs @ ys) S = present ys (present xs S)"
  by (induction xs S rule: present.induct) simp_all

lemma members_after_append: "members_after dial self (xs @ ys) S = members_after dial self ys (members_after dial self xs S)"
  by (induction dial self xs S rule: members_after.induct) (simp_all add: Let_def)

lemma trim_prefixed: "HasPrefix key (servicePrefix p) \<Longrightarrow> servicePrefix p @ addrFromEventKey p key = key"
  by (metis HasPrefix_def TrimPrefix_def addrFromEventKey_def append_take_drop_id)

lemma trim_prefix_append [simp]: "addrFromEventKey p (servicePrefix p @ a) = a"
  by (simp add: addrFromEventKey_def TrimPrefix_def HasPrefix_def)

lemma members_registered:
  "\<forall>(ty, key) \<in> set evs. HasPrefix key (servicePrefix p) \<Longrightarrow>
    members_after (\<lambda>_. True) (selfAddr p) (map (\<lambda>(ty, k). (ty, addrFromEventKey p k)) evs) (registered p K) =
    registered p (present evs K)"
proof (induction evs arbitrary: K)
  case (Cons ev evs)
  obtain ty key where ev: "ev = (ty, key)" by (cases ev)
  then have "HasPrefix key (servicePrefix p)" using Cons.prems by simp
  then obtain a where key: "key = servicePrefix p @ a" using trim_prefixed [of key p] by metis
  have put: "registered p (insert key K) = (if a = [] \<or> a = selfAddr p then registered p K else insert a (registered p K))"
    and del: "registered p (K - {key}) = (if a = [] \<or> a = selfAddr p then registered p K else registered p K - {a})"
    unfolding key by (auto simp: registered_def)
  have IH: "members_after (\<lambda>_. True) (selfAddr p) (map (\<lambda>(ty, k). (ty, addrFromEventKey p k)) evs) (registered p K') =
    registered p (present evs K')" for K'
    using Cons by simp
  show ?case
  proof (cases ty)
    case EventTypePut
    then show ?thesis using IH [of "insert key K"] ev put unfolding key by (auto split: if_splits)
  next
    case EventTypeDelete
    then show ?thesis using IH [of "K - {key}"] ev del unfolding key by (auto split: if_splits)
  qed
qed simp

lemma registered_cong: "registered p K = registered p K' \<Longrightarrow>
    registered p (present (filter (\<lambda>(ty, key). HasPrefix key (servicePrefix p)) evs) K) = registered p (present evs K')"
proof (induction evs arbitrary: K K')
  case (Cons ev evs)
  obtain ty key where ev: "ev = (ty, key)" by (cases ev)
  have both: "registered p (insert key K) = registered p (insert key K')" "registered p (K - {key}) = registered p (K' - {key})"
    using Cons.prems by (auto simp: registered_def)
  have none: "registered p (insert key K') = registered p K'" "registered p (K' - {key}) = registered p K'"
    if "\<not> HasPrefix key (servicePrefix p)"
    using that by (auto simp: registered_def HasPrefix_def)
  show ?case
  proof (cases "HasPrefix key (servicePrefix p)")
    case True
    then show ?thesis using Cons.IH [OF both(1)] Cons.IH [OF both(2)] ev by (cases ty) simp_all
  next
    case False
    then have "registered p K = registered p (insert key K')" "registered p K = registered p (K' - {key})"
      using none Cons.prems by simp_all
    then show ?thesis using Cons.IH [of K "insert key K'"] Cons.IH [of K "K' - {key}"] False ev by (cases ty) simp_all
  qed
qed simp

lemma snapshot_registered:
  "addrFromEventKey p ` {k \<in> K. HasPrefix k (servicePrefix p)} - {[], selfAddr p} = registered p K"
proof (intro set_eqI iffI)
  fix a
  assume "a \<in> addrFromEventKey p ` {k \<in> K. HasPrefix k (servicePrefix p)} - {[], selfAddr p}"
  then obtain k where k: "k \<in> K" "HasPrefix k (servicePrefix p)" "a = addrFromEventKey p k" "a \<noteq> []" "a \<noteq> selfAddr p"
    by blast
  then show "a \<in> registered p K" using trim_prefixed [OF k(2)] by (simp add: registered_def)
next
  fix a
  assume a: "a \<in> registered p K"
  have "HasPrefix (servicePrefix p @ a) (servicePrefix p)" by (simp add: HasPrefix_def)
  then have "addrFromEventKey p (servicePrefix p @ a) \<in> addrFromEventKey p ` {k \<in> K. HasPrefix k (servicePrefix p)}"
    using a unfolding registered_def by blast
  then show "a \<in> addrFromEventKey p ` {k \<in> K. HasPrefix k (servicePrefix p)} - {[], selfAddr p}"
    using a by (simp add: registered_def)
qed

lemma watchOnce_ok:
  "picker_inv p \<Longrightarrow> watchOnce hf r dial rs p = (p', res) \<Longrightarrow>
    picker_inv p' \<and> selfAddr p' = selfAddr p \<and> svcName p' = svcName p \<and>
    members p' = members_after dial (selfAddr p) (map (\<lambda>(ty, k). (ty, addrFromEventKey p k)) (delivered rs)) (members p)"
proof (induction hf r dial rs p rule: watchOnce.induct)
  case (5 hf r dial evs rs p)
  obtain p1 cl where h: "handleWatchEvents hf r dial evs p [] = (p1, cl)" by fastforce
  note H = handleWatchEvents_ok [OF 5(2) h]
  have "addrFromEventKey p1 = addrFromEventKey p" using H servicePrefix_cong [of p1 p] by simp
  then show ?case using 5(1) 5(3) h H by (simp add: members_after_append)
qed auto

lemma drop_stale_svc: "drop_stale cur addrs p cl = (p', cl') \<Longrightarrow> svcName p' = svcName p"
  by (induction cur addrs p cl rule: drop_stale.induct) (auto simp: picker_remove_def split: if_splits)

lemma fetch_svcName:
  assumes "picker_inv p" "perm_of ord" "fetchAllServices hf r dial ord kvs p = (p', cl)"
  shows "svcName p' = svcName p"
proof -
  obtain p1 cur where d: "discover hf r dial kvs p [] = (p1, cur)" by fastforce
  then show ?thesis using assms(3) discover_ok [OF assms(1) d] drop_stale_svc by (auto simp: fetchAllServices_def)
qed

lemma watch_round_sync:
  assumes I: "picker_inv p" and ord: "perm_of ord" and E: "etcd_round_ok (servicePrefix p) H rd"
    and g: "rd_get rd = Inr (kvs, revn)" and rd: "watch_round hf r (\<lambda>_. True) ord rd p = (p', res)"
  shows "picker_inv p' \<and> selfAddr p' = selfAddr p \<and> svcName p' = svcName p \<and>
    (\<exists>m \<ge> nat revn - 1. members p' = registered p (keys_at H m))"
proof -
  let ?pre = "servicePrefix p" and ?m = "nat revn - 1"
  have rv: "1 \<le> revn" and kvs: "set kvs = {k \<in> keys_at H ?m. HasPrefix k ?pre}"
    using E g unfolding etcd_round_ok_def by blast+
  have after: "revn + 1 > 1" using rv by simp
  obtain n where d: "delivered (rd_watch rd (Some (revn + 1))) =
      filter (\<lambda>(ty, key). HasPrefix key ?pre) (concat (take n (drop (nat (revn + 1) - 2) H)))"
    using E after unfolding etcd_round_ok_def by blast
  have idx: "nat (revn + 1) - 2 = ?m" using rv by simp
  obtain p1 cl where f: "fetchAllServices hf r (\<lambda>_. True) ord kvs p = (p1, cl)" by fastforce
  have F: "picker_inv p1" "selfAddr p1 = selfAddr p" "svcName p1 = svcName p" "members p1 = snapshot p kvs"
    using fetchAllServices_ok [OF I ord, of hf r "\<lambda>_. True" kvs] fetch_svcName [OF I ord f] f by auto
  have sn: "snapshot p kvs = registered p (keys_at H ?m)" unfolding snapshot_def kvs by (rule snapshot_registered)
  have "watchOnce hf r (\<lambda>_. True) (rd_watch rd (Some (revn + 1))) p1 = (p', res)"
    using rd g f rv by (simp add: watch_round_def resync_def watchRev_def)
  note W = watchOnce_ok [OF F(1) this]
  have a: "addrFromEventKey p1 = addrFromEventKey p" using servicePrefix_cong [OF F(3)] .
  have "members p' = members_after (\<lambda>_. True) (selfAddr p) (map (\<lambda>(ty, k). (ty, addrFromEventKey p k))
      (delivered (rd_watch rd (Some (revn + 1))))) (registered p (keys_at H ?m))"
    using W F(2,4) sn a by simp
  also have "\<dots> = registered p (present (delivered (rd_watch rd (Some (revn + 1)))) (keys_at H ?m))"
    by (rule members_registered) (auto simp: d)
  also have "\<dots> = registered p (present (concat (take n (drop ?m H))) (keys_at H ?m))"
    unfolding d idx by (rule registered_cong) simp
  also have "\<dots> = registered p (keys_at H (?m + n))"
    by (simp add: keys_at_def take_add present_append)
  finally show ?thesis using W F(2,3) by (intro conjI exI [of _ "?m + n"]) simp_all
qed

lemma servicePrefix_eq: "selfAddr p' = selfAddr p \<Longrightarrow> svcName p' = svcName p \<Longrightarrow> registered p' = registered p \<and> servicePrefix p' = servicePrefix p"
  by (simp add: registered_def servicePrefix_def fun_eq_iff)

lemma watch_loop_sync:
  "picker_inv p \<Longrightarrow> perm_of ord \<Longrightarrow> rds \<noteq> [] \<Longrightarrow> \<forall>rd \<in> set rds. etcd_round_ok (servicePrefix p) H rd \<and> \<not> isl (rd_get rd) \<Longrightarrow>
    watchServiceChanges hf r (\<lambda>_. True) ord rds p = (p', ret) \<Longrightarrow>
    picker_inv p' \<and> selfAddr p' = selfAddr p \<and>
    (\<exists>rd \<in> set rds. \<exists>m \<ge> nat (snd (projr (rd_get rd))) - 1. members p' = registered p (keys_at H m))"
proof (induction rds arbitrary: p)
  case (Cons rd rds)
  obtain kvs revn where g: "rd_get rd = Inr (kvs, revn)" using Cons.prems(4) by (cases "rd_get rd") auto
  obtain p1 res where w: "watch_round hf r (\<lambda>_. True) ord rd p = (p1, res)" by fastforce
  have E: "etcd_round_ok (servicePrefix p) H rd" using Cons.prems(4) by simp
  note S = watch_round_sync [OF Cons.prems(1,2) E g w]
  note eqs = servicePrefix_eq [of p1 p]
  show ?case
  proof (cases "res = Some False \<and> \<not> rd_done rd \<and> rds \<noteq> []")
    case False
    then have "p' = p1" using Cons.prems(5) w by (auto split: option.splits bool.splits if_splits)
    then show ?thesis using S g by auto
  next
    case True
    then have "watchServiceChanges hf r (\<lambda>_. True) ord rds p1 = (p', ret)" using Cons.prems(5) w by simp
    then show ?thesis using Cons.IH [of p1] Cons.prems(2,4) S eqs True by auto
  qed
qed simp

text \<open>
  When \<open>Get\<close> fails after the watch broke, the watch is started again without a revision, and what happened in
  between is missed: a peer that has left stays a member.
\<close>

lemma failed_resync_misses:
  assumes "rd_get rd = Inl err" "rd_watch rd None = []"
  shows "watchServiceChanges hf r dial ord (rd # rds) p = (p, False)"
  using assms by (simp add: watch_round_def resync_def watchRev_def)

end
