(* ===== verification/Cache_Server.thy ===== *)
theory Cache_Server
  imports Cache_Discovery
begin

text \<open>
  The gRPC server of a cache node (\<open>swifty_cache/server.go\<close>): its options, its construction, \<open>Start\<close> with the
  registration in the background, and \<open>Stop\<close>. The handlers are in \<open>Cache_Group\<close>. gRPC, its health service and
  the network are represented by the fields that say what was done with them.
\<close>

record ServerOptions =
  EtcdEndpoints :: "string list"
  DialTimeout :: int
  MaxMsgSize :: int

definition DefaultServerOptions :: ServerOptions where
  "DefaultServerOptions = \<lparr>EtcdEndpoints = [''localhost:2379''], DialTimeout = 5 * second, MaxMsgSize = 4 * 2 ^ 20\<rparr>"

datatype ServerOption = WithEtcdEndpoints "string list" | WithDialTimeout int

fun apply_server_option :: "ServerOption \<Rightarrow> ServerOptions \<Rightarrow> ServerOptions" where
  "apply_server_option (WithEtcdEndpoints eps) o' = o'\<lparr>EtcdEndpoints := eps\<rparr>"
| "apply_server_option (WithDialTimeout t) o' = o'\<lparr>DialTimeout := t\<rparr>"

datatype health_status = SERVING | NOT_SERVING

record Server =
  srvAddr :: string
  srvName :: string
  srvOpts :: ServerOptions
  health :: "string \<Rightarrow> health_status option"
  stopCh_closed :: bool
  grpc_stopped :: bool
  etcd_closed :: bool
  stop_done :: bool

definition NewCacheServer :: "string option \<Rightarrow> string \<Rightarrow> string \<Rightarrow> ServerOption list \<Rightarrow> string + Server" where
  "NewCacheServer etcd_err addr svc opts =
    (let o' = fold apply_server_option opts DefaultServerOptions in
     case etcd_err of
       Some err \<Rightarrow> Inl (''failed to create etcd client: '' @ err)
     | None \<Rightarrow> Inr \<lparr>srvAddr = addr, srvName = svc, srvOpts = o', health = [svc \<mapsto> SERVING], stopCh_closed = False,
         grpc_stopped = False, etcd_closed = False, stop_done = False\<rparr>)"

text \<open>
  \<open>Start\<close>: an error of \<open>Listen\<close>, or the result of the registration that runs beside \<open>Serve\<close>.
\<close>

definition Start :: "'w Etcd \<Rightarrow> string + iface list \<Rightarrow> string option \<Rightarrow> Server \<Rightarrow> 'w \<Rightarrow> string + 'w \<times> (string + string \<times> int)" where
  "Start E addrs listen_err s w = (case listen_err of
      Some err \<Rightarrow> Inl (''failed to listen: '' @ err)
    | None \<Rightarrow> Inr (registerWithConfig E addrs (srvName s) (srvAddr s) w))"

definition Stop :: "Server \<Rightarrow> Server" where
  "Stop s =
    (if stop_done s then s
     else s\<lparr>stop_done := True, health := (health s)(srvName s \<mapsto> NOT_SERVING), stopCh_closed := True, grpc_stopped := True,
       etcd_closed := True\<rparr>)"

text \<open>What the goroutine of the registration can see: a stop only when the channel is closed.\<close>

definition reg_events_of :: "Server \<Rightarrow> reg_event list \<Rightarrow> bool" where
  "reg_events_of s evs \<longleftrightarrow> (\<forall>ev \<in> set evs. case ev of StopRequested \<Rightarrow> stopCh_closed s | KeepAliveClosed stops \<Rightarrow> True \<in> set stops \<longrightarrow> stopCh_closed s | LeaseKept \<Rightarrow> True)"

lemma Stop_idem: "Stop (Stop s) = Stop s"
  by (simp add: Stop_def)

lemma reRegister_running: "True \<notin> set stops \<Longrightarrow> reRegister_loop E svc addr b stops w = (w', waits, res) \<Longrightarrow> res \<noteq> Some (Inl err)"
  by (induction stops arbitrary: b w waits) (auto simp: Let_def split: if_splits prod.splits sum.splits)

text \<open>As long as \<open>Stop\<close> was not called, the registration is held or being renewed.\<close>

lemma registration_runs:
  "reg_events_of s evs \<Longrightarrow> \<not> stopCh_closed s \<Longrightarrow> hold_lease E svc addr lease evs w = (w', st) \<Longrightarrow> st \<noteq> Ended"
proof (induction evs arbitrary: lease w)
  case (Cons ev evs)
  have rest: "reg_events_of s evs" using Cons.prems(1) by (simp add: reg_events_of_def)
  show ?case
  proof (cases ev)
    case (KeepAliveClosed stops)
    then have "True \<notin> set stops" using Cons.prems(1,2) by (auto simp: reg_events_of_def)
    obtain w1 ws res where r: "reRegister E svc addr stops w = (w1, ws, res)" by (metis prod_cases3)
    have n: "res \<noteq> Some (Inl err)" for err
      by (rule reRegister_running [OF \<open>True \<notin> set stops\<close> r [unfolded reRegister_def]])
    show ?thesis
    proof (cases res)
      case (Some out)
      then obtain l where "out = Inr l" using n by (cases out) auto
      then show ?thesis using Cons.IH [OF rest Cons.prems(2)] Cons.prems(3) KeepAliveClosed r Some by simp
    qed (use Cons.prems(3) KeepAliveClosed r in auto)
  qed (use Cons rest in \<open>auto simp: reg_events_of_def\<close>)
qed auto

end
