(* ===== verification/Cache_Defaults.thy ===== *)
theory Cache_Defaults
  imports Complex_Main Cache_Discovery
begin

text \<open>
  The configuration of the ring with its default hash, CRC-32 (config.go, consistent_hash.go), the statistics of the
  ring with their invariant, the options of a picker, and the mark of a forwarded request in a context (group.go).
\<close>

unbundle bit_operations_syntax

subsection \<open>The configuration\<close>

text \<open>\<open>crc32.ChecksumIEEE\<close>, bit by bit.\<close>

definition crc_bit :: "32 word \<Rightarrow> 32 word" where
  "crc_bit c = (if bit c 0 then drop_bit 1 c XOR 0xEDB88320 else drop_bit 1 c)"

definition crc_byte :: "32 word \<Rightarrow> byte \<Rightarrow> 32 word" where
  "crc_byte c b = (crc_bit ^^ 8) (c XOR ucast b)"

definition ChecksumIEEE :: "bytes \<Rightarrow> 32 word" where
  "ChecksumIEEE bs = NOT (foldl crc_byte (NOT 0) bs)"

text \<open>The check value of the standard: the digits from one to nine.\<close>

lemma crc_steps:
  "crc_byte 0xFFFFFFFF 0x31 = 0x7C231048"  "crc_byte 0x7C231048 0x32 = 0xB0ACBB32"
  "crc_byte 0xB0ACBB32 0x33 = 0x77B79C2D"  "crc_byte 0x77B79C2D 0x34 = 0x641C1F5C"
  "crc_byte 0x641C1F5C 0x35 = 0x340AC5E3"  "crc_byte 0x340AC5E3 0x36 = 0xF68D2C9E"
  "crc_byte 0xF68D2C9E 0x37 = 0xAFFC9660"  "crc_byte 0xAFFC9660 0x38 = 0x651F2550"
  "crc_byte 0x651F2550 0x39 = 0x340BC6D9"
  by code_simp+

lemma ChecksumIEEE_check: "ChecksumIEEE [0x31, 0x32, 0x33, 0x34, 0x35, 0x36, 0x37, 0x38, 0x39] = 0xCBF43926"
proof -
  have "NOT 0 = (0xFFFFFFFF :: 32 word)" "NOT 0x340BC6D9 = (0xCBF43926 :: 32 word)" by code_simp+
  then show ?thesis by (simp only: ChecksumIEEE_def foldl.simps crc_steps)
qed

text \<open>The deprecated fields are never read; the threshold, a quarter, is kept as a rational number.\<close>

record ConHashConfig =
  DefaultReplicas :: nat
  HashFunc :: "bytes \<Rightarrow> 32 word"
  MinReplicas :: nat
  MaxReplicas :: nat
  LoadBalanceThreshold :: rat

definition DefaultConHashConfig :: ConHashConfig where
  "DefaultConHashConfig = \<lparr>DefaultReplicas = 50, HashFunc = ChecksumIEEE, MinReplicas = 10, MaxReplicas = 200,
     LoadBalanceThreshold = 1 / 4\<rparr>"

text \<open>An option without a configuration changes nothing; the last one with a configuration decides.\<close>

definition WithConsistentHashConfig :: "ConHashConfig option \<Rightarrow> ConHashConfig \<Rightarrow> ConHashConfig" where
  "WithConsistentHashConfig config c = (case config of None \<Rightarrow> c | Some config \<Rightarrow> config)"

definition configured :: "ConHashConfig option list \<Rightarrow> ConHashConfig" where
  "configured opts = fold WithConsistentHashConfig opts DefaultConHashConfig"

lemma configured_last:
  "configured opts = (case filter (\<lambda>x. x \<noteq> None) opts of [] \<Rightarrow> DefaultConHashConfig | cs \<Rightarrow> the (last cs))"
proof -
  have "fold WithConsistentHashConfig opts c = (case filter (\<lambda>x. x \<noteq> None) opts of [] \<Rightarrow> c | cs \<Rightarrow> the (last cs))" for c
    by (induction opts arbitrary: c) (auto simp: WithConsistentHashConfig_def split: list.splits option.splits)
  then show ?thesis by (simp add: configured_def)
qed

subsection \<open>The statistics of a ring\<close>

text \<open>The share of every node; the quotient of two floats is kept exact.\<close>

definition GetStats :: "ConsistentHashMap \<Rightarrow> string \<Rightarrow> rat option" where
  "GetStats m =
    (if totalRequests m = 0 then Map.empty
     else (\<lambda>node. map_option (\<lambda>counter. of_int counter / of_int (totalRequests m)) (nodeCounts m node)))"

definition counted :: "ConsistentHashMap \<Rightarrow> int" where
  "counted m = (\<Sum>n \<in> dom (nodeCounts m). the (nodeCounts m n))"

definition stats_inv :: "ConsistentHashMap \<Rightarrow> bool" where
  "stats_inv m \<longleftrightarrow> finite (dom (nodeCounts m)) \<and> (\<forall>n c. nodeCounts m n = Some c \<longrightarrow> 0 \<le> c) \<and> counted m \<le> totalRequests m"

lemma counted_cong: "nodeCounts m = nodeCounts m' \<Longrightarrow> counted m = counted m'"
  by (simp add: counted_def)

lemma counted_update:
  assumes "finite (dom (nodeCounts m))"
  shows "counted (m\<lparr>nodeCounts := (nodeCounts m)(n \<mapsto> c)\<rparr>) = counted m - (case nodeCounts m n of None \<Rightarrow> 0 | Some d \<Rightarrow> d) + c"
proof -
  let ?D = "dom (nodeCounts m)"
  have s: "(\<Sum>x \<in> ?D - {n}. the (if x = n then Some c else nodeCounts m x)) = (\<Sum>x \<in> ?D - {n}. the (nodeCounts m x))"
    by (rule sum.cong) auto
  have "counted m = (case nodeCounts m n of None \<Rightarrow> 0 | Some d \<Rightarrow> d) + (\<Sum>x \<in> ?D - {n}. the (nodeCounts m x))"
  proof (cases "nodeCounts m n")
    case None
    then have "?D - {n} = ?D" by (auto simp: domIff)
    then show ?thesis using None by (simp add: counted_def)
  next
    case (Some d)
    then have "n \<in> ?D" by auto
    then show ?thesis using assms Some by (simp add: counted_def sum.remove)
  qed
  then show ?thesis using assms s by (simp add: counted_def sum.insert_remove)
qed

lemma counted_remove:
  assumes "finite (dom (nodeCounts m))"
  shows "counted (m\<lparr>nodeCounts := (nodeCounts m)(n := None)\<rparr>) = counted m - (case nodeCounts m n of None \<Rightarrow> 0 | Some d \<Rightarrow> d)"
proof (cases "nodeCounts m n")
  case None
  then have "(nodeCounts m)(n := None) = nodeCounts m" by auto
  then show ?thesis using None by simp
next
  case (Some d)
  then have n: "n \<in> dom (nodeCounts m)" by auto
  have "(\<Sum>x \<in> dom (nodeCounts m) - {n}. the (((nodeCounts m)(n := None)) x)) = (\<Sum>x \<in> dom (nodeCounts m) - {n}. the (nodeCounts m x))"
    by (rule sum.cong) auto
  then show ?thesis using assms n Some by (simp add: counted_def sum.remove)
qed

text \<open>What the operations of the ring do to the counters.\<close>

lemma add_replicas_counts:
  "add_replicas hf node is (m, hs) = (m', hs') \<Longrightarrow> nodeCounts m' = nodeCounts m \<and> totalRequests m' = totalRequests m"
  by (induction "is" arbitrary: m hs) (auto simp: Let_def split: if_splits)

lemma addNode_stats:
  assumes "stats_inv m"
  shows "stats_inv (addNodeLocked hf r m node) \<and> counted (addNodeLocked hf r m node) = counted m \<and>
    totalRequests (addNodeLocked hf r m node) = totalRequests m"
proof (cases "nodeHashes m node")
  case (Some hs)
  then show ?thesis using assms by (simp add: addNodeLocked_def)
next
  case None
  obtain m1 hs where a: "add_replicas hf node [0..<r] (m, []) = (m1, hs)" by (cases "add_replicas hf node [0..<r] (m, [])")
  note c = add_replicas_counts [OF a]
  let ?m = "addNodeLocked hf r m node"
  have u: "nodeCounts ?m = (if nodeCounts m node = None then (nodeCounts m)(node \<mapsto> 0) else nodeCounts m)"
    "totalRequests ?m = totalRequests m"
    using None a c by (auto simp: addNodeLocked_def)
  have "counted ?m = counted m"
  proof (cases "nodeCounts m node = None")
    case True
    then have "counted ?m = counted (m\<lparr>nodeCounts := (nodeCounts m)(node \<mapsto> 0)\<rparr>)" using u by (intro counted_cong) simp
    then show ?thesis using True assms counted_update [of m node 0] by (simp add: stats_inv_def)
  next
    case False
    then have "nodeCounts ?m = nodeCounts m" using u(1) by (simp only: if_False)
    then show ?thesis by (rule counted_cong)
  qed
  then show ?thesis using assms u by (auto simp: stats_inv_def split: if_splits)
qed

lemma add_nodes_stats:
  "stats_inv m \<Longrightarrow> stats_inv (add_nodes hf r nodes m) \<and> counted (add_nodes hf r nodes m) = counted m \<and>
    totalRequests (add_nodes hf r nodes m) = totalRequests m"
proof (induction nodes arbitrary: m)
  case (Cons n nodes)
  then show ?case using addNode_stats [OF Cons.prems, of hf r n] by (cases "n = []") auto
qed simp

lemma ring_Add_stats:
  assumes "stats_inv m" "ring_Add hf r m nodes = Some m'"
  shows "stats_inv m'" "counted m' = counted m" "totalRequests m' = totalRequests m"
  using assms add_nodes_stats [OF assms(1), of hf r nodes]
  by (auto simp: ring_Add_def Let_def stats_inv_def counted_def split: if_splits)

lemma ring_Remove_stats:
  assumes "stats_inv m" "ring_Remove m node = Some m'"
  shows "stats_inv m'" "counted m' = counted m - (case nodeCounts m node of None \<Rightarrow> 0 | Some d \<Rightarrow> d)"
    "totalRequests m' = totalRequests m"
proof -
  have u: "nodeCounts m' = (nodeCounts m)(node := None)" "totalRequests m' = totalRequests m"
    using assms(2) by (auto simp: ring_Remove_def removeNodeLocked_def split: if_splits option.splits)
  have "counted m' = counted (m\<lparr>nodeCounts := (nodeCounts m)(node := None)\<rparr>)" using u by (intro counted_cong) simp
  then show c: "counted m' = counted m - (case nodeCounts m node of None \<Rightarrow> 0 | Some d \<Rightarrow> d)"
    using assms(1) by (simp add: stats_inv_def counted_remove)
  show "totalRequests m' = totalRequests m" by (rule u)
  have "0 \<le> (case nodeCounts m node of None \<Rightarrow> 0 | Some d \<Rightarrow> d)"
    using assms(1) by (auto simp: stats_inv_def split: option.split)
  then have "counted m' \<le> totalRequests m'" using assms(1) c u by (simp add: stats_inv_def)
  then show "stats_inv m'" using assms(1) u by (auto simp: stats_inv_def split: if_splits)
qed

lemma ring_Get_stats:
  assumes "stats_inv m" "ring_inv m"
  shows "stats_inv (fst (ring_Get hf m key))"
    "totalRequests (fst (ring_Get hf m key)) - counted (fst (ring_Get hf m key)) = totalRequests m - counted m"
proof -
  let ?m = "fst (ring_Get hf m key)"
  have "stats_inv ?m \<and> totalRequests ?m - counted ?m = totalRequests m - counted m"
  proof (cases "key = [] \<or> keys m = []")
    case True
    then show ?thesis using assms by (auto simp: ring_Get_def)
  next
    case False
    let ?n = "owner hf m key"
    have "?n \<in> dom (nodeCounts m)"
      using ring_Get_owner(2) [OF assms(2), of key hf] False assms(2) by (auto simp: ring_inv_def ring_core_def)
    then obtain c where c: "nodeCounts m ?n = Some c" by blast
    have u: "nodeCounts ?m = (nodeCounts m)(?n \<mapsto> c + 1)" "totalRequests ?m = totalRequests m + 1"
      using False c by (simp_all add: owner_def ring_Get_def Let_def split: option.splits)
    have "counted ?m = counted (m\<lparr>nodeCounts := (nodeCounts m)(?n \<mapsto> c + 1)\<rparr>)" using u by (intro counted_cong) simp
    then have "counted ?m = counted m + 1" using assms(1) c by (simp add: stats_inv_def counted_update)
    then show ?thesis using assms(1) c u by (auto simp: stats_inv_def split: if_splits)
  qed
  then show "stats_inv ?m" "totalRequests ?m - counted ?m = totalRequests m - counted m" by simp_all
qed

text \<open>
  The shares are fractions that add up to at most one, and to one exactly as long as no node was removed: the requests
  of a removed node stay in the total.
\<close>

lemma GetStats_shares:
  assumes "stats_inv m" "GetStats m n = Some s"
  shows "0 \<le> s" "s \<le> 1"
proof -
  obtain c where c: "nodeCounts m n = Some c" "s = of_int c / of_int (totalRequests m)" "totalRequests m \<noteq> 0"
    using assms(2) by (auto simp: GetStats_def split: if_splits)
  have "c \<le> counted m"
  proof -
    have "the (nodeCounts m n) \<le> (\<Sum>n \<in> dom (nodeCounts m). the (nodeCounts m n))"
      using assms(1) c by (intro member_le_sum) (auto simp: stats_inv_def)
    then show ?thesis using c by (simp add: counted_def)
  qed
  then have "0 \<le> c" "c \<le> totalRequests m" using assms(1) c by (auto simp: stats_inv_def)
  then show "0 \<le> s" "s \<le> 1" using c by (auto simp: divide_le_eq)
qed

lemma GetStats_sum:
  assumes "totalRequests m \<noteq> 0"
  shows "(\<Sum>n \<in> dom (GetStats m). the (GetStats m n)) = of_int (counted m) / of_int (totalRequests m)"
proof -
  have "dom (GetStats m) = dom (nodeCounts m)" using assms by (auto simp: GetStats_def domIff)
  moreover have "(\<Sum>n \<in> dom (nodeCounts m). the (GetStats m n)) =
      (\<Sum>n \<in> dom (nodeCounts m). of_int (the (nodeCounts m n)) / of_int (totalRequests m))"
    using assms by (intro sum.cong) (auto simp: GetStats_def)
  ultimately show ?thesis by (simp add: counted_def sum_divide_distrib)
qed

lemma stats_inv_new: "stats_inv NewConsistentHash" "counted NewConsistentHash = totalRequests NewConsistentHash"
  by (simp_all add: stats_inv_def counted_def NewConsistentHash_def)

subsection \<open>The options of a picker\<close>

definition WithServiceName :: "string \<Rightarrow> ClientPicker \<Rightarrow> ClientPicker" where
  "WithServiceName name p = p\<lparr>svcName := name\<rparr>"

text \<open>The first fetch decides whether the picker comes into being; the goroutine that then watches is \<open>watchServiceChanges\<close>.\<close>

definition startServiceDiscovery :: "(string \<Rightarrow> 32 word) \<Rightarrow> nat \<Rightarrow> (string \<Rightarrow> bool) \<Rightarrow> (string list \<Rightarrow> string list) \<Rightarrow>
    string + (string list \<times> int) \<Rightarrow> ClientPicker \<Rightarrow> string + ClientPicker" where
  "startServiceDiscovery hf r dial ord resp p = (case resp of
      Inl err \<Rightarrow> Inl (''failed to get all services: '' @ err)
    | Inr (kvs, _) \<Rightarrow> Inr (fst (fetchAllServices hf r dial ord kvs p)))"

lemma svcName_options: "fold WithServiceName names p = p\<lparr>svcName := last (svcName p # names)\<rparr>"
  by (induction names arbitrary: p) (simp_all add: WithServiceName_def)

lemma start_picker_steps:
  "\<not> HasPrefix addr '':'' \<Longrightarrow> start_picker hf r dial ord addrs None resp addr names =
    startServiceDiscovery hf r dial ord resp (fold WithServiceName names (NewClientPicker hf r addr ''swifty_cache''))"
  by (simp add: start_picker_def startServiceDiscovery_def svcName_options NewClientPicker_def Let_def split: sum.split)

subsection \<open>The mark of a forwarded request\<close>

text \<open>The value that a context holds for the key of the package, of any dynamic type; a context may be nil.\<close>

datatype ctx_value = CtxBool bool | CtxOther

definition withPeerRequest :: "('k \<Rightarrow> ctx_value option) \<Rightarrow> 'k \<Rightarrow> 'k \<Rightarrow> ctx_value option" where
  "withPeerRequest ctx key = ctx(key \<mapsto> CtxBool True)"

definition isPeerRequest_of :: "'k \<Rightarrow> ('k \<Rightarrow> ctx_value option) option \<Rightarrow> bool" where
  "isPeerRequest_of key ctx = (case ctx of
      None \<Rightarrow> False
    | Some ctx \<Rightarrow> (case ctx key of Some (CtxBool value) \<Rightarrow> value | _ \<Rightarrow> False))"

lemma peer_request_mark:
  "isPeerRequest_of key (Some (withPeerRequest ctx key))" "\<not> isPeerRequest_of key None"
  "k \<noteq> key \<Longrightarrow> isPeerRequest_of k (Some (withPeerRequest ctx key)) = isPeerRequest_of k (Some ctx)"
  by (simp_all add: isPeerRequest_of_def withPeerRequest_def)

subsection \<open>The client of a peer\<close>

text \<open>\<open>grpc.NewClient\<close> and \<open>Close\<close> of a connection are arguments over their state; a connection is a handle that may be nil.\<close>

record PeerClient =
  pcAddr :: string
  pcSvcName :: string
  pcConn :: "nat option"

definition NewClient :: "(string \<Rightarrow> 's \<Rightarrow> (string + nat) \<times> 's) \<Rightarrow> string \<Rightarrow> string \<Rightarrow> 's \<Rightarrow> (string + PeerClient) \<times> 's" where
  "NewClient grpc_new addr svc s = (case grpc_new addr s of
      (Inl err, s) \<Rightarrow> (Inl (''failed to create grpc client: '' @ err), s)
    | (Inr conn, s) \<Rightarrow> (Inr \<lparr>pcAddr = addr, pcSvcName = svc, pcConn = Some conn\<rparr>, s))"

definition Client_Close :: "(nat \<Rightarrow> 's \<Rightarrow> string option \<times> 's) \<Rightarrow> PeerClient \<Rightarrow> 's \<Rightarrow> string option \<times> 's" where
  "Client_Close close c s = (case pcConn c of Some conn \<Rightarrow> close conn s | None \<Rightarrow> (None, s))"

text \<open>Closing a client that was created closes the connection that was opened for it.\<close>

lemma NewClient_Close:
  assumes "NewClient grpc_new addr svc s = (Inr c, s')"
  shows "\<exists>conn. grpc_new addr s = (Inr conn, s') \<and> Client_Close close c = close conn"
  using assms by (auto simp: NewClient_def Client_Close_def fun_eq_iff split: prod.splits sum.splits)

end
