(* ===== verification/Discovery_Properties.thy ===== *)
theory Discovery_Properties
  imports Cache_Server Cache_Defaults
begin

text \<open>The properties of registration and discovery in \<open>swifty_cache\<close>.\<close>

text \<open>C31. As long as etcd answers, the picker follows the history of the registry through broken watches and
  new fetches: wherever the goroutine stands, its members are the other nodes that were registered at one
  revision, not older than the snapshot of a round it went through.\<close>

theorem watch_follows_history:
  assumes "picker_inv p" "perm_of ord" "rds \<noteq> []" "\<forall>rd \<in> set rds. etcd_round_ok (servicePrefix p) H rd \<and> \<not> isl (rd_get rd)"
    and "watchServiceChanges hf r (\<lambda>_. True) ord rds p = (p', ret)"
  shows "picker_inv p' \<and>
    (\<exists>rd \<in> set rds. \<exists>m \<ge> nat (snd (projr (rd_get rd))) - 1. members p' = registered p (keys_at H m))"
  using watch_loop_sync [OF assms] by blast

definition hist :: "(event_type \<times> string) list list" where
  "hist = [[(EventTypePut, ''/services/s/b:1'')], [(EventTypePut, ''/services/s/c:1'')], [(EventTypeDelete, ''/services/s/b:1'')]]"

definition two_rounds :: "round list" where
  "two_rounds = [\<lparr>rd_get = Inr ([], 1), rd_watch = (\<lambda>s. if s = Some 2 then [WEvents (hist ! 0), WBroken] else []), rd_done = False\<rparr>,
     \<lparr>rd_get = Inr ([''/services/s/b:1'', ''/services/s/c:1''], 3),
      rd_watch = (\<lambda>s. if s = Some 4 then [WEvents (hist ! 2)] else []), rd_done = False\<rparr>]"

definition lone_picker :: ClientPicker where
  "lone_picker = NewClientPicker (\<lambda>_. 0) 1 ''a:1'' ''s''"

lemma lone_picker_fields: "picker_inv lone_picker" "servicePrefix lone_picker = ''/services/s/''" "selfAddr lone_picker = ''a:1''"
proof -
  show "picker_inv lone_picker" unfolding lone_picker_def by (rule picker_new) auto
qed (simp_all add: lone_picker_def NewClientPicker_def servicePrefix_def)

lemma two_rounds_ok: "rd \<in> set two_rounds \<Longrightarrow> etcd_round_ok ''/services/s/'' hist rd \<and> \<not> isl (rd_get rd)"
proof -
  have 1: "delivered [WEvents (hist ! 0), WBroken] =
      filter (\<lambda>(ty, key). HasPrefix key ''/services/s/'') (concat (take 1 (drop 0 hist)))"
    and 2: "delivered [WEvents (hist ! 2)] =
      filter (\<lambda>(ty, key). HasPrefix key ''/services/s/'') (concat (take 1 (drop 2 hist)))"
    by (simp_all add: hist_def HasPrefix_def)
  have k: "keys_at hist 0 = {}" "keys_at hist 2 = {''/services/s/b:1'', ''/services/s/c:1''}"
    by (auto simp: keys_at_def hist_def numeral_2_eq_2)
  have pf: "{k. (k = ''/services/s/b:1'' \<or> k = ''/services/s/c:1'') \<and> HasPrefix k ''/services/s/''} =
      {''/services/s/b:1'', ''/services/s/c:1''}"
    by (auto simp: HasPrefix_def)
  have len: "length hist = 3" by (simp add: hist_def)
  assume "rd \<in> set two_rounds"
  then show ?thesis
  proof (simp only: two_rounds_def list.set, elim insertE emptyE)
    assume rd: "rd = \<lparr>rd_get = Inr ([], 1), rd_watch = (\<lambda>s. if s = Some 2 then [WEvents (hist ! 0), WBroken] else []), rd_done = False\<rparr>"
    have "\<exists>n. delivered (rd_watch rd (Some s)) = filter (\<lambda>(ty, key). HasPrefix key ''/services/s/'') (concat (take n (drop (nat s - 2) hist)))" for s
    proof (cases "s = 2")
      case True
      then show ?thesis using 1 by (intro exI [of _ 1]) (simp add: rd)
    next
      case False
      then show ?thesis by (intro exI [of _ 0]) (simp add: rd)
    qed
    then show ?thesis by (simp add: etcd_round_ok_def rd k)
  next
    assume rd: "rd = \<lparr>rd_get = Inr ([''/services/s/b:1'', ''/services/s/c:1''], 3),
      rd_watch = (\<lambda>s. if s = Some 4 then [WEvents (hist ! 2)] else []), rd_done = False\<rparr>"
    have "\<exists>n. delivered (rd_watch rd (Some s)) = filter (\<lambda>(ty, key). HasPrefix key ''/services/s/'') (concat (take n (drop (nat s - 2) hist)))" for s
    proof (cases "s = 4")
      case True
      then show ?thesis using 2 by (intro exI [of _ 1]) (simp add: rd)
    next
      case False
      then show ?thesis by (intro exI [of _ 0]) (simp add: rd)
    qed
    then show ?thesis by (simp add: etcd_round_ok_def rd k len pf)
  qed
qed

theorem watch_follows_history_witness:
  "\<exists>p' ret. watchServiceChanges (\<lambda>_. 0) 1 (\<lambda>_. True) (\<lambda>xs. xs) two_rounds lone_picker = (p', ret) \<and> picker_inv p' \<and>
    (\<exists>m. members p' = registered lone_picker (keys_at hist m))"
proof -
  obtain p' ret where w: "watchServiceChanges (\<lambda>_. 0) 1 (\<lambda>_. True) (\<lambda>xs. xs) two_rounds lone_picker = (p', ret)"
    by fastforce
  have "perm_of (\<lambda>xs. xs)" "two_rounds \<noteq> []" by (simp_all add: perm_of_def two_rounds_def)
  from watch_follows_history [OF lone_picker_fields(1) this _ w, of hist] show ?thesis
    using two_rounds_ok w lone_picker_fields(2) by auto
qed


text \<open>A registry in memory: the number of leases granted so far and the lease of each key. The second grant fails.\<close>

definition mem_etcd :: "(int \<times> (string \<Rightarrow> int option)) Etcd" where
  "mem_etcd = \<lparr>eNew = (\<lambda>w. (w, None)),
     eGrant = (\<lambda>_ (n, m). ((n + 1, m), if n = 1 then Inl ''unavailable'' else Inr n)),
     ePut = (\<lambda>key _ lease (n, m). ((n, m(key \<mapsto> lease)), None)), eKeepAlive = (\<lambda>_ w. (w, None)),
     eRevoke = (\<lambda>lease (n, m). (n, \<lambda>key. if m key = Some lease then None else m key)), eClose = (\<lambda>w. w)\<rparr>"



text \<open>While a lost registration is being renewed the waits are 1, 2, 4, 8, 16 seconds and then 32 seconds each, one
  before every attempt, so that no duration overflows; a stop ends the renewal.\<close>

theorem reregister_backoff:
  assumes "reRegister E svc addr stops w = (w', waits, res)"
  shows "(\<forall>i < length waits. waits ! i = min (2 ^ i) 32 * second \<and> waits ! i < 2 ^ 63) \<and>
    length waits \<le> length stops \<and> (res = None \<longrightarrow> length waits = length stops) \<and> (True \<in> set stops \<longrightarrow> res \<noteq> None)"
proof -
  have "reRegister_loop E svc addr (min (2 ^ 0) 32 * second) stops w = (w', waits, res)"
    using assms by (simp add: reRegister_def second_def)
  note W = reRegister_waits [OF this]
  have "min (2 ^ i) 32 * second < 2 ^ 63" for i :: nat by (simp add: second_def min_def)
  then show ?thesis using W reRegister_stops assms unfolding reRegister_def by auto
qed

theorem reregister_backoff_witness:
  "\<exists>w' waits. reRegister mem_etcd ''s'' ''a:1'' [False, False, True] (1, Map.empty) = (w', waits, Some (Inr 2)) \<and>
    (\<forall>i < length waits. waits ! i = min (2 ^ i) 32 * second)"
proof -
  obtain w' waits where r: "reRegister mem_etcd ''s'' ''a:1'' [False, False, True] (1, Map.empty) = (w', waits, Some (Inr 2))"
    by (simp add: reRegister_def registerLease_def mem_etcd_def Let_def)
  from reregister_backoff [OF r] r show ?thesis by blast
qed

end
