(* ===== verification/Cache_Report.thy ===== *)
theory Cache_Report
  imports Cache_Group_Correct
begin

text \<open>
  What a cache tells about itself: \<open>Entries\<close> and \<open>Stats\<close> of \<open>swifty_cache/cache.go\<close> and \<open>group.go\<close>, the options of
  \<open>NewGroup\<close>, and the dashboard (\<open>dashboard.go\<close>) that reads them and passes on commands. A statistic that the code
  computes as a quotient of two floating point numbers is represented by the two numbers.
\<close>

datatype stat = StBool bool | StInt int | StStr string | StQuot int int | StAvgMs int int

type_synonym lru_cache = "bytes lruStore Cache"

type_synonym lru_group = "bytes lruStore Group"

definition Cache_Entries :: "lru_cache \<Rightarrow> Entry list option" where
  "Cache_Entries c =
    (if closed c \<or> \<not> initialized c then Some []
     else case cstore c of None \<Rightarrow> Some [] | Some s \<Rightarrow> store_Walk bv_len (\<lambda>es e. (es @ [e], True)) s [])"

definition Cache_Stats :: "lru_cache \<Rightarrow> (string \<times> stat) list option" where
  "Cache_Stats c =
    (let st = [(''initialized'', StBool (initialized c)), (''closed'', StBool (closed c)),
       (''hits'', StInt (hits c)), (''misses'', StInt (misses c))]
     in if \<not> initialized c then Some st
        else do {
          n \<leftarrow> Cache_Len lru_methods c;
          let total = hits c + misses c;
          Some (st @ [(''size'', StInt (int n)), (''hit_rate'', if total > 0 then StQuot (hits c) total else StQuot 0 1)] @
            (case cstore c of
              Some s \<Rightarrow> [(''bytes'', StInt (store_Bytes s)), (''evictions'', StInt (store_Evictions s))]
            | None \<Rightarrow> []))
        })"

definition Group_Entries :: "lru_group \<Rightarrow> Entry list option" where
  "Group_Entries g = (if gclosed g then Some [] else Cache_Entries (mainCache g))"

definition Group_Stats :: "lru_group \<Rightarrow> (string \<times> stat) list option" where
  "Group_Stats g = do {
     let s = stats g;
     let total = localHits s + localMisses s;
     cs \<leftarrow> Cache_Stats (mainCache g);
     Some ([(''name'', StStr (gname g)), (''closed'', StBool (gclosed g)), (''expiration'', StInt (expiration g)),
         (''gets'', StInt (gets s)), (''loads'', StInt (loads s)), (''loads_deduped'', StInt (loadsDeduped s)),
         (''local_hits'', StInt (localHits s)), (''local_misses'', StInt (localMisses s)),
         (''peer_hits'', StInt (peerHits s)), (''peer_misses'', StInt (peerMisses s)),
         (''loader_hits'', StInt (loaderHits s)), (''loader_errors'', StInt (loaderErrors s)),
         (''server_requests'', StInt (serverRequests s))] @
       (if total > 0 then [(''hit_rate'', StQuot (localHits s) total)] else []) @
       (if loads s > 0 then [(''avg_load_time_ms'', StAvgMs (loadDuration s) (loads s))] else []) @
       map (\<lambda>(k, v). (''cache_'' @ k, v)) cs)
   }"

subsection \<open>Options, and the dashboard of the process\<close>

datatype GroupOption = WithExpiration int | WithPeers picker | WithCacheOptions StoreOptions string

text \<open>\<open>dashAddr\<close> is the \<open>DashboardAddr\<close> in the options of a group, which never changes; \<open>dashboard\<close> the address on
  which the one dashboard of the process listens.\<close>

record node_groups =
  greg :: "bytes lruStore Registry"
  dashAddr :: "nat \<Rightarrow> string"
  dashboard :: "string option"

fun apply_option :: "GroupOption \<Rightarrow> int \<times> picker option \<times> StoreOptions \<times> string \<Rightarrow> int \<times> picker option \<times> StoreOptions \<times> string" where
  "apply_option (WithExpiration d) (ttl, ps, co, addr) = (d, ps, co, addr)"
| "apply_option (WithPeers pk) (ttl, ps, co, addr) = (ttl, Some pk, co, addr)"
| "apply_option (WithCacheOptions co' addr') (ttl, ps, co, addr) = (ttl, ps, co', addr')"

definition StartDashboard :: "string \<Rightarrow> node_groups \<Rightarrow> node_groups" where
  "StartDashboard addr D = (case dashboard D of None \<Rightarrow> D\<lparr>dashboard := Some addr\<rparr> | Some _ \<Rightarrow> D)"

definition new_group :: "string \<Rightarrow> int \<Rightarrow> bool \<Rightarrow> GroupOption list \<Rightarrow> node_groups \<Rightarrow> (node_groups \<times> nat) option" where
  "new_group name cacheBytes nilGetter opts D =
    (if nilGetter then None
     else case fold apply_option opts (0, None, DefaultCacheOptions\<lparr>oMaxBytes := cacheBytes\<rparr>, []) of
       (ttl, ps, co, addr) \<Rightarrow> do {
         (r, p) \<leftarrow> reg_NewGroup (greg D) name co ttl ps;
         let D = D\<lparr>greg := r, dashAddr := (dashAddr D)(p := addr)\<rparr>;
         Some (if addr \<noteq> [] then StartDashboard addr D else D, p)
       })"

definition DashboardEnabled :: "node_groups \<Rightarrow> nat \<Rightarrow> bool" where
  "DashboardEnabled D p \<longleftrightarrow> dashAddr D p \<noteq> []"

text \<open>\<open>names\<close> are the names of the groups in the order in which the range statement visits them.\<close>

definition GetAllGroups :: "node_groups \<Rightarrow> string \<Rightarrow> nat option" where
  "GetAllGroups D = groups (greg D)"

definition ListGroups :: "string list \<Rightarrow> node_groups \<Rightarrow> string list" where
  "ListGroups names D = filter (\<lambda>n. groups (greg D) n \<noteq> None) names"

record groupSnapshot =
  snName :: string
  snStats :: "(string \<times> stat) list"
  snEntries :: "Entry list"

fun buildSnapshot :: "string list \<Rightarrow> node_groups \<Rightarrow> groupSnapshot list option" where
  "buildSnapshot [] D = Some []"
| "buildSnapshot (name # names) D = (case GetAllGroups D name of
      None \<Rightarrow> buildSnapshot names D
    | Some p \<Rightarrow>
        if \<not> DashboardEnabled D p then buildSnapshot names D
        else do {
          let g = objs (greg D) ! p;
          es \<leftarrow> Group_Entries g;
          st \<leftarrow> Group_Stats g;
          rest \<leftarrow> buildSnapshot names D;
          Some (\<lparr>snName = name, snStats = st, snEntries = es\<rparr> # rest)
        })"

record dashboardCommand =
  cmdAction :: string
  cmdGroup :: string
  cmdKey :: string

definition handleCommand :: "env \<Rightarrow> dashboardCommand \<Rightarrow> node_groups \<Rightarrow> (node_groups \<times> sync list) option" where
  "handleCommand ev cmd D = (case GetGroup (greg D) (cmdGroup cmd) of
      None \<Rightarrow> Some (D, [])
    | Some p \<Rightarrow>
        if \<not> DashboardEnabled D p then Some (D, [])
        else if cmdAction cmd = ''delete'' then do {
          (g', _, msgs) \<leftarrow> Group_Delete lru_methods (ev\<lparr>isPeerRequest := False\<rparr>) (objs (greg D) ! p) (cmdKey cmd);
          Some (D\<lparr>greg := (greg D)\<lparr>objs := (objs (greg D))[p := g']\<rparr>\<rparr>, msgs)
        }
        else Some (D, []))"

definition same_but_cache :: "lru_group \<Rightarrow> lru_group \<Rightarrow> bool" where
  "same_but_cache g g' \<longleftrightarrow> g' = g\<lparr>mainCache := mainCache g'\<rparr>"

text \<open>The goroutine that reads commands, until a read fails.\<close>

fun read_commands :: "env \<Rightarrow> (string + dashboardCommand) list \<Rightarrow> node_groups \<Rightarrow> (node_groups \<times> sync list) option" where
  "read_commands ev [] D = Some (D, [])"
| "read_commands ev (Inl err # cmds) D = Some (D, [])"
| "read_commands ev (Inr cmd # cmds) D = do {
     (D, ms) \<leftarrow> handleCommand ev cmd D;
     (D, ms') \<leftarrow> read_commands ev cmds D;
     Some (D, ms @ ms') }"

lemma distinct_concat_nth:
  "(\<And>i. i < length xss \<Longrightarrow> distinct (xss ! i)) \<Longrightarrow>
    (\<And>i j. i < length xss \<Longrightarrow> j < length xss \<Longrightarrow> i \<noteq> j \<Longrightarrow> set (xss ! i) \<inter> set (xss ! j) = {}) \<Longrightarrow> distinct (concat xss)"
proof (induction xss)
  case (Cons xs xss)
  have "distinct (concat xss)"
    using Cons.IH Cons.prems(1) [of "Suc _"] Cons.prems(2) [of "Suc _" "Suc _"] by simp
  moreover have "distinct xs" using Cons.prems(1) [of 0] by simp
  moreover have "set xs \<inter> set (concat xss) = {}"
  proof -
    have "set xs \<inter> set (xss ! j) = {}" if "j < length xss" for j using Cons.prems(2) [of 0 "Suc j"] that by simp
    then have "x \<notin> set xs" if x: "x \<in> set (concat xss)" for x
    proof -
      obtain ys where "ys \<in> set xss" "x \<in> set ys" using x by auto
      then obtain j where "j < length xss" "x \<in> set (xss ! j)" by (metis in_set_conv_nth)
      then show ?thesis using \<open>\<And>j. j < length xss \<Longrightarrow> set xs \<inter> set (xss ! j) = {}\<close> by blast
    qed
    then show ?thesis by blast
  qed
  ultimately show ?case by simp
qed simp

subsection \<open>The entries of a store\<close>

text \<open>All entries of a bucket, in the order of \<open>Walk\<close>: level 2, then level 1.\<close>

definition mk_entry :: "('v \<Rightarrow> int) \<Rightarrow> nat \<Rightarrow> 'v entry \<Rightarrow> Entry" where
  "mk_entry vlen lvl e = (case e of (k, v, x) \<Rightarrow> \<lparr>eKey = k, eSize = vlen (the v), eExpireAt = x, eLevel = lvl\<rparr>)"

definition bucket_entries :: "('v \<Rightarrow> int) \<Rightarrow> 'v bucket_view \<Rightarrow> Entry list" where
  "bucket_entries vlen b = map (mk_entry vlen 1) (snd b) @ map (mk_entry vlen 0) (fst b)"

abbreviation collect :: "Entry list \<Rightarrow> Entry \<Rightarrow> Entry list \<times> bool" where
  "collect es e \<equiv> (es @ [e], True)"

lemma walk_steps:
  "walk_level2 vlen collect (Some (acc, seen)) (k, Some v, x) = (Some (acc @ [mk_entry vlen 1 (k, Some v, x)], List.insert k seen), True)"
  "k \<notin> set seen \<Longrightarrow>
    walk_level1 vlen collect (Some (acc, seen)) (k, Some v, x) = (Some (acc @ [mk_entry vlen 0 (k, Some v, x)], seen), True)"
  by (simp_all add: walk_level2_def walk_level1_def mk_entry_def)

lemma walk2_all:
  "\<forall>(k, v, x) \<in> set es. v \<noteq> None \<Longrightarrow>
    \<exists>seen'. fold_until (walk_level2 vlen collect) es (Some (acc, seen)) =
      Some (acc @ map (mk_entry vlen 1) es, seen') \<and> set seen' = set seen \<union> fst ` set es"
proof (induction es arbitrary: acc seen)
  case (Cons e es)
  obtain k v x where e: "e = (k, Some v, x)" using Cons.prems by (cases e) auto
  have "\<forall>(k, v, x) \<in> set es. v \<noteq> None" using Cons.prems by simp
  from Cons.IH [OF this] obtain seen' where "fold_until (walk_level2 vlen collect) es
      (Some (acc @ [mk_entry vlen 1 e], List.insert k seen)) = Some ((acc @ [mk_entry vlen 1 e]) @ map (mk_entry vlen 1) es, seen')"
    "set seen' = set (List.insert k seen) \<union> fst ` set es"
    by metis
  then show ?case by (intro exI [of _ seen']) (simp add: e walk_steps)
qed simp

lemma walk1_all:
  "\<forall>(k, v, x) \<in> set es. v \<noteq> None \<and> k \<notin> set seen \<Longrightarrow>
    fold_until (walk_level1 vlen collect) es (Some (acc, seen)) = Some (acc @ map (mk_entry vlen 0) es, seen)"
proof (induction es arbitrary: acc)
  case (Cons e es)
  obtain k v x where e: "e = (k, Some v, x)" using Cons.prems by (cases e) auto
  then show ?case using Cons by (simp add: walk_steps)
qed simp

text \<open>No entry holds the nil value, on which \<open>Walk\<close> would panic.\<close>

definition no_nil :: "'v bucket_view \<Rightarrow> bool" where
  "no_nil b \<longleftrightarrow> (\<forall>(k, v, x) \<in> set (fst b) \<union> set (snd b). v \<noteq> None)"

lemma store_Walk_rep:
  "length ccs = length bs \<Longrightarrow> \<forall>i < length bs. bucket_rep vlen (ccs ! i) (bs ! i) \<and> no_nil (bs ! i) \<Longrightarrow>
    store_Walk_loop vlen collect ccs acc = Some (acc @ concat (map (bucket_entries vlen) bs))"
proof (induction ccs arbitrary: bs acc)
  case (Cons cc ccs)
  obtain b bs' where b: "bs = b # bs'" using Cons.prems(1) by (cases bs) auto
  have R: "bucket_rep vlen cc b" "no_nil b" using Cons.prems(2) b by force+
  then have r: "rep vlen (fst cc) (fst b)" "rep vlen (snd cc) (snd b)" "fst ` set (fst b) \<inter> fst ` set (snd b) = {}"
    by (simp_all add: bucket_rep_def)
  have "\<forall>(k, v, x) \<in> set (snd b). v \<noteq> None" using R(2) by (auto simp: no_nil_def)
  from walk2_all [OF this] obtain seen where w2: "fold_until (walk_level2 vlen collect) (snd b) (Some (acc, [])) =
      Some (acc @ map (mk_entry vlen 1) (snd b), seen)" "set seen = fst ` set (snd b)"
    by (metis list.set(1) sup_bot_left)
  have "k \<notin> set seen" if "(k, v, x) \<in> set (fst b)" for k v x
    using that r(3) w2(2) by (metis disjoint_iff fst_conv image_eqI)
  then have "\<forall>(k, v, x) \<in> set (fst b). v \<noteq> None \<and> k \<notin> set seen" using R(2) unfolding no_nil_def by blast
  note w1 = walk1_all [OF this, of vlen "acc @ map (mk_entry vlen 1) (snd b)"]
  have "\<forall>i < length bs'. bucket_rep vlen (ccs ! i) (bs' ! i) \<and> no_nil (bs' ! i)"
  proof (intro allI impI)
    fix i assume "i < length bs'"
    then show "bucket_rep vlen (ccs ! i) (bs' ! i) \<and> no_nil (bs' ! i)" using Cons.prems(2) [rule_format, of "Suc i"] b by simp
  qed
  from Cons.IH [OF _ this, of "acc @ bucket_entries vlen b"] Cons.prems(1) b
  have "store_Walk_loop vlen collect ccs (acc @ bucket_entries vlen b) = Some ((acc @ bucket_entries vlen b) @ concat (map (bucket_entries vlen) bs'))"
    by simp
  moreover have "bucket_entries vlen b = map (mk_entry vlen 1) (snd b) @ map (mk_entry vlen 0) (fst b)"
    by (simp add: bucket_entries_def)
  ultimately show ?case using w1 w2(1) by (simp add: walk_rep [OF r(1)] walk_rep [OF r(2)] b)
qed simp

text \<open>The entries that \<open>Walk\<close> reports are exactly the contents, each key once.\<close>

lemma bucket_entries_keys:
  assumes "bucket_rep vlen cc b"
  shows "distinct (map eKey (bucket_entries vlen b))" "eKey ` set (bucket_entries vlen b) = bkeys b"
proof -
  have k: "map eKey (bucket_entries vlen b) = map fst (snd b) @ map fst (fst b)"
    by (auto simp: bucket_entries_def mk_entry_def)
  show "distinct (map eKey (bucket_entries vlen b))"
    unfolding k using assms rep_distinct by (auto simp: bucket_rep_def)
  show "eKey ` set (bucket_entries vlen b) = bkeys b"
    using arg_cong [OF k, of set] by (auto simp: bkeys_def)
qed

lemma bucket_entries_find:
  assumes "bucket_rep vlen cc b" "no_nil b"
  shows "(\<exists>l. \<lparr>eKey = k, eSize = n, eExpireAt = x, eLevel = l\<rparr> \<in> set (bucket_entries vlen b)) \<longleftrightarrow>
    (\<exists>v. bfind k b = Some (Some v, x) \<and> n = vlen v)"
proof
  assume "\<exists>l. \<lparr>eKey = k, eSize = n, eExpireAt = x, eLevel = l\<rparr> \<in> set (bucket_entries vlen b)"
  then obtain v where v: "(k, v, x) \<in> set (fst b) \<union> set (snd b)" "n = vlen (the v)"
    by (auto simp: bucket_entries_def mk_entry_def)
  then obtain u where "v = Some u" using assms(2) unfolding no_nil_def by blast
  then show "\<exists>v. bfind k b = Some (Some v, x) \<and> n = vlen v" using v bfind_iff [OF assms(1), of k] by auto
next
  assume "\<exists>v. bfind k b = Some (Some v, x) \<and> n = vlen v"
  then obtain v where v: "(k, Some v, x) \<in> set (fst b) \<or> (k, Some v, x) \<in> set (snd b)" "n = vlen v"
    using bfind_iff [OF assms(1), of k] by auto
  have "mk_entry vlen l (k, Some v, x) = \<lparr>eKey = k, eSize = n, eExpireAt = x, eLevel = l\<rparr>" for l
    using v(2) by (simp add: mk_entry_def)
  then show "\<exists>l. \<lparr>eKey = k, eSize = n, eExpireAt = x, eLevel = l\<rparr> \<in> set (bucket_entries vlen b)"
    using v(1) unfolding bucket_entries_def set_append set_map by (metis UnCI image_eqI)
qed

lemma store_entries:
  assumes S: "store_inv vlen s" and nn: "\<And>k x. store_view s k \<noteq> Some (None, x)"
  shows "\<exists>es. store_Walk vlen collect s [] = Some es \<and> distinct (map eKey es) \<and>
    (\<forall>k n x. (\<exists>l. \<lparr>eKey = k, eSize = n, eExpireAt = x, eLevel = l\<rparr> \<in> set es) \<longleftrightarrow> (\<exists>v. store_view s k = Some (Some v, x) \<and> n = vlen v))"
proof -
  obtain bs where bs: "store_rep vlen s bs" using S by (auto simp: store_inv_def)
  note D = store_repD [OF bs]
  have nil: "no_nil (bs ! i)" if i: "i < length bs" for i
  proof -
    have "False" if "(k, None, x) \<in> set (fst (bs ! i)) \<union> set (snd (bs ! i))" for k x
    proof -
      have "bfind k (bs ! i) = Some (None, x)" using that bfind_iff [OF D(3) [OF i]] by blast
      moreover have "bucket s k = i" using D(4) [OF i] that by (force simp: bkeys_def)
      ultimately show False using nn [of k x] store_view_rep [OF bs, of k] by simp
    qed
    then show ?thesis unfolding no_nil_def by force
  qed
  let ?es = "concat (map (bucket_entries vlen) bs)"
  have w: "store_Walk vlen collect s [] = Some ?es"
    using store_Walk_rep [of "caches s" bs vlen "[]"] D(1,3) nil by (simp add: store_Walk_def)
  have keys: "eKey ` set (bucket_entries vlen (bs ! i)) = bkeys (bs ! i)" if "i < length bs" for i
    using bucket_entries_keys(2) [OF D(3) [OF that]] .
  have "distinct (map eKey ?es)"
  proof -
    have "distinct (concat (map (\<lambda>b. map eKey (bucket_entries vlen b)) bs))"
    proof (rule distinct_concat_nth)
      fix i assume "i < length (map (\<lambda>b. map eKey (bucket_entries vlen b)) bs)"
      then show "distinct (map (\<lambda>b. map eKey (bucket_entries vlen b)) bs ! i)" using bucket_entries_keys(1) [OF D(3) [of i]] by simp
    next
      fix i j assume "i < length (map (\<lambda>b. map eKey (bucket_entries vlen b)) bs)" "j < length (map (\<lambda>b. map eKey (bucket_entries vlen b)) bs)" "i \<noteq> j"
      then show "set (map (\<lambda>b. map eKey (bucket_entries vlen b)) bs ! i) \<inter> set (map (\<lambda>b. map eKey (bucket_entries vlen b)) bs ! j) = {}"
        using keys [of i] keys [of j] D(4) [of i] D(4) [of j] by simp (metis disjoint_iff)
    qed
    then show ?thesis by (simp add: map_concat comp_def)
  qed
  moreover have "(\<exists>l. \<lparr>eKey = k, eSize = n, eExpireAt = x, eLevel = l\<rparr> \<in> set ?es) \<longleftrightarrow> (\<exists>v. store_view s k = Some (Some v, x) \<and> n = vlen v)" for k n x
  proof -
    have b: "bucket s k < length bs" using bucket_range(1) [OF bs] .
    have "(\<exists>l. \<lparr>eKey = k, eSize = n, eExpireAt = x, eLevel = l\<rparr> \<in> set ?es) \<longleftrightarrow>
        (\<exists>l. \<lparr>eKey = k, eSize = n, eExpireAt = x, eLevel = l\<rparr> \<in> set (bucket_entries vlen (bs ! bucket s k)))" (is "?A \<longleftrightarrow> ?B")
    proof
      assume ?A
      then obtain l i where i: "i < length bs" "\<lparr>eKey = k, eSize = n, eExpireAt = x, eLevel = l\<rparr> \<in> set (bucket_entries vlen (bs ! i))"
        by (auto simp: in_set_conv_nth [of _ bs])
      then have "k \<in> bkeys (bs ! i)" using keys [OF i(1)] by force
      then have "bucket s k = i" using D(4) [OF i(1)] by simp
      then show ?B using i(2) by blast
    next
      assume ?B
      moreover have "bs ! bucket s k \<in> set bs" using b by simp
      ultimately show ?A by auto
    qed
    then show ?thesis using bucket_entries_find [OF D(3) [OF b] nil [OF b]] store_view_rep [OF bs, of k] by simp
  qed
  ultimately show ?thesis using w by blast
qed

end
