(* ===== verification/Cache_Dashboard.thy ===== *)
theory Cache_Dashboard
  imports Http_Heartbeat Http_WebSocket_Conn
begin

text \<open>
  One connection of the dashboard (\<open>swifty_cache/dashboard.go\<close>): the upgrade, and the three goroutines of
  \<open>serveDashboardConn\<close>: the heartbeat of \<open>Http_Heartbeat\<close>, the one that sends snapshots and closes the connection, and
  the one that reads commands. What snapshots and commands are is in \<open>Cache_Report\<close>. The field \<open>gone\<close> of the
  heartbeat is the channel \<open>Closed()\<close> of the web socket, which all three look at; the writer is caller 0 of the
  function that stops the heartbeat.
\<close>

datatype dash_writer = WrSnap | WrIdle | WrStop | WrClose | WrEnd

record dash_conn =
  dc_heart :: heart
  dc_writer :: dash_writer
  dc_reading :: bool
  dc_open :: bool
  dc_sent :: nat
  dc_commands :: nat

definition new_dash :: dash_conn where
  "new_dash = \<lparr>dc_heart = new_heart, dc_writer = WrSnap, dc_reading = True, dc_open = True, dc_sent = 0, dc_commands = 0\<rparr>"

text \<open>A failed upgrade has answered the request already.\<close>

definition DashboardHandler :: "(string \<Rightarrow> string) \<Rightarrow> headers \<Rightarrow> (bytes \<times> bytes \<times> bool) option \<Rightarrow> 'j Context \<Rightarrow> dash_conn option \<times> 'j Context" where
  "DashboardHandler accept h hijack c =
    (case Upgrade accept h (Some \<lparr>MaxMessageSize = 0, CheckOrigin = None, Subprotocols = []\<rparr>) hijack c of
      (Inl err, c) \<Rightarrow> (None, c)
    | (Inr ws, c) \<Rightarrow> (Some new_dash, c))"

datatype dash_label =
  DaSnap bool | DaTick | DaSeen | DaHeart beat_label | DaStopped | DaClose | DaCommand | DaBadCommand | DaReadFails

definition call_stop :: "dash_conn \<Rightarrow> dash_conn option" where
  "call_stop s = map_option (\<lambda>h. s\<lparr>dc_heart := h, dc_writer := WrStop\<rparr>) (ws_beat_step (dc_heart s) (CCall 0))"

text \<open>
  \<open>DaSnap ok\<close> is a \<open>WriteJSON\<close> that succeeds or fails, \<open>DaReadFails\<close> a read that fails or finds a close frame, which
  marks the web socket closed, and \<open>DaBadCommand\<close> a message that is not JSON, which does not.
\<close>

fun dash_step :: "dash_conn \<Rightarrow> dash_label \<Rightarrow> dash_conn option" where
  "dash_step s (DaSnap ok) =
    (if dc_writer s \<noteq> WrSnap then None
     else if ok then Some (s\<lparr>dc_sent := dc_sent s + 1, dc_writer := WrIdle\<rparr>)
     else call_stop s)"
| "dash_step s DaTick = (if dc_writer s = WrIdle then Some (s\<lparr>dc_writer := WrSnap\<rparr>) else None)"
| "dash_step s DaSeen = (if dc_writer s = WrIdle \<and> gone (dc_heart s) then call_stop s else None)"
| "dash_step s (DaHeart l) =
    (if l \<in> {BTick, BWrite True, BWrite False, BGone, BStop}
     then map_option (\<lambda>h. s\<lparr>dc_heart := h\<rparr>) (ws_beat_step (dc_heart s) l) else None)"
| "dash_step s DaStopped =
    (if dc_writer s = WrStop
     then map_option (\<lambda>h. s\<lparr>dc_heart := h, dc_writer := WrClose\<rparr>) (ws_beat_step (dc_heart s) (CReturn 0)) else None)"
| "dash_step s DaClose =
    (if dc_writer s = WrClose
     then Some (s\<lparr>dc_heart := (dc_heart s)\<lparr>gone := True\<rparr>, dc_open := False, dc_writer := WrEnd\<rparr>) else None)"
| "dash_step s DaCommand =
    (if dc_reading s \<and> dc_open s then Some (s\<lparr>dc_commands := dc_commands s + 1\<rparr>) else None)"
| "dash_step s DaBadCommand = (if dc_reading s then Some (s\<lparr>dc_reading := False\<rparr>) else None)"
| "dash_step s DaReadFails =
    (if dc_reading s then Some (s\<lparr>dc_heart := (dc_heart s)\<lparr>gone := True\<rparr>, dc_reading := False\<rparr>) else None)"

fun dash_run :: "dash_conn \<Rightarrow> dash_label list \<Rightarrow> dash_conn option" where
  "dash_run s [] = Some s"
| "dash_run s (l # ls) = (case dash_step s l of None \<Rightarrow> None | Some s' \<Rightarrow> dash_run s' ls)"

lemma dash_run_append: "dash_run s (xs @ ys) = (case dash_run s xs of None \<Rightarrow> None | Some s' \<Rightarrow> dash_run s' ys)"
  by (induction xs arbitrary: s) (auto split: option.split)

subsection \<open>Invariant\<close>

definition dash_inv :: "dash_conn \<Rightarrow> bool" where
  "dash_inv s \<longleftrightarrow> heart_inv (dc_heart s) \<and>
    callers (dc_heart s) 0 = (case dc_writer s of WrSnap \<Rightarrow> CIdle | WrIdle \<Rightarrow> CIdle | WrStop \<Rightarrow> CWaiting | _ \<Rightarrow> CReturned) \<and>
    (dc_open s \<longleftrightarrow> dc_writer s \<noteq> WrEnd)"

lemma heart_inv_gone: "heart_inv h \<Longrightarrow> heart_inv (h\<lparr>gone := True\<rparr>)"
  by (auto simp: heart_inv_def)

lemma beat_callers: "beat_step True h l = Some h' \<Longrightarrow> l \<in> {BTick, BWrite True, BWrite False, BGone, BStop} \<Longrightarrow> callers h' = callers h"
  by (auto split: if_splits)

lemma call_stop_inv: "dash_inv s \<Longrightarrow> dc_writer s = WrSnap \<or> dc_writer s = WrIdle \<Longrightarrow> call_stop s = Some s' \<Longrightarrow> dash_inv s'"
  using heart_inv_step [of "dc_heart s" True "CCall 0"]
  by (auto simp: dash_inv_def call_stop_def ws_beat_step_def split: if_splits)

lemma dash_inv_step: "dash_inv s \<Longrightarrow> dash_step s l = Some s' \<Longrightarrow> dash_inv s'"
proof (cases l)
  case (DaSnap ok)
  assume I: "dash_inv s" and st: "dash_step s l = Some s'"
  then show ?thesis using DaSnap call_stop_inv [OF I] by (auto simp: dash_inv_def split: if_splits)
next
  case DaSeen
  assume I: "dash_inv s" and st: "dash_step s l = Some s'"
  then show ?thesis using DaSeen call_stop_inv [OF I] by (auto split: if_splits)
next
  case (DaHeart b)
  assume I: "dash_inv s" and st: "dash_step s l = Some s'"
  then obtain h where h: "beat_step True (dc_heart s) b = Some h" "b \<in> {BTick, BWrite True, BWrite False, BGone, BStop}"
    "s' = s\<lparr>dc_heart := h\<rparr>"
    using DaHeart by (auto simp: ws_beat_step_def split: if_splits)
  then show ?thesis using I heart_inv_step [OF _ h(1)] beat_callers [OF h(1,2)] by (simp add: dash_inv_def)
next
  case DaStopped
  assume I: "dash_inv s" and st: "dash_step s l = Some s'"
  then obtain h where h: "beat_step True (dc_heart s) (CReturn 0) = Some h" "dc_writer s = WrStop"
    "s' = s\<lparr>dc_heart := h, dc_writer := WrClose\<rparr>"
    using DaStopped by (auto simp: ws_beat_step_def split: if_splits)
  moreover have "callers h 0 = CReturned" using h(1) by (auto split: if_splits)
  ultimately show ?thesis using I heart_inv_step [OF _ h(1)] by (simp add: dash_inv_def)
qed (auto simp: dash_inv_def heart_inv_gone split: if_splits)

lemma dash_inv_run: "dash_inv s \<Longrightarrow> dash_run s ls = Some s' \<Longrightarrow> dash_inv s'"
  by (induction ls arbitrary: s) (auto split: option.splits dest: dash_inv_step)

lemma dash_inv_new: "dash_inv new_dash"
  by (simp add: dash_inv_def new_dash_def heart_inv_new) (simp add: new_heart_def)

subsection \<open>The end of a connection\<close>

lemma dash_ended_step:
  assumes "dash_inv s" "dc_writer s = WrEnd" "dash_step s l = Some s'"
  shows "dc_writer s' = WrEnd \<and> beats (dc_heart s') = beats (dc_heart s) \<and> dc_sent s' = dc_sent s \<and> dc_commands s' = dc_commands s"
proof -
  have "beat (dc_heart s) = BEnded" using assms(1,2) unfolding dash_inv_def heart_inv_def by force
  then show ?thesis using assms by (cases l) (auto simp: dash_inv_def ws_beat_step_def split: if_splits)
qed

lemma dash_ended_run:
  "dash_inv s \<Longrightarrow> dc_writer s = WrEnd \<Longrightarrow> dash_run s ls = Some s' \<Longrightarrow>
    beats (dc_heart s') = beats (dc_heart s) \<and> dc_sent s' = dc_sent s \<and> dc_commands s' = dc_commands s"
proof (induction ls arbitrary: s)
  case (Cons l ls)
  then obtain s1 where s1: "dash_step s l = Some s1" "dash_run s1 ls = Some s'" by (auto split: option.splits)
  then show ?case
    using Cons.IH [OF dash_inv_step [OF Cons.prems(1) s1(1)] _ s1(2)] dash_ended_step [OF Cons.prems(1,2) s1(1)] by simp
qed simp

text \<open>All three goroutines are done and the connection is closed.\<close>

definition dash_over :: "dash_conn \<Rightarrow> bool" where
  "dash_over s \<longleftrightarrow> dc_writer s = WrEnd \<and> \<not> dc_open s \<and> \<not> dc_reading s \<and> beat (dc_heart s) = BEnded"

lemma dash_over_stop:
  assumes I: "dash_inv s" and w: "dc_writer s = WrStop"
  shows "\<exists>ls s'. length ls \<le> 5 \<and> dash_run s ls = Some s' \<and> dash_over s' \<and> DaSnap False \<notin> set ls \<and> DaHeart (BWrite False) \<notin> set ls"
proof -
  have c: "callers (dc_heart s) 0 = CWaiting" and H: "heart_inv (dc_heart s)" using I w by (simp_all add: dash_inv_def)
  have st: "stop_closed (dc_heart s)" using H c unfolding heart_inv_def by (metis caller.distinct(1))
  let ?read = "if dc_reading s then [DaReadFails] else []"
  show ?thesis
  proof (cases "beat (dc_heart s)")
    case BWaiting
    then show ?thesis using c st w
      by (intro exI [of _ "[DaHeart BStop, DaStopped, DaClose] @ ?read"]) (simp add: ws_beat_step_def dash_over_def)
  next
    case BWriting
    then show ?thesis using c st w
      by (intro exI [of _ "[DaHeart (BWrite True), DaHeart BStop, DaStopped, DaClose] @ ?read"]) (simp add: ws_beat_step_def dash_over_def)
  next
    case BEnded
    moreover have "done_closed (dc_heart s)" using H BEnded by (simp add: heart_inv_def)
    ultimately show ?thesis using c w
      by (intro exI [of _ "[DaStopped, DaClose] @ ?read"]) (simp add: ws_beat_step_def dash_over_def)
  qed
qed

lemma call_stop_some:
  assumes "dash_inv s" "dc_writer s = WrSnap \<or> dc_writer s = WrIdle"
  shows "\<exists>s'. call_stop s = Some s' \<and> dash_inv s' \<and> dc_writer s' = WrStop"
proof -
  obtain s' where s': "call_stop s = Some s'" "dc_writer s' = WrStop"
    using assms by (auto simp: dash_inv_def call_stop_def ws_beat_step_def)
  then show ?thesis using call_stop_inv [OF assms s'(1)] by blast
qed

lemma dash_ends:
  assumes I: "dash_inv s" and g: "gone (dc_heart s)"
  shows "\<exists>ls s'. length ls \<le> 7 \<and> dash_run s ls = Some s' \<and> dash_over s' \<and> DaSnap False \<notin> set ls \<and> DaHeart (BWrite False) \<notin> set ls"
proof -
  have idle: "\<exists>ls s'. length ls \<le> 6 \<and> dash_run s ls = Some s' \<and> dash_over s' \<and> DaSnap False \<notin> set ls \<and> DaHeart (BWrite False) \<notin> set ls"
    if J: "dash_inv s" "dc_writer s = WrIdle" "gone (dc_heart s)" for s
  proof -
    obtain s1 where s1: "call_stop s = Some s1" "dash_inv s1" "dc_writer s1 = WrStop" using call_stop_some J by blast
    from dash_over_stop [OF s1(2,3)] obtain ls s' where "length ls \<le> 5" "dash_run s1 ls = Some s'" "dash_over s'"
      "DaSnap False \<notin> set ls" "DaHeart (BWrite False) \<notin> set ls" by blast
    then show ?thesis using s1(1) J by (intro exI [of _ "DaSeen # ls"]) simp
  qed
  let ?read = "if dc_reading s then [DaReadFails] else []"
  show ?thesis
  proof (cases "dc_writer s")
    case WrSnap
    then have st: "dash_step s (DaSnap True) = Some (s\<lparr>dc_sent := dc_sent s + 1, dc_writer := WrIdle\<rparr>)" by simp
    from idle [OF dash_inv_step [OF I st]] g obtain ls s' where "length ls \<le> 6"
      "dash_run (s\<lparr>dc_sent := dc_sent s + 1, dc_writer := WrIdle\<rparr>) ls = Some s'" "dash_over s'"
      "DaSnap False \<notin> set ls" "DaHeart (BWrite False) \<notin> set ls" by auto
    then show ?thesis using st by (intro exI [of _ "DaSnap True # ls"]) simp
  next
    case WrIdle
    from idle [OF I this g] show ?thesis using le_trans [of _ 6 7] by fastforce
  next
    case WrStop
    from dash_over_stop [OF I this] show ?thesis using le_trans [of _ 5 7] by fastforce
  next
    case WrClose
    then have "beat (dc_heart s) = BEnded" using I unfolding dash_inv_def heart_inv_def by force
    then show ?thesis using WrClose by (intro exI [of _ "DaClose # ?read"]) (simp add: dash_over_def)
  next
    case WrEnd
    then have "beat (dc_heart s) = BEnded" "\<not> dc_open s" using I unfolding dash_inv_def heart_inv_def by force+
    then show ?thesis using WrEnd by (intro exI [of _ ?read]) (simp add: dash_over_def)
  qed
qed

lemma dashboard_rule:
  assumes "dash_run new_dash ls = Some s"
  shows "(dc_writer s = WrEnd \<longrightarrow> \<not> dc_open s \<and> beat (dc_heart s) = BEnded \<and>
      (dash_run s ls' = Some s' \<longrightarrow> beats (dc_heart s') = beats (dc_heart s) \<and> dc_sent s' = dc_sent s \<and> dc_commands s' = dc_commands s)) \<and>
    (gone (dc_heart s) \<longrightarrow> (\<exists>ls s'. length ls \<le> 7 \<and> dash_run s ls = Some s' \<and> dash_over s' \<and>
      DaSnap False \<notin> set ls \<and> DaHeart (BWrite False) \<notin> set ls)) \<and>
    (dc_writer s = WrSnap \<longrightarrow> (\<exists>ls s'. length ls \<le> 6 \<and> dash_run s (DaSnap False # ls) = Some s' \<and> dash_over s'))"
proof -
  have I: "dash_inv s" by (rule dash_inv_run [OF dash_inv_new assms])
  have "beat (dc_heart s) = BEnded \<and> \<not> dc_open s" if "dc_writer s = WrEnd"
    using I that unfolding dash_inv_def heart_inv_def by force
  moreover have "\<exists>ls s'. length ls \<le> 6 \<and> dash_run s (DaSnap False # ls) = Some s' \<and> dash_over s'" if w: "dc_writer s = WrSnap"
  proof -
    obtain s1 where s1: "call_stop s = Some s1" "dash_inv s1" "dc_writer s1 = WrStop" using call_stop_some [OF I] w by blast
    from dash_over_stop [OF s1(2,3)] obtain ls s' where "length ls \<le> 5" "dash_run s1 ls = Some s'" "dash_over s'" by blast
    then show ?thesis using s1(1) w by (intro exI [of _ ls]) simp
  qed
  ultimately show ?thesis using dash_ended_run [OF I] dash_ends [OF I] by blast
qed

text \<open>After one message that is not JSON no command is read any more, while snapshots go on.\<close>

lemma bad_command_ends_reading:
  assumes "dash_step s DaBadCommand = Some s'"
  shows "dash_step s' DaCommand = None \<and> gone (dc_heart s') = gone (dc_heart s) \<and> dc_writer s' = dc_writer s"
  using assms by (auto split: if_splits)

end
