(* ===== verification/Report_Properties.thy ===== *)
theory Report_Properties
  imports Cache_Properties Cache_Report Cache_Dashboard
begin

text \<open>The properties of what a \<open>swifty_cache\<close> node reports, and of the commands of its dashboard.\<close>

lemma group_entries_ok:
  assumes W: "group_wf (store_inv bv_len) good_options g" and nn: "\<And>k x. group_contents store_view g k \<noteq> Some (None, x)"
  shows "\<exists>es. Group_Entries g = Some es \<and> distinct (map eKey es) \<and>
    (\<forall>k n x. (\<exists>l. \<lparr>eKey = k, eSize = n, eExpireAt = x, eLevel = l\<rparr> \<in> set es) \<longleftrightarrow>
      (\<exists>v. group_contents store_view g k = Some (Some v, x) \<and> n = bv_len v))"
proof (cases "cstore (mainCache g)")
  case None
  then show ?thesis by (auto simp: Group_Entries_def Cache_Entries_def group_contents_def cache_contents_def)
next
  case (Some s)
  then have f: "\<not> gclosed g" "\<not> closed (mainCache g)" "initialized (mainCache g)" "store_inv bv_len s"
    using W by (auto simp: group_wf_def cache_wf_def)
  have c: "group_contents store_view g = store_view s" using Some f by (simp add: group_contents_def cache_contents_def)
  show ?thesis using store_entries [OF f(4)] nn f(1,2,3) Some unfolding c by (simp add: Group_Entries_def Cache_Entries_def)
qed

text \<open>C33. The entries that a group reports are exactly its contents, each key once, with the size of its value and its
  expiry time; entries that have expired but were not removed yet are among them.\<close>

theorem entries_exact:
  assumes "group_wf (store_inv bv_len) good_options g" "\<And>k x. group_contents store_view g k \<noteq> Some (None, x)"
  shows "\<exists>es. Group_Entries g = Some es \<and> distinct (map eKey es) \<and>
    (\<forall>k n x. (\<exists>l. \<lparr>eKey = k, eSize = n, eExpireAt = x, eLevel = l\<rparr> \<in> set es) \<longleftrightarrow>
      (\<exists>v. group_contents store_view g k = Some (Some v, x) \<and> n = bv_len v))"
  using assms by (rule group_entries_ok)

text \<open>A command of the dashboard never panics and does nothing but delete the named key of the named group, and only
  when the dashboard is enabled for that group: no other group, no other key and no registration changes.\<close>

theorem dashboard_command_safe:
  assumes "reg_inv (greg D)" "\<And>g. g \<in> set (objs (greg D)) \<Longrightarrow> group_wf (store_inv bv_len) good_options g"
  shows "\<exists>D' msgs. handleCommand ev cmd D = Some (D', msgs) \<and> groups (greg D') = groups (greg D) \<and>
    dashAddr D' = dashAddr D \<and> dashboard D' = dashboard D \<and> length (objs (greg D')) = length (objs (greg D)) \<and>
    (\<forall>q < length (objs (greg D)). objs (greg D') ! q = objs (greg D) ! q \<or>
      (groups (greg D) (cmdGroup cmd) = Some q \<and> DashboardEnabled D q \<and> cmdAction cmd = ''delete'' \<and> cmdKey cmd \<noteq> [] \<and>
       same_but_cache (objs (greg D) ! q) (objs (greg D') ! q) \<and>
       group_contents store_view (objs (greg D') ! q) = (group_contents store_view (objs (greg D) ! q))(cmdKey cmd := None)))"
proof (cases "\<exists>p. groups (greg D) (cmdGroup cmd) = Some p \<and> DashboardEnabled D p \<and> cmdAction cmd = ''delete''")
  case True
  then obtain p where p: "groups (greg D) (cmdGroup cmd) = Some p" "DashboardEnabled D p" "cmdAction cmd = ''delete''" by blast
  have len: "p < length (objs (greg D))" using reg_entry [OF assms(1) p(1)] by simp
  let ?g = "objs (greg D) ! p" and ?ev = "ev\<lparr>isPeerRequest := False\<rparr>"
  obtain g' err msgs where d: "Group_Delete lru_methods ?ev ?g (cmdKey cmd) = Some (g', err, msgs)"
    "err = (if gclosed ?g then Some ErrGroupClosed else if cmdKey cmd = [] then Some ErrKeyRequired else None)"
    "group_contents store_view g' = (if err = None then (group_contents store_view ?g)(cmdKey cmd := None) else group_contents store_view ?g)"
    using lru.group_delete_ok [OF assms(2) [of ?g], of ?ev "cmdKey cmd"] len by auto
  have s: "g' = ?g \<or> (err = None \<and> cmdKey cmd \<noteq> [] \<and> same_but_cache ?g g')"
    using d(1,2) by (auto simp: Group_Delete_def same_but_cache_def Let_def split: if_splits Option.bind_splits)
  have "handleCommand ev cmd D = Some (D\<lparr>greg := (greg D)\<lparr>objs := (objs (greg D))[p := g']\<rparr>\<rparr>, msgs)"
    using p d(1) by (simp add: handleCommand_def GetGroup_def Let_def)
  then show ?thesis using p s d(3) len by (auto simp: nth_list_update)
next
  case False
  then have "handleCommand ev cmd D = Some (D, [])" by (auto simp: handleCommand_def GetGroup_def split: option.split)
  then show ?thesis by simp
qed

definition demo_node :: node_groups where
  "demo_node = \<lparr>greg = \<lparr>groups = [''g'' \<mapsto> 0], objs = [demo_group]\<rparr>, dashAddr = (\<lambda>_. '':9''), dashboard = Some '':9''\<rparr>"

theorem dashboard_command_safe_witness:
  "\<exists>D' msgs. handleCommand (demo_env False) \<lparr>cmdAction = ''delete'', cmdGroup = ''g'', cmdKey = ''k''\<rparr> demo_node = Some (D', msgs) \<and>
    dashboard D' = Some '':9'' \<and> length (objs (greg D')) = 1"
proof -
  have "reg_inv (greg demo_node)" by (simp add: reg_inv_def demo_node_def demo_group_def NewGroup_def)
  moreover have "group_wf (store_inv bv_len) good_options g" if "g \<in> set (objs (greg demo_node))" for g
    using that demo_group_wf(1) by (simp add: demo_node_def)
  ultimately show ?thesis
    using dashboard_command_safe [of demo_node "demo_env False" "\<lparr>cmdAction = ''delete'', cmdGroup = ''g'', cmdKey = ''k''\<rparr>"]
    by (auto simp: demo_node_def)
qed

text \<open>A group whose cache holds one entry.\<close>

theorem entries_exact_witness:
  "\<exists>g es. Group_Set lru_methods (demo_env True) demo_group ''k'' [3] = Some (g, None, []) \<and> Group_Entries g = Some es \<and> distinct (map eKey es)"
proof -
  obtain g where g: "Group_Set lru_methods (demo_env True) demo_group ''k'' [3] = Some (g, None, [])"
    "group_wf (store_inv bv_len) good_options g"
    "\<forall>k r. group_contents store_view g k = Some r \<longrightarrow> group_contents store_view demo_group k = Some r \<or> (k = ''k'' \<and> r = (Some [3], value_expiry (demo_env True) demo_group))"
    using lru.group_set_ok [OF demo_group_wf, of True "''k''" "[3]"]
    by (auto simp: demo_group_def NewGroup_def sync_unless_forwarded_def demo_env_def)
  have "group_contents store_view demo_group = Map.empty"
    by (simp add: group_contents_def cache_contents_def demo_group_def NewGroup_def NewCache_def)
  then have "group_contents store_view g k \<noteq> Some (None, x)" for k x using g(3) by fastforce
  from entries_exact [OF g(2) this] g(1) show ?thesis by blast
qed




end
