(* ===== verification/Spec2Isabelle.thy ===== *)
theory Spec2Isabelle
  imports Cache_Properties Cluster_Properties Rpc_Properties Call_Properties Http_Properties
    WebSocket_Properties Orm_Properties Conn_Properties Server_Properties
    Node_Properties Discovery_Properties Report_Properties
begin

text \<open>
  A verification development for the four Go modules of the workspace: \<open>swifty_cache\<close> (a distributed
  cache), \<open>swifty_rpc\<close> (an RPC framework), \<open>swifty_http\<close> (a web framework) and \<open>swifty_orm\<close> (a query
  builder for MongoDB).

  \<^bold>\<open>Conventions.\<close> A Go operation is a HOL function on an explicit state, usually a record with the fields
  of the struct. A panic (index out of range, failed type assertion, nil dereference) is \<open>None\<close>; an error
  value is the left side of a sum or an optional error. \<open>uint16\<close>, \<open>uint32\<close> and \<open>byte\<close> are words or
  naturals with the wrap-around written out; \<open>int64\<close> wraps by \<open>wrap64\<close> where the code can overflow. Go
  maps are association lists with distinct keys, or functions to \<open>option\<close> when only looked up. What is not
  under the repository (etcd, gRPC, MongoDB, \<open>encoding/json\<close>, gzip, the clock, the random source, user
  handlers) is a parameter of the definitions that use it. \<open>Prelude\<close> holds the shared primitives,
  \<open>Go_Strings\<close> the string functions, \<open>Big_Endian\<close> the byte order.

  \<^bold>\<open>swifty_cache.\<close>
  \<^item> \<open>Lru_Links\<close>, \<open>Lru_Cache\<close> (lru.go, type cache): the doubly linked slot array and the operations put,
    get, del, walk, evictOldest on it. \<open>Lru_Refine\<close> proves that they never panic and refine a list in order
    of use.
  \<^item> \<open>Lru_Store\<close> (lru.go, type lruStore; store.go): buckets of two levels, byte budget, expiry, cleanup.
    \<open>Lru_Buckets\<close> and \<open>Lru_Store_Correct\<close> lift the facts to one bucket and to the store as a map with expiry.
  \<^item> \<open>Cache_Wrapper\<close> (cache.go): the wrapper, over the locale \<open>kv_store\<close> of the interface \<open>Store\<close>, which is
    interpreted on the LRU store. \<open>Cache_Group\<close>, \<open>Cache_Group_Correct\<close> (group.go, server.go): groups, loading
    through single flight and peers, the registry of groups.
  \<^item> \<open>Single_Flight\<close> (single_flight.go): a step relation for any number of goroutines.
  \<^item> \<open>Consistent_Hash\<close> (consistent_hash.go) and \<open>Peers\<close> (peers.go, utils.go): the ring and the peer table that
    follows the registry.
  \<^item> \<open>Cache_Discovery\<close> (register.go, peers.go): the lease of a node and its renewal, and the goroutine that watches
    etcd, against the history of the registry. \<open>Cache_Server\<close> (server.go): options, start and stop.
    \<open>Cache_Defaults\<close> (config.go, consistent_hash.go, client.go): the configuration of the ring with CRC-32, its
    statistics, the options of a picker, the client of a peer.
  \<^item> \<open>Cache_Cluster\<close>, \<open>Cache_Cluster_Correct\<close> (client.go with group.go, server.go and peers.go): several nodes that read
    through each other, with messages under way. \<open>Cache_Report\<close> (cache.go, group.go, dashboard.go): statistics,
    entries, options of a group, snapshots and commands of the dashboard. \<open>Cache_Dashboard\<close> (dashboard.go): the
    goroutines of one of its connections.
  \<^item> \<open>Cache_Clock\<close> (lru.go): the goroutine that keeps the cached clock, against real time. \<open>Cache_Alias\<close> (byte_view.go,
    group.go): which slices of bytes the cache shares with its users, on an explicit heap.
  \<^item> \<open>Cache_Properties\<close>, \<open>Cluster_Properties\<close>, \<open>Discovery_Properties\<close>, \<open>Node_Properties\<close>, \<open>Report_Properties\<close>: the
    properties.

  \<^bold>\<open>swifty_rpc.\<close>
  \<^item> \<open>Rpc_Message\<close> (internal/protocol, internal/codec, tcp_connection.go): the wire format and the reassembly of
    frames. \<open>Rpc_Control\<close>, \<open>Rpc_Weighted\<close>: circuit breaker, token bucket, load balancers.
  \<^item> \<open>Rpc_Balance\<close>: the interface \<open>LoadBalancer\<close> as a locale, interpreted on the three balancers.
  \<^item> \<open>Rpc_Transport\<close> (internal/transport): futures, streams, the pool, and the multiplexing client as a step
    relation with senders, a reader and shutdown. \<open>Rpc_Client\<close> (internal/client, internal/registry) and
    \<open>Rpc_Server\<close> (internal/server): one call from address resolution to the outcome, and one connection of the
    server. \<open>Rpc_Mux\<close> (tcp_client.go): what the read loop does with each message, and client and server over
    one wire. \<open>Rpc_Properties\<close>, \<open>Call_Properties\<close>: the properties.

  \<^item> \<open>Rpc_Conn\<close> (tcp_connection_pool.go, pkg/rpc/client.go): a store of connections, the pool, and calls and streams on
    a fixed address. \<open>Rpc_Dial\<close> (internal/client, pkg/rpc/client.go): the client with a registry on these
    connections, which refines the abstract call of \<open>Rpc_Client\<close>; options and \<open>Dial\<close>. \<open>Conn_Properties\<close>: the
    properties; the last section of this theory joins client and server.

  \<^item> \<open>Rpc_Lifecycle\<close> (internal/server/server.go): \<open>Serve\<close>, \<open>Stop\<close> and \<open>GracefulStop\<close> as a step relation of the
    accept loop, the handlers and any number of shutdowns. \<open>Rpc_Registry\<close> (internal/registry): registration under
    a lease and the watch loop of a client, over the calls of etcd of \<open>Etcd_Client\<close>, which \<open>swifty_cache\<close> shares.
    \<open>Rpc_Codec\<close> (internal/codec, options.go, pkg/rpc/server.go): the registries of codecs and compressors, and the
    construction of a server with its codec. \<open>Server_Properties\<close>: the properties.
  \<^item> \<open>Rpc_Write\<close> (tcp_connection.go) and \<open>Rpc_Future\<close> (future.go): writers of one connection, and completions,
    callbacks and waits of one future, as step relations over any number of goroutines.

  \<^bold>\<open>swifty_http.\<close>
  \<^item> \<open>Http_Router\<close>, \<open>Http_Router_Correct\<close> (trie.go, router.go): the trie as a map from patterns to handlers.
  \<^item> \<open>Http_Context\<close> (context.go, response.go): the deferred response. \<open>Http_App\<close>, \<open>Http_App_Correct\<close> (swifty.go,
    group.go, recovery.go, logger.go): middlewares as trees of actions with calls of next, groups, ServeHTTP.
    \<open>Http_Static\<close> (group.go): static files and the setting up of an application; \<open>Go_Path\<close>: the path package.
  \<^item> \<open>Http_Sse\<close> (sse.go): event streams with a parser as the reference.
  \<^item> \<open>Http_WebSocket\<close>, \<open>Http_WebSocket_Conn\<close> (websocket.go): frames, reassembly with a client encoder as the
    reference, the upgrade and the read loops. \<open>Http_WebSocket_Key\<close>: the key of the answer with SHA-1 and base 64
    written out, the messages in JSON.
  \<^item> \<open>Http_Heartbeat\<close> (websocket.go, sse.go): the heartbeat goroutines and the function that stops them.
  \<^item> \<open>Http_Properties\<close>, \<open>WebSocket_Properties\<close>: the properties.

  \<^bold>\<open>swifty_orm.\<close>
  \<^item> \<open>Orm_Filter\<close>, \<open>Orm_Filter_Correct\<close> (filter.go): conditions and the filter documents merged from them.
    MongoDB's reading of a filter enters as \<open>filter_laws\<close>; an evaluator in \<open>Orm_Properties\<close> satisfies it.
    \<open>Orm_Like\<close>: LIKE patterns against regular expressions.
  \<^item> \<open>Orm_Query\<close>, \<open>Orm_Query_Correct\<close> (query.go): every builder method, chains of calls, the first error.
    \<open>Orm_Group\<close> (query_group.go): the grouped aggregation.
  \<^item> \<open>Orm_Exec\<close>, \<open>Orm_Engine\<close> (query_exec.go, query_aggregate.go, query_stream.go, engine.go, naming.go, log.go):
    the executing methods over the driver as a record of functions. \<open>Orm_Admin\<close> (engine.go, query_stream.go,
    log.go): the methods of an engine that may be nil, those that read a cursor, the log levels in their order.

  \<^bold>\<open>What the lemmas show.\<close> Data structures: an invariant, that every operation keeps it, and a functional
  refinement of a simple model (lists, maps, rings of intervals). Protocols: reachable states of a step
  relation and invariants by rule induction. Codecs: round trips, also under arbitrary chunking. Control
  flow: what each branch returns, in the order in which the code checks.

  \<^bold>\<open>Fuel and termination.\<close> Loops over linked slots take as fuel the number of links, which is enough because a
  ring visits each slot once (\<open>evict_loop\<close>, \<open>walk_loop\<close>); the loop that makes room for a write takes the
  number of slots of both levels plus two, as every round evicts one entry (\<open>budget_loop\<close>); \<open>trim_slashes\<close>
  takes the length of the path. Each is proved to return. The read loops of web sockets terminate because every
  frame takes bytes off the input; the loops over database cursors are partial functions, since a cursor may
  never end, with termination under a measure (\<open>each_loop_terminates\<close>).

  \<^bold>\<open>Not modelled.\<close> Opening sockets, TLS, gRPC and etcd themselves (the calls made on them are), the encodings of
  \<open>encoding/json\<close> and protobuf, generated protobuf code, example programs, the file server of
  \<open>net/http\<close>, and methods that only pass on a call of a library. Strings are bytes; functions on letters and white
  space know ASCII only. Floating point quotients in statistics are pairs of their operands or exact fractions. Locks are represented by the atomicity of the operations they protect, and by separate steps
  where the code releases them in between.
\<close>

subsection \<open>Client and server\<close>

text \<open>A service with one method that answers 42, and a codec for its answers.\<close>

definition echo_method :: smethod where
  "echo_method = \<lparr>numIn = 2, numOut = 2, in0_context = True, in0_ptr = False, in1_ptr = True, in1_stream = False,
     out0_ptr = True, out0_error = False, out1_error = True, rpc_unary = (\<lambda>_. Inr (RValue [42])),
     rpc_stream = (\<lambda>_. Inr ([], RNil))\<rparr>"

definition echo_service :: service where
  "echo_service n = (if n = ''Echo'' then Some echo_method else None)"

abbreviation echo_request :: "string \<Rightarrow> Message" where
  "echo_request meth \<equiv> request 0 ''S'' meth [] 1"


definition echo_frames :: "(Message \<times> bytes \<times> bytes) list" where
  "echo_frames = [(\<lparr>header = reply_header 1 StreamNone [], body = [42]\<rparr>, [1], [42])]"


lemma echo_process:
  "Process (\<lambda>_. True) Inr (Some echo_service) (echo_request ''Echo'') = map fst echo_frames"
  "started_stream (\<lambda>_. True) (Some echo_service) (echo_request meth) = None"
  by (simp_all add: Process_def started_stream_def invoke_def echo_service_def echo_method_def request_def
      echo_frames_def safeCall_error_def reply_header_def Let_def)




text \<open>When the server refuses a stream request (no such service or method, an unknown codec, a body that does not decode,
  a method that does not stream), its answer carries no stream flag: the client does not find it among its
  pending calls, drops it, and a receiver of the stream waits as long as its context lives.\<close>

theorem refused_stream_hangs:
  assumes "started_stream kc svc msg = None" "RequestID (header msg) \<in> mstreams m" "mux_inv m"
    "mstr m (RequestID (header msg)) = Some NewClientStreamConn"
  shows "\<exists>m' s. readLoop (Process kc mv svc msg) m = Some m' \<and> RequestID (header msg) \<in> mstreams m' \<and>
    mstr m' (RequestID (header msg)) = Some s \<and> stream_Recv s ctx_first = None"
proof -
  obtain e b where p: "Process kc mv svc msg = [\<lparr>header = reply_header (RequestID (header msg)) StreamNone e, body = b\<rparr>]"
    using Process_single [OF assms(1)] by blast
  have "RequestID (header msg) \<notin> mpending m" using assms(2,3) by (auto simp: mux_inv_def)
  then have "readLoop (Process kc mv svc msg) m = Some m" using p by (rule stream_ignores_reply)
  then show ?thesis using assms(2,4) by (simp add: stream_Recv_def NewClientStreamConn_def)
qed

theorem refused_stream_hangs_witness:
  "\<exists>m' s. readLoop (Process (\<lambda>_. True) Inr (Some echo_service) (echo_request ''None''))
      (fst (mux_SendStream None newMux)) = Some m' \<and> 1 \<in> mstreams m' \<and> mstr m' 1 = Some s \<and> stream_Recv s False = None"
proof -
  have i: "RequestID (header (echo_request ''None'')) = 1" by (simp add: request_def)
  have m: "mux_inv (fst (mux_SendStream None newMux))" "1 \<in> mstreams (fst (mux_SendStream None newMux))"
    "mstr (fst (mux_SendStream None newMux)) 1 = Some NewClientStreamConn"
    by (simp_all add: mux_SendStream_def newMux_def mux_inv_def NewClientStreamConn_def Let_def)
  show ?thesis
    using refused_stream_hangs [OF echo_process(2) _ m(1), of "''None''" Inr False, unfolded i, OF m(2,3)] .
qed

end
